(* ===== verification/Prelude.thy ===== *)
theory Prelude
  imports Main "HOL-Library.Word" "HOL-Library.Monad_Syntax"
begin

text \<open>
  The shared base of the development.  It names the machine types of the 32-bit target
  (\<open>uint8_t\<close>, \<open>uint16_t\<close>, \<open>uint32_t\<close>), declares the collections of facts
  the component theories extend, and proves the generic facts on words, lists and arrays they share.

  Conventions used in every theory.  A C \<open>unsigned\<close> type is a word of its width, with
  wrap-around.  A C \<open>int\<close> is a HOL \<open>int\<close>: signed overflow is undefined in C, so
  the model agrees with the code on every execution that C defines; where the code runs into an
  overflow on purpose or by accident, \<open>wrap32\<close> gives the value the compiled code computes.  An array is a list with its
  length fixed by an invariant; a read or a write outside it is an explicit \<^const>\<open>None\<close>.
\<close>

unbundle bit_operations_syntax

type_synonym u8 = "8 word"
type_synonym u16 = "16 word"
type_synonym u32 = "32 word"

named_theorems word_norm \<open>rewrites from word operations to arithmetic on nat\<close>
named_theorems frame \<open>what an operation leaves unchanged\<close>

subsection \<open>Words\<close>

lemma unat_of_nat_u32 [word_norm]: "n < 4294967296 \<Longrightarrow> unat (of_nat n :: u32) = n"
  by (simp add: unat_of_nat take_bit_nat_eq_self)

lemma unat_lt_u32: "unat (x :: u32) < 4294967296"
  using unsigned_less [of x] by simp

lemma unat_lt_u16: "unat (x :: u16) < 65536"
  using unsigned_less [of x] by simp

lemma unat_lt_u8: "unat (x :: u8) < 256"
  using unsigned_less [of x] by simp

lemma unat_add_u32 [word_norm]:
  "unat (x :: u32) + unat y < 4294967296 \<Longrightarrow> unat (x + y) = unat x + unat y"
  by (simp add: unat_word_ariths)

lemma unat_sub_u32 [word_norm]:
  "unat (y :: u32) \<le> unat x \<Longrightarrow> unat (x - y) = unat x - unat y"
  by (metis unat_sub word_le_nat_alt)

lemma of_nat_eq_u32:
  "m < 4294967296 \<Longrightarrow> n < 4294967296 \<Longrightarrow> (of_nat m :: u32) = of_nat n \<longleftrightarrow> m = n"
  by (metis unat_of_nat_u32)

lemma of_nat_neq_0_u32: "0 < n \<Longrightarrow> n < 4294967296 \<Longrightarrow> (of_nat n :: u32) \<noteq> 0"
  using of_nat_eq_u32 [of n 0] by simp

text \<open>Masks of low bits keep a number of low bits.\<close>

lemma and_low_masks [word_norm]:
  "(x :: 'a::len word) AND 0xFFFF = take_bit 16 x" "x AND 0xFF = take_bit 8 x" "x AND 0x0F = take_bit 4 x"
  by (simp_all add: take_bit_eq_mask mask_eq_exp_minus_1)

text \<open>Clearing the low bits by a mask is rounding down to a multiple of a power of two.\<close>

lemma and_not_mask_eq: "(x :: 'a::len word) AND NOT (mask k) = push_bit k (drop_bit k x)"
  by (rule bit_eqI) (auto simp: bit_simps)

lemma unat_and_not_mask: "unat ((x :: u32) AND NOT (mask k)) = unat x div 2 ^ k * 2 ^ k"
proof -
  have "unat x div 2 ^ k * 2 ^ k < 2 ^ 32"
    using unat_lt_u32 [of x] by (simp add: order.strict_trans1 [OF div_times_less_eq_dividend])
  then show ?thesis
    by (simp add: and_not_mask_eq unsigned_push_bit_eq unsigned_drop_bit_eq)
      (simp add: push_bit_eq_mult drop_bit_eq_div take_bit_nat_eq_self unat_lt_u32)
qed

lemma unat_and_not_7: "unat ((x :: u32) AND - 8) = unat x div 8 * 8"
  using unat_and_not_mask [of x 3] by (simp add: mask_eq_exp_minus_1)

lemma unat_and_not_3: "unat ((x :: u32) AND - 4) = unat x div 4 * 4"
  using unat_and_not_mask [of x 2] by (simp add: mask_eq_exp_minus_1)

subsection \<open>Arrays\<close>

text \<open>Checked array access.\<close>

definition get_at :: "'a list \<Rightarrow> nat \<Rightarrow> 'a option" where
  "get_at xs i = (if i < length xs then Some (xs ! i) else None)"

definition put_at :: "nat \<Rightarrow> 'a \<Rightarrow> 'a list \<Rightarrow> 'a list option" where
  "put_at i x xs = (if i < length xs then Some (xs[i := x]) else None)"

lemma get_at_Some [simp]: "i < length xs \<Longrightarrow> get_at xs i = Some (xs ! i)"
  by (simp add: get_at_def)

lemma put_at_Some [simp]: "i < length xs \<Longrightarrow> put_at i x xs = Some (xs[i := x])"
  by (simp add: put_at_def)

subsection \<open>Loops\<close>

text \<open>\<open>for (int i = lo; i < hi; i++)\<close> with a body that leaves the bounds alone.\<close>

definition for_int :: "int \<Rightarrow> int \<Rightarrow> (int \<Rightarrow> 's \<Rightarrow> 's) \<Rightarrow> 's \<Rightarrow> 's" where
  "for_int lo hi body s = fold body [lo..hi - 1] s"

lemma fold_invariant:
  "(\<And>i s. i \<in> set xs \<Longrightarrow> P s \<Longrightarrow> P (f i s)) \<Longrightarrow> P s \<Longrightarrow> P (fold f xs s)"
  by (induction xs arbitrary: s) auto

lemma for_int_invariant:
  assumes "\<And>i s. lo \<le> i \<Longrightarrow> i < hi \<Longrightarrow> P s \<Longrightarrow> P (body i s)" and "P s"
  shows "P (for_int lo hi body s)"
  unfolding for_int_def by (rule fold_invariant [of _ P]) (simp_all add: assms)

lemma for_int_empty [simp]: "hi \<le> lo \<Longrightarrow> for_int lo hi body s = s"
  by (simp add: for_int_def)

lemma for_int_step: "lo < hi \<Longrightarrow> for_int lo hi body s = for_int (lo + 1) hi body (body lo s)"
  by (simp add: for_int_def upto_rec1)

lemma for_int_singleton [simp]: "for_int lo (lo + 1) body s = body lo s"
  by (simp add: for_int_step)

lemma for_int_cong:
  "(\<And>i s. lo \<le> i \<Longrightarrow> i < hi \<Longrightarrow> f i s = f' i s) \<Longrightarrow> for_int lo hi f s = for_int lo hi f' s"
proof -
  assume eq: "\<And>i s. lo \<le> i \<Longrightarrow> i < hi \<Longrightarrow> f i s = f' i s"
  have f: "fold f xs s = fold f' xs s" if "\<And>i s. i \<in> set xs \<Longrightarrow> f i s = f' i s" for xs
    using that by (induction xs arbitrary: s) simp_all
  show ?thesis unfolding for_int_def by (rule f) (simp add: eq)
qed

text \<open>The two nested loops of every raster routine, as one fold over the visited points.\<close>

lemma for_int_nested:
  "for_int lo hi (\<lambda>y. for_int lo' hi' (\<lambda>x. body x y)) s =
   fold (\<lambda>(y, x). body x y) (List.product [lo..hi - 1] [lo'..hi' - 1]) s"
proof -
  have "fold (\<lambda>y. fold (\<lambda>x. body x y) xs) ys s = fold (\<lambda>(y, x). body x y) (List.product ys xs) s" for xs ys
    by (induction ys arbitrary: s) (auto simp: fold_map comp_def)
  moreover have "for_int a b f = fold f [a..b - 1]" for a b and f :: "int \<Rightarrow> 'a \<Rightarrow> 'a"
    by (rule ext) (simp add: for_int_def)
  ultimately show ?thesis by simp
qed

text \<open>A fold whose steps each change one cell, at pairwise different addresses, changes every
  visited cell once.\<close>

definition pointwise :: "('i \<Rightarrow> bool) \<Rightarrow> ('i \<Rightarrow> 'a) \<Rightarrow> ('i \<Rightarrow> 'b \<Rightarrow> 'b) \<Rightarrow> 'i \<Rightarrow> ('a \<Rightarrow> 'b) \<Rightarrow> 'a \<Rightarrow> 'b" where
  "pointwise G a g i s = (if G i then s(a i := g i (s (a i))) else s)"

lemma fold_pointwise_other:
  "(\<And>i. i \<in> set xs \<Longrightarrow> G i \<Longrightarrow> a i \<noteq> p) \<Longrightarrow> fold (pointwise G a g) xs s p = s p"
  by (induction xs arbitrary: s) (auto simp: pointwise_def)

lemma fold_pointwise_at:
  assumes "distinct xs" "i \<in> set xs" "G i"
    and "\<And>j. j \<in> set xs \<Longrightarrow> G j \<Longrightarrow> a j = a i \<Longrightarrow> j = i"
  shows "fold (pointwise G a g) xs s (a i) = g i (s (a i))"
  using assms
proof (induction xs arbitrary: s)
  case (Cons j xs)
  show ?case
  proof (cases "i = j")
    case True
    then have "a k \<noteq> a i" if "k \<in> set xs" "G k" for k
      using that Cons.prems by auto
    then have "fold (pointwise G a g) xs t (a i) = t (a i)" for t
      by (rule fold_pointwise_other)
    moreover have "pointwise G a g i s (a i) = g i (s (a i))"
      using Cons.prems(3) by (simp add: pointwise_def)
    ultimately show ?thesis
      using True by simp
  next
    case False
    then have "pointwise G a g j s (a i) = s (a i)"
      using Cons.prems(4) [of j] by (auto simp: pointwise_def)
    then show ?thesis
      using False Cons by simp
  qed
qed simp

section \<open>Signed 32-bit arithmetic\<close>

text \<open>C division truncates towards zero.\<close>

definition cdiv :: "int \<Rightarrow> int \<Rightarrow> int" where
  "cdiv a b = sgn a * sgn b * (\<bar>a\<bar> div \<bar>b\<bar>)"

text \<open>The value an \<open>int\<close> or a \<open>long\<close> of the 32-bit build holds after an operation with the
  mathematical result \<open>i\<close>: two's complement, as the compiled code computes it.\<close>

definition wrap32 :: "int \<Rightarrow> int" where
  "wrap32 i = sint (word_of_int i :: 32 word)"

lemma wrap32_id: "- 2147483648 \<le> i \<Longrightarrow> i < 2147483648 \<Longrightarrow> wrap32 i = i"
  by (simp add: wrap32_def sint_sbintrunc' signed_take_bit_int_eq_self)

lemma wrap32_affine: "wrap32 (wrap32 a * b + c) = wrap32 (a * b + c)"
  by (simp add: wrap32_def)

lemma wrap32_sint: "wrap32 (uint (w :: 32 word)) = sint w"
  by (simp add: wrap32_def)

end
