(* ===== verification/Allocator_Spec.thy ===== *)
theory Allocator_Spec
  imports Prelude
begin

text \<open>
  The contract between the kernel heap (\<open>src/mm.c\<close>) and its clients (\<open>src/gui.c\<close>,
  \<open>src/naoview.c\<close>, \<open>src/kernel.c\<close>), as a locale.  A state has a set of live
  payload regions (start address, length).  The laws say what \<open>kmalloc\<close> and \<open>kfree\<close>
  promise about it; the client lemmas are proved from the laws alone.
\<close>

definition disjoint_regions :: "(nat \<times> nat) set \<Rightarrow> bool" where
  "disjoint_regions R \<longleftrightarrow>
     (\<forall>(p, l) \<in> R. \<forall>(q, r) \<in> R. (p, l) = (q, r) \<or> p + l < q \<or> q + r < p)"

locale region_allocator =
  fixes alloc :: "u32 \<Rightarrow> 's \<Rightarrow> (u32 \<times> 's) option"
    and dealloc :: "u32 \<Rightarrow> 's \<Rightarrow> 's option"
    and valid :: "'s \<Rightarrow> bool"
    and live :: "'s \<Rightarrow> (nat \<times> nat) set"
  assumes alloc_live:
      "valid s \<Longrightarrow> n \<le> 0xFFFFFFF8 \<Longrightarrow> alloc n s = Some (p, s') \<Longrightarrow>
         valid s' \<and> p \<noteq> 0 \<and>
         (\<exists>len \<ge> unat n. (unat p, len) \<notin> live s \<and> live s' = insert (unat p, len) (live s))"
    and dealloc_live:
      "valid s \<Longrightarrow> (unat p, len) \<in> live s \<Longrightarrow>
         \<exists>s'. dealloc p s = Some s' \<and> valid s' \<and> live s' = live s - {(unat p, len)}"
    and dealloc_null: "dealloc 0 s = Some s"
    and live_disjoint: "valid s \<Longrightarrow> disjoint_regions (live s)"
begin

text \<open>A fresh region overlaps no region that was live before.\<close>

lemma alloc_fresh:
  assumes "valid s" "n \<le> 0xFFFFFFF8" "alloc n s = Some (p, s')" "(q, l) \<in> live s"
  shows "q + l < unat p \<or> unat p + unat n < q"
proof -
  obtain len where len: "unat n \<le> len" "(unat p, len) \<notin> live s" "live s' = insert (unat p, len) (live s)"
    and "valid s'"
    using alloc_live [OF assms(1-3)] by auto
  then have "disjoint_regions (live s')"
    using live_disjoint by blast
  then have "(unat p, len) = (q, l) \<or> unat p + len < q \<or> q + l < unat p"
    using len assms(4) by (auto simp: disjoint_regions_def)
  then show ?thesis
    using len assms(4) by auto
qed

text \<open>Allocate, use, free (the scratch buffer of \<open>sys_shutdown\<close>): nothing leaks.\<close>

lemma alloc_dealloc:
  assumes "valid s" "n \<le> 0xFFFFFFF8" "alloc n s = Some (p, s1)"
  shows "\<exists>s2. dealloc p s1 = Some s2 \<and> valid s2 \<and> live s2 = live s"
proof -
  obtain len where "valid s1" "(unat p, len) \<notin> live s" "live s1 = insert (unat p, len) (live s)"
    using alloc_live [OF assms] by auto
  then show ?thesis
    using dealloc_live [of s1 p len] by (auto simp: insert_Diff_if)
qed

text \<open>Free the old region, allocate the new one (\<open>naoview_load_image\<close> replacing its picture).\<close>

lemma replace_region:
  assumes "valid s" "(unat q, l) \<in> live s" "dealloc q s = Some s1" "n \<le> 0xFFFFFFF8" "alloc n s1 = Some (p, s2)"
  shows "valid s2 \<and> (\<exists>len \<ge> unat n. live s2 = insert (unat p, len) (live s - {(unat q, l)}))"
  using alloc_live [of s1 n p s2] dealloc_live [OF assms(1,2)] assms(3-5) by auto

end

end
