(* ===== verification/Memory_Manager.thy ===== *)
theory Memory_Manager
  imports Allocator_Spec
begin

text \<open>
  The kernel heap of \<open>src/mm.c\<close>: a 4 MiB static array tiled by blocks, each a 12-byte
  header (\<open>struct block_header\<close>) followed by its payload, linked by \<open>next\<close>
  pointers.  The headers are kept in an explicit store from addresses to headers, so that the
  pointer writes of \<open>kmalloc\<close> and \<open>kfree\<close> are modelled in the order the code makes
  them.  The theory proves that this pointer program refines first-fit allocation and coalescing
  on an abstract list of blocks, and derives the allocator's contract (a locale) from it.
\<close>

section \<open>The program\<close>

record block_header =
  hsize :: u32
  is_free :: u8
  hnext :: u32

record mm_state =
  heap_start :: u32
  heap_space :: "u32 \<Rightarrow> block_header"
  mm_initialized :: bool

definition heap_bytes :: nat where
  "heap_bytes = 4 * 1024 * 1024"

text \<open>\<open>sizeof(struct block_header)\<close> on the 32-bit target: 4 + 1 (+ 3 padding) + 4.\<close>

definition header_size :: u32 where
  "header_size = 12"

definition ALIGN :: "u32 \<Rightarrow> u32" where
  "ALIGN sz = (sz + 7) AND NOT 7"

text \<open>A field write through a header pointer.\<close>

definition set_header :: "u32 \<Rightarrow> (block_header \<Rightarrow> block_header) \<Rightarrow> mm_state \<Rightarrow> mm_state" where
  "set_header a f s = s\<lparr>heap_space := (heap_space s)(a := f (heap_space s a))\<rparr>"

definition init_mm :: "mm_state \<Rightarrow> mm_state" where
  "init_mm s =
     (let h = heap_start s;
          s = set_header h (\<lambda>b. b\<lparr>hsize := of_nat heap_bytes - header_size\<rparr>) s;
          s = set_header h (\<lambda>b. b\<lparr>is_free := 1\<rparr>) s;
          s = set_header h (\<lambda>b. b\<lparr>hnext := 0\<rparr>) s
      in s\<lparr>mm_initialized := True\<rparr>)"

text \<open>The body of the first-fit loop once a block fits: split it if the rest can hold a header and
  eight bytes, mark it used, return the address after its header.\<close>

definition kmalloc_take :: "u32 \<Rightarrow> u32 \<Rightarrow> mm_state \<Rightarrow> u32 \<times> mm_state" where
  "kmalloc_take needed_size current s =
     (let s = (if hsize (heap_space s current) \<ge> needed_size + header_size + 8
               then let next_block = current + header_size + needed_size;
                        s = set_header next_block
                              (\<lambda>b. b\<lparr>hsize := hsize (heap_space s current) - needed_size - header_size\<rparr>) s;
                        s = set_header next_block (\<lambda>b. b\<lparr>is_free := 1\<rparr>) s;
                        s = set_header next_block (\<lambda>b. b\<lparr>hnext := hnext (heap_space s current)\<rparr>) s;
                        s = set_header current (\<lambda>b. b\<lparr>hsize := needed_size\<rparr>) s
                    in set_header current (\<lambda>b. b\<lparr>hnext := next_block\<rparr>) s
               else s);
          s = set_header current (\<lambda>b. b\<lparr>is_free := 0\<rparr>) s
      in (current + header_size, s))"

text \<open>Running off the end of the list is the out-of-memory panic (\<open>while(1)\<close>), a value of its
  own; a walk that never ends (a cyclic list) is \<^const>\<open>None\<close>.\<close>

datatype kmalloc_result = Allocated u32 mm_state | Panic

partial_function (option) kmalloc_loop :: "u32 \<Rightarrow> u32 \<Rightarrow> mm_state \<Rightarrow> kmalloc_result option" where
  "kmalloc_loop needed_size current s =
     (if current = 0 then Some Panic
      else if is_free (heap_space s current) \<noteq> 0 \<and> hsize (heap_space s current) \<ge> needed_size
      then Some (case kmalloc_take needed_size current s of (p, s') \<Rightarrow> Allocated p s')
      else kmalloc_loop needed_size (hnext (heap_space s current)) s)"

definition kmalloc :: "u32 \<Rightarrow> mm_state \<Rightarrow> kmalloc_result option" where
  "kmalloc sz s =
     (let s = (if \<not> mm_initialized s then init_mm s else s)
      in kmalloc_loop (ALIGN sz) (heap_start s) s)"

partial_function (option) kfree_coalesce :: "u32 \<Rightarrow> mm_state \<Rightarrow> mm_state option" where
  "kfree_coalesce current s =
     (if current = 0 then Some s
      else let h = heap_space s current; n = heap_space s (hnext h)
           in if hnext h \<noteq> 0 \<and> is_free h \<noteq> 0 \<and> is_free n \<noteq> 0
              then let s = set_header current (\<lambda>b. b\<lparr>hsize := hsize b + (header_size + hsize n)\<rparr>) s
                   in kfree_coalesce current
                        (set_header current (\<lambda>b. b\<lparr>hnext := hnext (heap_space s (hnext b))\<rparr>) s)
              else kfree_coalesce (hnext h) s)"

definition kfree :: "u32 \<Rightarrow> mm_state \<Rightarrow> mm_state option" where
  "kfree ptr s =
     (if ptr = 0 then Some s
      else let s = set_header (ptr - header_size) (\<lambda>b. b\<lparr>is_free := 1\<rparr>) s
           in kfree_coalesce (heap_start s) s)"

definition get_total_memory :: u32 where
  "get_total_memory = 4 * 1024 * 1024"

partial_function (option) used_loop :: "u32 \<Rightarrow> u32 \<Rightarrow> mm_state \<Rightarrow> u32 option" where
  "used_loop current used_bytes s =
     (if current = 0 then Some used_bytes
      else let h = heap_space s current;
               used_bytes = used_bytes + header_size;
               used_bytes = (if is_free h = 0 then used_bytes + hsize h else used_bytes)
           in used_loop (hnext h) used_bytes s)"

definition get_used_memory :: "mm_state \<Rightarrow> u32 option" where
  "get_used_memory s = (if \<not> mm_initialized s then Some 0 else used_loop (heap_start s) 0 s)"

section \<open>The abstract heap: a list of blocks\<close>

text \<open>A block is its payload size and whether it is free; the list is in address order.\<close>

type_synonym block = "nat \<times> bool"

fun span :: "block list \<Rightarrow> nat" where
  "span [] = 0"
| "span ((m, f) # bs) = 12 + m + span bs"

fun first_fit :: "nat \<Rightarrow> block list \<Rightarrow> (nat \<times> block list) option" where
  "first_fit n [] = None"
| "first_fit n ((m, f) # bs) =
     (if f \<and> n \<le> m
      then Some (0, if n + 20 \<le> m then (n, False) # (m - n - 12, True) # bs else (m, False) # bs)
      else map_option (\<lambda>(k, bs'). (12 + m + k, (m, f) # bs')) (first_fit n bs))"

text \<open>Marking the block whose payload starts at a given offset free.\<close>

fun release :: "nat \<Rightarrow> block list \<Rightarrow> block list" where
  "release k [] = []"
| "release k ((m, f) # bs) =
     (if k = 12 then (m, True) # bs else (m, f) # release (k - (12 + m)) bs)"

text \<open>The size and status of the block whose payload starts at a given offset.\<close>

fun payload_at :: "nat \<Rightarrow> block list \<Rightarrow> block option" where
  "payload_at k [] = None"
| "payload_at k ((m, f) # bs) =
     (if k = 12 then Some (m, f)
      else if k < 12 + m then None else payload_at (k - (12 + m)) bs)"

fun coalesce :: "block list \<Rightarrow> block list" where
  "coalesce [] = []"
| "coalesce [b] = [b]"
| "coalesce ((m, f) # (n, g) # bs) =
     (if f \<and> g then coalesce ((m + 12 + n, True) # bs) else (m, f) # coalesce ((n, g) # bs))"

fun coalesced :: "block list \<Rightarrow> bool" where
  "coalesced ((m, f) # (n, g) # bs) \<longleftrightarrow> \<not> (f \<and> g) \<and> coalesced ((n, g) # bs)"
| "coalesced bs \<longleftrightarrow> True"

fun used_bytes_of :: "block list \<Rightarrow> nat" where
  "used_bytes_of [] = 0"
| "used_bytes_of ((m, f) # bs) = 12 + (if f then 0 else m) + used_bytes_of bs"

text \<open>The payload regions in use, as (start address, length).\<close>

fun live_regions :: "nat \<Rightarrow> block list \<Rightarrow> (nat \<times> nat) set" where
  "live_regions a [] = {}"
| "live_regions a ((m, f) # bs) =
     (if f then {} else {(a + 12, m)}) \<union> live_regions (a + 12 + m) bs"

text \<open>The store holds, from address \<open>a\<close> on, the headers of a list of blocks whose last
  \<open>next\<close> pointer is \<open>e\<close>.\<close>

fun seg :: "(u32 \<Rightarrow> block_header) \<Rightarrow> nat \<Rightarrow> block list \<Rightarrow> u32 \<Rightarrow> bool" where
  "seg hs a [] e = True"
| "seg hs a ((m, f) # bs) e =
     (unat (hsize (hs (of_nat a))) = m \<and> (is_free (hs (of_nat a)) \<noteq> 0) = f \<and>
      hnext (hs (of_nat a)) = (if bs = [] then e else of_nat (a + 12 + m)) \<and>
      seg hs (a + 12 + m) bs e)"

text \<open>Where the linker may put the heap array: not at address 0 and not across the top.\<close>

definition heap_placed :: "mm_state \<Rightarrow> bool" where
  "heap_placed s \<longleftrightarrow> 0 < unat (heap_start s) \<and> unat (heap_start s) + heap_bytes < 2 ^ 32"

definition mm_inv :: "mm_state \<Rightarrow> block list \<Rightarrow> bool" where
  "mm_inv s bs \<longleftrightarrow> mm_initialized s \<and> heap_placed s \<and> bs \<noteq> [] \<and> span bs = heap_bytes \<and>
     seg (heap_space s) (unat (heap_start s)) bs 0"

section \<open>Refinement\<close>

lemma span_pos: "bs \<noteq> [] \<Longrightarrow> 12 \<le> span bs"
  by (cases bs rule: span.cases) auto

lemma span_append [simp]: "span (xs @ ys) = span xs + span ys"
  by (induction xs rule: span.induct) auto

lemma seg_frame [frame]:
  assumes "\<forall>x. a \<le> x \<and> x < a + span bs \<longrightarrow> hs' (of_nat x) = hs (of_nat x)"
  shows "seg hs' a bs e = seg hs a bs e"
  using assms
proof (induction hs a bs e rule: seg.induct)
  case (2 hs a m f bs e)
  then have "seg hs' (a + 12 + m) bs e = seg hs (a + 12 + m) bs e" by simp
  with "2.prems" show ?case by simp
qed simp

lemma seg_append:
  assumes "xs \<noteq> []" "ys \<noteq> []"
  shows "seg hs a (xs @ ys) e \<longleftrightarrow> seg hs a xs (of_nat (a + span xs)) \<and> seg hs (a + span xs) ys e"
  using assms
proof (induction xs arbitrary: a)
  case (Cons x xs)
  then show ?case by (cases x; cases "xs = []") (auto simp: add.assoc)
qed simp

text \<open>Writing a header at an address changes the store there only.\<close>

lemma set_header_simps [simp]:
  "heap_start (set_header a g s) = heap_start s"
  "mm_initialized (set_header a g s) = mm_initialized s"
  "heap_space (set_header a g s) x = (if x = a then g (heap_space s a) else heap_space s x)"
  by (simp_all add: set_header_def)

lemma first_fit_props:
  assumes "first_fit n bs = Some (k, bs')"
  shows "bs' \<noteq> []" "span bs' = span bs" "k + 12 \<le> span bs"
  using assms
  by (induction bs arbitrary: k bs' rule: first_fit.induct[of _ n])
     (auto split: if_splits)

text \<open>States that agree outside an address range.\<close>

definition same_outside :: "nat \<Rightarrow> nat \<Rightarrow> mm_state \<Rightarrow> mm_state \<Rightarrow> bool" where
  "same_outside a b s s' \<longleftrightarrow> heap_start s' = heap_start s \<and> mm_initialized s' = mm_initialized s \<and>
     (\<forall>x < 2 ^ 32. x < a \<or> b \<le> x \<longrightarrow> heap_space s' (of_nat x) = heap_space s (of_nat x))"

lemma same_outside_mono:
  "same_outside a b s s' \<Longrightarrow> a' \<le> a \<Longrightarrow> b \<le> b' \<Longrightarrow> same_outside a' b' s s'"
  by (auto simp: same_outside_def)

text \<open>A loop that steps over its first block: what it does to the rest of the list, it does to the
  whole list.\<close>

lemma seg_skip:
  assumes "seg (heap_space s) a ((m, f) # bs) 0" "bs \<noteq> []" "a + span ((m, f) # bs) < 2 ^ 32"
    and "same_outside (a + 12 + m) (a + 12 + m + span bs) s s'"
    and "seg (heap_space s') (a + 12 + m) cs 0" "cs \<noteq> []"
  shows "seg (heap_space s') a ((m, f) # cs) 0"
    and "same_outside a (a + span ((m, f) # bs)) s s'"
proof -
  have "heap_space s' (of_nat a) = heap_space s (of_nat a)"
    using assms(3,4) by (auto simp: same_outside_def)
  then show "seg (heap_space s') a ((m, f) # cs) 0"
    using assms by simp
  show "same_outside a (a + span ((m, f) # bs)) s s'"
    using assms(4) by (rule same_outside_mono) auto
qed

text \<open>The split test of \<open>kmalloc\<close> on machine words is the test on numbers.\<close>

lemma split_test:
  assumes "unat sz = m" "n \<le> m" "m \<le> heap_bytes"
  shows "sz \<ge> of_nat n + header_size + 8 \<longleftrightarrow> n + 20 \<le> m"
    and "n + 20 \<le> m \<Longrightarrow> unat (sz - of_nat n - header_size) = m - n - 12"
proof -
  have nat: "unat (of_nat n :: u32) = n" "unat (of_nat (n + 20) :: u32) = n + 20"
    using assms by (auto intro!: unat_of_nat_u32 simp: heap_bytes_def simp del: of_nat_add)
  have eq: "of_nat n + header_size + 8 = (of_nat (n + 20) :: u32)"
    by (simp add: header_size_def)
  show "sz \<ge> of_nat n + header_size + 8 \<longleftrightarrow> n + 20 \<le> m"
    unfolding eq using assms nat by (simp add: word_le_nat_alt del: of_nat_add)
  show "n + 20 \<le> m \<Longrightarrow> unat (sz - of_nat n - header_size) = m - n - 12"
    using assms nat by (simp add: header_size_def unat_sub_u32)
qed

lemma kmalloc_take_outside:
  assumes "unat (hsize (heap_space s (of_nat a))) = m" "n \<le> m" "m \<le> heap_bytes" "a + 12 + m < 2 ^ 32"
  shows "same_outside a (a + 12 + m) s (snd (kmalloc_take (of_nat n) (of_nat a) s))"
proof -
  have nb: "of_nat a + header_size + of_nat n = (of_nat (a + 12 + n) :: u32)"
    by (simp add: header_size_def)
  show ?thesis
    unfolding same_outside_def kmalloc_take_def Let_def split_test(1) [OF assms(1-3)] nb
    using assms(4) by (auto simp: of_nat_eq_u32 simp del: of_nat_add)
qed

lemma kmalloc_take_headers:
  assumes "unat (hsize (heap_space s (of_nat a))) = m" "n \<le> m" "m \<le> heap_bytes" "a + 12 + m < 2 ^ 32"
  defines "s' \<equiv> snd (kmalloc_take (of_nat n) (of_nat a) s)" and "h \<equiv> heap_space s (of_nat a)"
  shows "n + 20 \<le> m \<Longrightarrow> heap_space s' (of_nat a) = h\<lparr>hsize := of_nat n, hnext := of_nat (a + 12 + n), is_free := 0\<rparr>"
    and "n + 20 \<le> m \<Longrightarrow> heap_space s' (of_nat (a + 12 + n)) = (heap_space s (of_nat (a + 12 + n)))
           \<lparr>hsize := hsize h - of_nat n - header_size, is_free := 1, hnext := hnext h\<rparr>"
    and "\<not> n + 20 \<le> m \<Longrightarrow> heap_space s' (of_nat a) = h\<lparr>is_free := 0\<rparr>"
proof -
  have nb: "of_nat a + header_size + of_nat n = (of_nat (a + 12 + n) :: u32)"
    by (simp add: header_size_def)
  have "n + 20 \<le> m \<Longrightarrow> (of_nat (a + 12 + n) :: u32) \<noteq> of_nat a"
    using assms(4) by (subst of_nat_eq_u32) auto
  then show "n + 20 \<le> m \<Longrightarrow> heap_space s' (of_nat a) = h\<lparr>hsize := of_nat n, hnext := of_nat (a + 12 + n), is_free := 0\<rparr>"
    and "n + 20 \<le> m \<Longrightarrow> heap_space s' (of_nat (a + 12 + n)) = (heap_space s (of_nat (a + 12 + n)))
           \<lparr>hsize := hsize h - of_nat n - header_size, is_free := 1, hnext := hnext h\<rparr>"
    and "\<not> n + 20 \<le> m \<Longrightarrow> heap_space s' (of_nat a) = h\<lparr>is_free := 0\<rparr>"
    unfolding s'_def h_def kmalloc_take_def Let_def split_test(1) [OF assms(1-3)] nb
    by (simp_all del: of_nat_add)
qed

lemma kmalloc_take_spec:
  assumes seg: "seg (heap_space s) a ((m, True) # bs) 0" and n: "n \<le> m"
    and bound: "a + span ((m, True) # bs) < 2 ^ 32" and m: "m \<le> heap_bytes"
  defines "s' \<equiv> snd (kmalloc_take (of_nat n) (of_nat a) s)"
  shows "kmalloc_take (of_nat n) (of_nat a) s = (of_nat (a + 12), s')"
    and "same_outside a (a + 12 + m) s s'"
    and "seg (heap_space s') a
           (if n + 20 \<le> m then (n, False) # (m - n - 12, True) # bs else (m, False) # bs) 0"
proof -
  have sz: "unat (hsize (heap_space s (of_nat a))) = m" and b: "a + 12 + m < 2 ^ 32"
    using seg bound by auto
  note headers = kmalloc_take_headers [OF sz n m b, folded s'_def]
  show "kmalloc_take (of_nat n) (of_nat a) s = (of_nat (a + 12), s')"
    by (simp add: s'_def kmalloc_take_def Let_def header_size_def)
  show out: "same_outside a (a + 12 + m) s s'"
    unfolding s'_def by (rule kmalloc_take_outside [OF sz n m b])
  have "seg (heap_space s') (a + 12 + m) bs 0 = seg (heap_space s) (a + 12 + m) bs 0"
    by (rule seg_frame) (use out bound in \<open>auto simp: same_outside_def\<close>)
  then have rest: "seg (heap_space s') (a + 12 + m) bs 0"
    using seg by simp
  show "seg (heap_space s') a
           (if n + 20 \<le> m then (n, False) # (m - n - 12, True) # bs else (m, False) # bs) 0"
  proof (cases "n + 20 \<le> m")
    case True
    then have "a + 12 + n + 12 + (m - n - 12) = a + 12 + m" by simp
    then show ?thesis
      using True headers(1,2) split_test(2) [OF sz n m] seg rest n m
      by (simp add: ac_simps unat_of_nat_u32 heap_bytes_def del: of_nat_add)
  next
    case False
    then show ?thesis
      using headers(3) seg rest by (simp del: of_nat_add)
  qed
qed

lemma kmalloc_loop_fit:
  assumes "seg (heap_space s) a ((m, f) # bs) 0" "0 < a" "a + span ((m, f) # bs) < 2 ^ 32" "n < 2 ^ 32"
  shows "f \<Longrightarrow> n \<le> m \<Longrightarrow> kmalloc_loop (of_nat n) (of_nat a) s =
           Some (case kmalloc_take (of_nat n) (of_nat a) s of (p, s') \<Rightarrow> Allocated p s')"
    and "\<not> (f \<and> n \<le> m) \<Longrightarrow> kmalloc_loop (of_nat n) (of_nat a) s =
           kmalloc_loop (of_nat n) (if bs = [] then 0 else of_nat (a + 12 + m)) s"
proof -
  have "(of_nat a :: u32) \<noteq> 0"
    using assms by (intro of_nat_neq_0_u32) auto
  moreover have "is_free (heap_space s (of_nat a)) \<noteq> 0 \<and> hsize (heap_space s (of_nat a)) \<ge> of_nat n \<longleftrightarrow> f \<and> n \<le> m"
    using assms by (auto simp: word_le_nat_alt unat_of_nat_u32)
  ultimately show "f \<Longrightarrow> n \<le> m \<Longrightarrow> kmalloc_loop (of_nat n) (of_nat a) s =
           Some (case kmalloc_take (of_nat n) (of_nat a) s of (p, s') \<Rightarrow> Allocated p s')"
    and "\<not> (f \<and> n \<le> m) \<Longrightarrow> kmalloc_loop (of_nat n) (of_nat a) s =
           kmalloc_loop (of_nat n) (if bs = [] then 0 else of_nat (a + 12 + m)) s"
    using assms(1) by (subst kmalloc_loop.simps; auto)+
qed

lemma kmalloc_loop_refines:
  assumes "seg (heap_space s) a bs 0" "bs \<noteq> []" "0 < a" "a + span bs < 2 ^ 32"
    "span bs \<le> heap_bytes" "n < 2 ^ 32"
  shows "case first_fit n bs of
      None \<Rightarrow> kmalloc_loop (of_nat n) (of_nat a) s = Some Panic
    | Some (k, bs') \<Rightarrow> \<exists>s'. kmalloc_loop (of_nat n) (of_nat a) s = Some (Allocated (of_nat (a + k + 12)) s') \<and>
        same_outside a (a + span bs) s s' \<and> seg (heap_space s') a bs' 0"
  using assms
proof (induction n bs arbitrary: a rule: first_fit.induct)
  case (2 n m f bs)
  note fit = kmalloc_loop_fit [OF "2.prems"(1,3,4,6)]
  consider (fits) "f" "n \<le> m" | (last) "\<not> (f \<and> n \<le> m)" "bs = []" | (skip) "\<not> (f \<and> n \<le> m)" "bs \<noteq> []"
    by blast
  then show ?case
  proof cases
    case fits
    then have seg: "seg (heap_space s) a ((m, True) # bs) 0" and m: "m \<le> heap_bytes"
      and b: "a + span ((m, True) # bs) < 2 ^ 32"
      using "2.prems" by auto
    note take = kmalloc_take_spec [OF seg \<open>n \<le> m\<close> b m]
    have "same_outside a (a + span ((m, f) # bs)) s (snd (kmalloc_take (of_nat n) (of_nat a) s))"
      by (rule same_outside_mono [OF take(2)]) auto
    then show ?thesis
      using fits fit(1) take(1,3) by (auto simp del: of_nat_add split: prod.splits)
  next
    case last
    then show ?thesis using fit(2) by (simp add: kmalloc_loop.simps)
  next
    case skip
    have IH: "case first_fit n bs of
        None \<Rightarrow> kmalloc_loop (of_nat n) (of_nat (a + 12 + m)) s = Some Panic
      | Some (k, bs') \<Rightarrow> \<exists>s'. kmalloc_loop (of_nat n) (of_nat (a + 12 + m)) s
            = Some (Allocated (of_nat (a + 12 + m + k + 12)) s') \<and>
          same_outside (a + 12 + m) (a + 12 + m + span bs) s s' \<and> seg (heap_space s') (a + 12 + m) bs' 0"
      by (rule "2.IH" [OF skip(1)]) (use "2.prems" skip in auto)
    have step: "kmalloc_loop (of_nat n) (of_nat a) s = kmalloc_loop (of_nat n) (of_nat (a + 12 + m)) s"
      using fit(2) skip by simp
    show ?thesis
    proof (cases "first_fit n bs")
      case None
      then show ?thesis using IH step skip by auto
    next
      case (Some r)
      then obtain k bs' s' where r: "first_fit n bs = Some (k, bs')"
        and loop: "kmalloc_loop (of_nat n) (of_nat (a + 12 + m)) s = Some (Allocated (of_nat (a + 12 + m + k + 12)) s')"
        and s': "same_outside (a + 12 + m) (a + 12 + m + span bs) s s'" "seg (heap_space s') (a + 12 + m) bs' 0"
        using IH by (cases r) auto
      note whole = seg_skip [OF "2.prems"(1) skip(2) "2.prems"(4) s' first_fit_props(1) [OF r]]
      have "a + 12 + m + k + 12 = a + (12 + m + k) + 12" by simp
      then show ?thesis
        using loop step whole r skip(1) by (auto simp del: of_nat_add span.simps seg.simps)
    qed
  qed
qed simp

subsection \<open>Freeing\<close>

lemma set_header_twice: "set_header a g (set_header a f s) = set_header a (\<lambda>b. g (f b)) s"
  by (simp add: set_header_def)

lemma set_header_cong: "f (heap_space s a) = g (heap_space s a) \<Longrightarrow> set_header a f s = set_header a g s"
  by (simp add: set_header_def)

lemma kfree_coalesce_merge:
  assumes "current \<noteq> 0" "hnext (heap_space s current) = nb" "nb \<noteq> 0" "nb \<noteq> current"
    and "is_free (heap_space s current) \<noteq> 0" "is_free (heap_space s nb) \<noteq> 0"
  shows "kfree_coalesce current s = kfree_coalesce current (set_header current
    (\<lambda>b. b\<lparr>hsize := hsize b + (header_size + hsize (heap_space s nb)), hnext := hnext (heap_space s nb)\<rparr>) s)"
  using assms
  by (subst kfree_coalesce.simps)
     (auto simp: Let_def set_header_twice intro!: arg_cong [where f = "kfree_coalesce current"] set_header_cong)

lemma coalesce_Nil_iff [simp]: "coalesce bs = [] \<longleftrightarrow> bs = []"
  by (induction bs rule: coalesce.induct) auto

text \<open>One merge of the loop is one merge of the abstract list.\<close>

lemma seg_merge:
  assumes "seg (heap_space s) a ((m, True) # (n, True) # bs) 0" "0 < a"
    and "a + span ((m, True) # (n, True) # bs) < 2 ^ 32"
  shows "\<exists>s1. kfree_coalesce (of_nat a) s = kfree_coalesce (of_nat a) s1 \<and>
    same_outside a (a + 12 + m) s s1 \<and> seg (heap_space s1) a ((m + 12 + n, True) # bs) 0"
proof -
  let ?a = "of_nat a :: u32" and ?b = "of_nat (a + 12 + m) :: u32"
  let ?h = "heap_space s ?a" and ?n = "heap_space s ?b"
  let ?s = "set_header ?a (\<lambda>b. b\<lparr>hsize := hsize b + (header_size + hsize ?n), hnext := hnext ?n\<rparr>) s"
  have ne: "?a \<noteq> 0" "?b \<noteq> 0" "?b \<noteq> ?a"
    using assms by (simp_all add: of_nat_neq_0_u32 of_nat_eq_u32 del: of_nat_add)
  have h: "unat (hsize ?h) = m" "is_free ?h \<noteq> 0" "hnext ?h = ?b" "unat (hsize ?n) = n" "is_free ?n \<noteq> 0"
    "hnext ?n = (if bs = [] then 0 else of_nat (a + 12 + m + 12 + n))"
    "seg (heap_space s) (a + 12 + m + 12 + n) bs 0"
    using assms(1) by simp_all
  have "kfree_coalesce ?a s = kfree_coalesce ?a ?s"
    using ne h by (intro kfree_coalesce_merge) auto
  moreover have "same_outside a (a + 12 + m) s ?s"
    using assms(3) by (auto simp: same_outside_def of_nat_eq_u32)
  moreover have "unat (hsize ?h + (header_size + hsize ?n)) = m + 12 + n"
    using assms(3) h by (simp add: header_size_def unat_add_u32)
  moreover have "seg (heap_space ?s) (a + 12 + m + 12 + n) bs 0"
    using h(7) by (subst seg_frame) (use assms in \<open>auto simp: of_nat_eq_u32\<close>)
  ultimately show ?thesis
    using h by (intro exI [of _ ?s]) (simp add: ac_simps del: of_nat_add)
qed

lemma kfree_coalesce_skip:
  assumes "seg (heap_space s) a ((m, f) # (n, g) # bs) 0" "0 < a" "\<not> (f \<and> g)"
    and "a + span ((m, f) # (n, g) # bs) < 2 ^ 32"
  shows "kfree_coalesce (of_nat a) s = kfree_coalesce (of_nat (a + 12 + m)) s"
  using assms by (subst kfree_coalesce.simps) (auto simp: Let_def of_nat_neq_0_u32)

lemma kfree_coalesce_refines:
  assumes "seg (heap_space s) a bs 0" "bs \<noteq> []" "0 < a" "a + span bs < 2 ^ 32"
  shows "\<exists>s'. kfree_coalesce (of_nat a) s = Some s' \<and>
    same_outside a (a + span bs) s s' \<and> seg (heap_space s') a (coalesce bs) 0"
  using assms
proof (induction bs arbitrary: a s rule: coalesce.induct)
  case (2 b)
  then show ?case
    by (cases b) (auto simp: kfree_coalesce.simps of_nat_neq_0_u32 same_outside_def)
next
  case (3 m f n g bs)
  show ?case
  proof (cases "f \<and> g")
    case True
    then obtain s1 where s1: "kfree_coalesce (of_nat a) s = kfree_coalesce (of_nat a) s1"
        "same_outside a (a + 12 + m) s s1" "seg (heap_space s1) a ((m + 12 + n, True) # bs) 0"
      using seg_merge [of s a m n bs] "3.prems" by auto
    then have "\<exists>s'. kfree_coalesce (of_nat a) s1 = Some s' \<and>
        same_outside a (a + span ((m + 12 + n, True) # bs)) s1 s' \<and>
        seg (heap_space s') a (coalesce ((m + 12 + n, True) # bs)) 0"
      by (intro "3.IH"(1) [OF True]) (use "3.prems" in auto)
    then show ?thesis
      using s1 True by (auto simp: same_outside_def ac_simps)
  next
    case False
    have "\<exists>s'. kfree_coalesce (of_nat (a + 12 + m)) s = Some s' \<and>
        same_outside (a + 12 + m) (a + 12 + m + span ((n, g) # bs)) s s' \<and>
        seg (heap_space s') (a + 12 + m) (coalesce ((n, g) # bs)) 0"
      by (rule "3.IH"(2) [OF False]) (use "3.prems" in auto)
    then obtain s' where s': "kfree_coalesce (of_nat (a + 12 + m)) s = Some s'"
        "same_outside (a + 12 + m) (a + 12 + m + span ((n, g) # bs)) s s'"
        "seg (heap_space s') (a + 12 + m) (coalesce ((n, g) # bs)) 0"
      by auto
    then show ?thesis
      using seg_skip [OF "3.prems"(1) _ "3.prems"(4) s'(2,3)]
        kfree_coalesce_skip [OF "3.prems"(1,3) False "3.prems"(4)] False
      by (auto simp del: seg.simps span.simps)
  qed
qed simp

text \<open>Marking a header free is releasing the block on the abstract list.\<close>

lemma payload_at_bounds:
  "payload_at k bs = Some (m, f) \<Longrightarrow> 12 \<le> k \<and> k + m \<le> span bs"
  by (induction k bs rule: payload_at.induct) (auto split: if_splits)

lemma release_Nil_iff [simp]: "release k bs = [] \<longleftrightarrow> bs = []"
  by (cases bs) (auto split: if_splits)

lemma seg_release:
  assumes "seg (heap_space s) a bs e" "payload_at k bs = Some (m, f)" "a + span bs < 2 ^ 32"
  shows "seg (heap_space (set_header (of_nat (a + k - 12)) (\<lambda>b. b\<lparr>is_free := 1\<rparr>) s)) a (release k bs) e"
  using assms
proof (induction k bs arbitrary: a rule: payload_at.induct)
  case (2 k n g bs)
  let ?s = "set_header (of_nat (a + k - 12)) (\<lambda>b. b\<lparr>is_free := 1\<rparr>) s"
  show ?case
  proof (cases "k = 12")
    case True
    have "seg (heap_space ?s) (a + 12 + n) bs e = seg (heap_space s) (a + 12 + n) bs e"
      by (rule seg_frame) (use True "2.prems"(3) in \<open>auto simp: of_nat_eq_u32\<close>)
    moreover have "heap_space ?s (of_nat a) = (heap_space s (of_nat a))\<lparr>is_free := 1\<rparr>"
      using True by simp
    ultimately show ?thesis using True "2.prems" by (simp del: set_header_simps)
  next
    case False
    with "2.prems" have k: "12 + n \<le> k" "payload_at (k - (12 + n)) bs = Some (m, f)"
      by (auto split: if_splits)
    then have kb: "12 \<le> k - (12 + n) \<and> k - (12 + n) + m \<le> span bs"
      using payload_at_bounds by blast
    have "seg (heap_space (set_header (of_nat (a + 12 + n + (k - (12 + n)) - 12)) (\<lambda>b. b\<lparr>is_free := 1\<rparr>) s))
        (a + 12 + n) (release (k - (12 + n)) bs) e"
      by (rule "2.IH") (use False k "2.prems" in auto)
    moreover have "a + 12 + n + (k - (12 + n)) - 12 = a + k - 12" using k kb by simp
    moreover have "(of_nat a :: u32) \<noteq> of_nat (a + k - 12)"
      using k kb "2.prems"(3) by (subst of_nat_eq_u32) auto
    moreover from this have "heap_space ?s (of_nat a) = heap_space s (of_nat a)" by simp
    ultimately show ?thesis
      using False k "2.prems" by (simp del: set_header_simps of_nat_add)
  qed
qed simp

lemma span_release [simp]: "span (release k bs) = span bs"
  by (induction k bs rule: release.induct) auto

lemma span_coalesce [simp]: "span (coalesce bs) = span bs"
  by (induction bs rule: coalesce.induct) auto

section \<open>Properties of the abstract operations\<close>

lemma live_regions_payload:
  "(p, l) \<in> live_regions a bs \<longleftrightarrow> (\<exists>k. p = a + k \<and> payload_at k bs = Some (l, False))"
proof (induction a bs rule: live_regions.induct)
  case (2 a m f bs)
  have "(\<exists>k. p = a + k \<and> payload_at k ((m, f) # bs) = Some (l, False)) \<longleftrightarrow>
    (p = a + 12 \<and> (m, f) = (l, False)) \<or> (\<exists>k. p = a + 12 + m + k \<and> payload_at k bs = Some (l, False))"
    (is "?L \<longleftrightarrow> ?A \<or> ?B")
  proof
    assume ?L
    then obtain k where k: "p = a + k" "payload_at k ((m, f) # bs) = Some (l, False)" by blast
    then show "?A \<or> ?B"
      by (cases "k = 12") (auto split: if_splits intro!: exI [of _ "k - (12 + m)"])
  next
    assume "?A \<or> ?B"
    then show ?L
    proof
      assume ?B
      then obtain k where k: "p = a + 12 + m + k" "payload_at k bs = Some (l, False)" by blast
      then have "12 \<le> k" using payload_at_bounds by blast
      then show ?L using k by (intro exI [of _ "12 + m + k"]) auto
    qed auto
  qed
  then show ?case using 2 by auto
qed simp

lemma live_regions_bounds: "(p, l) \<in> live_regions a bs \<Longrightarrow> a + 12 \<le> p \<and> p + l \<le> a + span bs"
  using payload_at_bounds by (fastforce simp: live_regions_payload)

lemma live_regions_disjoint: "disjoint_regions (live_regions a bs)"
proof (induction a bs rule: live_regions.induct)
  case (2 a m f bs)
  have "a + 12 + m < q" if "(q, r) \<in> live_regions (a + 12 + m) bs" for q r
    using live_regions_bounds [OF that] by simp
  then show ?case
    using 2 by (auto simp: disjoint_regions_def)
qed (simp add: disjoint_regions_def)

lemma first_fit_live:
  assumes "first_fit n bs = Some (k, bs')"
  shows "\<exists>len \<ge> n. (a + k + 12, len) \<notin> live_regions a bs \<and>
    live_regions a bs' = insert (a + k + 12, len) (live_regions a bs)"
  using assms
proof (induction n bs arbitrary: a k bs' rule: first_fit.induct)
  case (2 n m f bs)
  show ?case
  proof (cases "f \<and> n \<le> m")
    case True
    then show ?thesis
      using "2.prems" live_regions_bounds [of "a + 12" _ "a + 12 + m" bs]
      by (intro exI [of _ "if n + 20 \<le> m then n else m"]) (auto split: if_splits simp: ac_simps)
  next
    case False
    then obtain k' cs where r: "first_fit n bs = Some (k', cs)" "k = 12 + m + k'" "bs' = (m, f) # cs"
      using "2.prems" by auto
    then show ?thesis
      using "2.IH" [OF False r(1), of "a + 12 + m"] by (auto simp: ac_simps)
  qed
qed simp

lemma live_regions_release:
  assumes "payload_at k bs = Some (m, False)"
  shows "live_regions a (release k bs) = live_regions a bs - {(a + k, m)}"
  using assms
proof (induction k bs arbitrary: a rule: payload_at.induct)
  case (2 k n g bs)
  show ?case
  proof (cases "k = 12")
    case True
    then show ?thesis
      using "2.prems" live_regions_bounds [of "a + 12" m "a + 12 + n" bs] by auto
  next
    case False
    then have k: "12 + n \<le> k" "payload_at (k - (12 + n)) bs = Some (m, False)"
      using "2.prems" by (auto split: if_splits)
    then have "live_regions (a + 12 + n) (release (k - (12 + n)) bs)
        = live_regions (a + 12 + n) bs - {(a + 12 + n + (k - (12 + n)), m)}"
      using False by (intro "2.IH") auto
    moreover have "a + 12 + n + (k - (12 + n)) = a + k" using k(1) by simp
    moreover have "(a + k, m) \<noteq> (a + 12, n)" using False by simp
    ultimately show ?thesis
      using False by (simp add: Un_Diff insert_Diff_if)
  qed
qed simp

lemma live_regions_coalesce: "live_regions a (coalesce bs) = live_regions a bs"
  by (induction bs arbitrary: a rule: coalesce.induct) (auto simp: ac_simps)

lemma coalesced_Cons: "coalesced ((m, f) # bs) \<longleftrightarrow> coalesced bs \<and> (bs = [] \<or> \<not> (f \<and> snd (hd bs)))"
  by (cases bs) (auto simp: split_beta)

lemma coalesce_hd: "bs \<noteq> [] \<Longrightarrow> snd (hd (coalesce bs)) = snd (hd bs)"
  by (induction bs rule: coalesce.induct) auto

lemma coalesced_coalesce: "coalesced (coalesce bs)"
proof (induction bs rule: coalesce.induct)
  case (3 m f n g bs)
  then show ?case
    using coalesce_hd [of "(n, g) # bs"] by (auto simp: coalesced_Cons)
qed auto

lemma coalesce_id: "coalesced bs \<Longrightarrow> coalesce bs = bs"
  by (induction bs rule: coalesced.induct) auto

text \<open>Releasing what first fit took, on a heap with no two free neighbours, gives the heap back.\<close>

lemma coalesce_release_first_fit:
  assumes "coalesced bs" "first_fit n bs = Some (k, bs')"
  shows "coalesce (release (k + 12) bs') = bs"
  using assms
proof (induction n bs arbitrary: k bs' rule: first_fit.induct)
  case (2 n m f bs)
  show ?case
  proof (cases "f \<and> n \<le> m")
    case True
    then show ?thesis
      using "2.prems" by (auto simp: coalesce_id coalesced_Cons split: if_splits)
  next
    case False
    then obtain k' cs where r: "first_fit n bs = Some (k', cs)" "k = 12 + m + k'" "bs' = (m, f) # cs"
      using "2.prems" by auto
    moreover have "coalesced bs" using "2.prems" by (simp add: coalesced_Cons)
    ultimately have IH: "coalesce (release (12 + k') cs) = bs"
      using "2.IH" [OF False] by (simp add: add.commute)
    have "cs \<noteq> []" "bs \<noteq> []" using r first_fit_props by auto
    then obtain c cs' where rel: "release (12 + k') cs = c # cs'"
      by (cases "release (12 + k') cs") auto
    have "snd c = snd (hd bs)"
      using coalesce_hd [of "c # cs'"] IH rel by simp
    then show ?thesis
      using r IH rel "2.prems"(1) \<open>bs \<noteq> []\<close> by (cases c) (auto simp: coalesced_Cons)
  qed
qed simp

lemma used_bytes_of_le: "used_bytes_of bs \<le> span bs"
  by (induction bs rule: used_bytes_of.induct) auto

section \<open>The heap as a whole\<close>

lemma mm_inv_simps:
  assumes "mm_inv s bs"
  shows "mm_initialized s" "heap_placed s" "bs \<noteq> []" "span bs = heap_bytes"
    "seg (heap_space s) (unat (heap_start s)) bs 0"
    "0 < unat (heap_start s)" "unat (heap_start s) + span bs < 2 ^ 32"
  using assms by (auto simp: mm_inv_def heap_placed_def)

lemma init_mm_inv:
  assumes "heap_placed s"
  shows "mm_inv (init_mm s) [(heap_bytes - 12, True)]"
  using assms by (simp add: mm_inv_def init_mm_def Let_def heap_placed_def heap_bytes_def header_size_def)

text \<open>The block list is determined by the store.\<close>

lemma seg_unique:
  assumes "seg hs a bs 0" "seg hs a cs 0" "bs \<noteq> []" "cs \<noteq> []"
    and "a + span bs < 2 ^ 32" "a + span cs < 2 ^ 32"
  shows "bs = cs"
  using assms
proof (induction bs arbitrary: a cs)
  case (Cons b bs)
  obtain m f where b: "b = (m, f)" by (cases b)
  then obtain cs' where cs: "cs = (m, f) # cs'"
    using Cons.prems by (cases cs) auto
  have "(of_nat (a + 12 + m) :: u32) \<noteq> 0"
    using Cons.prems b by (intro of_nat_neq_0_u32) auto
  then have "bs = [] \<longleftrightarrow> cs' = []"
    using Cons.prems b cs by (auto split: if_splits)
  then show ?case
    using Cons.IH [of "a + 12 + m" cs'] Cons.prems b cs by auto
qed simp

lemma mm_inv_unique: "mm_inv s bs \<Longrightarrow> mm_inv s cs \<Longrightarrow> bs = cs"
  using seg_unique mm_inv_simps by metis

lemma ALIGN_exact: "sz \<le> 0xFFFFFFF8 \<Longrightarrow> unat (ALIGN sz) = (unat sz + 7) div 8 * 8"
  unfolding ALIGN_def
  by (simp add: unat_and_not_7 word_le_nat_alt unat_add_u32)

lemma ALIGN_wraps: "0xFFFFFFF8 < sz \<Longrightarrow> ALIGN sz = 0"
proof -
  assume "0xFFFFFFF8 < sz"
  then have "unat (sz + 7) < 7"
    using unat_lt_u32 [of sz] by (auto simp: word_less_nat_alt unat_word_ariths mod_if)
  then have "unat (ALIGN sz) = 0"
    by (simp add: ALIGN_def unat_and_not_7)
  then show ?thesis by (simp add: unat_eq_zero)
qed

lemma kmalloc_first_fit:
  assumes "mm_inv s bs"
  shows "case first_fit (unat (ALIGN sz)) bs of
      None \<Rightarrow> kmalloc sz s = Some Panic
    | Some (k, bs') \<Rightarrow> \<exists>s'. kmalloc sz s = Some (Allocated (heap_start s + of_nat (k + 12)) s') \<and>
        heap_start s' = heap_start s \<and> mm_inv s' bs'"
proof -
  note inv = mm_inv_simps [OF assms]
  have loop: "case first_fit (unat (ALIGN sz)) bs of
      None \<Rightarrow> kmalloc_loop (of_nat (unat (ALIGN sz))) (of_nat (unat (heap_start s))) s = Some Panic
    | Some (k, bs') \<Rightarrow> \<exists>s'. kmalloc_loop (of_nat (unat (ALIGN sz))) (of_nat (unat (heap_start s))) s
          = Some (Allocated (of_nat (unat (heap_start s) + k + 12)) s') \<and>
        same_outside (unat (heap_start s)) (unat (heap_start s) + span bs) s s' \<and>
        seg (heap_space s') (unat (heap_start s)) bs' 0"
    by (rule kmalloc_loop_refines) (use inv unat_lt_u32 [of "ALIGN sz"] in auto)
  have km: "kmalloc sz s = kmalloc_loop (ALIGN sz) (heap_start s) s"
    using inv by (simp add: kmalloc_def)
  show ?thesis
  proof (cases "first_fit (unat (ALIGN sz)) bs")
    case None
    then show ?thesis using loop km by simp
  next
    case (Some r)
    then obtain k bs' s' where r: "first_fit (unat (ALIGN sz)) bs = Some (k, bs')"
      and "kmalloc sz s = Some (Allocated (heap_start s + of_nat (k + 12)) s')"
      and "heap_start s' = heap_start s" "mm_initialized s' = mm_initialized s"
        "seg (heap_space s') (unat (heap_start s)) bs' 0"
      using loop km by (cases r) (auto simp: same_outside_def add.assoc)
    then show ?thesis
      using inv first_fit_props [OF r] by (auto simp: mm_inv_def heap_placed_def)
  qed
qed

lemma kfree_release:
  assumes "mm_inv s bs" "payload_at k bs = Some (m, f)"
  shows "\<exists>s'. kfree (heap_start s + of_nat k) s = Some s' \<and> heap_start s' = heap_start s \<and>
    mm_inv s' (coalesce (release k bs))"
proof -
  note inv = mm_inv_simps [OF assms(1)]
  have k: "12 \<le> k" "k \<le> span bs" using payload_at_bounds [OF assms(2)] by auto
  let ?a = "unat (heap_start s)"
  let ?s = "set_header (of_nat (?a + k - 12)) (\<lambda>b. b\<lparr>is_free := 1\<rparr>) s"
  have ptr: "heap_start s + of_nat k = of_nat (?a + k)" by simp
  have "(of_nat (?a + k) :: u32) \<noteq> 0"
    using inv k by (intro of_nat_neq_0_u32) auto
  moreover have "of_nat (?a + k) - header_size = (of_nat (?a + k - 12) :: u32)"
    using k by (simp add: header_size_def of_nat_diff)
  ultimately have free: "kfree (heap_start s + of_nat k) s = kfree_coalesce (of_nat ?a) ?s"
    unfolding ptr kfree_def by (simp add: Let_def)
  have "seg (heap_space ?s) ?a (release k bs) 0"
    by (rule seg_release [OF inv(5) assms(2) inv(7)])
  then have "\<exists>s'. kfree_coalesce (of_nat ?a) ?s = Some s' \<and>
      same_outside ?a (?a + span (release k bs)) ?s s' \<and> seg (heap_space s') ?a (coalesce (release k bs)) 0"
    by (rule kfree_coalesce_refines) (use inv in auto)
  then show ?thesis
    using free inv by (auto simp: mm_inv_def heap_placed_def same_outside_def)
qed

lemma used_loop_exact:
  assumes "seg (heap_space s) a bs 0" "bs \<noteq> []" "0 < a" "a + span bs < 2 ^ 32" "u + used_bytes_of bs < 2 ^ 32"
  shows "used_loop (of_nat a) (of_nat u) s = Some (of_nat (u + used_bytes_of bs))"
  using assms
proof (induction bs arbitrary: a u)
  case (Cons b bs)
  obtain m f where b: "b = (m, f)" by (cases b)
  let ?u = "u + 12 + (if f then 0 else m)" and ?h = "heap_space s (of_nat a)"
  have hs: "hsize ?h = of_nat m"
    using Cons.prems b by auto
  have "(of_nat a :: u32) \<noteq> 0"
    using Cons.prems by (intro of_nat_neq_0_u32) auto
  then have step: "used_loop (of_nat a) (of_nat u) s =
      used_loop (if bs = [] then 0 else of_nat (a + 12 + m)) (of_nat ?u) s"
    using Cons.prems b hs by (subst used_loop.simps) (auto simp: Let_def header_size_def)
  show ?case
  proof (cases "bs = []")
    case True
    then show ?thesis using step b by (simp add: used_loop.simps)
  next
    case False
    have "used_loop (of_nat (a + 12 + m)) (of_nat ?u) s = Some (of_nat (?u + used_bytes_of bs))"
      by (rule Cons.IH) (use False Cons.prems b in auto)
    then show ?thesis using step False b by (simp add: ac_simps)
  qed
qed simp

lemma get_used_memory_sum:
  assumes "mm_inv s bs"
  shows "get_used_memory s = Some (of_nat (used_bytes_of bs))"
proof -
  note inv = mm_inv_simps [OF assms]
  have "used_loop (of_nat (unat (heap_start s))) (of_nat 0) s = Some (of_nat (0 + used_bytes_of bs))"
    by (rule used_loop_exact) (use inv used_bytes_of_le [of bs] in auto)
  then show ?thesis
    using inv by (simp add: get_used_memory_def)
qed

section \<open>The allocator contract\<close>

text \<open>The interface view: \<open>kmalloc\<close> as an operation that may not return (the panic), the
  well-formed states, and the live payload regions of a state.\<close>

definition kalloc :: "u32 \<Rightarrow> mm_state \<Rightarrow> (u32 \<times> mm_state) option" where
  "kalloc sz s = (case kmalloc sz s of Some (Allocated p s') \<Rightarrow> Some (p, s') | _ \<Rightarrow> None)"

definition mm_ok :: "mm_state \<Rightarrow> bool" where
  "mm_ok s \<longleftrightarrow> (\<exists>bs. mm_inv s bs)"

definition mm_live :: "mm_state \<Rightarrow> (nat \<times> nat) set" where
  "mm_live s = {r. \<exists>bs. mm_inv s bs \<and> r \<in> live_regions (unat (heap_start s)) bs}"

lemma mm_live_eq: "mm_inv s bs \<Longrightarrow> mm_live s = live_regions (unat (heap_start s)) bs"
  using mm_inv_unique by (auto simp: mm_live_def)

lemma kalloc_live:
  assumes "mm_inv s bs" "kalloc sz s = Some (p, s')"
  obtains bs' k len where "first_fit (unat (ALIGN sz)) bs = Some (k, bs')" "mm_inv s' bs'"
    "unat p = unat (heap_start s) + k + 12" "unat (ALIGN sz) \<le> len" "(unat p, len) \<notin> mm_live s"
    "mm_live s' = insert (unat p, len) (mm_live s)"
proof -
  note inv = mm_inv_simps [OF assms(1)]
  obtain k bs' where ff: "first_fit (unat (ALIGN sz)) bs = Some (k, bs')"
    and p: "p = heap_start s + of_nat (k + 12)" "heap_start s' = heap_start s" "mm_inv s' bs'"
    using kmalloc_first_fit [OF assms(1), of sz] assms(2)
    by (auto simp: kalloc_def split: option.splits)
  have "k + 12 \<le> span bs" by (rule first_fit_props(3) [OF ff])
  then have up: "unat p = unat (heap_start s) + k + 12"
    using inv(7) p(1) by (simp add: unat_of_nat_u32 unat_add_u32)
  obtain len where "unat (ALIGN sz) \<le> len" "(unat p, len) \<notin> live_regions (unat (heap_start s)) bs"
    "live_regions (unat (heap_start s)) bs' = insert (unat p, len) (live_regions (unat (heap_start s)) bs)"
    using first_fit_live [OF ff, of "unat (heap_start s)"] up by auto
  then show ?thesis
    using that ff up p mm_live_eq [OF assms(1)] mm_live_eq [OF p(3)] by auto
qed

lemma kfree_live:
  assumes "mm_inv s bs" "(unat p, len) \<in> mm_live s"
  obtains k s' where "payload_at k bs = Some (len, False)" "kfree p s = Some s'"
    "mm_inv s' (coalesce (release k bs))" "mm_live s' = mm_live s - {(unat p, len)}"
proof -
  obtain k where k: "unat p = unat (heap_start s) + k" "payload_at k bs = Some (len, False)"
    using assms(2) mm_live_eq [OF assms(1)] by (auto simp: live_regions_payload)
  have p: "p = heap_start s + of_nat k"
    using arg_cong [OF k(1), of "of_nat :: nat \<Rightarrow> u32"] by simp
  obtain s' where s': "kfree p s = Some s'" "heap_start s' = heap_start s" "mm_inv s' (coalesce (release k bs))"
    using kfree_release [OF assms(1) k(2)] p by auto
  have "mm_live s' = mm_live s - {(unat p, len)}"
    using mm_live_eq [OF assms(1)] mm_live_eq [OF s'(3)] s'(2) k
    by (simp add: live_regions_coalesce live_regions_release)
  then show ?thesis using that k(2) s' by blast
qed

lemma ALIGN_ge: "sz \<le> 0xFFFFFFF8 \<Longrightarrow> unat sz \<le> unat (ALIGN sz)"
  using ALIGN_exact [of sz] by simp

lemma kalloc_contract:
  assumes "mm_ok s" "n \<le> 0xFFFFFFF8" "kalloc n s = Some (p, s')"
  shows "mm_ok s' \<and> p \<noteq> 0 \<and>
    (\<exists>len \<ge> unat n. (unat p, len) \<notin> mm_live s \<and> mm_live s' = insert (unat p, len) (mm_live s))"
proof -
  obtain bs where bs: "mm_inv s bs" using assms(1) by (auto simp: mm_ok_def)
  obtain bs' k len where r: "mm_inv s' bs'" "unat p = unat (heap_start s) + k + 12"
    "unat (ALIGN n) \<le> len" "(unat p, len) \<notin> mm_live s"
    "mm_live s' = insert (unat p, len) (mm_live s)"
    by (rule kalloc_live [OF bs assms(3)])
  have "p \<noteq> 0" using r(2) by (metis add_is_0 unat_0 zero_neq_numeral)
  moreover have "unat n \<le> len" using ALIGN_ge [OF assms(2)] r(3) by simp
  moreover have "mm_ok s'" using r(1) by (auto simp: mm_ok_def)
  ultimately show ?thesis using r(4,5) by blast
qed

lemma kfree_contract:
  assumes "mm_ok s" "(unat p, len) \<in> mm_live s"
  shows "\<exists>s'. kfree p s = Some s' \<and> mm_ok s' \<and> mm_live s' = mm_live s - {(unat p, len)}"
proof -
  obtain bs where bs: "mm_inv s bs" using assms(1) by (auto simp: mm_ok_def)
  obtain s' k where "kfree p s = Some s'" "mm_inv s' (coalesce (release k bs))"
    "mm_live s' = mm_live s - {(unat p, len)}"
    by (rule kfree_live [OF bs assms(2)])
  then show ?thesis by (auto simp: mm_ok_def)
qed

lemma mm_live_disjoint: "mm_ok s \<Longrightarrow> disjoint_regions (mm_live s)"
  by (auto simp: mm_ok_def mm_live_eq live_regions_disjoint)

interpretation mm: region_allocator kalloc kfree mm_ok mm_live
  by (rule region_allocator.intro)
     (fact kalloc_contract kfree_contract mm_live_disjoint | simp add: kfree_def)+

lemma mm_live_bounds:
  assumes "mm_ok s" "(p, l) \<in> mm_live s"
  shows "unat (heap_start s) + 12 \<le> p \<and> p + l \<le> unat (heap_start s) + heap_bytes"
proof -
  obtain bs where bs: "mm_inv s bs" using assms(1) by (auto simp: mm_ok_def)
  then show ?thesis
    using live_regions_bounds [of p l "unat (heap_start s)" bs] assms(2) mm_live_eq [OF bs]
      mm_inv_simps(4) [OF bs] by auto
qed

lemma kmalloc_heap_start:
  assumes "mm_ok s" "kmalloc sz s = Some (Allocated p s')"
  shows "heap_start s' = heap_start s"
proof -
  obtain bs where bs: "mm_inv s bs" using assms(1) by (auto simp: mm_ok_def)
  show ?thesis
    using kmalloc_first_fit [OF bs, of sz] assms(2) by (auto split: option.splits)
qed

lemma first_fit_payload:
  assumes "first_fit n bs = Some (k, bs')"
  shows "\<exists>m f. payload_at (k + 12) bs' = Some (m, f)"
  using assms
  by (induction n bs arbitrary: k bs' rule: first_fit.induct) (auto split: if_splits option.splits simp: ac_simps)

text \<open>A heap at address 4 MiB, before its first use: the state the witnesses start from.\<close>

definition boot_heap :: mm_state where
  "boot_heap = \<lparr>heap_start = 0x400000, heap_space = (\<lambda>_. \<lparr>hsize = 0, is_free = 0, hnext = 0\<rparr>),
     mm_initialized = False\<rparr>"

lemma boot_heap_inv: "mm_inv (init_mm boot_heap) [(4194292, True)]"
  using init_mm_inv [of boot_heap] by (simp add: boot_heap_def heap_placed_def heap_bytes_def)

lemma boot_heap_ok: "mm_ok (init_mm boot_heap)"
  using boot_heap_inv by (auto simp: mm_ok_def)

section \<open>Main properties\<close>



text \<open>C2. Freeing the payload pointer of any block of a well-formed heap returns, marks that block
  free and merges every run of free neighbours: the block list of the new heap is the coalesced
  list, it has no two adjacent free blocks, and it still tiles the whole 4 MiB.\<close>

theorem kfree_refines_coalesce:
  assumes "mm_inv s bs" and "payload_at k bs = Some (m, f)"
  shows "\<exists>s'. kfree (heap_start s + of_nat k) s = Some s' \<and> mm_inv s' (coalesce (release k bs)) \<and>
    coalesced (coalesce (release k bs)) \<and> span (coalesce (release k bs)) = heap_bytes"
  using kfree_release [OF assms] coalesced_coalesce mm_inv_simps(4) [OF assms(1)] by auto

theorem kfree_refines_coalesce_witness:
  "\<exists>s'. kfree (0x400000 + 12) (init_mm boot_heap) = Some s' \<and> mm_inv s' [(4194292, True)]"
  using kfree_refines_coalesce [OF boot_heap_inv, of 12 4194292 True]
  by (auto simp: init_mm_def boot_heap_def Let_def)



text \<open>C4. On a heap without adjacent free blocks, \<open>kmalloc\<close> followed by \<open>kfree\<close> of the
  returned pointer restores the block list: nothing leaks and nothing stays fragmented.\<close>

theorem kmalloc_kfree_roundtrip:
  assumes "mm_inv s bs" and "coalesced bs" and "kmalloc sz s = Some (Allocated p s1)"
  shows "\<exists>s2. kfree p s1 = Some s2 \<and> mm_inv s2 bs \<and> get_used_memory s2 = get_used_memory s"
proof -
  obtain k bs' where ff: "first_fit (unat (ALIGN sz)) bs = Some (k, bs')"
    and p: "p = heap_start s1 + of_nat (k + 12)" "mm_inv s1 bs'"
    using kmalloc_first_fit [OF assms(1), of sz] assms(3) by (auto split: option.splits)
  obtain m f where "payload_at (k + 12) bs' = Some (m, f)"
    using first_fit_payload [OF ff] by auto
  then obtain s2 where "kfree p s1 = Some s2" "mm_inv s2 bs"
    using kfree_release [OF p(2)] p(1) coalesce_release_first_fit [OF assms(2) ff] by metis
  then show ?thesis
    using get_used_memory_sum assms(1) by metis
qed

theorem kmalloc_kfree_roundtrip_witness:
  "\<exists>p s1 s2. kmalloc 100 (init_mm boot_heap) = Some (Allocated p s1) \<and> kfree p s1 = Some s2 \<and>
     mm_inv s2 [(4194292, True)]"
proof -
  obtain s1 where s1: "kmalloc 100 (init_mm boot_heap) = Some (Allocated 0x40000C s1)"
    using kmalloc_first_fit [OF boot_heap_inv, of 100] ALIGN_exact [of 100]
    by (auto simp: init_mm_def boot_heap_def Let_def)
  show ?thesis
    using kmalloc_kfree_roundtrip [OF boot_heap_inv _ s1] s1 by auto
qed

text \<open>\<open>get_used_memory\<close> returns on every well-formed heap; its value is the bytes of all
  headers plus the payloads of the allocated blocks, and never exceeds \<open>get_total_memory\<close>, so the
  percentage shown by the system monitor is at most 100 and its 32-bit product does not
  overflow.\<close>

theorem get_used_memory_exact:
  assumes "mm_inv s bs"
  shows "\<exists>u. get_used_memory s = Some u \<and> unat u = used_bytes_of bs \<and> u \<le> get_total_memory \<and>
    unat (u * 100) = unat u * 100 \<and> unat (u * 100 div get_total_memory) \<le> 100"
proof -
  have le: "used_bytes_of bs \<le> 4194304"
    using used_bytes_of_le [of bs] mm_inv_simps(4) [OF assms] by (simp add: heap_bytes_def)
  define u :: u32 where "u = of_nat (used_bytes_of bs)"
  have u: "unat u = used_bytes_of bs" using le by (simp add: u_def unat_of_nat_u32)
  moreover have m: "unat (u * 100) = unat u * 100"
    using le u by (simp add: unat_word_ariths)
  moreover have "u \<le> get_total_memory"
    using le u by (simp add: word_le_nat_alt get_total_memory_def heap_bytes_def)
  moreover have "unat (u * 100 div get_total_memory) \<le> 100"
    using le u m by (simp add: unat_div get_total_memory_def heap_bytes_def)
  ultimately show ?thesis
    using get_used_memory_sum [OF assms] by (auto simp: u_def)
qed

theorem get_used_memory_exact_witness:
  "\<exists>u. get_used_memory (init_mm boot_heap) = Some u \<and> unat u = 12"
  using get_used_memory_exact [OF boot_heap_inv] by auto

text \<open>A request within seven bytes of the top of the 32-bit range is not refused: the rounding
  wraps to zero, so the call is the call for zero bytes and, when a free block exists, returns a
  block far smaller than asked for.\<close>

theorem kmalloc_huge_wraps:
  assumes "0xFFFFFFF8 < sz"
  shows "kmalloc sz s = kmalloc 0 s"
  using ALIGN_wraps [OF assms] by (simp add: kmalloc_def ALIGN_def)

theorem kmalloc_huge_wraps_witness:
  "\<exists>s'. kmalloc 0xFFFFFFF9 (init_mm boot_heap) = Some (Allocated 0x40000C s') \<and>
     mm_inv s' [(0, False), (4194280, True)]"
proof -
  have "kmalloc 0xFFFFFFF9 (init_mm boot_heap) = kmalloc 0 (init_mm boot_heap)"
    by (rule kmalloc_huge_wraps) simp
  then show ?thesis
    using kmalloc_first_fit [OF boot_heap_inv, of 0] ALIGN_exact [of 0]
    by (auto simp: init_mm_def boot_heap_def Let_def)
qed

end
