(* ===== verification/Port_IO.thy ===== *)
theory Port_IO
  imports Prelude
begin

text \<open>
  The x86 I/O ports as the drivers see them (\<open>inb\<close>, \<open>outb\<close>, \<open>inw\<close>, \<open>outw\<close>,
  \<open>inl\<close>, \<open>outl\<close> in \<open>src/idt.c\<close>, \<open>src/serial.c\<close>, \<open>src/diskio.c\<close> and
  \<open>src/rtl8139.c\<close>).  The hardware behind the ports is not part of the program, so it is a
  parameter: a record of functions on a hardware state of arbitrary type.  A read may change that
  state (reading a data port consumes a byte).

  \<open>recorder\<close> is the most general hardware: its state is the history of accesses, and what a read
  returns is an arbitrary function of that history.  Statements about the order of port accesses
  are made over it.
\<close>

record 'd ports =
  in8 :: "u16 \<Rightarrow> 'd \<Rightarrow> u8 \<times> 'd"
  out8 :: "u16 \<Rightarrow> u8 \<Rightarrow> 'd \<Rightarrow> 'd"
  in16 :: "u16 \<Rightarrow> 'd \<Rightarrow> u16 \<times> 'd"
  out16 :: "u16 \<Rightarrow> u16 \<Rightarrow> 'd \<Rightarrow> 'd"
  in32 :: "u16 \<Rightarrow> 'd \<Rightarrow> u32 \<times> 'd"
  out32 :: "u16 \<Rightarrow> u32 \<Rightarrow> 'd \<Rightarrow> 'd"

definition outb :: "'d ports \<Rightarrow> u16 \<Rightarrow> u8 \<Rightarrow> 'd \<Rightarrow> 'd" where
  "outb B port val d = out8 B port val d"

definition inb :: "'d ports \<Rightarrow> u16 \<Rightarrow> 'd \<Rightarrow> u8 \<times> 'd" where
  "inb B port d = in8 B port d"

text \<open>A straight line of port writes.\<close>

primrec outbs :: "'d ports \<Rightarrow> (u16 \<times> u8) list \<Rightarrow> 'd \<Rightarrow> 'd" where
  "outbs B [] d = d"
| "outbs B (w # ws) d = outbs B ws (outb B (fst w) (snd w) d)"

datatype io_event =
    In8 u16 | Out8 u16 u8 | In16 u16 | Out16 u16 u16 | In32 u16 | Out32 u16 u32

definition recorder :: "(io_event list \<Rightarrow> u32) \<Rightarrow> io_event list ports" where
  "recorder f = \<lparr>
     in8 = (\<lambda>p h. (ucast (f (h @ [In8 p])), h @ [In8 p])), out8 = (\<lambda>p v h. h @ [Out8 p v]),
     in16 = (\<lambda>p h. (ucast (f (h @ [In16 p])), h @ [In16 p])), out16 = (\<lambda>p v h. h @ [Out16 p v]),
     in32 = (\<lambda>p h. (f (h @ [In32 p]), h @ [In32 p])), out32 = (\<lambda>p v h. h @ [Out32 p v])\<rparr>"

lemma recorder_simps [simp]:
  "inb (recorder f) p h = (ucast (f (h @ [In8 p])), h @ [In8 p])"
  "outb (recorder f) p v h = h @ [Out8 p v]"
  by (simp_all add: inb_def outb_def recorder_def)

lemma outbs_append: "outbs B (xs @ ys) d = outbs B ys (outbs B xs d)"
  by (induction xs arbitrary: d) auto

lemma outbs_recorder [simp]: "outbs (recorder f) ws h = h @ map (\<lambda>(p, v). Out8 p v) ws"
  by (induction ws arbitrary: h) auto

text \<open>\<open>keeps B P I\<close>: accesses to the ports in \<open>P\<close> preserve the hardware property \<open>I\<close>.\<close>

definition keeps :: "'d ports \<Rightarrow> u16 set \<Rightarrow> ('d \<Rightarrow> bool) \<Rightarrow> bool" where
  "keeps B P I \<longleftrightarrow> (\<forall>p \<in> P. \<forall>d. I d \<longrightarrow> I (snd (inb B p d)) \<and> (\<forall>v. I (outb B p v d)))"

lemma keeps_outbs: "keeps B P I \<Longrightarrow> fst ` set ws \<subseteq> P \<Longrightarrow> I d \<Longrightarrow> I (outbs B ws d)"
  by (induction ws arbitrary: d) (auto simp: keeps_def)

end
