(* ===== verification/C_Text.thy ===== *)
theory C_Text
  imports Prelude
begin

text \<open>
  Text as the C code handles it.  A C string that is only read is the list of its characters
  before the terminating zero (\<open>cstr\<close> reads one out of a buffer).  The variable arguments of the
  two formatters are a list of values; an argument of the wrong kind, or a missing one, is undefined
  behaviour, \<^const>\<open>None\<close> in the model.  The decimal notation of a number is defined here once,
  as the reference for every integer printer of the system.
\<close>

datatype va_arg = VStr string | VNull | VInt int

definition NUL :: char where "NUL = CHR 0x00"

text \<open>The string at the start of a buffer; no terminator inside the buffer is \<^const>\<open>None\<close>.\<close>

fun cstr :: "char list \<Rightarrow> string option" where
  "cstr [] = None"
| "cstr (c # cs) = (if c = NUL then Some [] else map_option ((#) c) (cstr cs))"

text \<open>\<open>'0' + d\<close>.\<close>

definition digit_char :: "nat \<Rightarrow> char" where
  "digit_char d = char_of (48 + d)"

text \<open>Reference: decimal notation, most significant digit first.\<close>

fun dec :: "nat \<Rightarrow> string" where
  "dec n = (if n < 10 then [digit_char n] else dec (n div 10) @ [digit_char (n mod 10)])"

declare dec.simps [simp del]

definition dec_int :: "int \<Rightarrow> string" where
  "dec_int i = (if i < 0 then ''-'' @ dec (nat (- i)) else dec (nat i))"

text \<open>The digits of a positive number, least significant first, as the printers produce them.\<close>

fun rev_digits :: "nat \<Rightarrow> string" where
  "rev_digits n = (if n = 0 then [] else digit_char (n mod 10) # rev_digits (n div 10))"

declare rev_digits.simps [simp del]

text \<open>A digit buffer is filled from index 0, least significant digit first.  The negation is the two's complement one, so the most negative number stays negative and prints as a
  lone minus sign.\<close>

definition neg32 :: "int \<Rightarrow> int" where
  "neg32 n = (if n = - 2147483648 then n else - n)"

function fill_digits :: "char list \<Rightarrow> nat \<Rightarrow> int \<Rightarrow> (char list \<times> nat) option" where
  "fill_digits buf i num =
     (if num > 0 then do {
        buf \<leftarrow> put_at i (digit_char (nat (num mod 10))) buf;
        fill_digits buf (i + 1) (num div 10)
      } else Some (buf, i))"
  by auto
termination by (relation "measure (\<lambda>(_, _, n). nat n)") auto

declare fill_digits.simps [simp del]

text \<open>The most negative number is its own negation, so only its sign is printed.\<close>

definition int_text :: "int \<Rightarrow> string" where
  "int_text i = (if i = - 2147483648 then ''-'' else dec_int i)"

lemma rev_digits_dec: "0 < n \<Longrightarrow> rev (rev_digits n) = dec n"
proof (induction n rule: rev_digits.induct)
  case (1 n)
  then show ?case
    by (cases "n < 10") (simp_all add: rev_digits.simps [of n] dec.simps [of n] rev_digits.simps [of 0])
qed

lemma of_char_digit: "d < 10 \<Longrightarrow> of_char (digit_char d) = (48 + d :: nat)"
  by (simp add: digit_char_def)

lemma length_dec: "0 < k \<Longrightarrow> n < 10 ^ k \<Longrightarrow> length (dec n) \<le> k"
proof (induction n arbitrary: k rule: dec.induct)
  case (1 n)
  show ?case
  proof (cases "n < 10")
    case False
    then obtain j where k: "k = Suc j" "0 < j" using "1.prems" by (cases k; cases "k - 1") auto
    then have "n div 10 < 10 ^ j" using "1.prems"(2) by (simp add: less_mult_imp_div_less mult.commute)
    then show ?thesis using "1.IH" [OF False k(2)] k by (simp add: dec.simps [of n])
  qed (use "1.prems"(1) in \<open>simp add: dec.simps [of n]\<close>)
qed

lemma cstr_append: "NUL \<notin> set s \<Longrightarrow> cstr (s @ NUL # t) = Some s"
  by (induction s) auto

lemma cstr_last: "b \<noteq> [] \<Longrightarrow> last b = NUL \<Longrightarrow> \<exists>s. cstr b = Some s"
  by (induction b) (auto split: if_splits)

lemma cstr_Some: "cstr b = Some s \<Longrightarrow> NUL \<notin> set s \<and> (\<exists>t. b = s @ NUL # t)"
proof (induction b arbitrary: s)
  case (Cons c b)
  show ?case
  proof (cases "c = NUL")
    case True
    then show ?thesis using Cons.prems by simp
  next
    case False
    then obtain s' where "cstr b = Some s'" "s = c # s'" using Cons.prems by auto
    then show ?thesis using Cons.IH False by fastforce
  qed
qed simp

lemma NUL_notin_dec: "NUL \<notin> set (dec n)"
proof (induction n rule: dec.induct)
  case (1 n)
  have "NUL \<noteq> digit_char d" if "d < 10" for d
  proof
    assume "NUL = digit_char d"
    then have "of_char NUL = (48 + d :: nat)" using of_char_digit [OF that] by simp
    then show False by (simp add: NUL_def)
  qed
  then show ?case using 1 by (auto simp: dec.simps [of n])
qed

lemma fill_digits_spec:
  assumes "i + length (rev_digits (nat num)) \<le> length buf"
  shows "\<exists>buf'. fill_digits buf i num = Some (buf', i + length (rev_digits (nat num))) \<and> length buf' = length buf \<and>
    take i buf' = take i buf \<and> take (length (rev_digits (nat num))) (drop i buf') = rev_digits (nat num)"
  using assms
proof (induction buf i num rule: fill_digits.induct)
  case (1 buf i num)
  show ?case
  proof (cases "num > 0")
    case True
    define c where "c = digit_char (nat (num mod 10))"
    have n: "rev_digits (nat num) = c # rev_digits (nat (num div 10))"
      using True by (simp add: rev_digits.simps [of "nat num"] c_def nat_mod_distrib nat_div_distrib)
    then have i: "i < length buf" using "1.prems" by simp
    obtain buf' where b: "fill_digits (buf[i := c]) (i + 1) (num div 10) = Some (buf', i + length (rev_digits (nat num)))"
      "length buf' = length buf" "take (i + 1) buf' = take (i + 1) (buf[i := c])"
      "take (length (rev_digits (nat (num div 10)))) (drop (i + 1) buf') = rev_digits (nat (num div 10))"
      using "1.IH" [OF True, of "buf[i := c]"] "1.prems" n i by (auto simp: c_def)
    have at: "buf' ! i = c" using arg_cong [OF b(3), of "\<lambda>l. l ! i"] i by simp
    have "take i buf' = take i buf" using arg_cong [OF b(3), of "take i"] by (simp add: min_def)
    moreover have "drop i buf' = c # drop (i + 1) buf'" using Cons_nth_drop_Suc [of i buf'] i b(2) at by simp
    ultimately show ?thesis
      using b(1,2,4) n i True by (simp add: fill_digits.simps [of buf i num] c_def)
  next
    case False
    then show ?thesis by (simp add: fill_digits.simps [of buf i num] rev_digits.simps [of 0])
  qed
qed

lemma dec_0: "dec 0 = ''0''"
  by code_simp

lemma length_rev_digits: "0 < n \<Longrightarrow> length (rev_digits n) = length (dec n)"
  using arg_cong [OF rev_digits_dec, of n length] by simp

lemma fill_digits_dec:
  assumes "0 < n" "n < 4294967296" "10 \<le> length buf"
  shows "\<exists>buf'. fill_digits buf 0 (int n) = Some (buf', length (dec n)) \<and> length buf' = length buf \<and>
    rev (take (length (dec n)) buf') = dec n \<and> length (dec n) \<le> 10"
proof -
  have "length (dec n) \<le> 10" using assms length_dec [of 10 n] by simp
  then show ?thesis
    using fill_digits_spec [of 0 "int n" buf] assms length_rev_digits [of n] rev_digits_dec [of n] by auto
qed

end
