(* ===== verification/Serial.thy ===== *)
theory Serial
  imports Port_IO C_Text
begin

text \<open>
  The serial console, \<open>src/serial.c\<close>: port initialisation, polled character output, the integer
  printer and the formatter \<open>serial_printf\<close>.  Waiting for the transmitter may go on forever when
  the hardware never reports ready; this is the only way a call does not return, and the theory
  proves that it returns on a transmitter that keeps becoming ready.  All other components call
  \<open>serial_printf\<close> for diagnostics only; the frame property shows that such a call touches the
  COM1 ports and nothing else, which justifies leaving it out of their models.
\<close>

definition COM1 :: u16 where "COM1 = 0x3F8"

definition init_serial :: "'d ports \<Rightarrow> 'd \<Rightarrow> 'd" where
  "init_serial B d = outbs B
     [(COM1 + 1, 0x00), (COM1 + 3, 0x80), (COM1 + 0, 0x03), (COM1 + 1, 0x00),
      (COM1 + 3, 0x03), (COM1 + 2, 0xC7), (COM1 + 4, 0x0B)] d"

definition is_transmit_empty :: "'d ports \<Rightarrow> 'd \<Rightarrow> u8 \<times> 'd" where
  "is_transmit_empty B d = (let (v, d) = inb B (COM1 + 5) d in (v AND 0x20, d))"

text \<open>\<open>while (is_transmit_empty() == 0);\<close>\<close>

partial_function (option) wait_transmit :: "'d ports \<Rightarrow> 'd \<Rightarrow> 'd option" where
  "wait_transmit B d =
     (if fst (is_transmit_empty B d) = 0 then wait_transmit B (snd (is_transmit_empty B d))
      else Some (snd (is_transmit_empty B d)))"

definition write_serial_char :: "'d ports \<Rightarrow> char \<Rightarrow> 'd \<Rightarrow> 'd option" where
  "write_serial_char B a d = do { d \<leftarrow> wait_transmit B d; Some (outb B COM1 (of_char a) d) }"

primrec write_serial_string :: "'d ports \<Rightarrow> string \<Rightarrow> 'd \<Rightarrow> 'd option" where
  "write_serial_string B [] d = Some d"
| "write_serial_string B (c # cs) d = do { d \<leftarrow> write_serial_char B c d; write_serial_string B cs d }"

text \<open>The second loop prints the digit buffer backwards.\<close>

primrec print_backwards :: "'d ports \<Rightarrow> char list \<Rightarrow> nat \<Rightarrow> 'd \<Rightarrow> 'd option" where
  "print_backwards B buf 0 d = Some d"
| "print_backwards B buf (Suc j) d = do {
     c \<leftarrow> get_at buf j;
     d \<leftarrow> write_serial_char B c d;
     print_backwards B buf j d
   }"

definition serial_print_int :: "'d ports \<Rightarrow> int \<Rightarrow> 'd \<Rightarrow> 'd option" where
  "serial_print_int B num d =
     (if num = 0 then write_serial_char B CHR ''0'' d
      else do {
        d \<leftarrow> (if num < 0 then write_serial_char B CHR ''-'' d else Some d);
        let num = (if num < 0 then neg32 num else num);
        (buf, i) \<leftarrow> fill_digits (replicate 32 NUL) 0 num;
        print_backwards B buf i d
      })"

fun serial_printf :: "'d ports \<Rightarrow> string \<Rightarrow> va_arg list \<Rightarrow> 'd \<Rightarrow> 'd option" where
  "serial_printf B [] args d = Some d"
| "serial_printf B [c] args d = write_serial_char B c d"
| "serial_printf B (c # f # fmt) args d =
     (if c = CHR ''%'' then
        (if f = CHR ''s'' then
           (case args of VStr s # args \<Rightarrow> do { d \<leftarrow> write_serial_string B s d; serial_printf B fmt args d } | _ \<Rightarrow> None)
         else if f = CHR ''d'' then
           (case args of VInt i # args \<Rightarrow> do { d \<leftarrow> serial_print_int B i d; serial_printf B fmt args d } | _ \<Rightarrow> None)
         else if f = CHR ''c'' then
           (case args of VInt i # args \<Rightarrow> do { d \<leftarrow> write_serial_char B (char_of (nat (i mod 256))) d; serial_printf B fmt args d } | _ \<Rightarrow> None)
         else serial_printf B fmt args d)
      else do { d \<leftarrow> write_serial_char B c d; serial_printf B (f # fmt) args d })"

section \<open>A conforming transmitter\<close>

text \<open>Documented behaviour of the UART: a byte written to the data port is sent; reading the line
  status sends nothing, and while the transmitter is busy it comes closer to being ready.\<close>

definition uart_conforms :: "'d ports \<Rightarrow> ('d \<Rightarrow> u8 list) \<Rightarrow> ('d \<Rightarrow> nat) \<Rightarrow> bool" where
  "uart_conforms B sent busy \<longleftrightarrow>
     (\<forall>d v. sent (outb B COM1 v d) = sent d @ [v]) \<and>
     (\<forall>d. sent (snd (inb B (COM1 + 5) d)) = sent d \<and>
          (fst (inb B (COM1 + 5) d) AND 0x20 = 0 \<longrightarrow> busy (snd (inb B (COM1 + 5) d)) < busy d))"

text \<open>What a format means.\<close>

fun serial_text :: "string \<Rightarrow> va_arg list \<Rightarrow> string option" where
  "serial_text [] args = Some []"
| "serial_text [c] args = Some [c]"
| "serial_text (c # f # fmt) args =
     (if c = CHR ''%'' then
        (if f = CHR ''s'' then
           (case args of VStr s # args \<Rightarrow> map_option ((@) s) (serial_text fmt args) | _ \<Rightarrow> None)
         else if f = CHR ''d'' then
           (case args of VInt i # args \<Rightarrow> map_option ((@) (int_text i)) (serial_text fmt args) | _ \<Rightarrow> None)
         else if f = CHR ''c'' then
           (case args of VInt i # args \<Rightarrow> map_option ((#) (char_of (nat (i mod 256)))) (serial_text fmt args) | _ \<Rightarrow> None)
         else serial_text fmt args)
      else map_option ((#) c) (serial_text (f # fmt) args))"

section \<open>What is sent\<close>

lemma wait_transmit_ready:
  assumes "uart_conforms B sent busy"
  shows "\<exists>d'. wait_transmit B d = Some d' \<and> sent d' = sent d"
proof (induction "busy d" arbitrary: d rule: less_induct)
  case less
  let ?d = "snd (inb B (COM1 + 5) d)"
  have st: "is_transmit_empty B d = (fst (inb B (COM1 + 5) d) AND 0x20, ?d)"
    by (simp add: is_transmit_empty_def Let_def split_beta)
  have s: "sent ?d = sent d" using assms by (simp add: uart_conforms_def)
  show ?case
  proof (cases "fst (inb B (COM1 + 5) d) AND 0x20 = 0")
    case True
    then have "busy ?d < busy d" using assms by (simp add: uart_conforms_def)
    from less.hyps [OF this] show ?thesis
      using True s by (simp add: wait_transmit.simps [of B d] st)
  next
    case False
    then show ?thesis using s by (simp add: wait_transmit.simps [of B d] st)
  qed
qed

text \<open>An output operation sends exactly the bytes of a text.\<close>

definition sends :: "('d \<Rightarrow> u8 list) \<Rightarrow> ('d \<Rightarrow> 'd option) \<Rightarrow> string \<Rightarrow> bool" where
  "sends sent f t \<longleftrightarrow> (\<forall>d. \<exists>d'. f d = Some d' \<and> sent d' = sent d @ map of_char t)"

lemma sends_bind: "sends sent f t \<Longrightarrow> sends sent g u \<Longrightarrow> sends sent (\<lambda>d. f d \<bind> g) (t @ u)"
  unfolding sends_def by (metis Option.bind.bind_lunit append.assoc map_append)

lemma sends_Some: "sends sent Some []"
  by (simp add: sends_def)

lemma write_serial_char_sends:
  assumes "uart_conforms B sent busy"
  shows "sends sent (write_serial_char B c) [c]"
  unfolding sends_def
proof
  fix d
  obtain d' where "wait_transmit B d = Some d'" "sent d' = sent d"
    using wait_transmit_ready [OF assms, of d] by auto
  then show "\<exists>d'. write_serial_char B c d = Some d' \<and> sent d' = sent d @ map of_char [c]"
    using assms by (simp add: write_serial_char_def uart_conforms_def)
qed

lemma write_serial_string_sends:
  assumes "uart_conforms B sent busy"
  shows "sends sent (write_serial_string B t) t"
proof (induction t)
  case (Cons c t)
  have "sends sent (\<lambda>d. write_serial_char B c d \<bind> write_serial_string B t) ([c] @ t)"
    by (rule sends_bind [OF write_serial_char_sends [OF assms] Cons])
  then show ?case by (simp add: sends_def)
qed (simp add: sends_def)

lemma print_backwards_sends:
  assumes "uart_conforms B sent busy" "n \<le> length buf"
  shows "sends sent (print_backwards B buf n) (rev (take n buf))"
  using assms(2)
proof (induction n)
  case (Suc n)
  have "sends sent (\<lambda>d. write_serial_char B (buf ! n) d \<bind> print_backwards B buf n) ([buf ! n] @ rev (take n buf))"
    by (rule sends_bind [OF write_serial_char_sends [OF assms(1)]]) (use Suc in simp)
  then show ?case using Suc.prems by (simp add: sends_def take_Suc_conv_app_nth)
qed (simp add: sends_def)

lemma print_positive_sends:
  assumes "uart_conforms B sent busy" "0 < n" "n < 2147483648"
  shows "\<exists>buf i. fill_digits (replicate 32 NUL) 0 (int n) = Some (buf, i) \<and> sends sent (print_backwards B buf i) (dec n)"
proof -
  have len: "length (rev_digits n) \<le> 10" using assms length_dec [of 10 n] by (simp add: length_rev_digits)
  obtain buf where buf: "fill_digits (replicate 32 NUL) 0 (int n) = Some (buf, length (rev_digits n))"
    "length buf = 32" "take (length (rev_digits n)) buf = rev_digits n"
    using fill_digits_spec [of 0 "int n" "replicate 32 NUL"] len by auto
  have "sends sent (print_backwards B buf (length (rev_digits n))) (rev (take (length (rev_digits n)) buf))"
    by (rule print_backwards_sends [OF assms(1)]) (use buf len in simp)
  then show ?thesis using buf rev_digits_dec [OF assms(2)] by auto
qed

lemma serial_print_int_sends:
  assumes u: "uart_conforms B sent busy" and r: "- 2147483648 \<le> i" "i < 2147483648"
  shows "sends sent (serial_print_int B i) (int_text i)"
proof -
  note char = write_serial_char_sends [OF u]
  consider "i = 0" | "0 < i" | "i < 0" "i \<noteq> - 2147483648" | "i = - 2147483648" using r by linarith
  then show ?thesis
  proof cases
    case 1
    then show ?thesis using char [of "CHR ''0''"]
      by (simp add: serial_print_int_def sends_def int_text_def dec_int_def dec_0)
  next
    case 2
    then obtain buf k where "fill_digits (replicate 32 NUL) 0 i = Some (buf, k)" "sends sent (print_backwards B buf k) (dec (nat i))"
      using print_positive_sends [OF u, of "nat i"] r by (auto simp: nat_less_iff)
    then show ?thesis using 2 by (simp add: serial_print_int_def sends_def int_text_def dec_int_def)
  next
    case 3
    then obtain buf k where f: "fill_digits (replicate 32 NUL) 0 (- i) = Some (buf, k)" "sends sent (print_backwards B buf k) (dec (nat (- i)))"
      using print_positive_sends [OF u, of "nat (- i)"] r by (auto simp: nat_less_iff)
    have "sends sent (\<lambda>d. write_serial_char B CHR ''-'' d \<bind> print_backwards B buf k) (''-'' @ dec (nat (- i)))"
      by (rule sends_bind [OF char f(2)])
    then show ?thesis using 3 f(1) by (simp add: serial_print_int_def sends_def int_text_def dec_int_def neg32_def)
  next
    case 4
    then show ?thesis using char [of "CHR ''-''"]
      by (simp add: serial_print_int_def sends_def int_text_def neg32_def fill_digits.simps bind_eq_Some_conv)
  qed
qed

definition int_args :: "va_arg list \<Rightarrow> bool" where
  "int_args args \<longleftrightarrow> (\<forall>i. VInt i \<in> set args \<longrightarrow> - 2147483648 \<le> i \<and> i < 2147483648)"

lemma serial_printf_sends:
  assumes u: "uart_conforms B sent busy"
  shows "serial_text fmt args = Some t \<Longrightarrow> int_args args \<Longrightarrow> sends sent (serial_printf B fmt args) t"
proof (induction fmt args arbitrary: t rule: serial_text.induct)
  case (1 args)
  then show ?case by (simp add: sends_def)
next
  case (2 c args)
  then show ?case using write_serial_char_sends [OF u, of c] by (auto simp: sends_def)
next
  case (3 c f fmt args)
  have int_tl: "int_args as" if "args = a # as" for a as
    using "3.prems"(2) that by (simp add: int_args_def)
  consider "c \<noteq> CHR ''%''" | "c = CHR ''%''" "f \<notin> {CHR ''s'', CHR ''d'', CHR ''c''}"
    | "c = CHR ''%''" "f = CHR ''s''" | "c = CHR ''%''" "f = CHR ''d''" | "c = CHR ''%''" "f = CHR ''c''" by blast
  then show ?case
  proof cases
    case 1
    then obtain v where v: "serial_text (f # fmt) args = Some v" "t = c # v" using "3.prems"(1) by auto
    have "sends sent (\<lambda>d. write_serial_char B c d \<bind> serial_printf B (f # fmt) args) ([c] @ v)"
      by (rule sends_bind [OF write_serial_char_sends [OF u] "3.IH"(5) [OF 1 v(1) "3.prems"(2)]])
    then show ?thesis using 1 v by (simp add: sends_def)
  next
    case 2
    then show ?thesis using "3.IH"(4) "3.prems" by (simp add: sends_def)
  next
    case 3
    then obtain s as v where v: "args = VStr s # as" "serial_text fmt as = Some v" "t = s @ v"
      using "3.prems"(1) by (auto split: list.splits va_arg.splits)
    have "sends sent (\<lambda>d. write_serial_string B s d \<bind> serial_printf B fmt as) (s @ v)"
      by (rule sends_bind [OF write_serial_string_sends [OF u] "3.IH"(1) [OF 3 v(1) refl v(2) int_tl [OF v(1)]]])
    then show ?thesis using 3 v by (simp add: sends_def)
  next
    case 4
    then obtain i as v where v: "args = VInt i # as" "serial_text fmt as = Some v" "t = int_text i @ v"
      using "3.prems"(1) by (auto split: list.splits va_arg.splits)
    then have "- 2147483648 \<le> i" "i < 2147483648" using "3.prems"(2) by (auto simp: int_args_def)
    then have "sends sent (\<lambda>d. serial_print_int B i d \<bind> serial_printf B fmt as) (int_text i @ v)"
      using sends_bind [OF serial_print_int_sends [OF u] "3.IH"(2) [OF 4(1) _ 4(2) v(1) refl v(2) int_tl [OF v(1)]]] 4 by simp
    then show ?thesis using 4 v by (simp add: sends_def)
  next
    case 5
    then obtain i as v where v: "args = VInt i # as" "serial_text fmt as = Some v" "t = [char_of (nat (i mod 256))] @ v"
      using "3.prems"(1) by (auto split: list.splits va_arg.splits)
    have "sends sent (\<lambda>d. write_serial_char B (char_of (nat (i mod 256))) d \<bind> serial_printf B fmt as) ([char_of (nat (i mod 256))] @ v)"
      using sends_bind [OF write_serial_char_sends [OF u] "3.IH"(3) [OF 5(1) _ _ 5(2) v(1) refl v(2) int_tl [OF v(1)]]] 5 by simp
    then show ?thesis using 5 v by (simp add: sends_def)
  qed
qed

section \<open>The frame of diagnostics\<close>

definition com1_ports :: "u16 set" where
  "com1_ports = {COM1, COM1 + 1, COM1 + 2, COM1 + 3, COM1 + 4, COM1 + 5}"

definition preserves :: "('d \<Rightarrow> bool) \<Rightarrow> ('d \<Rightarrow> 'd option) \<Rightarrow> bool" where
  "preserves I f \<longleftrightarrow> (\<forall>d d'. f d = Some d' \<longrightarrow> I d \<longrightarrow> I d')"

lemma preserves_bind: "preserves I f \<Longrightarrow> preserves I g \<Longrightarrow> preserves I (\<lambda>d. f d \<bind> g)"
  by (auto simp: preserves_def bind_eq_Some_conv)

lemma wait_transmit_frame:
  assumes "keeps B com1_ports I"
  shows "preserves I (wait_transmit B)"
proof -
  have "keeps B com1_ports I \<longrightarrow> I d \<longrightarrow> I d'" if "wait_transmit B d = Some d'" for d d'
    using that
  proof (rule wait_transmit.raw_induct [rotated])
    fix f and B :: "'a ports" and d d'
    assume IH: "\<And>B d d'. f B d = Some d' \<Longrightarrow> keeps B com1_ports I \<longrightarrow> I d \<longrightarrow> I d'"
      and eq: "(if fst (is_transmit_empty B d) = 0 then f B (snd (is_transmit_empty B d))
        else Some (snd (is_transmit_empty B d))) = Some d'"
    have "keeps B com1_ports I \<Longrightarrow> I d \<Longrightarrow> I (snd (is_transmit_empty B d))"
      by (simp add: keeps_def com1_ports_def is_transmit_empty_def Let_def split_beta)
    then show "keeps B com1_ports I \<longrightarrow> I d \<longrightarrow> I d'"
      using eq IH by (auto split: if_splits)
  qed
  then show ?thesis using assms by (simp add: preserves_def)
qed

lemma write_serial_char_frame:
  assumes "keeps B com1_ports I"
  shows "preserves I (write_serial_char B c)"
  unfolding write_serial_char_def [abs_def]
  by (rule preserves_bind [OF wait_transmit_frame [OF assms]])
     (use assms in \<open>simp add: preserves_def keeps_def com1_ports_def\<close>)

lemma write_serial_string_frame:
  assumes "keeps B com1_ports I"
  shows "preserves I (write_serial_string B t)"
proof (induction t)
  case (Cons c t)
  from preserves_bind [OF write_serial_char_frame [OF assms] this] show ?case
    by (simp add: preserves_def)
qed (simp add: preserves_def)

lemma print_backwards_frame:
  assumes "keeps B com1_ports I"
  shows "preserves I (print_backwards B buf n)"
proof (induction n)
  case (Suc n)
  from preserves_bind [OF write_serial_char_frame [OF assms] this] show ?case
    by (auto simp: preserves_def bind_eq_Some_conv)
qed (simp add: preserves_def)

lemma serial_print_int_frame:
  assumes "keeps B com1_ports I"
  shows "preserves I (serial_print_int B i)"
  using write_serial_char_frame [OF assms] print_backwards_frame [OF assms]
  unfolding preserves_def serial_print_int_def
  by (auto simp: bind_eq_Some_conv Let_def split: if_splits prod.splits)

lemma serial_printf_frame:
  assumes "keeps B com1_ports I"
  shows "preserves I (serial_printf B fmt args)"
proof (induction fmt args rule: serial_text.induct)
  case (1 args)
  show ?case by (simp add: preserves_def)
next
  case (2 c args)
  show ?case using write_serial_char_frame [OF assms, of c] by (simp add: preserves_def)
next
  case (3 c f fmt args)
  note char = preserves_bind [OF write_serial_char_frame [OF assms]]
    and str = preserves_bind [OF write_serial_string_frame [OF assms]]
    and int = preserves_bind [OF serial_print_int_frame [OF assms]]
  have none: "preserves I (\<lambda>_. None)" by (simp add: preserves_def)
  consider "c \<noteq> CHR ''%''" | "c = CHR ''%''" "f \<notin> {CHR ''s'', CHR ''d'', CHR ''c''}"
    | "c = CHR ''%''" "f = CHR ''s''" | "c = CHR ''%''" "f = CHR ''d''" | "c = CHR ''%''" "f = CHR ''c''" by blast
  then show ?case
  proof cases
    case 1
    from char [OF "3.IH"(5) [OF 1], of c] 1 show ?thesis by (simp add: preserves_def)
  next
    case 2
    from "3.IH"(4) 2 show ?thesis by (simp add: preserves_def)
  next
    case 3
    then show ?thesis using str [OF "3.IH"(1) [OF 3]] none
      by (cases args; cases "hd args") (simp_all add: preserves_def)
  next
    case 4
    then show ?thesis using int [OF "3.IH"(2) [OF 4(1) _ 4(2)]] none
      by (cases args; cases "hd args") (simp_all add: preserves_def)
  next
    case 5
    then show ?thesis using char [OF "3.IH"(3) [OF 5(1) _ _ 5(2)]] none
      by (cases args; cases "hd args") (simp_all add: preserves_def)
  qed
qed

section \<open>Main properties\<close>

text \<open>A concrete transmitter for the witnesses: it logs what is sent and is busy for two polls after
  each byte.\<close>

definition demo_uart :: "(u8 list \<times> nat) ports" where
  "demo_uart = \<lparr>
     in8 = (\<lambda>p (out, n). if n = 0 then (0x20, out, n) else (0, out, n - 1)),
     out8 = (\<lambda>p v (out, n). if p = COM1 then (out @ [v], 2) else (out, n)),
     in16 = (\<lambda>p d. (0, d)), out16 = (\<lambda>p v d. d), in32 = (\<lambda>p d. (0, d)), out32 = (\<lambda>p v d. d)\<rparr>"

lemma demo_uart_conforms: "uart_conforms demo_uart fst snd"
  by (auto simp: uart_conforms_def demo_uart_def inb_def outb_def)



text \<open>Diagnostics disturb nothing: whatever property of the hardware is insensitive to the six
  COM1 ports is preserved by \<open>serial_printf\<close>, for every format and arguments.\<close>

theorem serial_printf_only_com1:
  assumes "keeps B com1_ports I" and "serial_printf B fmt args d = Some d'" and "I d"
  shows "I d'"
  using serial_printf_frame [OF assms(1)] assms(2,3) by (auto simp: preserves_def)

theorem serial_printf_only_com1_witness:
  "\<exists>h'. serial_printf (recorder (\<lambda>_. 0x20)) ''ok'' [] [] = Some h' \<and> Out8 0x20 0x20 \<notin> set h'"
proof -
  let ?B = "recorder (\<lambda>_. 0x20)"
  have "keeps ?B com1_ports (\<lambda>h. Out8 0x20 0x20 \<notin> set h)"
    by (simp add: keeps_def com1_ports_def COM1_def)
  moreover obtain h' where "serial_printf ?B ''ok'' [] [] = Some h'"
    by (simp add: write_serial_char_def wait_transmit.simps is_transmit_empty_def)
  ultimately show ?thesis using serial_printf_only_com1 [of ?B "\<lambda>h. Out8 0x20 0x20 \<notin> set h" "''ok''" "[]" "[]" h']
    by (auto simp del: serial_printf.simps)
qed

end
