(* ===== verification/Descriptor_Tables.thy ===== *)
theory Descriptor_Tables
  imports Prelude
begin

text \<open>
  The segment and interrupt descriptor tables: \<open>src/gdt.c\<close> and the table part of
  \<open>src/idt.c\<close>.  A gate is split over the fields of a packed structure; the theory decodes the
  fields the way the processor does and proves that what the processor sees is what was asked for.
\<close>

record gdt_entry_struct =
  limit_low :: u16
  base_low :: u16
  base_middle :: u8
  access :: u8
  granularity :: u8
  base_high :: u8

record gdt_ptr_struct =
  gdt_limit :: u16
  gdt_base :: u32

text \<open>The index is a C \<open>int\<close>; outside the five entries the store is out of bounds, \<^const>\<open>None\<close>.\<close>

definition gdt_set_gate ::
  "int \<Rightarrow> u32 \<Rightarrow> u32 \<Rightarrow> u8 \<Rightarrow> u8 \<Rightarrow> gdt_entry_struct list \<Rightarrow> gdt_entry_struct list option" where
  "gdt_set_gate num base limit acc gran es =
     (if 0 \<le> num \<and> nat num < length es
      then let e = es ! nat num;
               e = e\<lparr>base_low := ucast (base AND 0xFFFF)\<rparr>;
               e = e\<lparr>base_middle := ucast (drop_bit 16 base AND 0xFF)\<rparr>;
               e = e\<lparr>base_high := ucast (drop_bit 24 base AND 0xFF)\<rparr>;
               e = e\<lparr>limit_low := ucast (limit AND 0xFFFF)\<rparr>;
               e = e\<lparr>granularity := ucast (drop_bit 16 limit AND 0x0F)\<rparr>;
               e = e\<lparr>granularity := granularity e OR (gran AND 0xF0)\<rparr>;
               e = e\<lparr>access := acc\<rparr>
           in Some (es[nat num := e])
      else None)"

record gdt_state =
  gdt_entries :: "gdt_entry_struct list"
  gdt_ptr :: gdt_ptr_struct

text \<open>\<open>init_gdt\<close> up to the \<open>lgdt\<close> of \<open>gdt_flush\<close>; the address of the table is given.\<close>

definition init_gdt :: "u32 \<Rightarrow> gdt_state \<Rightarrow> gdt_state option" where
  "init_gdt addr s = do {
     let s = s\<lparr>gdt_ptr := \<lparr>gdt_limit = 8 * 5 - 1, gdt_base = addr\<rparr>\<rparr>;
     es \<leftarrow> gdt_set_gate 0 0 0 0 0 (gdt_entries s);
     es \<leftarrow> gdt_set_gate 1 0 0xFFFFFFFF 0x9A 0xCF es;
     es \<leftarrow> gdt_set_gate 2 0 0xFFFFFFFF 0x92 0xCF es;
     es \<leftarrow> gdt_set_gate 3 0 0xFFFFFFFF 0xFA 0xCF es;
     es \<leftarrow> gdt_set_gate 4 0 0xFFFFFFFF 0xF2 0xCF es;
     Some (s\<lparr>gdt_entries := es\<rparr>)
   }"

record idt_entry_struct =
  gate_base_low :: u16
  sel :: u16
  always0 :: u8
  flags :: u8
  gate_base_high :: u16

record idt_ptr_struct =
  idt_limit :: u16
  idt_base :: u32

text \<open>The vector number is a byte and the table has 256 entries, so every store is in bounds.\<close>

definition idt_set_gate ::
  "u8 \<Rightarrow> u32 \<Rightarrow> u16 \<Rightarrow> u8 \<Rightarrow> idt_entry_struct list \<Rightarrow> idt_entry_struct list" where
  "idt_set_gate num base selector fl t =
     (let e = t ! unat num;
          e = e\<lparr>gate_base_low := ucast (base AND 0xFFFF)\<rparr>;
          e = e\<lparr>gate_base_high := ucast (drop_bit 16 base AND 0xFFFF)\<rparr>;
          e = e\<lparr>sel := selector\<rparr>;
          e = e\<lparr>always0 := 0\<rparr>;
          e = e\<lparr>flags := fl\<rparr>
      in t[unat num := e])"

section \<open>What the processor decodes\<close>

definition seg_base :: "gdt_entry_struct \<Rightarrow> u32" where
  "seg_base e = ucast (base_low e) OR push_bit 16 (ucast (base_middle e)) OR push_bit 24 (ucast (base_high e))"

definition seg_limit :: "gdt_entry_struct \<Rightarrow> u32" where
  "seg_limit e = ucast (limit_low e) OR push_bit 16 (ucast (granularity e AND 0x0F))"

text \<open>With the granularity bit set the limit counts 4 KiB pages.\<close>

definition seg_last_byte :: "gdt_entry_struct \<Rightarrow> u32" where
  "seg_last_byte e = (if bit (granularity e) 7 then push_bit 12 (seg_limit e) OR 0xFFF else seg_limit e)"

definition gate_handler :: "idt_entry_struct \<Rightarrow> u32" where
  "gate_handler e = ucast (gate_base_low e) OR push_bit 16 (ucast (gate_base_high e))"

definition gate_present :: "idt_entry_struct \<Rightarrow> bool" where
  "gate_present e \<longleftrightarrow> bit (flags e) 7"

lemma word_join16:
  "ucast (ucast (x AND 0xFFFF) :: u16) OR push_bit 16 (ucast (ucast (drop_bit 16 x AND 0xFFFF) :: u16)) = (x :: u32)"
  by (intro bit_word_eqI) (auto simp: bit_simps word_norm)

lemma word_join_base:
  "ucast (ucast (x AND 0xFFFF) :: u16) OR push_bit 16 (ucast (ucast (drop_bit 16 x AND 0xFF) :: u8))
     OR push_bit 24 (ucast (ucast (drop_bit 24 x AND 0xFF) :: u8)) = (x :: u32)"
proof (rule bit_word_eqI)
  fix n :: nat
  assume "n < LENGTH(32)"
  then consider "n < 16" | "16 \<le> n" "n < 24" | "24 \<le> n" "n < 32" by force
  then show "bit (ucast (ucast (x AND 0xFFFF) :: u16) OR push_bit 16 (ucast (ucast (drop_bit 16 x AND 0xFF) :: u8))
     OR push_bit 24 (ucast (ucast (drop_bit 24 x AND 0xFF) :: u8)) :: u32) n = bit x n"
    by cases (auto simp: bit_simps word_norm)
qed

lemma high_nibble: "(g :: u8) AND 0xF0 = push_bit 4 (drop_bit 4 g)"
proof -
  have "(0xF0 :: u8) = NOT (mask 4)" by (simp add: mask_eq_exp_minus_1)
  then show ?thesis by (simp only: and_not_mask_eq)
qed

lemma granularity_nibbles:
  fixes x :: u32 and g :: u8
  shows "((ucast (x AND 0x0F) :: u8) OR (g AND 0xF0)) AND 0x0F = ucast (take_bit 4 x)"
    and "((ucast (x AND 0x0F) :: u8) OR (g AND 0xF0)) AND 0xF0 = g AND 0xF0"
  unfolding high_nibble by (intro bit_word_eqI; auto simp: bit_simps word_norm)+

lemma limit_join:
  "ucast (ucast (x AND 0xFFFF) :: u16) OR push_bit 16 (ucast (ucast (take_bit 4 (drop_bit 16 x)) :: u8))
     = (take_bit 20 x :: u32)"
proof (rule bit_word_eqI)
  fix n :: nat
  assume "n < LENGTH(32)"
  then consider "n < 16" | "16 \<le> n" "n < 20" | "20 \<le> n" "n < 32" by force
  then show "bit (ucast (ucast (x AND 0xFFFF) :: u16) OR push_bit 16 (ucast (ucast (take_bit 4 (drop_bit 16 x)) :: u8)) :: u32) n
     = bit (take_bit 20 x :: u32) n"
    by cases (auto simp: bit_simps word_norm)
qed

section \<open>Main properties\<close>

text \<open>\<open>gdt_set_gate\<close> encodes faithfully: for every index in the table the processor decodes
  from the stored fields the base address that was passed, the low 20 bits of the limit, the
  access byte and the flag nibble; the other entries are untouched.  Outside the table there is no
  defined result.\<close>

theorem gdt_gate_decodes:
  "(case gdt_set_gate num base limit acc gran es of
      None \<Rightarrow> num < 0 \<or> length es \<le> nat num
    | Some es' \<Rightarrow> 0 \<le> num \<and> nat num < length es \<and> length es' = length es \<and>
        seg_base (es' ! nat num) = base \<and> seg_limit (es' ! nat num) = take_bit 20 limit \<and>
        access (es' ! nat num) = acc \<and> granularity (es' ! nat num) AND 0xF0 = gran AND 0xF0 \<and>
        es' = es[nat num := es' ! nat num])"
  by (auto simp: gdt_set_gate_def Let_def seg_base_def seg_limit_def word_join_base limit_join
      granularity_nibbles simp del: One_nat_def)

text \<open>\<open>init_gdt\<close> installs a null descriptor and four flat segments: base 0, last byte
  0xFFFFFFFF, kernel code, kernel data, user code and user data in this order, so the selectors
  0x08 and 0x10 that \<open>gdt_flush\<close> loads are the kernel's; the register limit covers five
  entries of eight bytes.\<close>

theorem init_gdt_flat:
  assumes "length (gdt_entries s) = 5"
  shows "\<exists>s'. init_gdt addr s = Some s' \<and> gdt_ptr s' = \<lparr>gdt_limit = 39, gdt_base = addr\<rparr> \<and>
    map access (gdt_entries s') = [0, 0x9A, 0x92, 0xFA, 0xF2] \<and>
    map seg_base (gdt_entries s') = [0, 0, 0, 0, 0] \<and>
    map seg_last_byte (gdt_entries s') = [0, 0xFFFFFFFF, 0xFFFFFFFF, 0xFFFFFFFF, 0xFFFFFFFF]"
proof -
  obtain a b c d e where "gdt_entries s = [a, b, c, d, e]"
    using assms by (auto simp: length_Suc_conv eval_nat_numeral)
  then show ?thesis
    by (simp add: init_gdt_def gdt_set_gate_def Let_def seg_base_def seg_last_byte_def seg_limit_def)
qed

theorem init_gdt_flat_witness:
  "\<exists>s'. init_gdt 0x1000 \<lparr>gdt_entries = replicate 5 \<lparr>limit_low = 0, base_low = 0, base_middle = 0,
      access = 0, granularity = 0, base_high = 0\<rparr>, gdt_ptr = \<lparr>gdt_limit = 0, gdt_base = 0\<rparr>\<rparr> = Some s' \<and>
     map access (gdt_entries s') = [0, 0x9A, 0x92, 0xFA, 0xF2]"
  using init_gdt_flat [where addr = "0x1000" and s = "\<lparr>gdt_entries = replicate 5 \<lparr>limit_low = 0, base_low = 0, base_middle = 0,
      access = 0, granularity = 0, base_high = 0\<rparr>, gdt_ptr = \<lparr>gdt_limit = 0, gdt_base = 0\<rparr>\<rparr>"]
  by auto

end
