(* ===== verification/Framebuffer.thy ===== *)
theory Framebuffer
  imports Prelude
begin

text \<open>
  Pixel buffers and the raster primitives on them: \<open>putpixel\<close> (\<open>src/kernel.c\<close>) and the
  clipped rectangle of the interrupt code (\<open>idt_draw_rect\<close>, \<open>src/idt.c\<close>).  A buffer is a
  function from byte offsets (32-bit, wrapping like the address arithmetic of the code) to pixels.
  The raster lemma says what two nested loops of guarded single-pixel updates do to every cell; all
  raster routines of the system are analysed through it.
\<close>

type_synonym pixmap = "u32 \<Rightarrow> u32"

definition pixel_address :: "int \<Rightarrow> int \<Rightarrow> u32 \<Rightarrow> u32" where
  "pixel_address x y pitch = of_int y * pitch + of_int x * 4"

definition putpixel :: "pixmap \<Rightarrow> int \<Rightarrow> int \<Rightarrow> u32 \<Rightarrow> u32 \<Rightarrow> pixmap" where
  "putpixel fb x y color pitch = fb(pixel_address x y pitch := color)"

text \<open>The globals of \<open>idt.c\<close> that describe the screen; a null framebuffer pointer is
  \<^const>\<open>None\<close>.\<close>

record gfx =
  gfx_framebuffer :: "pixmap option"
  gfx_width :: u32
  gfx_height :: u32
  gfx_pitch :: u32

text \<open>The test \<open>curr_x >= 0 && curr_x < (int)gfx_width && ...\<close> shared by the clipped routines.\<close>

definition on_screen :: "gfx \<Rightarrow> int \<Rightarrow> int \<Rightarrow> bool" where
  "on_screen g x y \<longleftrightarrow> 0 \<le> x \<and> x < sint (gfx_width g) \<and> 0 \<le> y \<and> y < sint (gfx_height g)"

definition idt_draw_rect :: "int \<Rightarrow> int \<Rightarrow> int \<Rightarrow> int \<Rightarrow> u32 \<Rightarrow> gfx \<Rightarrow> gfx" where
  "idt_draw_rect x y w h color g =
     (case gfx_framebuffer g of
        None \<Rightarrow> g
      | Some fb \<Rightarrow> g\<lparr>gfx_framebuffer := Some
          (for_int y (y + h) (\<lambda>curr_y. for_int x (x + w) (\<lambda>curr_x fb.
             if on_screen g curr_x curr_y
             then putpixel fb curr_x curr_y color (gfx_pitch g)
             else fb)) fb)\<rparr>)"

section \<open>Addresses\<close>

text \<open>The geometry under which different screen points have different addresses: a row fits in the
  pitch and the whole buffer in the address space.\<close>

definition fits :: "nat \<Rightarrow> nat \<Rightarrow> u32 \<Rightarrow> bool" where
  "fits w h pitch \<longleftrightarrow> 4 * w \<le> unat pitch \<and> h * unat pitch < 4294967296"

lemma unat_pixel_address:
  assumes "fits w h pitch" "0 \<le> x" "x < int w" "0 \<le> y" "y < int h"
  shows "unat (pixel_address x y pitch) = nat y * unat pitch + 4 * nat x"
proof -
  have "Suc (nat y) \<le> h" using assms(4,5) by linarith
  then have "Suc (nat y) * unat pitch \<le> h * unat pitch" by (rule mult_le_mono1)
  moreover have "4 * nat x < unat pitch" "h * unat pitch < 4294967296"
    using assms(1-3) by (auto simp: fits_def)
  ultimately have "nat y * unat pitch + 4 * nat x < 4294967296" by simp
  moreover have "pixel_address x y pitch = of_nat (nat y * unat pitch + 4 * nat x)"
    using assms(2,4) by (simp add: pixel_address_def)
  ultimately show ?thesis by (simp only: unat_of_nat_u32)
qed

lemma pixel_address_inj:
  assumes "fits w h pitch" "0 \<le> x" "x < int w" "0 \<le> y" "y < int h"
    and "0 \<le> x'" "x' < int w" "0 \<le> y'" "y' < int h" "pixel_address x y pitch = pixel_address x' y' pitch"
  shows "x = x' \<and> y = y'"
proof -
  let ?p = "unat pitch"
  have lt: "4 * nat x < ?p" "4 * nat x' < ?p" using assms by (auto simp: fits_def)
  have eq: "nat y * ?p + 4 * nat x = nat y' * ?p + 4 * nat x'"
    using assms unat_pixel_address by metis
  have "(nat y * ?p + 4 * nat x) div ?p = nat y" "(nat y' * ?p + 4 * nat x') div ?p = nat y'"
    using lt by (simp_all add: div_mult_self3)
  then have "nat y = nat y'" using eq by metis
  then show ?thesis using eq assms by auto
qed

text \<open>The loop shape of the raster routines: visit a rectangle row by row, and where the guard holds
  replace the pixel by a function of its old value.\<close>

definition raster_loop ::
  "int \<Rightarrow> int \<Rightarrow> int \<Rightarrow> int \<Rightarrow> (int \<Rightarrow> int \<Rightarrow> bool) \<Rightarrow> (int \<Rightarrow> int \<Rightarrow> u32 \<Rightarrow> u32) \<Rightarrow> u32 \<Rightarrow> pixmap \<Rightarrow> pixmap" where
  "raster_loop x0 x1 y0 y1 G f pitch fb = for_int y0 y1 (\<lambda>y. for_int x0 x1 (\<lambda>x fb.
     if G x y then fb(pixel_address x y pitch := f x y (fb (pixel_address x y pitch))) else fb)) fb"

text \<open>A cell that belongs to a visited point passing the guard is updated once, every other cell
  is unchanged.\<close>

lemma raster:
  assumes fit: "fits w h pitch"
    and G: "\<And>x y. G x y \<Longrightarrow> 0 \<le> x \<and> x < int w \<and> 0 \<le> y \<and> y < int h"
  shows raster_at: "x0 \<le> x \<Longrightarrow> x < x1 \<Longrightarrow> y0 \<le> y \<Longrightarrow> y < y1 \<Longrightarrow> G x y \<Longrightarrow>
      raster_loop x0 x1 y0 y1 G f pitch fb (pixel_address x y pitch) = f x y (fb (pixel_address x y pitch))"
    and raster_other: "(\<And>x y. p = pixel_address x y pitch \<Longrightarrow> x0 \<le> x \<Longrightarrow> x < x1 \<Longrightarrow> y0 \<le> y \<Longrightarrow> y < y1 \<Longrightarrow> \<not> G x y) \<Longrightarrow>
      raster_loop x0 x1 y0 y1 G f pitch fb p = fb p"
proof -
  let ?xs = "List.product [y0..y1 - 1] [x0..x1 - 1]"
  let ?res = "raster_loop x0 x1 y0 y1 G f pitch fb"
  let ?G = "\<lambda>(y, x). G x y" and ?a = "\<lambda>(y, x). pixel_address x y pitch"
  have "(\<lambda>(y, x) fb. if G x y then fb(pixel_address x y pitch := f x y (fb (pixel_address x y pitch))) else fb)
      = pointwise ?G ?a (\<lambda>(y, x). f x y)"
    by (intro ext) (simp add: pointwise_def split: prod.splits)
  then have res: "?res = fold (pointwise ?G ?a (\<lambda>(y, x). f x y)) ?xs fb"
    unfolding raster_loop_def for_int_nested by simp
  show "?res (pixel_address x y pitch) = f x y (fb (pixel_address x y pitch))"
    if vis: "x0 \<le> x" "x < x1" "y0 \<le> y" "y < y1" "G x y"
  proof -
    have uniq: "j = (y, x)" if "?G j" "?a j = ?a (y, x)" for j
      using that G [OF vis(5)] G [of "snd j" "fst j"]
        pixel_address_inj [OF fit, of "snd j" "fst j" x y] by (cases j) auto
    have "fold (pointwise ?G ?a (\<lambda>(y, x). f x y)) ?xs fb (?a (y, x)) = (\<lambda>(y, x). f x y) (y, x) (fb (?a (y, x)))"
      by (rule fold_pointwise_at) (use vis uniq in \<open>auto simp: distinct_product\<close>)
    then show ?thesis by (simp add: res)
  qed
  show "?res p = fb p"
    if "\<And>x y. p = pixel_address x y pitch \<Longrightarrow> x0 \<le> x \<Longrightarrow> x < x1 \<Longrightarrow> y0 \<le> y \<Longrightarrow> y < y1 \<Longrightarrow> \<not> G x y"
    unfolding res by (rule fold_pointwise_other) (use that in auto)
qed

lemma putpixel_raster:
  "for_int y0 y1 (\<lambda>y. for_int x0 x1 (\<lambda>x fb. if G x y then putpixel fb x y (c x y) pitch else fb)) fb
     = raster_loop x0 x1 y0 y1 G (\<lambda>x y _. c x y) pitch fb"
  unfolding raster_loop_def putpixel_def by simp

lemma idt_draw_rect_frame [frame]:
  "gfx_width (idt_draw_rect x y w h c g) = gfx_width g" "gfx_height (idt_draw_rect x y w h c g) = gfx_height g"
  "gfx_pitch (idt_draw_rect x y w h c g) = gfx_pitch g"
  by (simp_all add: idt_draw_rect_def split: option.split)

lemma on_screen_bounds:
  assumes "on_screen g x y"
  shows "0 \<le> x \<and> x < int (nat (sint (gfx_width g))) \<and> 0 \<le> y \<and> y < int (nat (sint (gfx_height g)))"
  using assms by (auto simp: on_screen_def)

text \<open>\<open>idt_draw_rect\<close> paints exactly the part of its rectangle that lies on the screen: those
  pixels get the colour and every other cell of the framebuffer, also outside the screen, keeps
  its value.\<close>

theorem idt_draw_rect_paints:
  assumes "fits (nat (sint (gfx_width g))) (nat (sint (gfx_height g))) (gfx_pitch g)"
    and "gfx_framebuffer g = Some fb"
  shows "\<exists>fb'. gfx_framebuffer (idt_draw_rect x y w h color g) = Some fb' \<and>
    (\<forall>px py. x \<le> px \<and> px < x + w \<and> y \<le> py \<and> py < y + h \<and> on_screen g px py \<longrightarrow>
       fb' (pixel_address px py (gfx_pitch g)) = color) \<and>
    (\<forall>p. (\<nexists>px py. p = pixel_address px py (gfx_pitch g) \<and>
         x \<le> px \<and> px < x + w \<and> y \<le> py \<and> py < y + h \<and> on_screen g px py) \<longrightarrow> fb' p = fb p)"
proof (intro exI conjI)
  let ?fb = "raster_loop x (x + w) y (y + h) (on_screen g) (\<lambda>_ _ _. color) (gfx_pitch g) fb"
  show "gfx_framebuffer (idt_draw_rect x y w h color g) = Some ?fb"
    using assms(2) by (simp add: idt_draw_rect_def putpixel_raster)
  show "\<forall>px py. x \<le> px \<and> px < x + w \<and> y \<le> py \<and> py < y + h \<and> on_screen g px py \<longrightarrow>
       ?fb (pixel_address px py (gfx_pitch g)) = color"
    using raster_at [OF assms(1) on_screen_bounds] by blast
  show "\<forall>p. (\<nexists>px py. p = pixel_address px py (gfx_pitch g) \<and>
         x \<le> px \<and> px < x + w \<and> y \<le> py \<and> py < y + h \<and> on_screen g px py) \<longrightarrow> ?fb p = fb p"
    using raster_other [OF assms(1) on_screen_bounds] by blast
qed

theorem idt_draw_rect_paints_witness:
  "\<exists>fb'. gfx_framebuffer (idt_draw_rect 994 10 20 20 0x00FF00 \<lparr>gfx_framebuffer = Some (\<lambda>_. 0),
      gfx_width = 1024, gfx_height = 768, gfx_pitch = 4096\<rparr>) = Some fb' \<and>
     fb' (pixel_address 1000 20 4096) = 0x00FF00"
  using idt_draw_rect_paints [where x = 994 and y = 10 and w = 20 and h = 20 and color = "0x00FF00" and fb = "\<lambda>_. 0"
      and g = "\<lparr>gfx_framebuffer = Some (\<lambda>_. 0), gfx_width = 1024, gfx_height = 768, gfx_pitch = 4096\<rparr>"]
  by (auto simp: fits_def on_screen_def)

end
