(* ===== verification/Queue_Spec.thy ===== *)
theory Queue_Spec
  imports Prelude
begin

text \<open>
  The contract of the keyboard ring between the interrupt code (\<open>src/idt.c\<close>), which pushes,
  and the desktop loop (\<open>src/kernel.c\<close>), which pops until it reads a zero character.  A state
  holds a list of at most \<open>cap\<close> pending characters, none of them zero; a push on a full ring is
  dropped; a pop of an empty ring returns zero and changes nothing.
\<close>

locale char_queue =
  fixes push :: "char \<Rightarrow> 's \<Rightarrow> 's option"
    and pop :: "'s \<Rightarrow> (char \<times> 's) option"
    and valid :: "'s \<Rightarrow> bool"
    and pending :: "'s \<Rightarrow> char list"
    and cap :: nat
  assumes push_pending:
      "valid s \<Longrightarrow> c \<noteq> CHR 0x00 \<Longrightarrow> \<exists>s'. push c s = Some s' \<and> valid s' \<and>
         pending s' = (if length (pending s) < cap then pending s @ [c] else pending s)"
    and pop_empty: "valid s \<Longrightarrow> pending s = [] \<Longrightarrow> pop s = Some (CHR 0x00, s)"
    and pop_pending: "valid s \<Longrightarrow> pending s = c # cs \<Longrightarrow>
         \<exists>s'. pop s = Some (c, s') \<and> valid s' \<and> pending s' = cs"
    and pending_bound: "valid s \<Longrightarrow> length (pending s) \<le> cap"
    and pending_nonzero: "valid s \<Longrightarrow> CHR 0x00 \<notin> set (pending s)"
begin

text \<open>Pushing a burst of characters and popping them.\<close>

fun push_all :: "char list \<Rightarrow> 's \<Rightarrow> 's option" where
  "push_all [] s = Some s"
| "push_all (c # cs) s = do { s \<leftarrow> push c s; push_all cs s }"

fun pop_n :: "nat \<Rightarrow> 's \<Rightarrow> (char list \<times> 's) option" where
  "pop_n 0 s = Some ([], s)"
| "pop_n (Suc n) s = do { (c, s) \<leftarrow> pop s; (cs, s) \<leftarrow> pop_n n s; Some (c # cs, s) }"

lemma push_all_pending:
  "valid s \<Longrightarrow> CHR 0x00 \<notin> set cs \<Longrightarrow>
     \<exists>s'. push_all cs s = Some s' \<and> valid s' \<and> pending s' = take cap (pending s @ cs)"
proof (induction cs arbitrary: s)
  case Nil
  then show ?case using pending_bound by simp
next
  case (Cons c cs)
  obtain s1 where s1: "push c s = Some s1" "valid s1"
    "pending s1 = (if length (pending s) < cap then pending s @ [c] else pending s)"
    using push_pending [of s c] Cons.prems by auto
  obtain s' where "push_all cs s1 = Some s'" "valid s'" "pending s' = take cap (pending s1 @ cs)"
    using Cons.IH [OF s1(2)] Cons.prems by (auto simp del: take_append)
  then show ?case using s1 pending_bound [OF Cons.prems(1)] by (auto simp: not_less take_Cons')
qed

lemma pop_n_pending:
  "valid s \<Longrightarrow> n \<le> length (pending s) \<Longrightarrow>
     \<exists>s'. pop_n n s = Some (take n (pending s), s') \<and> valid s' \<and> pending s' = drop n (pending s)"
proof (induction n arbitrary: s)
  case (Suc n)
  then obtain c cs where cs: "pending s = c # cs" by (cases "pending s") auto
  then obtain s1 where "pop s = Some (c, s1)" "valid s1" "pending s1 = cs"
    using pop_pending [OF Suc.prems(1) cs] by auto
  then show ?case using Suc.IH [of s1] Suc.prems cs by auto
qed simp

end

end
