(* ===== verification/Interrupts.thy ===== *)
theory Interrupts
  imports Port_IO Descriptor_Tables Framebuffer Queue_Spec
begin

text \<open>
  The interrupt side of the kernel, \<open>src/idt.c\<close>: the keyboard ring, the scancode tables, the
  interrupt controller and mouse set-up, the interrupt descriptor table and the dispatcher
  \<open>isr_handler\<close> with its timer, keyboard, mouse and disk branches.  The globals of the file are
  the fields of \<open>irq_state\<close>; the ports are the hardware parameter of \<open>Port_IO\<close>.  Log
  output goes to the serial port only and is left out here.
\<close>

section \<open>State\<close>

record irq_state =
  ide_interrupt_fired :: u8
  keyboard_buffer :: "char list"
  keyboard_head :: nat
  keyboard_tail :: nat
  shift_pressed :: bool
  mouse_left_clicked :: int
  mouse_right_clicked :: int
  timer_ticks :: u32
  mouse_x :: int
  mouse_y :: int
  mouse_cycle :: u8
  mouse_packet :: "u8 list"
  screen :: gfx

section \<open>The keyboard ring\<close>

definition keyboard_push_char :: "char \<Rightarrow> irq_state \<Rightarrow> irq_state option" where
  "keyboard_push_char c s =
     (let nxt = (keyboard_head s + 1) mod 32
      in if nxt \<noteq> keyboard_tail s
         then do {
           buf \<leftarrow> put_at (keyboard_head s) c (keyboard_buffer s);
           Some (s\<lparr>keyboard_buffer := buf, keyboard_head := nxt\<rparr>)
         }
         else Some s)"

definition keyboard_pop_char :: "irq_state \<Rightarrow> (char \<times> irq_state) option" where
  "keyboard_pop_char s =
     (if keyboard_head s = keyboard_tail s then Some (CHR 0x00, s)
      else do {
        c \<leftarrow> get_at (keyboard_buffer s) (keyboard_tail s);
        Some (c, s\<lparr>keyboard_tail := (keyboard_tail s + 1) mod 32\<rparr>)
      })"

section \<open>Scancode tables\<close>

definition scancode_to_ascii_normal :: "char list" where
  "scancode_to_ascii_normal =
     [CHR 0x00, CHR 0x1B] @ ''1234567890-='' @ [CHR 0x08, CHR 0x09] @ ''qwertyuiop[]'' @ [CHR 0x0A] @
     [CHR 0x00] @ ''asdfghjkl;'' @ [CHR 0x27, CHR 0x60, CHR 0x00, CHR 0x5C] @
     ''zxcvbnm,./'' @ [CHR 0x00, CHR ''*'', CHR 0x00, CHR '' '']"

definition scancode_to_ascii_shift :: "char list" where
  "scancode_to_ascii_shift =
     [CHR 0x00, CHR 0x1B] @ ''!@#$%^&*()_+'' @ [CHR 0x08, CHR 0x09] @ ''QWERTYUIOP{}'' @ [CHR 0x0A] @
     [CHR 0x00] @ ''ASDFGHJKL:'' @ [CHR 0x22, CHR ''~'', CHR 0x00, CHR ''|''] @
     ''ZXCVBNM<>?'' @ [CHR 0x00, CHR ''*'', CHR 0x00, CHR '' '']"

section \<open>Set-up\<close>

definition pic_remap :: "'d ports \<Rightarrow> 'd \<Rightarrow> 'd" where
  "pic_remap B d =
     (let (a1, d) = inb B 0x21 d;
          (a2, d) = inb B 0xA1 d
      in outbs B [(0x20, 0x11), (0xA0, 0x11), (0x21, 0x20), (0xA1, 0x28), (0x21, 0x04), (0xA1, 0x02),
                  (0x21, 0x01), (0xA1, 0x01), (0x21, 0x00), (0xA1, 0x00)] d)"

text \<open>\<open>while (timeout--)\<close>: at most as many polls as the counter says.\<close>

fun mouse_poll :: "'d ports \<Rightarrow> (u8 \<Rightarrow> bool) \<Rightarrow> nat \<Rightarrow> 'd \<Rightarrow> 'd" where
  "mouse_poll B ready 0 d = d"
| "mouse_poll B ready (Suc timeout) d =
     (let (v, d) = inb B 0x64 d in if ready v then d else mouse_poll B ready timeout d)"

definition mouse_wait :: "'d ports \<Rightarrow> u8 \<Rightarrow> 'd \<Rightarrow> 'd" where
  "mouse_wait B type d =
     (if type = 0 then mouse_poll B (\<lambda>v. v AND 1 = 1) 100000 d
      else mouse_poll B (\<lambda>v. v AND 2 = 0) 100000 d)"

definition mouse_write :: "'d ports \<Rightarrow> u8 \<Rightarrow> 'd \<Rightarrow> 'd" where
  "mouse_write B val d = outb B 0x60 val (mouse_wait B 1 (outb B 0x64 0xD4 (mouse_wait B 1 d)))"

definition mouse_read :: "'d ports \<Rightarrow> 'd \<Rightarrow> u8 \<times> 'd" where
  "mouse_read B d = inb B 0x60 (mouse_wait B 0 d)"

definition init_mouse :: "'d ports \<Rightarrow> 'd \<Rightarrow> 'd" where
  "init_mouse B d =
     (let d = outb B 0x64 0xA8 (mouse_wait B 1 d);
          d = outb B 0x64 0x20 (mouse_wait B 1 d);
          (v, d) = inb B 0x60 (mouse_wait B 0 d);
          status = v OR 2;
          d = outb B 0x64 0x60 (mouse_wait B 1 d);
          d = outb B 0x60 status (mouse_wait B 1 d);
          (_, d) = mouse_read B (mouse_write B 0xF6 d);
          (_, d) = mouse_read B (mouse_write B 0xF4 d)
      in d)"

record irq_stubs =
  isr0 :: u32
  isr3 :: u32
  irq0 :: u32
  irq1 :: u32
  irq12 :: u32
  irq14 :: u32

record idt_state =
  idt :: "idt_entry_struct list"
  idt_ptr :: idt_ptr_struct

text \<open>\<open>init_idt\<close> up to the \<open>lidt\<close> of \<open>idt_load\<close>; the addresses of the assembly stubs
  and of the table are given.\<close>

definition init_idt :: "'d ports \<Rightarrow> irq_stubs \<Rightarrow> u32 \<Rightarrow> idt_state \<Rightarrow> 'd \<Rightarrow> idt_state \<times> 'd" where
  "init_idt B a addr s d =
     (let t = for_int 0 256 (\<lambda>i. idt_set_gate (of_int i) 0 0 0) (idt s);
          t = idt_set_gate 0 (isr0 a) 0x08 0x8E t;
          t = idt_set_gate 3 (isr3 a) 0x08 0x8E t;
          d = pic_remap B d;
          t = idt_set_gate 32 (irq0 a) 0x08 0x8E t;
          t = idt_set_gate 33 (irq1 a) 0x08 0x8E t;
          t = idt_set_gate 44 (irq12 a) 0x08 0x8E t;
          t = idt_set_gate 46 (irq14 a) 0x08 0x8E t;
          d = init_mouse B d
      in (\<lparr>idt = t, idt_ptr = \<lparr>idt_limit = 8 * 256 - 1, idt_base = addr\<rparr>\<rparr>, d))"

section \<open>The dispatcher\<close>

record registers =
  reg_ds :: u32
  edi :: u32
  esi :: u32
  ebp :: u32
  esp :: u32
  ebx :: u32
  edx :: u32
  ecx :: u32
  eax :: u32
  int_no :: u32
  err_code :: u32
  eip :: u32
  reg_cs :: u32
  eflags :: u32
  useresp :: u32
  reg_ss :: u32

definition timer_irq :: "irq_state \<Rightarrow> irq_state" where
  "timer_irq s =
     (let s = s\<lparr>timer_ticks := timer_ticks s + 1\<rparr>
      in if timer_ticks s mod 18 = 0
         then s\<lparr>screen := idt_draw_rect (sint (gfx_width (screen s) - 30)) 10 20 20 0x00FF00 (screen s)\<rparr>
         else if timer_ticks s mod 18 = 9
         then s\<lparr>screen := idt_draw_rect (sint (gfx_width (screen s) - 30)) 10 20 20 0x002B36 (screen s)\<rparr>
         else s)"

definition keyboard_irq :: "u8 \<Rightarrow> irq_state \<Rightarrow> irq_state option" where
  "keyboard_irq scancode s =
     (if scancode = 0x2A \<or> scancode = 0x36 then Some (s\<lparr>shift_pressed := True\<rparr>)
      else if scancode = 0xAA \<or> scancode = 0xB6 then Some (s\<lparr>shift_pressed := False\<rparr>)
      else if scancode AND 0x80 = 0
      then if unat scancode < length scancode_to_ascii_normal
           then do {
             ascii \<leftarrow> get_at (if shift_pressed s then scancode_to_ascii_shift else scancode_to_ascii_normal)
                        (unat scancode);
             if ascii \<noteq> CHR 0x00 then keyboard_push_char ascii s else Some s
           }
           else Some s
      else Some s)"

text \<open>A complete three-byte packet: buttons, relative movement with the sign bits of the first
  byte, clamping to the screen.\<close>

definition mouse_move :: "irq_state \<Rightarrow> irq_state" where
  "mouse_move s =
     (let fl = mouse_packet s ! 0;
          rel_x = (scast (mouse_packet s ! 1) :: u16);
          rel_y = (scast (mouse_packet s ! 2) :: u16);
          s = s\<lparr>mouse_cycle := 0\<rparr>;
          s = s\<lparr>mouse_left_clicked := uint (fl AND 0x01)\<rparr>;
          s = s\<lparr>mouse_right_clicked := (if fl AND 0x02 \<noteq> 0 then 1 else 0)\<rparr>;
          rel_x = (if fl AND 0x10 \<noteq> 0 then rel_x OR 0xFF00 else rel_x);
          rel_y = (if fl AND 0x20 \<noteq> 0 then rel_y OR 0xFF00 else rel_y);
          s = s\<lparr>mouse_x := mouse_x s + sint rel_x\<rparr>;
          s = s\<lparr>mouse_y := mouse_y s - sint rel_y\<rparr>;
          s = (if mouse_x s < 0 then s\<lparr>mouse_x := 0\<rparr> else s);
          s = (if mouse_y s < 0 then s\<lparr>mouse_y := 0\<rparr> else s);
          s = (if mouse_x s > sint (gfx_width (screen s)) - 10
               then s\<lparr>mouse_x := sint (gfx_width (screen s) - 10)\<rparr> else s)
      in if mouse_y s > sint (gfx_height (screen s)) - 10
         then s\<lparr>mouse_y := sint (gfx_height (screen s) - 10)\<rparr> else s)"

definition mouse_byte :: "u8 \<Rightarrow> irq_state \<Rightarrow> irq_state option" where
  "mouse_byte b s = do {
     s \<leftarrow> (if mouse_cycle s = 0 \<and> b AND 0x08 = 0 then Some (s\<lparr>mouse_cycle := 0\<rparr>)
           else do {
             p \<leftarrow> put_at (unat (mouse_cycle s)) b (mouse_packet s);
             Some (s\<lparr>mouse_packet := p, mouse_cycle := mouse_cycle s + 1\<rparr>)
           });
     Some (if mouse_cycle s = 3 then mouse_move s else s)
   }"

definition mouse_irq :: "'d ports \<Rightarrow> irq_state \<Rightarrow> 'd \<Rightarrow> (irq_state \<times> 'd) option" where
  "mouse_irq B s d =
     (let (status, d) = inb B 0x64 d
      in if status AND 0x01 \<noteq> 0
         then let (b, d) = inb B 0x60 d
              in if status AND 0x20 \<noteq> 0 then do { s \<leftarrow> mouse_byte b s; Some (s, d) } else Some (s, d)
         else Some (s, d))"

datatype isr_exit = Resume | Hang

definition isr_handler ::
  "'d ports \<Rightarrow> registers \<Rightarrow> irq_state \<Rightarrow> 'd \<Rightarrow> (isr_exit \<times> irq_state \<times> 'd) option" where
  "isr_handler B regs s d =
     (if int_no regs = 32 then Some (Resume, timer_irq s, outb B 0x20 0x20 d)
      else if int_no regs = 33 then
        let (scancode, d) = inb B 0x60 d
        in do { s \<leftarrow> keyboard_irq scancode s; Some (Resume, s, outb B 0x20 0x20 d) }
      else if int_no regs = 44 then do {
        (s, d) \<leftarrow> mouse_irq B s d;
        Some (Resume, s, outb B 0x20 0x20 (outb B 0xA0 0x20 d))
      }
      else if int_no regs = 46 then
        let (_, d) = inb B 0x1F7 d
        in Some (Resume, s\<lparr>ide_interrupt_fired := 1\<rparr>, outb B 0x20 0x20 (outb B 0xA0 0x20 d))
      else if int_no regs \<ge> 32 \<and> int_no regs \<le> 47 then
        let d = (if int_no regs \<ge> 40 then outb B 0xA0 0x20 d else d)
        in Some (Resume, s, outb B 0x20 0x20 d)
      else Some (Hang, s, d))"

section \<open>The ring is a bounded queue\<close>

definition kb_pending :: "irq_state \<Rightarrow> char list" where
  "kb_pending s = map (\<lambda>i. keyboard_buffer s ! ((keyboard_tail s + i) mod 32))
     [0..<(keyboard_head s + 32 - keyboard_tail s) mod 32]"

definition kb_ok :: "irq_state \<Rightarrow> bool" where
  "kb_ok s \<longleftrightarrow> length (keyboard_buffer s) = 32 \<and> keyboard_head s < 32 \<and> keyboard_tail s < 32 \<and>
     CHR 0x00 \<notin> set (kb_pending s)"

lemma kb_pending_length: "length (kb_pending s) = (keyboard_head s + 32 - keyboard_tail s) mod 32"
  by (simp add: kb_pending_def)

lemma ring_length:
  fixes h t :: nat
  assumes "h < 32" "t < 32"
  shows "(h + 32 - t) mod 32 = (if t \<le> h then h - t else h + 32 - t)"
proof (cases "t \<le> h")
  case True
  then have "h + 32 - t = (h - t) + 32" by simp
  then show ?thesis using True assms by (simp only: mod_add_self2) simp
next
  case False
  then show ?thesis using assms by simp
qed

lemma ring_next: "(h + 1) mod 32 = (if h = 31 then 0 else h + 1)" if "h < 32" for h :: nat
  using that by simp

lemma ring_count:
  fixes h t :: nat
  assumes "h < 32" "t < 32"
  shows "(h + 1) mod 32 \<noteq> t \<Longrightarrow> ((h + 1) mod 32 + 32 - t) mod 32 = (h + 32 - t) mod 32 + 1"
    and "(h + 1) mod 32 = t \<longleftrightarrow> (h + 32 - t) mod 32 = 31"
    and "h = t \<longleftrightarrow> (h + 32 - t) mod 32 = 0"
    and "h \<noteq> t \<Longrightarrow> (h + 32 - t) mod 32 = Suc ((h + 32 - (t + 1) mod 32) mod 32)"
proof -
  have n: "(h + 1) mod 32 < 32" "(t + 1) mod 32 < 32" by simp_all
  note l = ring_length [OF n(1) assms(2)] ring_length [OF assms] ring_length [OF assms(1) n(2)]
  note nxt = ring_next [OF assms(1)] ring_next [OF assms(2)]
  show "(h + 1) mod 32 \<noteq> t \<Longrightarrow> ((h + 1) mod 32 + 32 - t) mod 32 = (h + 32 - t) mod 32 + 1"
    using assms unfolding l(1,2) unfolding nxt by (auto split: if_splits)
  show "(h + 1) mod 32 = t \<longleftrightarrow> (h + 32 - t) mod 32 = 31"
    using assms unfolding l(2) unfolding nxt by (auto split: if_splits)
  show "h = t \<longleftrightarrow> (h + 32 - t) mod 32 = 0"
    using assms unfolding l(2) by (auto split: if_splits)
  show "h \<noteq> t \<Longrightarrow> (h + 32 - t) mod 32 = Suc ((h + 32 - (t + 1) mod 32) mod 32)"
    using assms unfolding l(2,3) unfolding nxt by (auto split: if_splits)
qed

lemma ring_cell:
  fixes h t i :: nat
  assumes "h < 32" "t < 32" "i \<le> (h + 32 - t) mod 32"
  shows "(t + i) mod 32 = h \<longleftrightarrow> i = (h + 32 - t) mod 32"
proof -
  have "(t + i) mod 32 = (if t + i < 32 then t + i else t + i - 32)"
    using assms(2,3) mod_less_divisor [of 32 "h + 32 - t"] by (simp add: mod_if [of "t + i"])
  then show ?thesis
    using assms unfolding ring_length [OF assms(1,2)] by (auto split: if_splits)
qed

lemma keyboard_push_pending:
  assumes "kb_ok s" "c \<noteq> CHR 0x00"
  shows "\<exists>s'. keyboard_push_char c s = Some s' \<and> kb_ok s' \<and>
    kb_pending s' = (if length (kb_pending s) < 31 then kb_pending s @ [c] else kb_pending s)"
proof (cases "(keyboard_head s + 1) mod 32 = keyboard_tail s")
  case True
  then show ?thesis
    using assms ring_count(2) [of "keyboard_head s" "keyboard_tail s"]
    by (simp add: keyboard_push_char_def kb_pending_length kb_ok_def)
next
  case False
  let ?h = "keyboard_head s" and ?t = "keyboard_tail s"
  let ?s = "s\<lparr>keyboard_buffer := (keyboard_buffer s)[?h := c], keyboard_head := (?h + 1) mod 32\<rparr>"
  have ok: "?h < 32" "?t < 32" "length (keyboard_buffer s) = 32"
    using assms(1) by (auto simp: kb_ok_def)
  have "(?h + 32 - ?t) mod 32 < 32" by simp
  then have less: "length (kb_pending s) < 31"
    using False ring_count(2) [OF ok(1,2)] unfolding kb_pending_length by simp
  have "kb_pending ?s = map (\<lambda>i. (keyboard_buffer s)[?h := c] ! ((?t + i) mod 32)) [0..<(?h + 32 - ?t) mod 32]
      @ [(keyboard_buffer s)[?h := c] ! ((?t + (?h + 32 - ?t) mod 32) mod 32)]"
    using ring_count(1) [OF ok(1,2) False] by (simp add: kb_pending_def)
  also have "\<dots> = kb_pending s @ [c]"
  proof -
    have last: "(?t + (?h + 32 - ?t) mod 32) mod 32 = ?h" using ring_cell [OF ok(1,2)] by blast
    have "?h \<noteq> (?t + i) mod 32" if "i \<in> set [0..<(?h + 32 - ?t) mod 32]" for i
      using ring_cell [OF ok(1,2), of i] that by auto
    then have "map (\<lambda>i. (keyboard_buffer s)[?h := c] ! ((?t + i) mod 32)) [0..<(?h + 32 - ?t) mod 32] = kb_pending s"
      unfolding kb_pending_def by (intro map_cong refl nth_list_update_neq)
    then show ?thesis unfolding last using ok by simp
  qed
  finally have "kb_pending ?s = kb_pending s @ [c]" .
  then show ?thesis
    using False less ok assms by (auto simp: keyboard_push_char_def kb_ok_def)
qed

lemma keyboard_pop_pending:
  assumes "kb_ok s" "kb_pending s = c # cs"
  shows "\<exists>s'. keyboard_pop_char s = Some (c, s') \<and> kb_ok s' \<and> kb_pending s' = cs"
proof -
  let ?h = "keyboard_head s" and ?t = "keyboard_tail s"
  let ?s = "s\<lparr>keyboard_tail := (?t + 1) mod 32\<rparr>"
  have ok: "?h < 32" "?t < 32" "length (keyboard_buffer s) = 32"
    using assms(1) by (auto simp: kb_ok_def)
  have ne: "?h \<noteq> ?t" using assms(2) ok by (auto simp: kb_pending_def)
  have "kb_pending s = keyboard_buffer s ! ?t # kb_pending ?s"
    using ring_count(4) [OF ok(1,2) ne] ok(2)
    by (simp add: kb_pending_def upt_conv_Cons map_Suc_upt [symmetric] comp_def mod_simps del: upt_Suc)
  then have "c = keyboard_buffer s ! ?t" "kb_pending ?s = cs" using assms(2) by auto
  then show ?thesis
    using assms ok ne by (auto simp: keyboard_pop_char_def kb_ok_def)
qed

lemma keyboard_pop_empty:
  assumes "kb_ok s" "kb_pending s = []"
  shows "keyboard_pop_char s = Some (CHR 0x00, s)"
proof -
  have ok: "keyboard_head s < 32" "keyboard_tail s < 32" using assms(1) by (auto simp: kb_ok_def)
  have "(keyboard_head s + 32 - keyboard_tail s) mod 32 = 0"
    using assms(2) kb_pending_length [of s] by simp
  then have "keyboard_head s = keyboard_tail s" using ring_count(3) [OF ok] by simp
  then show ?thesis by (simp add: keyboard_pop_char_def)
qed

lemma kb_pending_bound: "kb_ok s \<Longrightarrow> length (kb_pending s) \<le> 31"
proof -
  have "m mod 32 \<le> 31" for m :: nat by (rule less_Suc_eq_le [THEN iffD1]) simp
  then show "length (kb_pending s) \<le> 31" by (simp only: kb_pending_length)
qed

lemma kb_pending_nonzero: "kb_ok s \<Longrightarrow> CHR 0x00 \<notin> set (kb_pending s)"
  by (simp add: kb_ok_def)

interpretation kb: char_queue keyboard_push_char keyboard_pop_char kb_ok kb_pending 31
  by (rule char_queue.intro)
     (fact keyboard_push_pending keyboard_pop_empty keyboard_pop_pending kb_pending_bound kb_pending_nonzero)+

section \<open>The consumer\<close>

text \<open>The input loop of the desktop (\<open>kernel_main\<close>): characters are popped until a zero is read
  and handed to the user interface, a backspace as a key press and release.\<close>

datatype nk_input = Nk_input_key_backspace int | Nk_input_char char

definition input_events :: "char \<Rightarrow> nk_input list" where
  "input_events c = (if c = CHR 0x08 then [Nk_input_key_backspace 1, Nk_input_key_backspace 0]
                     else [Nk_input_char c])"

partial_function (option) drain_keyboard :: "irq_state \<Rightarrow> (nk_input list \<times> irq_state) option" where
  "drain_keyboard s = do {
     (incoming_char, s) \<leftarrow> keyboard_pop_char s;
     if incoming_char \<noteq> CHR 0x00
     then do { (es, s) \<leftarrow> drain_keyboard s; Some (input_events incoming_char @ es, s) }
     else Some ([], s)
   }"

text \<open>A sequence of keyboard interrupts.\<close>

fun key_presses :: "u8 list \<Rightarrow> irq_state \<Rightarrow> irq_state option" where
  "key_presses [] s = Some s"
| "key_presses (k # ks) s = do { s \<leftarrow> keyboard_irq k s; key_presses ks s }"

text \<open>What a sequence of scancodes means, given whether shift is down.\<close>

definition key_char :: "bool \<Rightarrow> u8 \<Rightarrow> char list" where
  "key_char shift k =
     (if k \<in> {0x2A, 0x36} \<or> 58 \<le> unat k then []
      else filter (\<lambda>c. c \<noteq> CHR 0x00) [(if shift then scancode_to_ascii_shift else scancode_to_ascii_normal) ! unat k])"

fun typed :: "bool \<Rightarrow> u8 list \<Rightarrow> char list" where
  "typed shift [] = []"
| "typed shift (k # ks) =
     key_char shift k @
     typed (if k \<in> {0x2A, 0x36} then True else if k \<in> {0xAA, 0xB6} then False else shift) ks"

lemma table_lengths [simp]: "length scancode_to_ascii_normal = 58" "length scancode_to_ascii_shift = 58"
  by (simp_all add: scancode_to_ascii_normal_def scancode_to_ascii_shift_def)

lemma kb_frame:
  assumes "keyboard_buffer s' = keyboard_buffer s" "keyboard_head s' = keyboard_head s"
    "keyboard_tail s' = keyboard_tail s"
  shows kb_frame_pending: "kb_pending s' = kb_pending s" and kb_frame_ok: "kb_ok s' = kb_ok s"
  using assms by (simp_all add: kb_pending_def kb_ok_def)

lemma kb_frame_shift [simp]:
  "kb_pending (s\<lparr>shift_pressed := b\<rparr>) = kb_pending s" "kb_ok (s\<lparr>shift_pressed := b\<rparr>) = kb_ok s"
  by (rule kb_frame_pending kb_frame_ok; simp)+

lemma push_keeps_rest:
  "keyboard_push_char c s = Some s' \<Longrightarrow> \<exists>b h. s' = s\<lparr>keyboard_buffer := b, keyboard_head := h\<rparr>"
  by (auto simp: keyboard_push_char_def put_at_def Let_def split: if_splits bind_splits)
     (metis irq_state.surjective irq_state.update_convs(2,3))

lemma high_bit_range: "(k :: u8) AND 0x80 \<noteq> 0 \<Longrightarrow> 128 \<le> unat k"
proof (rule ccontr)
  assume "k AND 0x80 \<noteq> 0" "\<not> 128 \<le> unat k"
  then have "unat (take_bit 7 k) = unat k"
    by (simp add: unsigned_take_bit_eq take_bit_nat_eq_self)
  then have "k = take_bit 7 k" by (simp only: word_unat_eq_iff)
  then have eq: "k = k AND 0x7F" by (simp add: take_bit_eq_mask mask_eq_exp_minus_1)
  have "k AND 0x80 = (k AND 0x7F) AND 0x80" by (rule arg_cong [OF eq, of "\<lambda>x. x AND 0x80"])
  also have "\<dots> = 0" by (simp add: and.assoc)
  finally show False using \<open>k AND 0x80 \<noteq> 0\<close> by simp
qed

lemma keyboard_irq_types:
  assumes "kb_ok s"
  shows "\<exists>s'. keyboard_irq k s = Some s' \<and> kb_ok s' \<and>
    kb_pending s' = take 31 (kb_pending s @ key_char (shift_pressed s) k) \<and>
    shift_pressed s' = (if k \<in> {0x2A, 0x36} then True else if k \<in> {0xAA, 0xB6} then False else shift_pressed s)"
proof -
  note bound = kb_pending_bound [OF assms]
  have big: "unat k < 58 \<Longrightarrow> k \<noteq> 0xAA \<and> k \<noteq> 0xB6 \<and> k AND 0x80 = 0"
    using high_bit_range [of k] by auto
  define c where "c = (if shift_pressed s then scancode_to_ascii_shift else scancode_to_ascii_normal) ! unat k"
  show ?thesis
  proof (cases "k \<in> {0x2A, 0x36} \<or> 58 \<le> unat k \<or> c = CHR 0x00")
    case True
    then show ?thesis
      using assms bound big by (auto simp: keyboard_irq_def key_char_def c_def get_at_def)
  next
    case False
    then have k: "unat k < 58" "k \<noteq> 0x2A" "k \<noteq> 0x36" "c \<noteq> CHR 0x00" by auto
    then have "keyboard_irq k s = keyboard_push_char c s" "key_char (shift_pressed s) k = [c]"
      using big by (auto simp: keyboard_irq_def key_char_def c_def)
    then show ?thesis
      using keyboard_push_pending [OF assms k(4)] push_keeps_rest bound k big by fastforce
  qed
qed

lemma key_presses_types:
  "kb_ok s \<Longrightarrow> \<exists>s'. key_presses ks s = Some s' \<and> kb_ok s' \<and>
     kb_pending s' = take 31 (kb_pending s @ typed (shift_pressed s) ks)"
proof (induction ks arbitrary: s)
  case Nil
  then show ?case using kb_pending_bound by simp
next
  case (Cons k ks)
  obtain s1 where s1: "keyboard_irq k s = Some s1" "kb_ok s1"
    "kb_pending s1 = take 31 (kb_pending s @ key_char (shift_pressed s) k)"
    "shift_pressed s1 = (if k \<in> {0x2A, 0x36} then True else if k \<in> {0xAA, 0xB6} then False else shift_pressed s)"
    using keyboard_irq_types [OF Cons.prems] by blast
  have "take 31 (take 31 xs @ ys) = take 31 (xs @ ys)" for xs ys :: "char list"
    by (cases "length xs \<le> 31") auto
  then show ?case
    using Cons.IH [OF s1(2)] s1 by (simp del: take_append insert_iff)
qed

lemma drain_keyboard_pending:
  "kb_ok s \<Longrightarrow> \<exists>s'. drain_keyboard s = Some (concat (map input_events (kb_pending s)), s') \<and> kb_ok s' \<and> kb_pending s' = []"
proof (induction "kb_pending s" arbitrary: s)
  case Nil
  then show ?case using kb.pop_empty [of s] by (simp add: drain_keyboard.simps [of s])
next
  case (Cons c cs)
  obtain s1 where s1: "keyboard_pop_char s = Some (c, s1)" "kb_ok s1" "kb_pending s1 = cs"
    using kb.pop_pending [OF Cons.prems Cons.hyps(2) [symmetric]] by blast
  have "c \<noteq> CHR 0x00" using kb.pending_nonzero [OF Cons.prems] Cons.hyps(2) by (metis list.set_intros(1))
  then show ?case
    using Cons.hyps(1) [of s1] s1 Cons.hyps(2) [symmetric] by (auto simp: drain_keyboard.simps [of s])
qed

section \<open>The invariant of the interrupt state\<close>

definition irq_ok :: "irq_state \<Rightarrow> bool" where
  "irq_ok s \<longleftrightarrow> kb_ok s \<and> length (mouse_packet s) = 3 \<and> unat (mouse_cycle s) < 3 \<and>
     10 \<le> sint (gfx_width (screen s)) \<and> 10 \<le> sint (gfx_height (screen s)) \<and>
     0 \<le> mouse_x s \<and> mouse_x s \<le> sint (gfx_width (screen s)) - 10 \<and>
     0 \<le> mouse_y s \<and> mouse_y s \<le> sint (gfx_height (screen s)) - 10"

text \<open>The initial values of the globals, with the screen \<open>kernel_main\<close> sets up.\<close>

definition irq_init :: "gfx \<Rightarrow> irq_state" where
  "irq_init g = \<lparr>ide_interrupt_fired = 0, keyboard_buffer = replicate 32 (CHR 0x00), keyboard_head = 0,
     keyboard_tail = 0, shift_pressed = False, mouse_left_clicked = 0, mouse_right_clicked = 0,
     timer_ticks = 0, mouse_x = 500, mouse_y = 400, mouse_cycle = 0, mouse_packet = replicate 3 0, screen = g\<rparr>"

lemma sint_minus_10: "10 \<le> sint (w :: u32) \<Longrightarrow> sint (w - 10) = sint w - 10"
proof -
  assume "10 \<le> sint w"
  moreover have "sint w < 2147483648" using sint_lt [of w] by simp
  ultimately have "signed_take_bit 31 (sint w - 10) = sint w - 10"
    by (intro signed_take_bit_int_eq_self) auto
  then show ?thesis by (simp add: sint_word_ariths)
qed

text \<open>A packet in closed form.\<close>

definition mouse_delta :: "bool \<Rightarrow> u8 \<Rightarrow> int" where
  "mouse_delta neg b = (if neg \<or> 128 \<le> unat b then int (unat b) - 256 else int (unat b))"

definition clamp :: "int \<Rightarrow> u32 \<Rightarrow> int" where
  "clamp v w = (let v = (if v < 0 then 0 else v) in if v > sint w - 10 then sint (w - 10) else v)"

lemma if_record_update [simp]:
  "(if b then s\<lparr>mouse_x := v\<rparr> else s) = s\<lparr>mouse_x := if b then v else mouse_x s\<rparr>"
  "(if b then s\<lparr>mouse_y := v\<rparr> else s) = s\<lparr>mouse_y := if b then v else mouse_y s\<rparr>"
  by simp_all

lemma mouse_move_eq:
  "mouse_move s = s\<lparr>
     mouse_cycle := 0,
     mouse_left_clicked := uint (mouse_packet s ! 0 AND 0x01),
     mouse_right_clicked := (if mouse_packet s ! 0 AND 0x02 \<noteq> 0 then 1 else 0),
     mouse_x := clamp (mouse_x s + sint (if mouse_packet s ! 0 AND 0x10 \<noteq> 0
       then (scast (mouse_packet s ! 1) :: u16) OR 0xFF00 else scast (mouse_packet s ! 1))) (gfx_width (screen s)),
     mouse_y := clamp (mouse_y s - sint (if mouse_packet s ! 0 AND 0x20 \<noteq> 0
       then (scast (mouse_packet s ! 2) :: u16) OR 0xFF00 else scast (mouse_packet s ! 2))) (gfx_height (screen s))\<rparr>"
  by (simp add: mouse_move_def Let_def clamp_def split del: if_split cong: if_cong)


lemma clamp_range: "10 \<le> sint w \<Longrightarrow> 0 \<le> clamp v w \<and> clamp v w \<le> sint w - 10"
  by (simp add: clamp_def Let_def sint_minus_10)

lemma mouse_move_ok:
  assumes "10 \<le> sint (gfx_width (screen s))" "10 \<le> sint (gfx_height (screen s))"
    and "kb_ok s" "length (mouse_packet s) = 3"
  shows "irq_ok (mouse_move s)"
proof -
  have "kb_ok (mouse_move s) = kb_ok s" by (rule kb_frame_ok) (simp_all add: mouse_move_eq)
  then show ?thesis using assms by (simp add: irq_ok_def mouse_move_eq clamp_range)
qed

lemma mouse_byte_ok:
  assumes "irq_ok s"
  shows "\<exists>s'. mouse_byte b s = Some s' \<and> irq_ok s'"
proof (cases "mouse_cycle s = 0 \<and> b AND 0x08 = 0")
  case True
  then have "mouse_byte b s = Some s" by (simp add: mouse_byte_def)
  then show ?thesis using assms by simp
next
  case False
  let ?s = "s\<lparr>mouse_packet := (mouse_packet s)[unat (mouse_cycle s) := b], mouse_cycle := mouse_cycle s + 1\<rparr>"
  have cycle: "unat (mouse_cycle s + 1) = unat (mouse_cycle s) + 1"
    using assms by (simp add: irq_ok_def unat_word_ariths)
  have s: "mouse_byte b s = Some (if mouse_cycle s + 1 = 3 then mouse_move ?s else ?s)"
    using False assms by (auto simp: mouse_byte_def irq_ok_def)
  have ok: "kb_ok ?s" "length (mouse_packet ?s) = 3"
    using assms kb_frame_ok [of ?s s] by (simp_all add: irq_ok_def)
  show ?thesis
  proof (cases "mouse_cycle s + 1 = 3")
    case True
    then show ?thesis using s assms ok mouse_move_ok [of ?s] by (simp add: irq_ok_def)
  next
    case False
    then have "unat (mouse_cycle s + 1) \<noteq> 3" using word_unat_eq_iff [of "mouse_cycle s + 1" 3] by simp
    then show ?thesis using s False assms cycle ok by (simp add: irq_ok_def)
  qed
qed

lemma irq_ok_timer: "irq_ok s \<Longrightarrow> irq_ok (timer_irq s)"
  using kb_frame_ok [of "timer_irq s" s] by (simp add: irq_ok_def timer_irq_def Let_def frame)

lemma keyboard_irq_result:
  "keyboard_irq k s = Some s' \<Longrightarrow>
     s' = s \<or> (\<exists>b. s' = s\<lparr>shift_pressed := b\<rparr>) \<or> (\<exists>c. keyboard_push_char c s = Some s')"
  unfolding keyboard_irq_def
  by (simp only: bind_eq_Some_conv option.inject split: if_splits) metis+

lemma irq_ok_keyboard:
  assumes "irq_ok s"
  shows "\<exists>s'. keyboard_irq k s = Some s' \<and> irq_ok s'"
proof -
  have "kb_ok s" using assms by (simp add: irq_ok_def)
  then obtain s' where s': "keyboard_irq k s = Some s'" "kb_ok s'"
    using keyboard_irq_types by blast
  from keyboard_irq_result [OF s'(1)] consider "s' = s" | b where "s' = s\<lparr>shift_pressed := b\<rparr>" | c where "keyboard_push_char c s = Some s'"
    by blast
  then have "irq_ok s'"
  proof cases
    case 2
    then show ?thesis using assms by (simp add: irq_ok_def)
  next
    case 3
    then obtain b h where "s' = s\<lparr>keyboard_buffer := b, keyboard_head := h\<rparr>" using push_keeps_rest by blast
    then show ?thesis using assms s'(2) by (simp add: irq_ok_def)
  qed (use assms in simp)
  then show ?thesis using s' by simp
qed

section \<open>The interrupt handler as a state machine\<close>

text \<open>The executions of the interrupt side: interrupts arrive in any order, the desktop loop pops
  characters, and the hardware changes its own state at any time.\<close>

inductive irq_run :: "'d ports \<Rightarrow> irq_state \<Rightarrow> 'd \<Rightarrow> bool" for B where
  boot: "510 \<le> sint (gfx_width g) \<Longrightarrow> 410 \<le> sint (gfx_height g) \<Longrightarrow> irq_run B (irq_init g) d"
| interrupt: "irq_run B s d \<Longrightarrow> isr_handler B regs s d = Some (Resume, s', d') \<Longrightarrow> irq_run B s' d'"
| pop: "irq_run B s d \<Longrightarrow> keyboard_pop_char s = Some (c, s') \<Longrightarrow> irq_run B s' d"
| hardware: "irq_run B s d \<Longrightarrow> irq_run B s d'"

lemma irq_ok_init:
  assumes "510 \<le> sint (gfx_width g)" "410 \<le> sint (gfx_height g)"
  shows "irq_ok (irq_init g)"
  using assms by (simp add: irq_ok_def irq_init_def kb_ok_def kb_pending_def)

lemma irq_ok_mouse:
  assumes "irq_ok s"
  shows "\<exists>s' d'. mouse_irq B s d = Some (s', d') \<and> irq_ok s'"
proof -
  obtain st d1 where 1: "inb B 0x64 d = (st, d1)" by (cases "inb B 0x64 d")
  obtain b d2 where 2: "inb B 0x60 d1 = (b, d2)" by (cases "inb B 0x60 d1")
  obtain s' where "mouse_byte b s = Some s'" "irq_ok s'" using mouse_byte_ok [OF assms] by blast
  then show ?thesis using assms 1 2 by (simp add: mouse_irq_def)
qed

lemma isr_handler_ok:
  assumes "irq_ok s"
  shows "\<exists>e s' d'. isr_handler B regs s d = Some (e, s', d') \<and> irq_ok s' \<and>
    (e = Hang \<longleftrightarrow> \<not> (32 \<le> int_no regs \<and> int_no regs \<le> 47))"
proof -
  obtain k d1 where k: "inb B 0x60 d = (k, d1)" by (cases "inb B 0x60 d")
  obtain v d2 where v: "inb B 0x1F7 d = (v, d2)" by (cases "inb B 0x1F7 d")
  obtain s1 where s1: "keyboard_irq k s = Some s1" "irq_ok s1" using irq_ok_keyboard [OF assms] by blast
  obtain s2 d3 where s2: "mouse_irq B s d = Some (s2, d3)" "irq_ok s2" using irq_ok_mouse [OF assms, of B d] by auto
  have s3: "irq_ok (s\<lparr>ide_interrupt_fired := 1\<rparr>)"
    using assms kb_frame_ok [of "s\<lparr>ide_interrupt_fired := 1\<rparr>" s] by (simp add: irq_ok_def)
  consider "int_no regs = 32" | "int_no regs = 33" | "int_no regs = 44" | "int_no regs = 46"
    | "int_no regs \<notin> {32, 33, 44, 46}" by blast
  then show ?thesis
    by cases (use assms irq_ok_timer [OF assms] k v s1 s2 s3 in \<open>simp_all add: isr_handler_def Let_def\<close>)
qed

lemma irq_ok_pop:
  assumes "irq_ok s" "keyboard_pop_char s = Some (c, s')"
  shows "irq_ok s'"
proof -
  have kb: "kb_ok s" using assms(1) by (simp add: irq_ok_def)
  have "kb_ok s'"
  proof (cases "kb_pending s")
    case Nil
    then show ?thesis using keyboard_pop_empty [OF kb] kb assms(2) by simp
  next
    case (Cons a cs)
    then show ?thesis using keyboard_pop_pending [OF kb] assms(2) by fastforce
  qed
  moreover have "\<exists>t. s' = s\<lparr>keyboard_tail := t\<rparr>"
    using assms(2) unfolding keyboard_pop_char_def
    by (auto simp: bind_eq_Some_conv split: if_splits) (metis irq_state.surjective irq_state.update_convs(4))
  ultimately show ?thesis using assms(1) by (auto simp: irq_ok_def)
qed

lemma irq_run_ok: "irq_run B s d \<Longrightarrow> irq_ok s"
proof (induction rule: irq_run.induct)
  case (interrupt s d regs s' d')
  then show ?case using isr_handler_ok [OF interrupt.IH, of B regs d] by simp
qed (auto intro: irq_ok_init irq_ok_pop)

lemma uint_u8_bounds: "0 \<le> uint (b :: u8)" "uint (b :: u8) < 256" "128 \<le> unat b \<longleftrightarrow> 128 \<le> uint b"
proof -
  have "uint b = int (unat b)" by simp
  then show "0 \<le> uint b" "uint b < 256" "128 \<le> unat b \<longleftrightarrow> 128 \<le> uint b"
    using unat_lt_u8 [of b] by linarith+
qed

lemma sint_scast_u8: "sint (scast (b :: u8) :: u16) = (if 128 \<le> unat b then uint b - 256 else uint b)"
proof -
  have "- 128 \<le> sint b" "sint b < 128" using sint_ge [of b] sint_lt [of b] by simp_all
  then have "sint (scast b :: u16) = sint b"
    by (simp add: signed_scast_eq signed_take_bit_int_eq_self)
  also have "\<dots> = (uint b + 128) mod 256 - 128"
    by (simp add: sint_uint signed_take_bit_eq_take_bit_shift take_bit_eq_mod)
  also have "\<dots> = (if 128 \<le> uint b then uint b - 256 else uint b)"
  proof (cases "128 \<le> uint b")
    case True
    have "(uint b + 128) mod 256 = (uint b - 128 + 256) mod 256" by (simp add: add.commute)
    also have "\<dots> = uint b - 128" using True uint_u8_bounds [of b] by (simp only: mod_add_self2) simp
    finally show ?thesis using True by simp
  qed (use uint_u8_bounds [of b] in simp)
  finally show ?thesis by (simp only: uint_u8_bounds(3))
qed

lemma sint_or_ff00: "sint ((scast (b :: u8) :: u16) OR 0xFF00) = uint b - 256"
proof -
  have m: "(0xFF00 :: u16) = NOT (mask 8)" by (simp add: mask_eq_exp_minus_1)
  have "(scast b :: u16) OR 0xFF00 = ucast b OR 0xFF00"
    unfolding m by (rule bit_word_eqI) (auto simp: bit_simps)
  also have "\<dots> = ucast b + 0xFF00"
    unfolding m by (rule disjunctive_add [symmetric]) (auto simp: bit_simps dest: bit_imp_le_length)
  finally have eq: "(scast b :: u16) OR 0xFF00 = word_of_int (uint b - 256)" by simp
  have "signed_take_bit 15 (uint b - 256) = uint b - 256"
    using uint_u8_bounds [of b] by (intro signed_take_bit_int_eq_self) auto
  then show ?thesis unfolding eq sint_sbintrunc' by simp
qed

lemma mouse_irq_reads:
  assumes "mouse_irq (recorder f) s h = Some (s', h')"
  shows "\<exists>ins. set ins \<subseteq> range In8 \<and> h' = h @ ins"
proof -
  from assms consider "h' = h @ [In8 0x64]" | "h' = h @ [In8 0x64, In8 0x60]"
    by (auto simp: mouse_irq_def Let_def bind_eq_Some_conv split: if_splits)
  then show ?thesis by cases (rule exI, rule conjI [rotated], assumption, simp)+
qed

section \<open>Gate installation\<close>

definition gate :: "u32 \<Rightarrow> u16 \<Rightarrow> u8 \<Rightarrow> idt_entry_struct" where
  "gate base selector fl = \<lparr>gate_base_low = ucast (base AND 0xFFFF), sel = selector, always0 = 0, flags = fl,
     gate_base_high = ucast (drop_bit 16 base AND 0xFFFF)\<rparr>"

lemma idt_set_gate_eq: "idt_set_gate num base selector fl t = t[unat num := gate base selector fl]"
  unfolding idt_set_gate_def Let_def gate_def by (cases "t ! unat num") simp

lemma gate_decodes:
  "gate_handler (gate base selector fl) = base" "sel (gate base selector fl) = selector"
  "flags (gate base selector fl) = fl"
  by (simp_all add: gate_handler_def gate_def word_join16)

lemma clear_idt:
  assumes "length t = 256"
  shows "for_int 0 256 (\<lambda>i. idt_set_gate (of_int i) 0 0 0) t = replicate 256 (gate 0 0 0)"
proof -
  have "fold (\<lambda>i. idt_set_gate (of_int i) 0 0 0) [0..int n - 1] t = replicate n (gate 0 0 0) @ drop n t"
    if "n \<le> 256" for n
    using that
  proof (induction n)
    case (Suc n)
    have "[0..int (Suc n) - 1] = [0..int n - 1] @ [int n]" using upto_rec2 [of 0 "int n"] by simp
    moreover have "unat (of_int (int n) :: u8) = n" using Suc.prems by (simp add: unat_of_nat take_bit_nat_eq_self)
    ultimately show ?case
      using Suc assms by (simp add: idt_set_gate_eq list_update_append Cons_nth_drop_Suc [symmetric] replicate_append_same)
  qed simp
  from this [of 256] show ?thesis using assms by (simp add: for_int_def)
qed

definition boot_screen_gfx :: gfx where
  "boot_screen_gfx = \<lparr>gfx_framebuffer = Some (\<lambda>_. 0), gfx_width = 1024, gfx_height = 768, gfx_pitch = 4096\<rparr>"

lemma boot_irq_ok: "irq_ok (irq_init boot_screen_gfx)"
  by (rule irq_ok_init) (simp_all add: boot_screen_gfx_def)

lemma boot_kb: "kb_ok (irq_init boot_screen_gfx)" "kb_pending (irq_init boot_screen_gfx) = []"
  "shift_pressed (irq_init boot_screen_gfx) = False"
  by (simp_all add: irq_init_def kb_ok_def kb_pending_def)

section \<open>Main properties\<close>

text \<open>C5. In every execution of the interrupt side, whatever the order of interrupts and pops and
  whatever the hardware answers, the state stays well-formed (ring indices and the mouse packet
  index in bounds, no zero character pending, the pointer on the screen), and the next interrupt,
  of any number, is handled without an out-of-bounds access; it hangs exactly for vectors outside
  32 to 47.\<close>

theorem irq_run_safe:
  assumes "irq_run B s d"
  shows "irq_ok s \<and> (\<exists>e s' d'. isr_handler B regs s d = Some (e, s', d') \<and> irq_ok s' \<and>
    (e = Hang \<longleftrightarrow> \<not> (32 \<le> int_no regs \<and> int_no regs \<le> 47)))"
  using irq_run_ok [OF assms] isr_handler_ok [OF irq_run_ok [OF assms]] by (rule conjI)

theorem irq_run_safe_witness: "irq_ok (irq_init boot_screen_gfx)"
proof -
  have "irq_run (recorder (\<lambda>_. 0)) (irq_init boot_screen_gfx) []"
    by (rule irq_run.boot) (simp_all add: boot_screen_gfx_def)
  from irq_run_safe [OF this] show ?thesis by simp
qed



text \<open>C7. Typing reaches the user interface: from an empty ring, any sequence of scancodes leaves
  in the ring the first 31 characters that the sequence means (shift presses and releases taken
  into account), and the desktop's input loop terminates, delivers exactly these in order, a
  backspace as press and release, and leaves the ring empty.\<close>

theorem typed_text_delivered:
  assumes "kb_ok s" and "kb_pending s = []"
  shows "\<exists>s1 s2. key_presses ks s = Some s1 \<and>
    drain_keyboard s1 = Some (concat (map input_events (take 31 (typed (shift_pressed s) ks))), s2) \<and>
    kb_ok s2 \<and> kb_pending s2 = []"
proof -
  obtain s1 where "key_presses ks s = Some s1" "kb_ok s1" "kb_pending s1 = take 31 (typed (shift_pressed s) ks)"
    using key_presses_types [OF assms(1), of ks] assms(2) by auto
  then show ?thesis using drain_keyboard_pending [of s1] by auto
qed

theorem typed_text_delivered_witness:
  "\<exists>s1 s2. key_presses [0x2A, 0x31, 0xAA, 0x1E, 0x18, 0x0E] (irq_init boot_screen_gfx) = Some s1 \<and>
     drain_keyboard s1 = Some ([Nk_input_char CHR ''N'', Nk_input_char CHR ''a'', Nk_input_char CHR ''o'',
       Nk_input_key_backspace 1, Nk_input_key_backspace 0], s2)"
  using typed_text_delivered [OF boot_kb(1,2), of "[0x2A, 0x31, 0xAA, 0x1E, 0x18, 0x0E]"]
  by (auto simp: boot_kb(3) key_char_def input_events_def scancode_to_ascii_normal_def scancode_to_ascii_shift_def)

text \<open>C13. The keyboard ring refines a bounded queue of 31 characters: a push appends unless the
  queue is full, when it is dropped; a pop takes the oldest character, or returns zero and changes
  nothing when the queue is empty.\<close>

theorem keyboard_ring_refines_queue:
  assumes "kb_ok s" and "c \<noteq> CHR 0x00"
  shows "(\<exists>s'. keyboard_push_char c s = Some s' \<and> kb_ok s' \<and>
      kb_pending s' = (if length (kb_pending s) < 31 then kb_pending s @ [c] else kb_pending s)) \<and>
    (case kb_pending s of
       [] \<Rightarrow> keyboard_pop_char s = Some (CHR 0x00, s)
     | x # xs \<Rightarrow> \<exists>s'. keyboard_pop_char s = Some (x, s') \<and> kb_ok s' \<and> kb_pending s' = xs)"
  using kb.push_pending [OF assms] kb.pop_empty [OF assms(1)] kb.pop_pending [OF assms(1)]
  by (cases "kb_pending s") auto

theorem keyboard_ring_refines_queue_witness:
  "\<exists>s'. keyboard_push_char CHR ''x'' (irq_init boot_screen_gfx) = Some s' \<and> kb_pending s' = ''x''"
  using keyboard_ring_refines_queue [OF boot_kb(1), of "CHR ''x''"] by (auto simp: boot_kb(2))

text \<open>C14. What a complete mouse packet does: the buttons are the two low bits, and each coordinate
  moves by the movement byte read as negative (minus 256) when the sign flag is set or the byte is
  128 or more, vertically inverted, and is then clamped to the screen.  So movements from -128 to
  127 are exact, while a positive movement of 128 to 255, which the nine-bit protocol allows, moves
  the pointer the wrong way.\<close>

theorem mouse_packet_moves:
  assumes "mouse_packet s = [fl, bx, by]"
  shows "mouse_x (mouse_move s) = clamp (mouse_x s + mouse_delta (fl AND 0x10 \<noteq> 0) bx) (gfx_width (screen s)) \<and>
    mouse_y (mouse_move s) = clamp (mouse_y s - mouse_delta (fl AND 0x20 \<noteq> 0) by) (gfx_height (screen s)) \<and>
    mouse_left_clicked (mouse_move s) = uint (fl AND 0x01) \<and>
    mouse_right_clicked (mouse_move s) = (if fl AND 0x02 \<noteq> 0 then 1 else 0) \<and>
    mouse_cycle (mouse_move s) = 0"
  using assms by (simp add: mouse_move_eq mouse_delta_def sint_scast_u8 sint_or_ff00)

theorem mouse_packet_moves_witness:
  "mouse_x (mouse_move ((irq_init boot_screen_gfx)\<lparr>mouse_packet := [0x09, 200, 0]\<rparr>)) = 444"
  using mouse_packet_moves [of "(irq_init boot_screen_gfx)\<lparr>mouse_packet := [0x09, 200, 0]\<rparr>" "0x09" 200 0]
  by (simp add: clamp_def mouse_delta_def irq_init_def boot_screen_gfx_def Let_def)

text \<open>\<open>init_idt\<close> leaves a table of 256 entries in which exactly the vectors 0, 3, 32, 33,
  44 and 46 are present, each with the kernel code selector and the address of its own stub, read
  back as the processor decodes it; the register covers the whole table.\<close>

theorem init_idt_gates:
  assumes "length (idt s) = 256"
  shows "\<exists>t d'. init_idt B a addr s d = (\<lparr>idt = t, idt_ptr = \<lparr>idt_limit = 2047, idt_base = addr\<rparr>\<rparr>, d') \<and>
    length t = 256 \<and> (\<forall>v < 256. gate_present (t ! v) \<longleftrightarrow> v \<in> {0, 3, 32, 33, 44, 46}) \<and>
    map (\<lambda>v. gate_handler (t ! v)) [0, 3, 32, 33, 44, 46] = [isr0 a, isr3 a, irq0 a, irq1 a, irq12 a, irq14 a] \<and>
    map (\<lambda>v. sel (t ! v)) [0, 3, 32, 33, 44, 46] = [8, 8, 8, 8, 8, 8]"
proof -
  define z where "z = replicate 256 (gate 0 0 0)"
  have z: "length z = 256" "z ! v = gate 0 0 0" if "v < 256" for v
    using that by (simp_all add: z_def)
  define t where "t = z[0 := gate (isr0 a) 0x08 0x8E, 3 := gate (isr3 a) 0x08 0x8E, 32 := gate (irq0 a) 0x08 0x8E,
    33 := gate (irq1 a) 0x08 0x8E, 44 := gate (irq12 a) 0x08 0x8E, 46 := gate (irq14 a) 0x08 0x8E]"
  have "init_idt B a addr s d = (\<lparr>idt = t, idt_ptr = \<lparr>idt_limit = 2047, idt_base = addr\<rparr>\<rparr>, init_mouse B (pic_remap B d))"
    using clear_idt [OF assms] unfolding z_def [symmetric] by (simp add: init_idt_def Let_def idt_set_gate_eq t_def)
  moreover have "gate_present (t ! v) \<longleftrightarrow> v \<in> {0, 3, 32, 33, 44, 46}" if "v < 256" for v
    using that z [of v] by (simp add: t_def nth_list_update gate_present_def gate_decodes)
  ultimately show ?thesis using z(1) [of 0] by (simp add: t_def gate_decodes)
qed

theorem init_idt_gates_witness:
  "\<exists>t p d'. init_idt (recorder (\<lambda>_. 1)) \<lparr>isr0 = 1, isr3 = 2, irq0 = 3, irq1 = 4, irq12 = 5, irq14 = 6\<rparr> 0x5000
     \<lparr>idt = replicate 256 (gate 0 0 0), idt_ptr = \<lparr>idt_limit = 0, idt_base = 0\<rparr>\<rparr> [] = (\<lparr>idt = t, idt_ptr = p\<rparr>, d') \<and>
     gate_handler (t ! 33) = 4"
  using init_idt_gates [of "\<lparr>idt = replicate 256 (gate 0 0 0), idt_ptr = \<lparr>idt_limit = 0, idt_base = 0\<rparr>\<rparr>"
      "recorder (\<lambda>_. 1)" "\<lparr>isr0 = 1, isr3 = 2, irq0 = 3, irq1 = 4, irq12 = 5, irq14 = 6\<rparr>" "0x5000" "[]"]
  by fastforce

end
