(* ===== verification/Disk.thy ===== *)
theory Disk
  imports Interrupts
begin

text \<open>
  The disk driver, \<open>src/diskio.c\<close>: programmed I/O on the primary ATA channel, one sector per
  command, with the completion interrupt as the only synchronisation.  The drive is a parameter
  (the ports of \<open>Port_IO\<close> and a source of interrupt 14); while the code waits, the drive makes
  progress and the interrupt runs the real handler \<open>isr_handler\<close> of \<open>src/idt.c\<close>, which
  sets \<open>ide_interrupt_fired\<close>.  What is assumed of a drive is that it behaves like the reference
  drive below, written from the ATA protocol.  Trace output is left out.
\<close>

section \<open>The program\<close>

datatype DRESULT = RES_OK | RES_ERROR | RES_WRPRT | RES_NOTRDY | RES_PARERR

definition STA_NOINIT :: u8 where "STA_NOINIT = 0x01"
definition ATA_REG_DATA :: u16 where "ATA_REG_DATA = 0x1F0"
definition ATA_REG_FEATURES :: u16 where "ATA_REG_FEATURES = 0x1F1"
definition ATA_REG_SECTOR_COUNT :: u16 where "ATA_REG_SECTOR_COUNT = 0x1F2"
definition ATA_REG_LBA_LOW :: u16 where "ATA_REG_LBA_LOW = 0x1F3"
definition ATA_REG_LBA_MID :: u16 where "ATA_REG_LBA_MID = 0x1F4"
definition ATA_REG_LBA_HIGH :: u16 where "ATA_REG_LBA_HIGH = 0x1F5"
definition ATA_REG_DRIVE :: u16 where "ATA_REG_DRIVE = 0x1F6"
definition ATA_REG_COMMAND :: u16 where "ATA_REG_COMMAND = 0x1F7"
definition ATA_REG_STATUS :: u16 where "ATA_REG_STATUS = 0x1F7"
definition ATA_CMD_READ :: u8 where "ATA_CMD_READ = 0x20"
definition ATA_CMD_WRITE :: u8 where "ATA_CMD_WRITE = 0x30"
definition ATA_STATUS_BSY :: u8 where "ATA_STATUS_BSY = 0x80"
definition ATA_STATUS_DRQ :: u8 where "ATA_STATUS_DRQ = 0x08"

lemmas ata_regs = ATA_REG_DATA_def ATA_REG_FEATURES_def ATA_REG_SECTOR_COUNT_def ATA_REG_LBA_LOW_def
  ATA_REG_LBA_MID_def ATA_REG_LBA_HIGH_def ATA_REG_DRIVE_def ATA_REG_COMMAND_def ATA_REG_STATUS_def
  ATA_CMD_READ_def ATA_CMD_WRITE_def ATA_STATUS_BSY_def ATA_STATUS_DRQ_def

definition inw :: "'d ports \<Rightarrow> u16 \<Rightarrow> 'd \<Rightarrow> u16 \<times> 'd" where
  "inw B port d = in16 B port d"

definition outw :: "'d ports \<Rightarrow> u16 \<Rightarrow> u16 \<Rightarrow> 'd \<Rightarrow> 'd" where
  "outw B port val d = out16 B port val d"

text \<open>The registers pushed by the \<open>irq14\<close> stub that the handler looks at.\<close>

definition irq14_regs :: registers where
  "irq14_regs = \<lparr>reg_ds = 0, edi = 0, esi = 0, ebp = 0, esp = 0, ebx = 0, edx = 0, ecx = 0, eax = 0,
     int_no = 46, err_code = 0, eip = 0, reg_cs = 0, eflags = 0, useresp = 0, reg_ss = 0\<rparr>"

text \<open>One turn of the hardware while the processor executes \<open>nop\<close>: \<open>tick\<close> says whether the
  drive raises its interrupt, which then runs the handler.\<close>

definition nop :: "'d ports \<Rightarrow> ('d \<Rightarrow> bool \<times> 'd) \<Rightarrow> irq_state \<Rightarrow> 'd \<Rightarrow> (irq_state \<times> 'd) option" where
  "nop B tick s d =
     (let (irq, d) = tick d
      in if irq then do { (_, s, d) \<leftarrow> isr_handler B irq14_regs s d; Some (s, d) } else Some (s, d))"

partial_function (option) ata_wait_ready ::
  "'d ports \<Rightarrow> ('d \<Rightarrow> bool \<times> 'd) \<Rightarrow> irq_state \<Rightarrow> 'd \<Rightarrow> (irq_state \<times> 'd) option" where
  "ata_wait_ready B tick s d =
     (if ide_interrupt_fired s \<noteq> 0 then Some (s\<lparr>ide_interrupt_fired := 0\<rparr>, d)
      else do { (s, d) \<leftarrow> nop B tick s d; ata_wait_ready B tick s d })"

definition disk_status :: "u8 \<Rightarrow> u8" where
  "disk_status pdrv = (if pdrv \<noteq> 0 then STA_NOINIT else 0)"

definition disk_initialize :: "'d ports \<Rightarrow> u8 \<Rightarrow> 'd \<Rightarrow> u8 \<times> 'd" where
  "disk_initialize B pdrv d =
     (if pdrv \<noteq> 0 then (STA_NOINIT, d)
      else let d = outb B 0x3F6 0x00 d; (_, d) = inb B ATA_REG_STATUS d in (0, d))"

definition ata_select_master :: "'d ports \<Rightarrow> u32 \<Rightarrow> 'd \<Rightarrow> 'd" where
  "ata_select_master B sector d = outb B ATA_REG_DRIVE (ucast (0xE0 OR (drop_bit 24 sector AND 0x0F))) d"

definition read_status :: "'d ports \<Rightarrow> 'd \<Rightarrow> 'd" where
  "read_status B d = snd (inb B ATA_REG_STATUS d)"

text \<open>Waiting for the interrupt; every fifty millionth turn the status is read twice for a warning.\<close>

partial_function (option) ata_wait_loop ::
  "'d ports \<Rightarrow> ('d \<Rightarrow> bool \<times> 'd) \<Rightarrow> u32 \<Rightarrow> irq_state \<Rightarrow> 'd \<Rightarrow> (irq_state \<times> 'd) option" where
  "ata_wait_loop B tick loop_counter s d =
     (if ide_interrupt_fired s \<noteq> 0 then Some (s, d)
      else do {
        (s, d) \<leftarrow> nop B tick s d;
        let loop_counter = loop_counter + 1;
        let d = (if loop_counter mod 50000000 = 0 then read_status B (read_status B d) else d);
        ata_wait_loop B tick loop_counter s d
      })"

definition ata_wait_interrupt ::
  "'d ports \<Rightarrow> ('d \<Rightarrow> bool \<times> 'd) \<Rightarrow> irq_state \<Rightarrow> 'd \<Rightarrow> (irq_state \<times> 'd) option" where
  "ata_wait_interrupt B tick s d = do {
     (s, d) \<leftarrow> ata_wait_loop B tick 0 s d;
     Some (s\<lparr>ide_interrupt_fired := 0\<rparr>, d)
   }"

text \<open>\<open>while (inb(status) & mask is/is not set) nop\<close>.\<close>

partial_function (option) ata_poll ::
  "'d ports \<Rightarrow> ('d \<Rightarrow> bool \<times> 'd) \<Rightarrow> (u8 \<Rightarrow> bool) \<Rightarrow> irq_state \<Rightarrow> 'd \<Rightarrow> (irq_state \<times> 'd) option" where
  "ata_poll B tick again s d =
     (if again (fst (inb B ATA_REG_STATUS d))
      then do { (s, d) \<leftarrow> nop B tick s (snd (inb B ATA_REG_STATUS d)); ata_poll B tick again s d }
      else Some (s, snd (inb B ATA_REG_STATUS d)))"

definition status4 :: "'d ports \<Rightarrow> 'd \<Rightarrow> 'd" where
  "status4 B d = read_status B (read_status B (read_status B (read_status B d)))"

definition ata_poll_drq ::
  "'d ports \<Rightarrow> ('d \<Rightarrow> bool \<times> 'd) \<Rightarrow> irq_state \<Rightarrow> 'd \<Rightarrow> (irq_state \<times> 'd) option" where
  "ata_poll_drq B tick s d = do {
     let d = status4 B d;
     (s, d) \<leftarrow> ata_poll B tick (\<lambda>v. v AND ATA_STATUS_BSY \<noteq> 0) s d;
     ata_poll B tick (\<lambda>v. v AND ATA_STATUS_DRQ = 0) s d
   }"

text \<open>Programming the task file for one sector.\<close>

definition ata_setup :: "'d ports \<Rightarrow> u32 \<Rightarrow> 'd \<Rightarrow> 'd" where
  "ata_setup B current_sector d =
     outbs B [(ATA_REG_FEATURES, 0x00), (ATA_REG_SECTOR_COUNT, 1), (ATA_REG_LBA_LOW, ucast current_sector),
       (ATA_REG_LBA_MID, ucast (drop_bit 8 current_sector)), (ATA_REG_LBA_HIGH, ucast (drop_bit 16 current_sector))]
       (ata_select_master B current_sector d)"

primrec read_words :: "'d ports \<Rightarrow> nat \<Rightarrow> 'd \<Rightarrow> u16 list \<times> 'd" where
  "read_words B 0 d = ([], d)"
| "read_words B (Suc n) d =
     (let (w, d) = inw B ATA_REG_DATA d; (ws, d) = read_words B n d in (w # ws, d))"

definition read_sector ::
  "'d ports \<Rightarrow> ('d \<Rightarrow> bool \<times> 'd) \<Rightarrow> u32 \<Rightarrow> irq_state \<Rightarrow> 'd \<Rightarrow> (u16 list \<times> irq_state \<times> 'd) option" where
  "read_sector B tick current_sector s d = do {
     let d = ata_setup B current_sector d;
     let s = s\<lparr>ide_interrupt_fired := 0\<rparr>;
     let d = outb B ATA_REG_COMMAND ATA_CMD_READ d;
     let d = status4 B d;
     (s, d) \<leftarrow> ata_wait_interrupt B tick s d;
     let (ws, d) = read_words B 256 d;
     Some (ws, s, d)
   }"

text \<open>The sector loop; the words are stored one after the other from the start of the buffer.\<close>

primrec read_sectors ::
  "'d ports \<Rightarrow> ('d \<Rightarrow> bool \<times> 'd) \<Rightarrow> u32 \<Rightarrow> nat \<Rightarrow> irq_state \<Rightarrow> 'd \<Rightarrow> (u16 list \<times> irq_state \<times> 'd) option" where
  "read_sectors B tick sector 0 s d = Some ([], s, d)"
| "read_sectors B tick sector (Suc n) s d = do {
     (ws, s, d) \<leftarrow> read_sector B tick sector s d;
     (ws', s, d) \<leftarrow> read_sectors B tick (sector + 1) n s d;
     Some (ws @ ws', s, d)
   }"

definition disk_read ::
  "'d ports \<Rightarrow> ('d \<Rightarrow> bool \<times> 'd) \<Rightarrow> u8 \<Rightarrow> u32 \<Rightarrow> u32 \<Rightarrow> irq_state \<Rightarrow> 'd
     \<Rightarrow> (DRESULT \<times> u16 list \<times> irq_state \<times> 'd) option" where
  "disk_read B tick pdrv sector count s d =
     (if pdrv \<noteq> 0 then Some (RES_PARERR, [], s, d)
      else do { (ws, s, d) \<leftarrow> read_sectors B tick sector (unat count) s d; Some (RES_OK, ws, s, d) })"

definition write_words :: "'d ports \<Rightarrow> u16 list \<Rightarrow> 'd \<Rightarrow> 'd" where
  "write_words B ws d = fold (outw B ATA_REG_DATA) ws d"

definition write_sector ::
  "'d ports \<Rightarrow> ('d \<Rightarrow> bool \<times> 'd) \<Rightarrow> u32 \<Rightarrow> u16 list \<Rightarrow> irq_state \<Rightarrow> 'd \<Rightarrow> (irq_state \<times> 'd) option" where
  "write_sector B tick current_sector ws s d = do {
     let d = ata_setup B current_sector d;
     let s = s\<lparr>ide_interrupt_fired := 0\<rparr>;
     let d = outb B ATA_REG_COMMAND ATA_CMD_WRITE d;
     let d = status4 B d;
     (s, d) \<leftarrow> ata_poll_drq B tick s d;
     let d = write_words B ws d;
     (s, d) \<leftarrow> ata_wait_interrupt B tick s d;
     Some (s, read_status B d)
   }"

text \<open>The buffer is the list of its words; a buffer shorter than \<open>count\<close> sectors is read out of
  bounds, \<^const>\<open>None\<close>.\<close>

primrec write_sectors ::
  "'d ports \<Rightarrow> ('d \<Rightarrow> bool \<times> 'd) \<Rightarrow> u32 \<Rightarrow> nat \<Rightarrow> u16 list \<Rightarrow> irq_state \<Rightarrow> 'd \<Rightarrow> (irq_state \<times> 'd) option" where
  "write_sectors B tick sector 0 buff s d = Some (s, d)"
| "write_sectors B tick sector (Suc n) buff s d =
     (if length buff < 256 then None
      else do {
        (s, d) \<leftarrow> write_sector B tick sector (take 256 buff) s d;
        write_sectors B tick (sector + 1) n (drop 256 buff) s d
      })"

definition disk_write ::
  "'d ports \<Rightarrow> ('d \<Rightarrow> bool \<times> 'd) \<Rightarrow> u8 \<Rightarrow> u16 list \<Rightarrow> u32 \<Rightarrow> u32 \<Rightarrow> irq_state \<Rightarrow> 'd
     \<Rightarrow> (DRESULT \<times> irq_state \<times> 'd) option" where
  "disk_write B tick pdrv buff sector count s d =
     (if pdrv \<noteq> 0 then Some (RES_PARERR, s, d)
      else do { (s, d) \<leftarrow> write_sectors B tick sector (unat count) buff s d; Some (RES_OK, s, d) })"

text \<open>What \<open>disk_ioctl\<close> stores through its buffer pointer.\<close>

datatype ioctl_store = Store_none | Store_LBA u32 | Store_WORD u16 | Store_DWORD u32

definition disk_ioctl :: "u8 \<Rightarrow> u8 \<Rightarrow> DRESULT \<times> ioctl_store" where
  "disk_ioctl pdrv cmd =
     (if pdrv \<noteq> 0 then (RES_PARERR, Store_none)
      else if cmd = 0 then (RES_OK, Store_none)
      else if cmd = 1 then (RES_OK, Store_LBA 20480)
      else if cmd = 2 then (RES_OK, Store_WORD 512)
      else if cmd = 3 then (RES_OK, Store_DWORD 1)
      else (RES_PARERR, Store_none))"

definition get_fattime :: u32 where
  "get_fattime = push_bit 25 (2026 - 1980) OR push_bit 21 6 OR push_bit 16 28"

section \<open>The reference drive\<close>

text \<open>The ATA programmed-I/O protocol: a task file of registers, a phase, the sectors, and how many
  turns a command takes.\<close>

datatype ata_phase =
    Idle
  | Reading nat nat
  | Sending nat nat
  | Preparing nat nat
  | Accepting nat "u16 list"
  | Committing nat

record ata_dev =
  lba_low :: u8
  lba_mid :: u8
  lba_high :: u8
  drive :: u8
  phase :: ata_phase
  media :: "nat \<Rightarrow> u16 list"
  latency :: nat

definition lba_of :: "ata_dev \<Rightarrow> nat" where
  "lba_of a = unat (lba_low a) + 256 * unat (lba_mid a) + 65536 * unat (lba_high a) +
     16777216 * (unat (drive a) mod 16)"

definition ata_out8 :: "u16 \<Rightarrow> u8 \<Rightarrow> ata_dev \<Rightarrow> ata_dev" where
  "ata_out8 p v a =
     (if p = 0x1F3 then a\<lparr>lba_low := v\<rparr>
      else if p = 0x1F4 then a\<lparr>lba_mid := v\<rparr>
      else if p = 0x1F5 then a\<lparr>lba_high := v\<rparr>
      else if p = 0x1F6 then a\<lparr>drive := v\<rparr>
      else if p = 0x1F7 \<and> v = 0x20 then a\<lparr>phase := Reading (latency a) (lba_of a)\<rparr>
      else if p = 0x1F7 \<and> v = 0x30 then a\<lparr>phase := Preparing (latency a) (lba_of a)\<rparr>
      else a)"

definition ata_in8 :: "u16 \<Rightarrow> ata_dev \<Rightarrow> u8 \<times> ata_dev" where
  "ata_in8 p a =
     (if p = 0x1F7 then
        (case phase a of
           Idle \<Rightarrow> (0x50, a)
         | Reading _ _ \<Rightarrow> (0x80, a)
         | Sending _ _ \<Rightarrow> (0x58, a)
         | Preparing n l \<Rightarrow> (0x80, a\<lparr>phase := (if n = 0 then Accepting l [] else Preparing (n - 1) l)\<rparr>)
         | Accepting _ _ \<Rightarrow> (0x58, a)
         | Committing _ \<Rightarrow> (0x80, a))
      else (0, a))"

definition ata_in16 :: "u16 \<Rightarrow> ata_dev \<Rightarrow> u16 \<times> ata_dev" where
  "ata_in16 p a =
     (case phase a of
        Sending l k \<Rightarrow> if p = 0x1F0 then (media a l ! k, a\<lparr>phase := (if k = 255 then Idle else Sending l (k + 1))\<rparr>) else (0, a)
      | _ \<Rightarrow> (0, a))"

definition ata_out16 :: "u16 \<Rightarrow> u16 \<Rightarrow> ata_dev \<Rightarrow> ata_dev" where
  "ata_out16 p v a =
     (case phase a of
        Accepting l ws \<Rightarrow>
          if p = 0x1F0 then
            (if length ws = 255 then a\<lparr>media := (media a)(l := ws @ [v]), phase := Committing (latency a)\<rparr>
             else a\<lparr>phase := Accepting l (ws @ [v])\<rparr>)
          else a
      | _ \<Rightarrow> a)"

definition ata_tick :: "ata_dev \<Rightarrow> bool \<times> ata_dev" where
  "ata_tick a =
     (case phase a of
        Reading n l \<Rightarrow> if n = 0 then (True, a\<lparr>phase := Sending l 0\<rparr>) else (False, a\<lparr>phase := Reading (n - 1) l\<rparr>)
      | Committing n \<Rightarrow> if n = 0 then (True, a\<lparr>phase := Idle\<rparr>) else (False, a\<lparr>phase := Committing (n - 1)\<rparr>)
      | _ \<Rightarrow> (False, a))"

text \<open>A drive conforms when some view of it behaves like the reference drive at the ports the driver
  and the interrupt handler use.\<close>

definition ata_conforms :: "'d ports \<Rightarrow> ('d \<Rightarrow> bool \<times> 'd) \<Rightarrow> ('d \<Rightarrow> ata_dev) \<Rightarrow> bool" where
  "ata_conforms B tick view \<longleftrightarrow>
     (\<forall>p v d. view (outb B p v d) = ata_out8 p v (view d)) \<and>
     (\<forall>p d. map_prod id view (inb B p d) = ata_in8 p (view d)) \<and>
     (\<forall>p d. map_prod id view (inw B p d) = ata_in16 p (view d)) \<and>
     (\<forall>p v d. view (outw B p v d) = ata_out16 p v (view d)) \<and>
     (\<forall>d. map_prod id view (tick d) = ata_tick (view d))"

section \<open>The driver on a conforming drive\<close>

lemma conforms_out8: "ata_conforms B tick view \<Longrightarrow> view (outb B p v d) = ata_out8 p v (view d)"
  by (simp add: ata_conforms_def)

lemma conforms_in8:
  assumes "ata_conforms B tick view"
  shows "fst (inb B p d) = fst (ata_in8 p (view d))" "view (snd (inb B p d)) = snd (ata_in8 p (view d))"
proof -
  have "map_prod id view (inb B p d) = ata_in8 p (view d)" using assms by (simp add: ata_conforms_def)
  then show "fst (inb B p d) = fst (ata_in8 p (view d))" "view (snd (inb B p d)) = snd (ata_in8 p (view d))"
    by (metis fst_map_prod id_apply, metis snd_map_prod)
qed

lemma conforms_in16:
  assumes "ata_conforms B tick view"
  shows "fst (inw B p d) = fst (ata_in16 p (view d))" "view (snd (inw B p d)) = snd (ata_in16 p (view d))"
proof -
  have "map_prod id view (inw B p d) = ata_in16 p (view d)" using assms by (simp add: ata_conforms_def)
  then show "fst (inw B p d) = fst (ata_in16 p (view d))" "view (snd (inw B p d)) = snd (ata_in16 p (view d))"
    by (metis fst_map_prod id_apply, metis snd_map_prod)
qed

lemma conforms_tick:
  assumes "ata_conforms B tick view"
  shows "fst (tick d) = fst (ata_tick (view d))" "view (snd (tick d)) = snd (ata_tick (view d))"
proof -
  have "map_prod id view (tick d) = ata_tick (view d)" using assms by (simp add: ata_conforms_def)
  then show "fst (tick d) = fst (ata_tick (view d))" "view (snd (tick d)) = snd (ata_tick (view d))"
    by (metis fst_map_prod id_apply, metis snd_map_prod)
qed

lemma conforms_out16: "ata_conforms B tick view \<Longrightarrow> view (outw B p v d) = ata_out16 p v (view d)"
  by (simp add: ata_conforms_def)

definition set_phase :: "ata_phase \<Rightarrow> ata_dev \<Rightarrow> ata_dev" where
  "set_phase ph a = a\<lparr>phase := ph\<rparr>"

lemma set_phase_simps [simp]:
  "phase (set_phase ph a) = ph" "media (set_phase ph a) = media a" "latency (set_phase ph a) = latency a"
  "set_phase q (set_phase ph a) = set_phase q a" "set_phase (phase a) a = a"
  by (simp_all add: set_phase_def)

lemma read_status_view:
  assumes "ata_conforms B tick view" "phase (view d) \<in> {Idle, Sending l k, Reading n l, Committing n, Accepting l ws}"
  shows "view (read_status B d) = view d"
  using assms(2) by (auto simp: read_status_def conforms_in8 [OF assms(1)] ata_in8_def ATA_REG_STATUS_def)

text \<open>One turn of waiting.\<close>

lemma nop_busy:
  assumes c: "ata_conforms B tick view" and "ata_tick (view d) = (False, a)"
  obtains d' where "nop B tick s d = Some (s, d')" "view d' = a"
  using assms(2) conforms_tick [OF c, of d] that [of "snd (tick d)"]
  by (simp add: nop_def split_beta Let_def)

lemma nop_irq:
  assumes c: "ata_conforms B tick view" and t: "ata_tick (view d) = (True, a)"
    and ph: "phase a \<in> {Idle, Sending l k}"
  obtains d' where "nop B tick s d = Some (s\<lparr>ide_interrupt_fired := 1\<rparr>, d')" "view d' = a"
proof -
  let ?d = "snd (tick d)"
  let ?e = "outb B 0x20 0x20 (outb B 0xA0 0x20 (snd (inb B 0x1F7 ?d)))"
  have v: "view ?d = a" "fst (tick d)" using conforms_tick [OF c, of d] t by auto
  have "view ?e = a"
    using v ph by (auto simp: conforms_out8 [OF c] conforms_in8 [OF c] ata_out8_def ata_in8_def)
  moreover have "nop B tick s d = Some (s\<lparr>ide_interrupt_fired := 1\<rparr>, ?e)"
    using v(2) by (simp add: nop_def isr_handler_def irq14_regs_def split_beta Let_def)
  ultimately show ?thesis using that by blast
qed

lemma warn_view:
  assumes "ata_conforms B tick view" "phase (view d) \<in> {Idle, Sending l k, Reading n l, Committing n, Accepting l ws}"
  shows "view (if b then read_status B (read_status B d) else d) = view d"
  using read_status_view [OF assms] read_status_view [of B tick view "read_status B d" l k n ws] assms by auto

text \<open>A phase that ends with the interrupt: so many busy turns, then the interrupt and the next
  phase.\<close>

lemma wait_loop_busy:
  assumes c: "ata_conforms B tick view"
    and ph: "phase (view d) = P n"
    and busy: "\<And>n a. phase a = P (Suc n) \<Longrightarrow> ata_tick a = (False, set_phase (P n) a)"
    and fin: "\<And>a. phase a = P 0 \<Longrightarrow> ata_tick a = (True, set_phase Q a)"
    and Q: "Q \<in> {Idle, Sending l k}" and P: "\<And>n. P n \<in> {Reading n l, Committing n}"
    and s: "ide_interrupt_fired s = 0"
  shows "\<exists>d'. ata_wait_loop B tick cnt s d = Some (s\<lparr>ide_interrupt_fired := 1\<rparr>, d') \<and> view d' = set_phase Q (view d)"
  using ph
proof (induction n arbitrary: d cnt)
  case 0
  obtain d1 where d1: "nop B tick s d = Some (s\<lparr>ide_interrupt_fired := 1\<rparr>, d1)" "view d1 = set_phase Q (view d)"
    by (rule nop_irq [OF c fin [OF 0], of l k s]) (use Q in auto)
  have "view (if b then read_status B (read_status B d1) else d1) = view d1" for b
    by (rule warn_view [OF c, of _ l k]) (use d1 Q in auto)
  then show ?case using d1 s by (simp add: ata_wait_loop.simps [of B tick _ s] ata_wait_loop.simps [of B tick _ "s\<lparr>ide_interrupt_fired := 1\<rparr>"] Let_def)
next
  case (Suc n)
  obtain d1 where d1: "nop B tick s d = Some (s, d1)" "view d1 = set_phase (P n) (view d)"
    by (rule nop_busy [OF c busy [OF Suc.prems], of s])
  let ?w = "\<lambda>b. if b then read_status B (read_status B d1) else d1"
  have w: "view (?w b) = set_phase (P n) (view d)" for b
    using warn_view [OF c, of d1 l k n _ b] d1 P [of n] by auto
  let ?b = "(cnt + 1) mod 50000000 = 0"
  have step: "ata_wait_loop B tick cnt s d = ata_wait_loop B tick (cnt + 1) s (?w ?b)"
    using d1(1) s by (subst ata_wait_loop.simps) (simp add: Let_def)
  have "phase (view (?w ?b)) = P n" "set_phase Q (view (?w ?b)) = set_phase Q (view d)"
    unfolding w by simp_all
  then show ?case unfolding step using Suc.IH [of "?w ?b" "cnt + 1"] by simp
qed

lemma wait_interrupt_read:
  assumes "ata_conforms B tick view" "phase (view d) = Reading n l" "ide_interrupt_fired s = 0"
  shows "\<exists>d'. ata_wait_interrupt B tick s d = Some (s, d') \<and> view d' = set_phase (Sending l 0) (view d)"
proof -
  obtain d' where "ata_wait_loop B tick 0 s d = Some (s\<lparr>ide_interrupt_fired := 1\<rparr>, d')"
    "view d' = set_phase (Sending l 0) (view d)"
    using wait_loop_busy [OF assms(1), of d "\<lambda>n. Reading n l" n "Sending l 0" l 0 s 0] assms(2,3)
    by (auto simp: ata_tick_def set_phase_def)
  then show ?thesis using assms(3) by (simp add: ata_wait_interrupt_def)
qed

lemma wait_interrupt_write:
  assumes "ata_conforms B tick view" "phase (view d) = Committing n" "ide_interrupt_fired s = 0"
  shows "\<exists>d'. ata_wait_interrupt B tick s d = Some (s, d') \<and> view d' = set_phase Idle (view d)"
proof -
  obtain d' where "ata_wait_loop B tick 0 s d = Some (s\<lparr>ide_interrupt_fired := 1\<rparr>, d')"
    "view d' = set_phase Idle (view d)"
    using wait_loop_busy [OF assms(1), of d "\<lambda>n. Committing n" n Idle 0 0 s 0] assms(2,3)
    by (auto simp: ata_tick_def set_phase_def)
  then show ?thesis using assms(3) by (simp add: ata_wait_interrupt_def)
qed

text \<open>The task file addresses the sector number modulo 2 to the 28.\<close>

lemma mod_28:
  fixes n :: nat
  shows "n mod 268435456 = n mod 256 + 256 * (n div 256 mod 256) + 65536 * (n div 65536 mod 256) + 16777216 * (n div 16777216 mod 16)"
proof -
  have a: "n mod 268435456 = 16777216 * (n div 16777216 mod 16) + n mod 16777216"
    using mod_mult2_eq [of n 16777216 16] by simp
  have b: "n mod 16777216 = 65536 * (n div 65536 mod 256) + n mod 65536"
    using mod_mult2_eq [of n 65536 256] by simp
  have c: "n mod 65536 = 256 * (n div 256 mod 256) + n mod 256"
    using mod_mult2_eq [of n 256 256] by simp
  show ?thesis unfolding a unfolding b unfolding c by (simp only: ac_simps)
qed

lemma lba_bytes:
  fixes x :: u32
  shows "unat (ucast x :: u8) + 256 * unat (ucast (drop_bit 8 x) :: u8) + 65536 * unat (ucast (drop_bit 16 x) :: u8) +
    16777216 * (unat (ucast (0xE0 OR (drop_bit 24 x AND 0x0F)) :: u8) mod 16) = unat x mod 268435456"
proof -
  have t: "unat (w :: u8) mod 16 = unat (take_bit 4 w)" for w
    by (simp add: unsigned_take_bit_eq take_bit_nat_def)
  have u: "take_bit 4 (ucast y :: u8) = ucast (take_bit 4 y)" for y :: u32
    by (rule bit_word_eqI) (auto simp: bit_simps)
  have "take_bit 4 (0xE0 OR (drop_bit 24 x AND 0x0F)) = take_bit 4 (drop_bit 24 x)"
    unfolding and_low_masks by (simp add: take_bit_or)
  then have "take_bit 4 (ucast (0xE0 OR (drop_bit 24 x AND 0x0F)) :: u8) = ucast (take_bit 4 (drop_bit 24 x))"
    unfolding u by (rule arg_cong)
  then have "unat (ucast (0xE0 OR (drop_bit 24 x AND 0x0F)) :: u8) mod 16 = unat x div 16777216 mod 16"
    unfolding t by (simp add: unsigned_ucast_eq unsigned_take_bit_eq unsigned_drop_bit_eq drop_bit_nat_def take_bit_nat_def mod_mod_cancel unat_lt_u32 [of x])
  moreover have "unat (ucast x :: u8) = unat x mod 256" "unat (ucast (drop_bit 8 x) :: u8) = unat x div 256 mod 256"
    "unat (ucast (drop_bit 16 x) :: u8) = unat x div 65536 mod 256"
    using unat_lt_u32 [of x] by (simp_all add: unsigned_ucast_eq unsigned_drop_bit_eq drop_bit_nat_def take_bit_nat_def)
  ultimately show ?thesis using mod_28 [of "unat x"] by linarith
qed

lemma setup_view:
  assumes "ata_conforms B tick view"
  shows "lba_of (view (ata_setup B sec d)) = unat sec mod 268435456"
    "media (view (ata_setup B sec d)) = media (view d)" "latency (view (ata_setup B sec d)) = latency (view d)"
  using lba_bytes [of sec]
  by (simp_all add: ata_setup_def ata_select_master_def conforms_out8 [OF assms] ata_out8_def ata_regs lba_of_def)

lemma status4_view:
  assumes "ata_conforms B tick view" "phase (view d) = Reading n l"
  shows "view (status4 B d) = view d"
proof -
  have r: "view (read_status B e) = view e" if "phase (view e) = Reading n l" for e
    by (rule read_status_view [OF assms(1), of _ l _ n]) (use that in simp)
  show ?thesis using assms(2) r by (simp add: status4_def)
qed

lemma read_words_view:
  assumes c: "ata_conforms B tick view"
  shows "phase (view d) = Sending l k \<Longrightarrow> k + n = 256 \<Longrightarrow> 0 < n \<Longrightarrow> length (media (view d) l) = 256 \<Longrightarrow>
    \<exists>d'. read_words B n d = (drop k (media (view d) l), d') \<and> view d' = set_phase Idle (view d)"
proof (induction n arbitrary: d k)
  case (Suc n)
  let ?d = "snd (inw B ATA_REG_DATA d)"
  have w: "fst (inw B ATA_REG_DATA d) = media (view d) l ! k"
    "view ?d = set_phase (if k = 255 then Idle else Sending l (k + 1)) (view d)"
    using Suc.prems by (simp_all add: conforms_in16 [OF c] ata_in16_def ata_regs set_phase_def)
  have dr: "drop k (media (view d) l) = media (view d) l ! k # drop (k + 1) (media (view d) l)"
    using Cons_nth_drop_Suc [of k "media (view d) l"] Suc.prems by simp
  show ?case
  proof (cases n)
    case 0
    then show ?thesis using Suc.prems w dr by (simp add: split_beta Let_def)
  next
    case (Suc m)
    then have "\<exists>d'. read_words B n ?d = (drop (k + 1) (media (view d) l), d') \<and> view d' = set_phase Idle (view d)"
      using Suc.IH [of ?d "k + 1"] Suc.prems w by simp
    then show ?thesis using w dr by (auto simp: split_beta Let_def)
  qed
qed simp


text \<open>One sector read.\<close>

lemma read_sector_view:
  assumes c: "ata_conforms B tick view" and len: "length (media (view d) (unat sec mod 268435456)) = 256"
  shows "\<exists>d'. read_sector B tick sec s d = Some (media (view d) (unat sec mod 268435456), s\<lparr>ide_interrupt_fired := 0\<rparr>, d') \<and>
    media (view d') = media (view d)"
proof -
  let ?l = "unat sec mod 268435456"
  let ?d = "outb B ATA_REG_COMMAND ATA_CMD_READ (ata_setup B sec d)"
  let ?s = "s\<lparr>ide_interrupt_fired := 0\<rparr>"
  have ph: "phase (view ?d) = Reading (latency (view d)) ?l" "media (view ?d) = media (view d)"
    by (simp_all add: conforms_out8 [OF c] ata_out8_def ata_regs setup_view [OF c])
  then have v: "view (status4 B ?d) = view ?d" by (intro status4_view [OF c])
  obtain d1 where d1: "ata_wait_interrupt B tick ?s (status4 B ?d) = Some (?s, d1)"
    "view d1 = set_phase (Sending ?l 0) (view ?d)"
    using wait_interrupt_read [OF c, of "status4 B ?d" "latency (view d)" ?l ?s] v ph by auto
  obtain d2 where "read_words B 256 d1 = (media (view d) ?l, d2)" "view d2 = set_phase Idle (view ?d)"
    using read_words_view [OF c, of d1 ?l 0 256] d1 ph len by auto
  then show ?thesis using d1 ph by (simp add: read_sector_def Let_def)
qed

lemma sector_succ: "unat (sec + 1 :: u32) mod 268435456 = (unat sec + 1) mod 268435456"
  by (simp add: unat_word_ariths mod_mod_cancel)

lemma read_sectors_view:
  assumes c: "ata_conforms B tick view"
  shows "(\<And>l. length (media (view d) l) = 256) \<Longrightarrow>
    \<exists>s' d'. read_sectors B tick sec n s d =
      Some (concat (map (\<lambda>i. media (view d) ((unat sec + i) mod 268435456)) [0..<n]), s', d') \<and>
      media (view d') = media (view d)"
proof (induction n arbitrary: sec s d)
  case (Suc n)
  obtain d1 where d1: "read_sector B tick sec s d = Some (media (view d) (unat sec mod 268435456), s\<lparr>ide_interrupt_fired := 0\<rparr>, d1)"
    "media (view d1) = media (view d)"
    using read_sector_view [OF c, of d sec s] Suc.prems by auto
  obtain s2 d2 where d2: "read_sectors B tick (sec + 1) n (s\<lparr>ide_interrupt_fired := 0\<rparr>) d1 =
      Some (concat (map (\<lambda>i. media (view d) ((unat (sec + 1) + i) mod 268435456)) [0..<n]), s2, d2)"
    "media (view d2) = media (view d)"
    using Suc.IH [of d1 "sec + 1" "s\<lparr>ide_interrupt_fired := 0\<rparr>"] d1 Suc.prems by auto
  have "(unat (sec + 1) + i) mod 268435456 = (unat sec + Suc i) mod 268435456" for i
    using mod_add_left_eq [of "unat (sec + 1)" 268435456 i] mod_add_left_eq [of "unat sec + 1" 268435456 i]
    unfolding sector_succ by simp
  then have "concat (map (\<lambda>i. media (view d) ((unat sec + i) mod 268435456)) [0..<Suc n]) =
    media (view d) (unat sec mod 268435456) @
    concat (map (\<lambda>i. media (view d) ((unat (sec + 1) + i) mod 268435456)) [0..<n])"
    by (simp add: upt_conv_Cons map_Suc_upt [symmetric] comp_def del: upt_Suc)
  then show ?case using d1 d2 by simp
qed simp

text \<open>One sector written: the drive becomes ready for data, takes 256 words and commits them.\<close>

lemma read_status_prepare:
  assumes c: "ata_conforms B tick view" and "phase (view d) = Preparing n l"
  shows "view (read_status B d) = set_phase (if n = 0 then Accepting l [] else Preparing (n - 1) l) (view d)"
  using assms(2) by (simp add: read_status_def conforms_in8 [OF c] ata_in8_def ATA_REG_STATUS_def set_phase_def)

definition preparing :: "nat \<Rightarrow> ata_dev \<Rightarrow> bool" where
  "preparing l a \<longleftrightarrow> (\<exists>n. phase a = Preparing n l) \<or> phase a = Accepting l []"

lemma preparing_status:
  assumes c: "ata_conforms B tick view" and p: "preparing l (view d)"
  shows "preparing l (view (read_status B d)) \<and> (\<exists>ph. view (read_status B d) = set_phase ph (view d))"
proof (cases "phase (view d) = Accepting l []")
  case True
  then have "view (read_status B d) = view d"
    by (intro read_status_view [OF c, where l = l and ws = "[]"]) simp
  then show ?thesis using p by (metis set_phase_simps(5))
next
  case False
  then obtain n where "phase (view d) = Preparing n l" using p by (auto simp: preparing_def)
  then show ?thesis using read_status_prepare [OF c] by (auto simp: preparing_def)
qed

lemma preparing_status4:
  assumes c: "ata_conforms B tick view" and p: "preparing l (view d)"
  shows "preparing l (view (status4 B d)) \<and> (\<exists>ph. view (status4 B d) = set_phase ph (view d))"
proof -
  note st = preparing_status [OF c]
  show ?thesis
    unfolding status4_def using st [OF p] st [OF conjunct1 [OF st [OF p]]]
      st [OF conjunct1 [OF st [OF conjunct1 [OF st [OF p]]]]]
      st [OF conjunct1 [OF st [OF conjunct1 [OF st [OF conjunct1 [OF st [OF p]]]]]]]
    by (metis set_phase_simps(4))
qed

lemma poll_bsy:
  assumes c: "ata_conforms B tick view"
  shows "phase (view d) = Preparing n l \<Longrightarrow>
    \<exists>d'. ata_poll B tick (\<lambda>v. v AND ATA_STATUS_BSY \<noteq> 0) s d = Some (s, d') \<and> view d' = set_phase (Accepting l []) (view d)"
proof (induction n arbitrary: d)
  case 0
  let ?d = "read_status B d"
  have v: "view ?d = set_phase (Accepting l []) (view d)" using read_status_prepare [OF c 0] by simp
  obtain d1 where d1: "nop B tick s ?d = Some (s, d1)" "view d1 = view ?d"
    by (rule nop_busy [OF c, of ?d "view ?d"]) (simp_all add: ata_tick_def v)
  have v1: "fst (inb B ATA_REG_STATUS d1) = 0x58" "view (snd (inb B ATA_REG_STATUS d1)) = view d1"
    using d1(2) v by (simp_all add: conforms_in8 [OF c] ata_in8_def ATA_REG_STATUS_def)
  have "fst (inb B ATA_REG_STATUS d) = 0x80"
    using 0 by (simp add: conforms_in8 [OF c] ata_in8_def ATA_REG_STATUS_def)
  then show ?case
    using d1 v v1 by (simp add: ata_poll.simps [of B tick _ s d] ata_poll.simps [of B tick _ s d1] read_status_def [symmetric] ATA_STATUS_BSY_def)
next
  case (Suc n)
  let ?d = "read_status B d"
  have v: "view ?d = set_phase (Preparing n l) (view d)" using read_status_prepare [OF c Suc.prems] by simp
  obtain d1 where d1: "nop B tick s ?d = Some (s, d1)" "view d1 = view ?d"
    by (rule nop_busy [OF c, of ?d "view ?d"]) (simp_all add: ata_tick_def v)
  obtain d2 where d2: "ata_poll B tick (\<lambda>v. v AND ATA_STATUS_BSY \<noteq> 0) s d1 = Some (s, d2)" "view d2 = set_phase (Accepting l []) (view d1)"
    using Suc.IH [of d1] d1 v by auto
  have "fst (inb B ATA_REG_STATUS d) = 0x80"
    using Suc.prems by (simp add: conforms_in8 [OF c] ata_in8_def ATA_REG_STATUS_def)
  then show ?case
    using d1 d2 v by (simp add: ata_poll.simps [of B tick _ s d] read_status_def [symmetric] ATA_STATUS_BSY_def)
qed

lemma poll_accepting:
  assumes c: "ata_conforms B tick view" and "phase (view d) = Accepting l []" and "\<not> again 0x58"
  shows "\<exists>d'. ata_poll B tick again s d = Some (s, d') \<and> view d' = view d"
  using assms(2,3) by (simp add: ata_poll.simps [of B tick again s d] conforms_in8 [OF c] ata_in8_def ATA_REG_STATUS_def)

lemma poll_drq:
  assumes c: "ata_conforms B tick view" and p: "preparing l (view d)"
  shows "\<exists>d'. ata_poll_drq B tick s d = Some (s, d') \<and> view d' = set_phase (Accepting l []) (view d)"
proof -
  let ?d = "status4 B d"
  obtain ph where ph: "preparing l (view ?d)" "view ?d = set_phase ph (view d)" using preparing_status4 [OF c p] by auto
  obtain d1 where d1: "ata_poll B tick (\<lambda>v. v AND ATA_STATUS_BSY \<noteq> 0) s ?d = Some (s, d1)"
    "view d1 = set_phase (Accepting l []) (view d)"
  proof (cases "phase (view ?d) = Accepting l []")
    case True
    then have "view ?d = set_phase (Accepting l []) (view d)" using ph(2) by simp
    then show ?thesis
      using poll_accepting [OF c True, of "\<lambda>v. v AND ATA_STATUS_BSY \<noteq> 0" s] that by (auto simp: ATA_STATUS_BSY_def)
  next
    case False
    then obtain n where "phase (view ?d) = Preparing n l" using ph by (auto simp: preparing_def)
    then show ?thesis using poll_bsy [OF c, of ?d n l s] that ph(2) by auto
  qed
  then show ?thesis
    using poll_accepting [OF c, of d1 l "\<lambda>v. v AND ATA_STATUS_DRQ = 0" s]
    by (auto simp: ata_poll_drq_def ATA_STATUS_DRQ_def)
qed

lemma write_words_view:
  assumes c: "ata_conforms B tick view"
  shows "phase (view d) = Accepting l ws \<Longrightarrow> length ws + length vs = 256 \<Longrightarrow> vs \<noteq> [] \<Longrightarrow>
    view (write_words B vs d) =
      (view d)\<lparr>media := (media (view d))(l := ws @ vs), phase := Committing (latency (view d))\<rparr>"
proof (induction vs arbitrary: d ws)
  case (Cons v vs)
  let ?d = "outw B ATA_REG_DATA v d"
  show ?case
  proof (cases "vs = []")
    case True
    then show ?thesis using Cons.prems
      by (simp add: write_words_def conforms_out16 [OF c] ata_out16_def ATA_REG_DATA_def fun_upd_def)
  next
    case False
    then have v: "view ?d = set_phase (Accepting l (ws @ [v])) (view d)" using Cons.prems
      by (auto simp: conforms_out16 [OF c] ata_out16_def ATA_REG_DATA_def set_phase_def)
    have "write_words B (v # vs) d = write_words B vs ?d" by (simp add: write_words_def)
    then show ?thesis using Cons.IH [of ?d "ws @ [v]"] Cons.prems False v by (simp add: set_phase_def)
  qed
qed simp

lemma write_sector_view:
  assumes c: "ata_conforms B tick view" and len: "length ws = 256"
  shows "\<exists>d'. write_sector B tick sec ws s d = Some (s\<lparr>ide_interrupt_fired := 0\<rparr>, d') \<and>
    media (view d') = (media (view d))(unat sec mod 268435456 := ws)"
proof -
  let ?l = "unat sec mod 268435456"
  let ?d = "outb B ATA_REG_COMMAND ATA_CMD_WRITE (ata_setup B sec d)"
  let ?s = "s\<lparr>ide_interrupt_fired := 0\<rparr>"
  have ph: "preparing ?l (view ?d)" "media (view ?d) = media (view d)"
    by (simp_all add: preparing_def conforms_out8 [OF c] ata_out8_def ata_regs setup_view [OF c])
  obtain ph1 where p1: "preparing ?l (view (status4 B ?d))" "view (status4 B ?d) = set_phase ph1 (view ?d)"
    using preparing_status4 [OF c ph(1)] by auto
  obtain d1 where d1: "ata_poll_drq B tick ?s (status4 B ?d) = Some (?s, d1)" "view d1 = set_phase (Accepting ?l []) (view ?d)"
    using poll_drq [OF c p1(1), of ?s] p1(2) by auto
  let ?d2 = "write_words B ws d1"
  have v2: "view ?d2 = (view d1)\<lparr>media := (media (view d1))(?l := ws), phase := Committing (latency (view d1))\<rparr>"
    using write_words_view [OF c, of d1 ?l "[]" ws] d1 len by fastforce
  obtain d3 where d3: "ata_wait_interrupt B tick ?s ?d2 = Some (?s, d3)" "view d3 = set_phase Idle (view ?d2)"
    using wait_interrupt_write [OF c, of ?d2 "latency (view d1)" ?s] v2 by auto
  have "view (read_status B d3) = view d3"
    by (rule read_status_view [OF c]) (use d3 in simp)
  then show ?thesis using d1 d3 v2 ph by (simp add: write_sector_def Let_def)
qed

lemma write_sectors_view:
  assumes c: "ata_conforms B tick view"
  shows "256 * n \<le> length buff \<Longrightarrow> n \<le> 268435456 \<Longrightarrow>
    \<exists>s' d'. write_sectors B tick sec n buff s d = Some (s', d') \<and>
      (\<forall>i < n. media (view d') ((unat sec + i) mod 268435456) = take 256 (drop (256 * i) buff)) \<and>
      (\<forall>l. (\<forall>i < n. l \<noteq> (unat sec + i) mod 268435456) \<longrightarrow> media (view d') l = media (view d) l)"
proof (induction n arbitrary: sec buff s d)
  case (Suc n)
  let ?M = "268435456 :: nat"
  obtain d1 where d1: "write_sector B tick sec (take 256 buff) s d = Some (s\<lparr>ide_interrupt_fired := 0\<rparr>, d1)"
    "media (view d1) = (media (view d))(unat sec mod ?M := take 256 buff)"
    using write_sector_view [OF c, of "take 256 buff" sec s d] Suc.prems by auto
  obtain s2 d2 where d2: "write_sectors B tick (sec + 1) n (drop 256 buff) (s\<lparr>ide_interrupt_fired := 0\<rparr>) d1 = Some (s2, d2)"
    and at: "\<And>i. i < n \<Longrightarrow> media (view d2) ((unat (sec + 1) + i) mod ?M) = take 256 (drop (256 * i) (drop 256 buff))"
    and other: "\<And>l. (\<And>i. i < n \<Longrightarrow> l \<noteq> (unat (sec + 1) + i) mod ?M) \<Longrightarrow> media (view d2) l = media (view d1) l"
  proof -
    have "256 * n \<le> length (drop 256 buff)" "n \<le> ?M" using Suc.prems by auto
    from Suc.IH [OF this, of "sec + 1" "s\<lparr>ide_interrupt_fired := 0\<rparr>" d1] show ?thesis using that by blast
  qed
  have sh: "(unat (sec + 1) + i) mod ?M = (unat sec + Suc i) mod ?M" for i
    using mod_add_left_eq [of "unat (sec + 1)" ?M i] mod_add_left_eq [of "unat sec + 1" ?M i]
    unfolding sector_succ by simp
  have ne: "unat sec mod ?M \<noteq> (unat sec + Suc i) mod ?M" if "i < n" for i
  proof
    assume "unat sec mod ?M = (unat sec + Suc i) mod ?M"
    then have "?M dvd Suc i" using mod_eq_dvd_iff_nat [of "unat sec" "unat sec + Suc i" ?M] by simp
    then show False using that Suc.prems(2) by (auto dest: dvd_imp_le)
  qed
  have first: "media (view d2) (unat sec mod ?M) = take 256 buff"
    using other [of "unat sec mod ?M"] ne sh d1(2) by simp
  have "media (view d2) ((unat sec + i) mod ?M) = take 256 (drop (256 * i) buff)" if "i < Suc n" for i
    using that first at sh by (cases i) (auto simp: ac_simps)
  moreover have "media (view d2) l = media (view d) l" if "\<forall>i < Suc n. l \<noteq> (unat sec + i) mod ?M" for l
    using other [of l] that sh d1(2) by (auto simp del: add_Suc_right dest: spec [of _ "Suc _"])
  ultimately show ?case using d1(1) d2 Suc.prems(1) by simp
qed simp

lemma concat_chunks: "k * n = length xs \<Longrightarrow> concat (map (\<lambda>i. take k (drop (k * i) xs)) [0..<n]) = xs"
proof -
  have "concat (map (\<lambda>i. take k (drop (k * i) xs)) [0..<n]) = take (k * n) xs" for n
    by (induction n) (simp_all add: take_add [symmetric] add.commute)
  then show "k * n = length xs \<Longrightarrow> ?thesis" by simp
qed

section \<open>Main properties\<close>

text \<open>The reference drive as hardware: the witnesses run on it.\<close>

definition ref_ports :: "ata_dev ports" where
  "ref_ports = \<lparr>in8 = ata_in8, out8 = ata_out8, in16 = ata_in16, out16 = ata_out16,
     in32 = (\<lambda>p a. (0, a)), out32 = (\<lambda>p v a. a)\<rparr>"

lemma ref_ports_conforms: "ata_conforms ref_ports ata_tick (\<lambda>a. a)"
  by (simp add: ata_conforms_def ref_ports_def inb_def outb_def inw_def outw_def prod.map_id [unfolded id_def] id_def)

definition blank_drive :: ata_dev where
  "blank_drive = \<lparr>lba_low = 0, lba_mid = 0, lba_high = 0, drive = 0, phase = Idle,
     media = (\<lambda>l. replicate 256 (of_nat l)), latency = 3\<rparr>"

text \<open>On a conforming drive \<open>disk_read\<close> returns: it succeeds and the buffer receives, in
  order, the contents of the requested sectors, where sector numbers count modulo 2 to the 28, the
  reach of the task file; the medium is unchanged.  A drive number other than 0 is refused before
  any port is touched.\<close>

theorem disk_read_returns_sectors:
  assumes "ata_conforms B tick view" and "\<forall>l. length (media (view d) l) = 256"
  shows "if pdrv = 0
    then \<exists>s' d'. disk_read B tick pdrv sector count s d =
      Some (RES_OK, concat (map (\<lambda>i. media (view d) ((unat sector + i) mod 2 ^ 28)) [0..<unat count]), s', d') \<and>
      media (view d') = media (view d)
    else disk_read B tick pdrv sector count s d = Some (RES_PARERR, [], s, d)"
  using read_sectors_view [OF assms(1), of d sector "unat count" s] assms(2) by (auto simp: disk_read_def)

theorem disk_read_returns_sectors_witness:
  "\<exists>s' d'. disk_read ref_ports ata_tick 0 7 2 (irq_init boot_screen_gfx) blank_drive =
     Some (RES_OK, replicate 256 7 @ replicate 256 8, s', d')"
  using disk_read_returns_sectors [OF ref_ports_conforms, of blank_drive 0 7 2 "irq_init boot_screen_gfx"]
  by (auto simp: blank_drive_def upt_rec)

text \<open>C16. On a conforming drive, what \<open>disk_write\<close> writes is what a later \<open>disk_read\<close> of the
  same sectors returns, for every count the 28-bit addresses can tell apart and a buffer of at
  least that many sectors; both calls return successfully, and no other sector changes.\<close>

theorem disk_write_read_roundtrip:
  assumes "ata_conforms B tick view" and "\<forall>l. length (media (view d) l) = 256"
    and "256 * unat count = length buff" and "unat count \<le> 2 ^ 28"
  shows "\<exists>s1 d1 s2 d2. disk_write B tick 0 buff sector count s d = Some (RES_OK, s1, d1) \<and>
      disk_read B tick 0 sector count s1 d1 = Some (RES_OK, buff, s2, d2) \<and>
      (\<forall>l. (\<forall>i < unat count. l \<noteq> (unat sector + i) mod 2 ^ 28) \<longrightarrow> media (view d2) l = media (view d) l)"
proof -
  let ?M = "268435456 :: nat"
  obtain s1 d1 where w: "write_sectors B tick sector (unat count) buff s d = Some (s1, d1)"
    and at: "\<forall>i < unat count. media (view d1) ((unat sector + i) mod ?M) = take 256 (drop (256 * i) buff)"
    and other: "\<forall>l. (\<forall>i < unat count. l \<noteq> (unat sector + i) mod ?M) \<longrightarrow> media (view d1) l = media (view d) l"
    using write_sectors_view [OF assms(1), of "unat count" buff sector s d] assms(3,4) by auto
  have len: "length (media (view d1) l) = 256" for l
    using at other assms(2,3) by (cases "\<exists>i < unat count. l = (unat sector + i) mod ?M") auto
  obtain s2 d2 where r: "read_sectors B tick sector (unat count) s1 d1 =
      Some (concat (map (\<lambda>i. media (view d1) ((unat sector + i) mod ?M)) [0..<unat count]), s2, d2)"
    "media (view d2) = media (view d1)"
    using read_sectors_view [OF assms(1), of d1 sector "unat count" s1] len by auto
  have "map (\<lambda>i. media (view d1) ((unat sector + i) mod ?M)) [0..<unat count] =
    map (\<lambda>i. take 256 (drop (256 * i) buff)) [0..<unat count]" using at by auto
  from arg_cong [OF this, of concat]
  have "concat (map (\<lambda>i. media (view d1) ((unat sector + i) mod ?M)) [0..<unat count]) = buff"
    unfolding concat_chunks [OF assms(3)] .
  then show ?thesis using w r other by (simp add: disk_write_def disk_read_def)
qed

theorem disk_write_read_roundtrip_witness:
  "\<exists>s1 d1 s2 d2. disk_write ref_ports ata_tick 0 (replicate 256 0xBEEF) 5 1 (irq_init boot_screen_gfx) blank_drive = Some (RES_OK, s1, d1) \<and>
     disk_read ref_ports ata_tick 0 5 1 s1 d1 = Some (RES_OK, replicate 256 0xBEEF, s2, d2)"
  using disk_write_read_roundtrip [OF ref_ports_conforms, of blank_drive 1 "replicate 256 0xBEEF" 5 "irq_init boot_screen_gfx"]
  by (auto simp: blank_drive_def)

end
