(* ===== verification/Libc.thy ===== *)
theory Libc
  imports C_Text
begin

text \<open>
  The C library routines the kernel brings along: the memory and string functions and the two
  formatters of \<open>src/kernel.c\<close>, and \<open>memcmp\<close>, \<open>strchr\<close> and \<open>memset\<close> of
  \<open>src/diskio.c\<close>.  The block operations work on a byte store with 32-bit addresses, so that
  overlapping areas are visible.  The string operations work on character buffers; a pointer into a
  buffer is the rest of the buffer from there, and running past the end is \<^const>\<open>None\<close>.
\<close>

section \<open>Block operations\<close>

type_synonym bytes = "u32 \<Rightarrow> u8"

definition memcpy :: "u32 \<Rightarrow> u32 \<Rightarrow> u32 \<Rightarrow> bytes \<Rightarrow> bytes" where
  "memcpy dest src n m = fold (\<lambda>i m. m(dest + of_nat i := m (src + of_nat i))) [0..<unat n] m"

definition memmove :: "u32 \<Rightarrow> u32 \<Rightarrow> u32 \<Rightarrow> bytes \<Rightarrow> bytes" where
  "memmove dest src n m =
     (if dest < src then fold (\<lambda>i m. m(dest + of_nat i := m (src + of_nat i))) [0..<unat n] m
      else fold (\<lambda>i m. m(dest + of_nat i := m (src + of_nat i))) (rev [0..<unat n]) m)"

definition memset :: "u32 \<Rightarrow> int \<Rightarrow> u32 \<Rightarrow> bytes \<Rightarrow> bytes" where
  "memset s c n m = fold (\<lambda>i m. m(s + of_nat i := of_int c)) [0..<unat n] m"

primrec memcmp_loop :: "u32 \<Rightarrow> u32 \<Rightarrow> nat list \<Rightarrow> bytes \<Rightarrow> int" where
  "memcmp_loop s1 s2 [] m = 0"
| "memcmp_loop s1 s2 (i # is) m =
     (if m (s1 + of_nat i) \<noteq> m (s2 + of_nat i)
      then uint (m (s1 + of_nat i)) - uint (m (s2 + of_nat i))
      else memcmp_loop s1 s2 is m)"

definition memcmp :: "u32 \<Rightarrow> u32 \<Rightarrow> u32 \<Rightarrow> bytes \<Rightarrow> int" where
  "memcmp s1 s2 n m = memcmp_loop s1 s2 [0..<unat n] m"

section \<open>Strings\<close>

text \<open>\<open>char\<close> is signed on the target.\<close>

definition schar :: "char \<Rightarrow> int" where
  "schar c = (if of_char c < (128 :: int) then of_char c else of_char c - 256)"

fun strlen :: "char list \<Rightarrow> nat option" where
  "strlen [] = None"
| "strlen (c # s) = (if c \<noteq> NUL then map_option Suc (strlen s) else Some 0)"

fun strncmp :: "char list \<Rightarrow> char list \<Rightarrow> nat \<Rightarrow> int option" where
  "strncmp s1 s2 0 = Some 0"
| "strncmp (a # s1) (b # s2) (Suc n) =
     (if a \<noteq> b \<or> a = NUL then Some (if schar a < schar b then - 1 else if schar a > schar b then 1 else 0)
      else strncmp s1 s2 n)"
| "strncmp s1 s2 (Suc n) = None"

fun strcmp :: "char list \<Rightarrow> char list \<Rightarrow> int option" where
  "strcmp (a # s1) (b # s2) =
     (if a \<noteq> NUL \<and> a = b then strcmp s1 s2 else Some (of_char a - of_char b))"
| "strcmp s1 s2 = None"

text \<open>The result pointer is the rest of the string; the null pointer is \<^term>\<open>Some None\<close>.\<close>

fun strchr :: "char list \<Rightarrow> char \<Rightarrow> char list option option" where
  "strchr [] c = None"
| "strchr (a # s) c = (if a \<noteq> c then (if a = NUL then Some None else strchr s c) else Some (Some (a # s)))"

definition is_digit :: "char \<Rightarrow> bool" where
  "is_digit c \<longleftrightarrow> 48 \<le> schar c \<and> schar c \<le> 57"

fun strtol_loop :: "int \<Rightarrow> char list \<Rightarrow> (int \<times> char list) option" where
  "strtol_loop r [] = None"
| "strtol_loop r (c # s) =
     (if is_digit c then strtol_loop (wrap32 (r * 10 + (of_char c - 48))) s else Some (r, c # s))"

definition strtol :: "char list \<Rightarrow> (int \<times> char list) option" where
  "strtol nptr = strtol_loop 0 nptr"

definition ctype_b_data :: "nat \<Rightarrow> u16" where
  "ctype_b_data i = (if 48 \<le> i \<and> i \<le> 57 then 0x0800 else 0)"

definition c_abs :: "int \<Rightarrow> int" where
  "c_abs j = (if j < 0 then neg32 j else j)"

fun strcpy :: "char list \<Rightarrow> char list \<Rightarrow> char list option" where
  "strcpy (d # dest) (c # src) = (if c \<noteq> NUL then map_option ((#) c) (strcpy dest src) else Some (c # dest))"
| "strcpy dest src = None"

text \<open>The two loops of \<open>strncpy\<close>: copy up to the terminator, then pad with zeros.\<close>

fun strncpy_pad :: "char list \<Rightarrow> nat \<Rightarrow> char list option" where
  "strncpy_pad dest 0 = Some dest"
| "strncpy_pad [] (Suc n) = None"
| "strncpy_pad (d # dest) (Suc n) = map_option ((#) NUL) (strncpy_pad dest n)"

fun strncpy :: "char list \<Rightarrow> char list \<Rightarrow> nat \<Rightarrow> char list option" where
  "strncpy dest src 0 = Some dest"
| "strncpy dest [] (Suc n) = None"
| "strncpy dest (c # src) (Suc n) =
     (if c = NUL then strncpy_pad dest (Suc n)
      else case dest of [] \<Rightarrow> None | d # dest \<Rightarrow> map_option ((#) c) (strncpy dest src n))"

section \<open>Numbers and formatting\<close>

text \<open>\<open>while (i > 0) buffer[j++] = temp[--i]\<close>.\<close>

fun copy_back :: "char list \<Rightarrow> nat \<Rightarrow> char list \<Rightarrow> nat \<Rightarrow> (char list \<times> nat) option" where
  "copy_back temp 0 buffer j = Some (buffer, j)"
| "copy_back temp (Suc i) buffer j = do {
     c \<leftarrow> get_at temp i;
     buffer \<leftarrow> put_at j c buffer;
     copy_back temp i buffer (j + 1)
   }"

definition mini_itoa :: "u32 \<Rightarrow> char list \<Rightarrow> char list option" where
  "mini_itoa val buffer =
     (if val = 0 then do { buffer \<leftarrow> put_at 0 CHR ''0'' buffer; put_at 1 NUL buffer }
      else do {
        (temp, i) \<leftarrow> fill_digits (replicate 12 NUL) 0 (uint val);
        (buffer, j) \<leftarrow> copy_back temp i buffer 0;
        put_at j NUL buffer
      })"

text \<open>\<open>while (*str && idx < size - 1) buf[idx++] = *str++\<close>, with \<open>lim = size - 1\<close>.\<close>

fun put_bounded :: "nat \<Rightarrow> string \<Rightarrow> char list \<Rightarrow> nat \<Rightarrow> (char list \<times> nat) option" where
  "put_bounded lim [] buf idx = Some (buf, idx)"
| "put_bounded lim (c # s) buf idx =
     (if idx < lim then do { buf \<leftarrow> put_at idx c buf; put_bounded lim s buf (idx + 1) }
      else Some (buf, idx))"

fun snprintf_loop :: "nat \<Rightarrow> string \<Rightarrow> va_arg list \<Rightarrow> char list \<Rightarrow> nat \<Rightarrow> (char list \<times> nat) option" where
  "snprintf_loop lim [] args buf idx = Some (buf, idx)"
| "snprintf_loop lim (c # p) args buf idx =
     (if idx < lim then
        (if c = CHR ''%'' \<and> p \<noteq> [] then
           (if hd p = CHR ''s'' then
              (case args of
                 VStr s # args \<Rightarrow> do { (buf, idx) \<leftarrow> put_bounded lim s buf idx; snprintf_loop lim (tl p) args buf idx }
               | VNull # args \<Rightarrow> snprintf_loop lim (tl p) args buf idx
               | _ \<Rightarrow> None)
            else if hd p = CHR ''d'' \<or> hd p = CHR ''u'' then
              (case args of
                 VInt i # args \<Rightarrow> do {
                   num_buf \<leftarrow> mini_itoa (of_int i) (replicate 16 NUL);
                   num \<leftarrow> cstr num_buf;
                   (buf, idx) \<leftarrow> put_bounded lim num buf idx;
                   snprintf_loop lim (tl p) args buf idx
                 }
               | _ \<Rightarrow> None)
            else do { buf \<leftarrow> put_at idx (hd p) buf; snprintf_loop lim (tl p) args buf (idx + 1) })
         else do { buf \<leftarrow> put_at idx c buf; snprintf_loop lim p args buf (idx + 1) })
      else Some (buf, idx))"

definition snprintf :: "char list \<Rightarrow> nat \<Rightarrow> string \<Rightarrow> va_arg list \<Rightarrow> (char list \<times> nat) option" where
  "snprintf buf sz format args =
     (if sz = 0 then Some (buf, 0)
      else do {
        (buf, idx) \<leftarrow> snprintf_loop (sz - 1) format args buf 0;
        buf \<leftarrow> put_at idx NUL buf;
        Some (buf, idx)
      })"

text \<open>The number branch of \<open>mini_snprintf\<close>: sign, digits into a scratch buffer, digits out.  A
  \<open>%u\<close> argument is converted to the 32-bit \<open>long\<close>.\<close>

definition put_number :: "nat \<Rightarrow> bool \<Rightarrow> int \<Rightarrow> char list \<Rightarrow> nat \<Rightarrow> (char list \<times> nat) option" where
  "put_number lim signed_arg arg buf idx = do {
     (buf, idx, val) \<leftarrow>
       (if signed_arg then
          (if arg < 0 then do {
             (buf, idx) \<leftarrow> (if idx < lim then do { buf \<leftarrow> put_at idx CHR ''-'' buf; Some (buf, idx + 1) } else Some (buf, idx));
             Some (buf, idx, neg32 arg)
           }
           else Some (buf, idx, arg))
        else Some (buf, idx, sint (of_int arg :: u32)));
     (num_scratch, digits_count) \<leftarrow>
       (if val = 0 then do { b \<leftarrow> put_at 0 CHR ''0'' (replicate 12 NUL); Some (b, 1) }
        else fill_digits (replicate 12 NUL) 0 val);
     put_bounded lim (rev (take digits_count num_scratch)) buf idx
   }"

fun mini_snprintf_loop :: "nat \<Rightarrow> string \<Rightarrow> va_arg list \<Rightarrow> char list \<Rightarrow> nat \<Rightarrow> (char list \<times> nat) option" where
  "mini_snprintf_loop lim [] args buf idx = Some (buf, idx)"
| "mini_snprintf_loop lim (c # p) args buf idx =
     (if idx < lim then
        (if c = CHR ''%'' then
           (if p = [] then Some (buf, idx)
            else if hd p = CHR ''s'' then
              (case args of
                 VStr s # args \<Rightarrow> do { (buf, idx) \<leftarrow> put_bounded lim s buf idx; mini_snprintf_loop lim (tl p) args buf idx }
               | VNull # args \<Rightarrow> do { (buf, idx) \<leftarrow> put_bounded lim ''(null)'' buf idx; mini_snprintf_loop lim (tl p) args buf idx }
               | _ \<Rightarrow> None)
            else if hd p = CHR ''d'' \<or> hd p = CHR ''u'' then
              (case args of
                 VInt i # args \<Rightarrow> do {
                   (buf, idx) \<leftarrow> put_number lim (hd p = CHR ''d'') i buf idx;
                   mini_snprintf_loop lim (tl p) args buf idx
                 }
               | _ \<Rightarrow> None)
            else do { buf \<leftarrow> put_at idx (hd p) buf; mini_snprintf_loop lim (tl p) args buf (idx + 1) })
         else do { buf \<leftarrow> put_at idx c buf; mini_snprintf_loop lim p args buf (idx + 1) })
      else Some (buf, idx))"

text \<open>The buffer may be the null pointer, \<^const>\<open>None\<close>.\<close>

definition mini_snprintf ::
  "char list option \<Rightarrow> nat \<Rightarrow> string \<Rightarrow> va_arg list \<Rightarrow> (char list option \<times> nat) option" where
  "mini_snprintf buf buffer_size format args =
     (case buf of
        None \<Rightarrow> Some (None, 0)
      | Some buf \<Rightarrow>
          if buffer_size = 0 then Some (Some buf, 0)
          else do {
            (buf, idx) \<leftarrow> mini_snprintf_loop (buffer_size - 1) format args buf 0;
            buf \<leftarrow> put_at idx NUL buf;
            Some (Some buf, idx)
          })"

section \<open>Block operations move blocks\<close>

definition copy_step :: "(nat \<Rightarrow> u32) \<Rightarrow> (nat \<Rightarrow> u32) \<Rightarrow> nat \<Rightarrow> bytes \<Rightarrow> bytes" where
  "copy_step a b i m = m(a i := m (b i))"

lemma copy_step_other: "(\<And>i. i \<in> set is \<Longrightarrow> a i \<noteq> p) \<Longrightarrow> fold (copy_step a b) is m p = m p"
  by (induction "is" arbitrary: m) (auto simp: copy_step_def)

text \<open>A copy loop is a simultaneous copy when no step overwrites a source cell that a later step
  still reads.\<close>

lemma fold_copy:
  assumes "distinct is" "inj_on a (set is)"
    and "\<And>xs i ys j. is = xs @ i # ys \<Longrightarrow> j \<in> set ys \<Longrightarrow> a i \<noteq> b j"
  shows "\<forall>i \<in> set is. fold (copy_step a b) is m (a i) = m (b i)"
  using assms
proof (induction "is" arbitrary: m)
  case (Cons i "is")
  let ?m = "copy_step a b i m"
  have "fold (copy_step a b) is ?m (a i) = ?m (a i)"
    using Cons.prems(1,2) by (intro copy_step_other) (auto simp: inj_on_def)
  then have keep: "fold (copy_step a b) is ?m (a i) = m (b i)" by (simp add: copy_step_def)
  have "\<forall>j \<in> set is. fold (copy_step a b) is ?m (a j) = ?m (b j)"
    using Cons.prems(1,2) Cons.prems(3) [of "i # _"] by (intro Cons.IH) auto
  moreover have "?m (b j) = m (b j)" if "j \<in> set is" for j
    using Cons.prems(3) [of "[]" i "is" j] that by (auto simp: copy_step_def)
  ultimately show ?case using keep by simp
qed simp

lemma block_inj: "unat dest + n \<le> 4294967296 \<Longrightarrow> inj_on (\<lambda>i. dest + of_nat i :: u32) {0..<n}"
  by (rule inj_onI) (auto simp: of_nat_eq_u32)

lemma block_less:
  assumes "unat (x :: u32) + n \<le> 4294967296" "i < n" shows "unat (x + of_nat i) = unat x + i"
  using assms by (simp add: unat_add_u32 unat_of_nat_u32)

section \<open>Bounded output\<close>

definition holds :: "nat \<Rightarrow> string \<Rightarrow> char list \<Rightarrow> nat \<Rightarrow> bool" where
  "holds lim t buf idx \<longleftrightarrow> lim < length buf \<and> idx = min lim (length t) \<and> take idx buf = take lim t"

lemma holds_put:
  assumes "holds lim t buf idx" "idx < lim"
  shows "put_at idx c buf = Some (buf[idx := c])" "holds lim (t @ [c]) (buf[idx := c]) (idx + 1)"
proof -
  have i: "idx = length t" "take (length t) buf = t" "idx < length buf" using assms by (auto simp: holds_def)
  then show "put_at idx c buf = Some (buf[idx := c])" by simp
  show "holds lim (t @ [c]) (buf[idx := c]) (idx + 1)"
    using assms i by (auto simp: holds_def take_Suc_conv_app_nth)
qed

lemma holds_full: "holds lim t buf idx \<Longrightarrow> \<not> idx < lim \<Longrightarrow> holds lim (t @ u) buf idx"
  by (auto simp: holds_def)

lemma put_bounded_holds:
  "holds lim t buf idx \<Longrightarrow>
     \<exists>buf' idx'. put_bounded lim s buf idx = Some (buf', idx') \<and> holds lim (t @ s) buf' idx' \<and> length buf' = length buf"
proof (induction s arbitrary: t buf idx)
  case (Cons c s)
  show ?case
  proof (cases "idx < lim")
    case True
    then show ?thesis
      using Cons.IH [OF holds_put(2) [OF Cons.prems True, of c]] holds_put(1) [OF Cons.prems True] by auto
  next
    case False
    then show ?thesis using holds_full [OF Cons.prems] by auto
  qed
qed auto

lemma copy_back_holds:
  "i \<le> length temp \<Longrightarrow> holds lim t buf j \<Longrightarrow> j + i \<le> lim \<Longrightarrow> j = length t \<Longrightarrow>
     \<exists>buf'. copy_back temp i buf j = Some (buf', j + i) \<and> holds lim (t @ rev (take i temp)) buf' (j + i) \<and> length buf' = length buf"
proof (induction i arbitrary: t buf j)
  case (Suc i)
  have j: "j < lim" using Suc.prems by simp
  obtain buf' where "copy_back temp i (buf[j := temp ! i]) (j + 1) = Some (buf', j + 1 + i)"
    "holds lim ((t @ [temp ! i]) @ rev (take i temp)) buf' (j + 1 + i)" "length buf' = length (buf[j := temp ! i])"
    using Suc.IH [OF _ holds_put(2) [OF Suc.prems(2) j, of "temp ! i"]] Suc.prems by auto
  then show ?case using Suc.prems holds_put(1) [OF Suc.prems(2) j, of "temp ! i"]
    by (auto simp: take_Suc_conv_app_nth)
qed auto

lemma holds_cstr:
  assumes "holds lim t buf idx" "NUL \<notin> set t"
  shows "\<exists>buf'. put_at idx NUL buf = Some buf' \<and> cstr buf' = Some (take lim t) \<and> idx = length (take lim t) \<and> length buf' = length buf"
proof -
  have i: "idx < length buf" "take idx buf = take lim t" "idx = min lim (length t)" using assms(1) by (auto simp: holds_def)
  have "buf[idx := NUL] = take lim t @ NUL # drop (Suc idx) buf"
    using i by (simp add: upd_conv_take_nth_drop)
  moreover have "NUL \<notin> set (take lim t)" using assms(2) by (auto dest: in_set_takeD)
  ultimately show ?thesis using i cstr_append by (auto simp: min_def)
qed

lemma mini_itoa_dec:
  assumes "11 \<le> length buf"
  shows "\<exists>buf'. mini_itoa v buf = Some buf' \<and> cstr buf' = Some (dec (unat v)) \<and> length buf' = length buf"
proof (cases "v = 0")
  case True
  obtain a b rest where "buf = a # b # rest" using assms by (cases buf; cases "tl buf") auto
  then show ?thesis using True by (simp add: mini_itoa_def put_at_def dec_0 NUL_def)
next
  case False
  then have v: "0 < unat v" by (simp add: unat_gt_0)
  obtain temp where t: "fill_digits (replicate 12 NUL) 0 (uint v) = Some (temp, length (dec (unat v)))"
    "length temp = 12" "rev (take (length (dec (unat v))) temp) = dec (unat v)" "length (dec (unat v)) \<le> 10"
    using fill_digits_dec [OF v unat_lt_u32, of "replicate 12 NUL"] by auto
  have "holds 10 [] buf 0" using assms by (simp add: holds_def)
  then obtain buf' where b: "copy_back temp (length (dec (unat v))) buf 0 = Some (buf', length (dec (unat v)))"
    "holds 10 (dec (unat v)) buf' (length (dec (unat v)))" "length buf' = length buf"
    using copy_back_holds [of "length (dec (unat v))" temp 10 "[]" buf 0] t by auto
  then show ?thesis using holds_cstr [OF b(2) NUL_notin_dec] False t by (auto simp: mini_itoa_def)
qed

lemma memmove_steps:
  "memmove dest src n m = fold (copy_step (\<lambda>i. dest + of_nat i) (\<lambda>i. src + of_nat i))
     (if dest < src then [0..<unat n] else rev [0..<unat n]) m"
proof -
  have "(\<lambda>i m. m(dest + of_nat i := m (src + of_nat i))) = copy_step (\<lambda>i. dest + of_nat i) (\<lambda>i. src + of_nat i)"
    by (intro ext) (simp add: copy_step_def)
  then show ?thesis by (simp add: memmove_def)
qed

lemma upt_split_less: "[0..<n] = xs @ i # ys \<Longrightarrow> j \<in> set ys \<Longrightarrow> i < j \<and> j < n"
proof -
  assume a: "[0..<n] = xs @ i # ys" and j: "j \<in> set ys"
  have "sorted_wrt (<) (xs @ i # ys)" using sorted_wrt_upt [of 0 n] unfolding a .
  moreover have "j \<in> set [0..<n]" using a j by simp
  ultimately show "i < j \<and> j < n" using j by (auto simp: sorted_wrt_append)
qed

lemma rev_upt_split_less: "rev [0..<n] = xs @ i # ys \<Longrightarrow> j \<in> set ys \<Longrightarrow> j < i \<and> i < n"
proof -
  assume a: "rev [0..<n] = xs @ i # ys" and j: "j \<in> set ys"
  have "[0..<n] = rev ys @ i # rev xs" using arg_cong [OF a, of rev] by simp
  then have "sorted_wrt (<) (rev ys @ i # rev xs)" "i \<in> set [0..<n]" using sorted_wrt_upt [of 0 n] by auto
  then show "j < i \<and> i < n" using j by (auto simp: sorted_wrt_append)
qed

text \<open>What the formatter means.\<close>

definition unsigned_text :: "int \<Rightarrow> string" where
  "unsigned_text i = (let v = sint (of_int i :: u32) in if v < 0 then [] else dec (nat v))"

fun mini_text :: "string \<Rightarrow> va_arg list \<Rightarrow> string option" where
  "mini_text [] args = Some []"
| "mini_text (c # p) args =
     (if c = CHR ''%'' then
        (if p = [] then Some []
         else if hd p = CHR ''s'' then
           (case args of
              VStr s # args \<Rightarrow> map_option ((@) s) (mini_text (tl p) args)
            | VNull # args \<Rightarrow> map_option ((@) ''(null)'') (mini_text (tl p) args)
            | _ \<Rightarrow> None)
         else if hd p = CHR ''d'' \<or> hd p = CHR ''u'' then
           (case args of
              VInt i # args \<Rightarrow>
                map_option ((@) (if hd p = CHR ''d'' then int_text i else unsigned_text i)) (mini_text (tl p) args)
            | _ \<Rightarrow> None)
         else map_option ((#) (hd p)) (mini_text (tl p) args))
      else map_option ((#) c) (mini_text p args))"

definition int32_args :: "va_arg list \<Rightarrow> bool" where
  "int32_args args \<longleftrightarrow> (\<forall>i. VInt i \<in> set args \<longrightarrow> - 2147483648 \<le> i \<and> i < 2147483648)"

text \<open>The digits part of a number.\<close>

lemma digits_holds:
  assumes "holds lim t buf idx" "val < 2147483648"
  shows "\<exists>scratch n buf' idx'. (if val = 0 then do { b \<leftarrow> put_at 0 CHR ''0'' (replicate 12 NUL); Some (b, 1) }
      else fill_digits (replicate 12 NUL) 0 val) = Some (scratch, n) \<and>
    put_bounded lim (rev (take n scratch)) buf idx = Some (buf', idx') \<and>
    holds lim (t @ (if val < 0 then [] else dec (nat val))) buf' idx' \<and> length buf' = length buf"
proof -
  consider "val = 0" | "0 < val" | "val < 0" by linarith
  then obtain scratch n where sc: "(if val = 0 then do { b \<leftarrow> put_at 0 CHR ''0'' (replicate 12 NUL); Some (b, 1) }
      else fill_digits (replicate 12 NUL) 0 val) = Some (scratch, n)"
    "rev (take n scratch) = (if val < 0 then [] else dec (nat val))"
  proof cases
    case 1
    then show ?thesis using that [of "(replicate 12 NUL)[0 := CHR ''0'']" 1] by (simp add: dec_0 put_at_def numeral_eq_Suc)
  next
    case 2
    then show ?thesis
      using fill_digits_dec [of "nat val" "replicate 12 NUL"] that assms(2) by (auto simp: nat_less_iff)
  next
    case 3
    then show ?thesis using that [of "replicate 12 NUL" 0] by (simp add: fill_digits.simps)
  qed
  then show ?thesis using put_bounded_holds [OF assms(1), of "rev (take n scratch)"] by auto
qed

lemma put_number_holds:
  assumes h: "holds lim t buf idx" and r: "- 2147483648 \<le> i" "i < 2147483648"
  shows "\<exists>buf' idx'. put_number lim sg i buf idx = Some (buf', idx') \<and>
    holds lim (t @ (if sg then int_text i else unsigned_text i)) buf' idx' \<and> length buf' = length buf"
proof (cases "sg \<and> i < 0")
  case True
  obtain buf1 idx1 where b1: "(if idx < lim then do { buf \<leftarrow> put_at idx CHR ''-'' buf; Some (buf, idx + 1) } else Some (buf, idx)) = Some (buf1, idx1)"
    "holds lim (t @ ''-'') buf1 idx1" "length buf1 = length buf"
    using put_bounded_holds [OF h, of "''-''"] by (auto split: if_splits bind_splits)
  have n: "neg32 i < 2147483648" using r by (auto simp: neg32_def)
  obtain scratch n buf' idx' where "(if neg32 i = 0 then do { b \<leftarrow> put_at 0 CHR ''0'' (replicate 12 NUL); Some (b, 1) }
      else fill_digits (replicate 12 NUL) 0 (neg32 i)) = Some (scratch, n)"
    "put_bounded lim (rev (take n scratch)) buf1 idx1 = Some (buf', idx')"
    "holds lim ((t @ ''-'') @ (if neg32 i < 0 then [] else dec (nat (neg32 i)))) buf' idx'" "length buf' = length buf1"
    using digits_holds [OF b1(2) n] by blast
  then show ?thesis using True b1 r
    by (auto simp: put_number_def int_text_def dec_int_def neg32_def split: if_splits)
next
  case False
  define val where "val = (if sg then i else sint (of_int i :: u32))"
  have v: "val < 2147483648" using r sint_lt [of "of_int i :: u32"] by (simp add: val_def)
  have tx: "(if sg then int_text i else unsigned_text i) = (if val < 0 then [] else dec (nat val))"
    using False by (auto simp: val_def int_text_def dec_int_def unsigned_text_def Let_def)
  obtain scratch n buf' idx' where "(if val = 0 then do { b \<leftarrow> put_at 0 CHR ''0'' (replicate 12 NUL); Some (b, 1) }
      else fill_digits (replicate 12 NUL) 0 val) = Some (scratch, n)"
    "put_bounded lim (rev (take n scratch)) buf idx = Some (buf', idx')"
    "holds lim (t @ (if val < 0 then [] else dec (nat val))) buf' idx'" "length buf' = length buf"
    using digits_holds [OF h v] by blast
  then show ?thesis using False unfolding tx
    by (auto simp: put_number_def val_def split: if_splits)
qed

lemma mini_loop_holds:
  "mini_text fmt args = Some u \<Longrightarrow> int32_args args \<Longrightarrow> holds lim t buf idx \<Longrightarrow>
     \<exists>buf' idx'. mini_snprintf_loop lim fmt args buf idx = Some (buf', idx') \<and>
       holds lim (t @ u) buf' idx' \<and> length buf' = length buf"
proof (induction fmt args arbitrary: u t buf idx rule: mini_text.induct)
  case (2 c p args)
  show ?case
  proof (cases "idx < lim")
    case False
    then show ?thesis using holds_full [OF "2.prems"(3)] by auto
  next
    case room: True
    note h = "2.prems"(3)
    have tl_args: "int32_args as" if "args = a # as" for a as using "2.prems"(2) that by (simp add: int32_args_def)
    have one: "put_at idx ch buf = Some (buf[idx := ch])" "holds lim (t @ [ch]) (buf[idx := ch]) (idx + 1)" for ch
      by (rule holds_put [OF h room])+
    consider "c \<noteq> CHR ''%''" | "c = CHR ''%''" "p = []"
      | "c = CHR ''%''" "p \<noteq> []" "hd p = CHR ''s''" | "c = CHR ''%''" "p \<noteq> []" "hd p = CHR ''d'' \<or> hd p = CHR ''u''"
      | "c = CHR ''%''" "p \<noteq> []" "hd p \<noteq> CHR ''s''" "\<not> (hd p = CHR ''d'' \<or> hd p = CHR ''u'')" by blast
    then show ?thesis
    proof cases
      case 1
      then obtain v where v: "mini_text p args = Some v" "u = c # v" using "2.prems"(1) by auto
      from "2.IH"(5) [OF 1 v(1) "2.prems"(2) one(2) [of c]] show ?thesis
        using 1 v room one(1) by auto
    next
      case 2
      then show ?thesis using "2.prems" room by auto
    next
      case 3
      then obtain s as v where v: "args = VStr s # as \<or> (args = VNull # as \<and> s = ''(null)'')" "mini_text (tl p) as = Some v" "u = s @ v"
        using "2.prems"(1) by (auto split: list.splits va_arg.splits)
      obtain b1 i1 where b1: "put_bounded lim s buf idx = Some (b1, i1)" "holds lim (t @ s) b1 i1" "length b1 = length buf"
        using put_bounded_holds [OF h, of s] by auto
      have "\<exists>buf' idx'. mini_snprintf_loop lim (tl p) as b1 i1 = Some (buf', idx') \<and>
          holds lim ((t @ s) @ v) buf' idx' \<and> length buf' = length b1"
        using v(1) "2.IH"(1,2) [OF 3(1,2,3) _ _ v(2) _ b1(2)] tl_args by auto
      then show ?thesis using 3 v room b1 by auto
    next
      case 4
      then obtain i as v where v: "args = VInt i # as" "mini_text (tl p) as = Some v"
        "u = (if hd p = CHR ''d'' then int_text i else unsigned_text i) @ v"
        using "2.prems"(1) by (auto split: list.splits va_arg.splits)
      have "- 2147483648 \<le> i" "i < 2147483648" using "2.prems"(2) v(1) by (auto simp: int32_args_def)
      then obtain b1 i1 where b1: "put_number lim (hd p = CHR ''d'') i buf idx = Some (b1, i1)"
        "holds lim (t @ (if hd p = CHR ''d'' then int_text i else unsigned_text i)) b1 i1" "length b1 = length buf"
        using put_number_holds [OF h, of i "hd p = CHR ''d''"] by blast
      have "hd p \<noteq> CHR ''s''" using 4 by auto
      from "2.IH"(3) [OF 4(1,2) this 4(3) v(1) refl v(2) tl_args [OF v(1)] b1(2)] show ?thesis
        using 4 v room b1 \<open>hd p \<noteq> CHR ''s''\<close> by auto
    next
      case 5
      then obtain v where v: "mini_text (tl p) args = Some v" "u = hd p # v" using "2.prems"(1) by auto
      from "2.IH"(4) [OF 5 v(1) "2.prems"(2) one(2) [of "hd p"]] show ?thesis
        using 5 v room one(1) by auto
    qed
  qed
qed auto

section \<open>Reading numbers back\<close>

lemma of_char_digit_int: "d < 10 \<Longrightarrow> (of_char (digit_char d) :: int) = 48 + int d"
  using of_char_digit [of d] by (metis of_nat_add of_nat_numeral of_nat_of_char)

lemma is_digit_char: "d < 10 \<Longrightarrow> is_digit (digit_char d)"
  by (simp add: is_digit_def schar_def of_char_digit_int)

lemma strtol_loop_dec:
  "strtol_loop r (dec n @ s) = strtol_loop (wrap32 (r * 10 ^ length (dec n) + int n)) s"
proof (induction n arbitrary: r s rule: dec.induct)
  case (1 n)
  show ?case
  proof (cases "n < 10")
    case True
    then show ?thesis by (simp add: dec.simps [of n] is_digit_char of_char_digit_int)
  next
    case False
    have "strtol_loop r (dec n @ s) = strtol_loop r (dec (n div 10) @ (digit_char (n mod 10) # s))"
      using False by (simp add: dec.simps [of n])
    also have "\<dots> = strtol_loop (wrap32 (r * 10 ^ length (dec (n div 10)) + int (n div 10))) (digit_char (n mod 10) # s)"
      by (rule "1.IH" [OF False])
    also have "\<dots> = strtol_loop (wrap32 (r * 10 ^ length (dec n) + int n)) s"
    proof -
      have "(r * 10 ^ length (dec (n div 10)) + int (n div 10)) * 10 + int (n mod 10) = r * 10 ^ length (dec n) + int n"
        using False by (simp add: dec.simps [of n] algebra_simps zdiv_int zmod_int)
      then show ?thesis by (simp add: is_digit_char of_char_digit_int wrap32_affine)
    qed
    finally show ?thesis .
  qed
qed

lemma strtol_dec: "\<not> is_digit c \<Longrightarrow> strtol (dec n @ c # s) = Some (wrap32 (int n), c # s)"
  by (simp add: strtol_def strtol_loop_dec)

lemma not_digit [simp]: "\<not> is_digit NUL" "\<not> is_digit CHR '',''" "\<not> is_digit CHR 0x0A"
  by (simp_all add: is_digit_def schar_def NUL_def)

lemma of_char_range: "0 \<le> (of_char c :: int)" "(of_char c :: int) < 256"
  using of_char_mod_256 [of c, where 'a = int] pos_mod_bound [of 256 "of_char c :: int"] pos_mod_sign [of 256 "of_char c :: int"]
  by simp_all

lemma schar_inj: "schar x = schar y \<Longrightarrow> x = y"
  using of_char_range [of x] of_char_range [of y] of_char_eq_iff [of x y, where 'a = int]
  by (auto simp: schar_def split: if_splits)

lemma strncmp_lit:
  "NUL \<notin> set l \<Longrightarrow> strncmp (l @ s) (l @ [NUL]) (length l) = Some 0"
  by (induction l) auto

section \<open>Main properties\<close>

text \<open>\<open>memmove\<close> is a simultaneous copy, also when the areas overlap: every destination byte
  receives the byte its source had before the call, and nothing else changes, for all areas that
  do not wrap around the address space.\<close>

theorem memmove_copies:
  assumes "unat dest + unat n \<le> 2 ^ 32" and "unat src + unat n \<le> 2 ^ 32"
  shows "(\<forall>i < unat n. memmove dest src n m (dest + of_nat i) = m (src + of_nat i)) \<and>
    (\<forall>p. (\<forall>i < unat n. p \<noteq> dest + of_nat i) \<longrightarrow> memmove dest src n m p = m p)"
proof -
  let ?is = "if dest < src then [0..<unat n] else rev [0..<unat n]"
  have set_is: "set ?is = {0..<unat n}" by simp
  have b: "unat (dest + of_nat i) = unat dest + i" "unat (src + of_nat i) = unat src + i" if "i < unat n" for i
    using block_less [of dest "unat n" i] block_less [of src "unat n" i] assms that by auto
  have "dest + of_nat i \<noteq> src + of_nat j" if "?is = xs @ i # ys" "j \<in> set ys" for xs i ys j
  proof (cases "dest < src")
    case True
    then have "i < j \<and> j < unat n" using upt_split_less [of "unat n" xs i ys j] that by simp
    then show ?thesis using b [of i] b [of j] True by (auto simp: word_less_nat_alt)
  next
    case False
    then have "j < i \<and> i < unat n" using rev_upt_split_less [of "unat n" xs i ys j] that by simp
    then show ?thesis using b [of i] b [of j] False by (auto simp: word_less_nat_alt)
  qed
  then have "\<forall>i \<in> set ?is. memmove dest src n m (dest + of_nat i) = m (src + of_nat i)"
    unfolding memmove_steps by (intro fold_copy) (use block_inj [of dest "unat n"] assms(1) set_is in auto)
  moreover have "memmove dest src n m p = m p" if "\<forall>i < unat n. p \<noteq> dest + of_nat i" for p
  proof -
    have "dest + of_nat i \<noteq> p" if "i \<in> set ?is" for i
      using that \<open>\<forall>i < unat n. p \<noteq> dest + of_nat i\<close> unfolding set_is by (metis atLeastLessThan_iff)
    then show ?thesis unfolding memmove_steps by (rule copy_step_other)
  qed
  ultimately show ?thesis by simp
qed

theorem memmove_copies_witness:
  "memmove 1001 1000 3 (\<lambda>a. ucast a) 1003 = (ucast (1002 :: u32) :: u8)"
  using memmove_copies [of 1001 3 1000 "\<lambda>a. ucast a"] by (auto dest: spec [of _ "2 :: nat"])

lemma mini_snprintf_total:
  assumes "mini_text fmt args = Some u" "int32_args args" "0 < sz" "sz \<le> length buf"
  shows "\<exists>r. mini_snprintf (Some buf) sz fmt args = Some r"
proof -
  have "holds (sz - 1) [] buf 0" using assms(3,4) by (auto simp: holds_def)
  then obtain b i where b: "mini_snprintf_loop (sz - 1) fmt args buf 0 = Some (b, i)" "holds (sz - 1) u b i"
    using mini_loop_holds [OF assms(1,2), of "sz - 1" "[]" buf 0] by auto
  then have "i < length b" by (auto simp: holds_def)
  then show ?thesis using b(1) assms(3) by (simp add: mini_snprintf_def)
qed

lemma strncpy_pad_total:
  "n \<le> length dest \<Longrightarrow> strncpy_pad dest n = Some (replicate n NUL @ drop n dest)"
  by (induction dest n rule: strncpy_pad.induct) auto

lemma strncpy_total:
  "n \<le> length dest \<Longrightarrow> \<exists>a. strncpy dest (src @ [NUL]) n = Some (a @ drop n dest) \<and> length a = n"
proof (induction n arbitrary: dest src)
  case (Suc n)
  then obtain d dest' where d: "dest = d # dest'" by (cases dest) auto
  show ?case
  proof (cases "src = [] \<or> hd src = NUL")
    case True
    then obtain t where t: "src @ [NUL] = NUL # t" by (cases src) auto
    have "strncpy dest (src @ [NUL]) (Suc n) = Some (replicate (Suc n) NUL @ drop (Suc n) dest)"
      unfolding t using Suc.prems by (simp add: strncpy_pad_total)
    then show ?thesis by (metis length_replicate)
  next
    case False
    then obtain c src' where c: "src = c # src'" "c \<noteq> NUL" by (cases src) auto
    then obtain a where a: "strncpy dest' (src' @ [NUL]) n = Some (a @ drop n dest')" "length a = n"
      using Suc.IH [of dest' src'] Suc.prems d by auto
    then have "strncpy dest (src @ [NUL]) (Suc n) = Some ((c # a) @ drop (Suc n) dest)" using c d by simp
    then show ?thesis using a(2) by (metis length_Cons)
  qed
qed simp

text \<open>C17. \<open>mini_snprintf\<close> never writes outside its buffer and always terminates it: for a buffer of
  at least \<open>size\<close> bytes it leaves the expansion of the format cut to \<open>size - 1\<close> characters,
  returns the number of characters stored, and keeps the rest of the buffer's length.\<close>

theorem mini_snprintf_truncates:
  assumes "mini_text fmt args = Some t" and "int32_args args" and "NUL \<notin> set t"
    and "0 < sz" and "sz \<le> length buf"
  shows "\<exists>buf'. mini_snprintf (Some buf) sz fmt args = Some (Some buf', length (take (sz - 1) t)) \<and>
    cstr buf' = Some (take (sz - 1) t) \<and> length buf' = length buf"
proof -
  have "holds (sz - 1) [] buf 0" using assms(4,5) by (auto simp: holds_def)
  then obtain b i where b: "mini_snprintf_loop (sz - 1) fmt args buf 0 = Some (b, i)" "holds (sz - 1) t b i" "length b = length buf"
    using mini_loop_holds [OF assms(1,2), of "sz - 1" "[]" buf 0] by auto
  then show ?thesis using holds_cstr [OF b(2) assms(3)] assms(4) by (auto simp: mini_snprintf_def)
qed

theorem mini_snprintf_truncates_witness:
  "\<exists>buf'. mini_snprintf (Some (replicate 8 CHR ''x'')) 8 ''bg=%d,%u'' [VInt 42, VInt (- 1)] = Some (Some buf', 6) \<and>
     cstr buf' = Some ''bg=42,''"
  using mini_snprintf_truncates [of "''bg=%d,%u''" "[VInt 42, VInt (- 1)]" "''bg=42,''" 8 "replicate 8 CHR ''x''"]
  by (auto simp: int32_args_def int_text_def dec_int_def unsigned_text_def dec.simps digit_char_def char_of_def bit_0 NUL_def)

text \<open>C18. Printing and parsing numbers are inverse: \<open>mini_itoa\<close> writes the decimal notation of
  every 32-bit number, terminated, into a buffer of eleven bytes, and \<open>strtol\<close> reads back the same
  32 bits, as the \<open>long\<close> it returns, and stops at the terminator.\<close>

theorem itoa_strtol_roundtrip:
  assumes "11 \<le> length buf"
  shows "\<exists>buf' rest. mini_itoa v buf = Some buf' \<and> cstr buf' = Some (dec (unat v)) \<and>
    strtol buf' = Some (sint v, NUL # rest)"
proof -
  obtain buf' where b: "mini_itoa v buf = Some buf'" "cstr buf' = Some (dec (unat v))"
    using mini_itoa_dec [OF assms] by blast
  then obtain rest where "buf' = dec (unat v) @ NUL # rest" using cstr_Some by blast
  then show ?thesis using b strtol_dec [of NUL "unat v" rest] by (simp add: wrap32_sint)
qed

theorem itoa_strtol_roundtrip_witness:
  "\<exists>buf' rest. mini_itoa 4294967295 (replicate 11 NUL) = Some buf' \<and> strtol buf' = Some (- 1, NUL # rest)"
  using itoa_strtol_roundtrip [of "replicate 11 NUL" 4294967295] by auto

end
