(* ===== verification/Theme.thy ===== *)
theory Theme
  imports Libc
begin

text \<open>
  The colour theme of the desktop (\<open>src/kernel.c\<close>): saving it as text to \<open>0:/color.conf\<close>,
  loading it back, and applying it to the style of the user interface.  The file system is a
  parameter: what \<open>f_open\<close> and \<open>f_read\<close> deliver is given as an optional list of bytes, and
  saving yields the bytes passed to \<open>f_write\<close>.
\<close>

record ui_theme_config =
  win_r :: int  win_g :: int  win_b :: int  win_a :: int
  title_r :: int  title_g :: int  title_b :: int  title_a :: int
  btn_r :: int  btn_g :: int  btn_b :: int  btn_a :: int
  bg_r :: int  bg_g :: int  bg_b :: int
  use_transparency :: int
  round_corners :: int

section \<open>Saving\<close>

definition theme_format :: string where
  "theme_format =
     ''trans=%d'' @ [CHR 0x0A] @ ''win=%d,%d,%d,%d'' @ [CHR 0x0A] @ ''title=%d,%d,%d,%d'' @ [CHR 0x0A] @
     ''btn=%d,%d,%d,%d'' @ [CHR 0x0A] @ ''bg=%d,%d,%d'' @ [CHR 0x0A]"

definition theme_args :: "ui_theme_config \<Rightarrow> va_arg list" where
  "theme_args t = map VInt [use_transparency t, win_r t, win_g t, win_b t, win_a t,
     title_r t, title_g t, title_b t, title_a t, btn_r t, btn_g t, btn_b t, btn_a t, bg_r t, bg_g t, bg_b t]"

text \<open>The bytes written to the file, when it could be opened; the stack buffer starts with
  arbitrary contents.\<close>

definition theme_save_to_disk :: "char list \<Rightarrow> bool \<Rightarrow> ui_theme_config \<Rightarrow> char list option option" where
  "theme_save_to_disk write_buffer open_ok t = do {
     (buf, len) \<leftarrow> mini_snprintf (Some write_buffer) 256 theme_format (theme_args t);
     buf \<leftarrow> buf;
     Some (if open_ok then Some (take len buf) else None)
   }"

section \<open>Loading\<close>

definition theme_defaults :: "ui_theme_config \<Rightarrow> ui_theme_config" where
  "theme_defaults t = t\<lparr>use_transparency := 0,
     win_r := 45, win_g := 45, win_b := 45, win_a := 220,
     title_r := 30, title_g := 30, title_b := 30, title_a := 240,
     btn_r := 60, btn_g := 60, btn_b := 60, btn_a := 255,
     bg_r := 0, bg_g := 42, bg_b := 54\<rparr>"

definition starts :: "char list \<Rightarrow> string \<Rightarrow> bool option" where
  "starts p l = map_option (\<lambda>r. r = 0) (strncmp p (l @ [NUL]) (length l))"

text \<open>\<open>if (*p == ',') p++\<close>\<close>

definition skip_comma :: "char list \<Rightarrow> char list option" where
  "skip_comma p = (case p of [] \<Rightarrow> None | c # q \<Rightarrow> Some (if c = CHR '','' then q else p))"

definition parse3 :: "char list \<Rightarrow> (int \<times> int \<times> int \<times> char list) option" where
  "parse3 p = do {
     (a, p) \<leftarrow> strtol p; p \<leftarrow> skip_comma p;
     (b, p) \<leftarrow> strtol p; p \<leftarrow> skip_comma p;
     (c, p) \<leftarrow> strtol p;
     Some (a, b, c, p)
   }"

definition parse4 :: "char list \<Rightarrow> (int \<times> int \<times> int \<times> int \<times> char list) option" where
  "parse4 p = do {
     (a, p) \<leftarrow> strtol p; p \<leftarrow> skip_comma p;
     (b, p) \<leftarrow> strtol p; p \<leftarrow> skip_comma p;
     (c, p) \<leftarrow> strtol p; p \<leftarrow> skip_comma p;
     (d, p) \<leftarrow> strtol p;
     Some (a, b, c, d, p)
   }"

definition theme_line :: "char list \<Rightarrow> ui_theme_config \<Rightarrow> (ui_theme_config \<times> char list) option" where
  "theme_line p t = do {
     is_trans \<leftarrow> starts p ''trans='';
     if is_trans then do { (v, p) \<leftarrow> strtol (drop 6 p); Some (t\<lparr>use_transparency := v\<rparr>, p) }
     else do {
       is_win \<leftarrow> starts p ''win='';
       if is_win then do {
         (r, g, b, a, p) \<leftarrow> parse4 (drop 4 p);
         Some (t\<lparr>win_r := r, win_g := g, win_b := b, win_a := a\<rparr>, p)
       } else do {
         is_title \<leftarrow> starts p ''title='';
         if is_title then do {
           (r, g, b, a, p) \<leftarrow> parse4 (drop 6 p);
           Some (t\<lparr>title_r := r, title_g := g, title_b := b, title_a := a\<rparr>, p)
         } else do {
           is_btn \<leftarrow> starts p ''btn='';
           if is_btn then do {
             (r, g, b, a, p) \<leftarrow> parse4 (drop 4 p);
             Some (t\<lparr>btn_r := r, btn_g := g, btn_b := b, btn_a := a\<rparr>, p)
           } else do {
             is_bg \<leftarrow> starts p ''bg='';
             if is_bg then do {
               (r, g, b, p) \<leftarrow> parse3 (drop 3 p);
               Some (t\<lparr>bg_r := r, bg_g := g, bg_b := b\<rparr>, p)
             } else Some (t, p)
           }
         }
       }
     }
   }"

text \<open>\<open>while (*p != 0 && *p != newline) p++; if (*p == newline) p++\<close>\<close>

fun skip_line :: "char list \<Rightarrow> char list option" where
  "skip_line [] = None"
| "skip_line (c # p) = (if c = NUL then Some (c # p) else if c = CHR 0x0A then Some p else skip_line p)"

partial_function (option) theme_parse :: "char list \<Rightarrow> ui_theme_config \<Rightarrow> ui_theme_config option" where
  "theme_parse p t =
     (case p of
        [] \<Rightarrow> None
      | c # _ \<Rightarrow>
          if c = NUL then Some t
          else do { (t, p) \<leftarrow> theme_line p t; p \<leftarrow> skip_line p; theme_parse p t })"

text \<open>\<open>f_read\<close> stores at most 255 bytes into the zeroed 256-byte buffer.\<close>

definition read_buffer :: "char list \<Rightarrow> char list" where
  "read_buffer content = (let c = take 255 content in c @ replicate (256 - length c) NUL)"

text \<open>The file is \<open>None\<close> when it cannot be opened. The second result is the desktop background
  colour, which the redraw loop reads from three variables of its own.\<close>

definition theme_load_from_disk ::
  "char list option \<Rightarrow> ui_theme_config \<Rightarrow> (ui_theme_config \<times> int \<times> int \<times> int) option" where
  "theme_load_from_disk file t = do {
     t \<leftarrow> (case file of
         None \<Rightarrow> Some (theme_defaults t)
       | Some content \<Rightarrow> theme_parse (read_buffer content) (theme_defaults t));
     Some (t, bg_r t, bg_g t, bg_b t)
   }"

section \<open>Applying\<close>

record nk_color =
  nk_r :: u8
  nk_g :: u8
  nk_b :: u8
  nk_a :: u8

definition nk_clamp :: "int \<Rightarrow> u8" where
  "nk_clamp v = of_int (max 0 (min v 255))"

definition nk_rgba :: "int \<Rightarrow> int \<Rightarrow> int \<Rightarrow> int \<Rightarrow> nk_color" where
  "nk_rgba r g b a = \<lparr>nk_r = nk_clamp r, nk_g = nk_clamp g, nk_b = nk_clamp b, nk_a = nk_clamp a\<rparr>"

definition nk_rgb :: "int \<Rightarrow> int \<Rightarrow> int \<Rightarrow> nk_color" where
  "nk_rgb r g b = \<lparr>nk_r = nk_clamp r, nk_g = nk_clamp g, nk_b = nk_clamp b, nk_a = 255\<rparr>"

datatype nk_style_item = NK_STYLE_ITEM_COLOR nk_color | NK_STYLE_ITEM_IMAGE nat | NK_STYLE_ITEM_NINE_SLICE nat

text \<open>The style fields the theme writes (roundings and sizes are small whole floats).\<close>

record nk_style =
  window_rounding :: int
  button_rounding :: int
  window_background :: nk_color
  window_fixed_background :: nk_style_item
  header_normal :: nk_style_item
  header_active :: nk_style_item
  header_label_normal :: nk_color
  header_label_active :: nk_color
  button_normal :: nk_style_item
  button_hover :: nk_style_item
  button_active :: nk_style_item
  slider_cursor_size :: "int \<times> int"
  slider_cursor_normal :: nk_style_item
  slider_cursor_hover :: nk_style_item
  slider_cursor_active :: nk_style_item

definition apply_theme_to_nuklear :: "ui_theme_config \<Rightarrow> nk_style \<Rightarrow> nk_style" where
  "apply_theme_to_nuklear t s =
     (let wa = (if use_transparency t \<noteq> 0 then win_a t mod 256 else 255);
          ta = (if use_transparency t \<noteq> 0 then title_a t mod 256 else 255);
          ba = (if use_transparency t \<noteq> 0 then btn_a t mod 256 else 255);
          c_win = nk_rgba (win_r t) (win_g t) (win_b t) wa;
          c_title = nk_rgba (title_r t) (title_g t) (title_b t) ta;
          c_btn = nk_rgba (btn_r t) (btn_g t) (btn_b t) ba;
          s = (if round_corners t \<noteq> 0 then s\<lparr>window_rounding := 10, button_rounding := 6\<rparr>
               else s\<lparr>window_rounding := 0, button_rounding := 0\<rparr>);
          s = s\<lparr>window_background := c_win, window_fixed_background := NK_STYLE_ITEM_COLOR c_win,
                 header_normal := NK_STYLE_ITEM_COLOR c_title, header_active := NK_STYLE_ITEM_COLOR c_title,
                 header_label_normal := nk_rgb 255 255 255, header_label_active := nk_rgb 255 255 255\<rparr>;
          c_btn_hover = nk_rgba
            (if btn_r t + 25 > 255 then 255 else btn_r t + 25)
            (if btn_g t + 25 > 255 then 255 else btn_g t + 25)
            (if btn_b t + 25 > 255 then 255 else btn_b t + 25) ba
      in s\<lparr>button_normal := NK_STYLE_ITEM_COLOR c_btn, button_hover := NK_STYLE_ITEM_COLOR c_btn_hover,
            button_active := NK_STYLE_ITEM_COLOR c_btn_hover,
            slider_cursor_size := (12, 24), slider_cursor_normal := NK_STYLE_ITEM_COLOR (nk_rgb 200 200 200),
            slider_cursor_hover := NK_STYLE_ITEM_COLOR (nk_rgb 255 255 255),
            slider_cursor_active := NK_STYLE_ITEM_COLOR (nk_rgb 140 180 240)\<rparr>)"

section \<open>Loading always ends\<close>

text \<open>A pointer into a terminated buffer: a zero is still ahead.\<close>

lemma strtol_loop_suffix:
  "NUL \<in> set p \<Longrightarrow> \<exists>r' q. strtol_loop r p = Some (r', q) \<and> NUL \<in> set q \<and> length q \<le> length p"
proof (induction p arbitrary: r)
  case (Cons c p)
  show ?case
  proof (cases "is_digit c")
    case True
    then have "NUL \<in> set p" using Cons.prems by auto
    then obtain r' q where "strtol_loop (wrap32 (r * 10 + (of_char c - 48))) p = Some (r', q)" "NUL \<in> set q" "length q \<le> length p"
      using Cons.IH by blast
    then show ?thesis using True by simp
  qed (use Cons.prems in auto)
qed simp

lemma strtol_suffix: "NUL \<in> set p \<Longrightarrow> \<exists>r q. strtol p = Some (r, q) \<and> NUL \<in> set q \<and> length q \<le> length p"
  by (simp add: strtol_def strtol_loop_suffix)

lemma skip_comma_suffix: "NUL \<in> set p \<Longrightarrow> \<exists>q. skip_comma p = Some q \<and> NUL \<in> set q \<and> length q \<le> length p"
  by (cases p) (auto simp: skip_comma_def NUL_def)

lemma strncmp_total: "NUL \<in> set p \<Longrightarrow> NUL \<notin> set l \<Longrightarrow> \<exists>r. strncmp p (l @ [NUL]) (length l) = Some r"
  by (induction l arbitrary: p) (case_tac [2] p, auto)

lemma starts_total: "NUL \<in> set p \<Longrightarrow> NUL \<notin> set l \<Longrightarrow> \<exists>b. starts p l = Some b"
  using strncmp_total by (auto simp: starts_def)

lemma strncmp_prefix: "strncmp p (l @ [NUL]) (length l) = Some 0 \<Longrightarrow> NUL \<notin> set l \<Longrightarrow> \<exists>q. p = l @ q"
proof (induction l arbitrary: p)
  case (Cons a l)
  then obtain b q where p: "p = b # q" by (cases p) auto
  have "b = a" using Cons.prems(1) schar_inj [of b a] by (cases "b = a") (auto simp: p split: if_splits)
  then show ?case using Cons by (auto simp: p split: if_splits)
qed simp

lemma starts_prefix:
  assumes "starts p l = Some True" "NUL \<notin> set l" "NUL \<in> set p"
  shows "NUL \<in> set (drop (length l) p) \<and> length (drop (length l) p) \<le> length p"
  using assms strncmp_prefix [of p l] by (auto simp: starts_def)

lemma number_suffix:
  assumes "NUL \<in> set p"
  obtains r q q' where "strtol p = Some (r, q)" "NUL \<in> set q" "length q \<le> length p"
    "skip_comma q = Some q'" "NUL \<in> set q'" "length q' \<le> length p"
proof -
  obtain r q where q: "strtol p = Some (r, q)" "NUL \<in> set q" "length q \<le> length p" using strtol_suffix [OF assms] by blast
  then show ?thesis using skip_comma_suffix [OF q(2)] that by (meson le_trans)
qed

lemma parse3_suffix:
  assumes "NUL \<in> set p"
  shows "\<exists>a b c q. parse3 p = Some (a, b, c, q) \<and> NUL \<in> set q \<and> length q \<le> length p"
proof -
  obtain a q1 p1 where 1: "strtol p = Some (a, q1)" "skip_comma q1 = Some p1" "NUL \<in> set p1" "length p1 \<le> length p"
    by (rule number_suffix [OF assms])
  obtain b q2 p2 where 2: "strtol p1 = Some (b, q2)" "skip_comma q2 = Some p2" "NUL \<in> set p2" "length p2 \<le> length p1"
    by (rule number_suffix [OF 1(3)])
  obtain c q3 where "strtol p2 = Some (c, q3)" "NUL \<in> set q3" "length q3 \<le> length p2"
    by (rule number_suffix [OF 2(3)])
  then show ?thesis using 1 2 by (simp add: parse3_def)
qed

lemma parse4_suffix:
  assumes "NUL \<in> set p"
  shows "\<exists>a b c d q. parse4 p = Some (a, b, c, d, q) \<and> NUL \<in> set q \<and> length q \<le> length p"
proof -
  obtain a q1 p1 where 1: "strtol p = Some (a, q1)" "skip_comma q1 = Some p1" "NUL \<in> set p1" "length p1 \<le> length p"
    by (rule number_suffix [OF assms])
  obtain b c d q where "parse3 p1 = Some (b, c, d, q)" "NUL \<in> set q" "length q \<le> length p1"
    using parse3_suffix [OF 1(3)] by blast
  then show ?thesis using 1 by (auto simp: parse4_def parse3_def bind_eq_Some_conv split: prod.splits)
qed

lemma theme_line_suffix:
  assumes "NUL \<in> set p"
  shows "\<exists>t' q. theme_line p t = Some (t', q) \<and> NUL \<in> set q \<and> (length q < length p \<or> q = p)"
proof -
  have pl: "0 < length p" using assms by (cases p) auto
  obtain b1 b2 b3 b4 b5 where b: "starts p ''trans='' = Some b1" "starts p ''win='' = Some b2"
    "starts p ''title='' = Some b3" "starts p ''btn='' = Some b4" "starts p ''bg='' = Some b5"
    using starts_total [OF assms, of "''trans=''"] starts_total [OF assms, of "''win=''"]
      starts_total [OF assms, of "''title=''"] starts_total [OF assms, of "''btn=''"] starts_total [OF assms, of "''bg=''"]
    by (auto simp: NUL_def)
  have d: "b1 \<Longrightarrow> NUL \<in> set (drop 6 p)" "b2 \<Longrightarrow> NUL \<in> set (drop 4 p)" "b3 \<Longrightarrow> NUL \<in> set (drop 6 p)"
    "b4 \<Longrightarrow> NUL \<in> set (drop 4 p)" "b5 \<Longrightarrow> NUL \<in> set (drop 3 p)"
    using b starts_prefix [of p "''trans=''"] starts_prefix [of p "''win=''"] starts_prefix [of p "''title=''"]
      starts_prefix [of p "''btn=''"] starts_prefix [of p "''bg=''"] assms by (auto simp: NUL_def numeral_eq_Suc)
  consider "b1" | "\<not> b1" "b2" | "\<not> b1" "\<not> b2" "b3" | "\<not> b1" "\<not> b2" "\<not> b3" "b4"
    | "\<not> b1" "\<not> b2" "\<not> b3" "\<not> b4" "b5" | "\<not> b1" "\<not> b2" "\<not> b3" "\<not> b4" "\<not> b5" by blast
  then show ?thesis
  proof cases
    case 1
    then obtain r q where "strtol (drop 6 p) = Some (r, q)" "NUL \<in> set q" "length q \<le> length (drop 6 p)"
      using strtol_suffix [OF d(1)] by blast
    moreover from this have "length q < length p" using pl unfolding length_drop by linarith
    ultimately show ?thesis using 1 b by (auto simp: theme_line_def)
  next
    case 2
    then obtain x y z w q where "parse4 (drop 4 p) = Some (x, y, z, w, q)" "NUL \<in> set q" "length q \<le> length (drop 4 p)"
      using parse4_suffix [OF d(2)] by blast
    moreover from this have "length q < length p" using pl unfolding length_drop by linarith
    ultimately show ?thesis using 2 b by (auto simp: theme_line_def)
  next
    case 3
    then obtain x y z w q where "parse4 (drop 6 p) = Some (x, y, z, w, q)" "NUL \<in> set q" "length q \<le> length (drop 6 p)"
      using parse4_suffix [OF d(3)] by blast
    moreover from this have "length q < length p" using pl unfolding length_drop by linarith
    ultimately show ?thesis using 3 b by (auto simp: theme_line_def)
  next
    case 4
    then obtain x y z w q where "parse4 (drop 4 p) = Some (x, y, z, w, q)" "NUL \<in> set q" "length q \<le> length (drop 4 p)"
      using parse4_suffix [OF d(4)] by blast
    moreover from this have "length q < length p" using pl unfolding length_drop by linarith
    ultimately show ?thesis using 4 b by (auto simp: theme_line_def)
  next
    case 5
    then obtain x y z q where "parse3 (drop 3 p) = Some (x, y, z, q)" "NUL \<in> set q" "length q \<le> length (drop 3 p)"
      using parse3_suffix [OF d(5)] by blast
    moreover from this have "length q < length p" using pl unfolding length_drop by linarith
    ultimately show ?thesis using 5 b by (auto simp: theme_line_def)
  next
    case 6
    then show ?thesis using b assms by (simp add: theme_line_def)
  qed
qed

lemma skip_line_suffix: "NUL \<in> set p \<Longrightarrow> \<exists>q. skip_line p = Some q \<and> NUL \<in> set q \<and> length q \<le> length p \<and>
    (hd p \<noteq> NUL \<longrightarrow> length q < length p)"
proof (induction p)
  case (Cons c p)
  show ?case
  proof (cases "c = NUL \<or> c = CHR 0x0A")
    case True
    then show ?thesis using Cons.prems by (auto simp: NUL_def)
  next
    case False
    then have "NUL \<in> set p" using Cons.prems by auto
    from Cons.IH [OF this] show ?thesis using False by auto
  qed
qed simp

lemma theme_parse_total: "NUL \<in> set p \<Longrightarrow> \<exists>t'. theme_parse p t = Some t'"
proof (induction "length p" arbitrary: p t rule: less_induct)
  case less
  then obtain c p' where p: "p = c # p'" by (cases p) auto
  show ?case
  proof (cases "c = NUL")
    case True
    then show ?thesis by (simp add: theme_parse.simps [of "NUL # p'"] p)
  next
    case False
    obtain t1 q where q: "theme_line p t = Some (t1, q)" "NUL \<in> set q" "length q < length p \<or> q = p"
      using theme_line_suffix [OF less.prems] by blast
    obtain q' where q': "skip_line q = Some q'" "NUL \<in> set q'" "length q' \<le> length q" "hd q \<noteq> NUL \<longrightarrow> length q' < length q"
      using skip_line_suffix [OF q(2)] by blast
    have "length q' < length p"
      using q(3) q' False p by auto
    from less.hyps [OF this q'(2), of t1] show ?thesis
      using False q q' by (simp add: theme_parse.simps [of "c # p'"] p)
  qed
qed

section \<open>Saving and loading\<close>

definition theme_ints :: "ui_theme_config \<Rightarrow> int list" where
  "theme_ints t = [use_transparency t, win_r t, win_g t, win_b t, win_a t,
     title_r t, title_g t, title_b t, title_a t, btn_r t, btn_g t, btn_b t, btn_a t, bg_r t, bg_g t, bg_b t]"

definition nonneg32 :: "int \<Rightarrow> bool" where
  "nonneg32 i \<longleftrightarrow> 0 \<le> i \<and> i < 2147483648"

abbreviation num :: "int \<Rightarrow> string" where "num i \<equiv> dec (nat i)"

definition theme_text :: "ui_theme_config \<Rightarrow> string" where
  "theme_text t =
     ''trans='' @ num (use_transparency t) @ [CHR 0x0A] @
     ''win='' @ num (win_r t) @ '','' @ num (win_g t) @ '','' @ num (win_b t) @ '','' @ num (win_a t) @ [CHR 0x0A] @
     ''title='' @ num (title_r t) @ '','' @ num (title_g t) @ '','' @ num (title_b t) @ '','' @ num (title_a t) @ [CHR 0x0A] @
     ''btn='' @ num (btn_r t) @ '','' @ num (btn_g t) @ '','' @ num (btn_b t) @ '','' @ num (btn_a t) @ [CHR 0x0A] @
     ''bg='' @ num (bg_r t) @ '','' @ num (bg_g t) @ '','' @ num (bg_b t) @ [CHR 0x0A]"

lemma theme_format_text:
  assumes "\<forall>i \<in> set (theme_ints t). nonneg32 i"
  shows "mini_text theme_format (theme_args t) = Some (theme_text t)"
  using assms by (simp add: theme_format_def theme_args_def theme_text_def theme_ints_def int_text_def dec_int_def nonneg32_def)

lemma NUL_notin_theme_text: "NUL \<notin> set (theme_text t)"
  using NUL_notin_dec by (simp add: theme_text_def NUL_def)

lemma strtol_num: "nonneg32 i \<Longrightarrow> \<not> is_digit c \<Longrightarrow> strtol (num i @ c # s) = Some (i, c # s)"
  by (simp add: strtol_dec wrap32_id nonneg32_def)

lemma parse3_text:
  assumes "nonneg32 a" "nonneg32 b" "nonneg32 c"
  shows "parse3 (num a @ CHR '','' # num b @ CHR '','' # num c @ CHR 0x0A # rest) = Some (a, b, c, CHR 0x0A # rest)"
  using assms by (simp add: parse3_def strtol_num skip_comma_def)

lemma parse4_text:
  assumes "nonneg32 a" "nonneg32 b" "nonneg32 c" "nonneg32 d"
  shows "parse4 (num a @ CHR '','' # num b @ CHR '','' # num c @ CHR '','' # num d @ CHR 0x0A # rest) = Some (a, b, c, d, CHR 0x0A # rest)"
  using assms by (simp add: parse4_def strtol_num skip_comma_def)

lemma theme_parse_line:
  assumes "theme_line (c # p) t = Some (t', CHR 0x0A # rest)" "c \<noteq> NUL"
  shows "theme_parse (c # p) t = theme_parse rest t'"
  using assms by (simp add: theme_parse.simps [of "c # p"] NUL_def)

lemma theme_parse_text:
  assumes nn: "\<forall>i \<in> set (theme_ints t). nonneg32 i"
  shows "theme_parse (theme_text t @ NUL # rest) u = Some (t\<lparr>round_corners := round_corners u\<rparr>)"
proof -
  define bg where "bg = ''bg='' @ num (bg_r t) @ '','' @ num (bg_g t) @ '','' @ num (bg_b t) @ [CHR 0x0A] @ NUL # rest"
  define btn where "btn = ''btn='' @ num (btn_r t) @ '','' @ num (btn_g t) @ '','' @ num (btn_b t) @ '','' @ num (btn_a t) @ [CHR 0x0A] @ bg"
  define title where "title = ''title='' @ num (title_r t) @ '','' @ num (title_g t) @ '','' @ num (title_b t) @ '','' @ num (title_a t) @ [CHR 0x0A] @ btn"
  define win where "win = ''win='' @ num (win_r t) @ '','' @ num (win_g t) @ '','' @ num (win_b t) @ '','' @ num (win_a t) @ [CHR 0x0A] @ title"
  have tt: "theme_text t @ NUL # rest = ''trans='' @ num (use_transparency t) @ [CHR 0x0A] @ win"
    by (simp add: theme_text_def win_def title_def btn_def bg_def)
  note st = starts_def schar_def NUL_def theme_line_def
  have 5: "theme_parse bg v = Some (v\<lparr>bg_r := bg_r t, bg_g := bg_g t, bg_b := bg_b t\<rparr>)" for v
    unfolding bg_def using nn
    by (simp add: theme_ints_def) (subst theme_parse_line, simp add: st parse3_text, simp_all add: NUL_def theme_parse.simps)
  have 4: "theme_parse btn v = theme_parse bg (v\<lparr>btn_r := btn_r t, btn_g := btn_g t, btn_b := btn_b t, btn_a := btn_a t\<rparr>)" for v
    unfolding btn_def using nn
    by (simp add: theme_ints_def) (subst theme_parse_line, simp add: st parse4_text, simp_all add: NUL_def)
  have 3: "theme_parse title v = theme_parse btn (v\<lparr>title_r := title_r t, title_g := title_g t, title_b := title_b t, title_a := title_a t\<rparr>)" for v
    unfolding title_def using nn
    by (simp add: theme_ints_def) (subst theme_parse_line, simp add: st parse4_text, simp_all add: NUL_def)
  have 2: "theme_parse win v = theme_parse title (v\<lparr>win_r := win_r t, win_g := win_g t, win_b := win_b t, win_a := win_a t\<rparr>)" for v
    unfolding win_def using nn
    by (simp add: theme_ints_def) (subst theme_parse_line, simp add: st parse4_text, simp_all add: NUL_def)
  have 1: "theme_parse (theme_text t @ NUL # rest) u = theme_parse win (u\<lparr>use_transparency := use_transparency t\<rparr>)"
    unfolding tt using nn
    by (simp add: theme_ints_def) (subst theme_parse_line, simp add: st strtol_num, simp_all add: NUL_def)
  show ?thesis unfolding 1 2 3 4 5 by simp
qed

lemma NUL_in_read_buffer: "NUL \<in> set (read_buffer content)"
  by (simp add: read_buffer_def Let_def)

lemma read_buffer_text:
  assumes "length content \<le> 255"
  shows "\<exists>rest. read_buffer content = content @ NUL # rest"
  using assms by (intro exI [of _ "replicate (255 - length content) NUL"])
    (simp add: read_buffer_def Let_def Suc_diff_le flip: replicate_Suc)

lemma theme_save_text:
  assumes "\<forall>i \<in> set (theme_ints t). nonneg32 i" "length (theme_text t) \<le> 255" "length buf = 256"
  shows "theme_save_to_disk buf True t = Some (Some (theme_text t))"
proof -
  have "int32_args (theme_args t)" using assms(1)
    by (auto simp: int32_args_def theme_args_def theme_ints_def nonneg32_def)
  then obtain b i where b: "mini_snprintf_loop 255 theme_format (theme_args t) buf 0 = Some (b, i)"
      "holds 255 (theme_text t) b i"
    using mini_loop_holds [of theme_format "theme_args t" "theme_text t" 255 "[]" buf 0] theme_format_text [OF assms(1)] assms(3)
    by (auto simp: holds_def)
  then show ?thesis using assms(2)
    by (auto simp: theme_save_to_disk_def mini_snprintf_def holds_def)
qed

text \<open>Loading the theme ends on every file: whatever bytes \<open>color.conf\<close> holds, the parse loop
  of \<open>theme_load_from_disk\<close> reaches the end of the buffer without reading past it.\<close>

theorem theme_load_total: "\<exists>t'. theme_load_from_disk conf t = Some t'"
proof (cases conf)
  case (Some content)
  then show ?thesis using theme_parse_total [OF NUL_in_read_buffer, of content "theme_defaults t"]
    by (auto simp: theme_load_from_disk_def)
qed (simp add: theme_load_from_disk_def)

definition demo_theme :: ui_theme_config where
  "demo_theme =
     \<lparr>win_r = 45, win_g = 45, win_b = 45, win_a = 220, title_r = 30, title_g = 30, title_b = 30, title_a = 240,
      btn_r = 60, btn_g = 60, btn_b = 60, btn_a = 255, bg_r = 0, bg_g = 42, bg_b = 54,
      use_transparency = 1, round_corners = 1\<rparr>"

text \<open>C19. Saving a theme and loading it gives the theme back, colours, opacities and the transparency
  switch alike, when the colours are numbers of an \<open>int\<close> that are not negative and the text fits the
  buffer; only the corner switch, which the file does not hold, keeps the value it had before.\<close>

theorem theme_save_load_roundtrip:
  assumes "\<forall>i \<in> set (theme_ints t). nonneg32 i" "length (theme_text t) \<le> 255" "length buf = 256"
  shows "\<exists>file. theme_save_to_disk buf True t = Some file \<and>
    theme_load_from_disk file u = Some (t\<lparr>round_corners := round_corners u\<rparr>, bg_r t, bg_g t, bg_b t)"
proof -
  obtain rest where "read_buffer (theme_text t) = theme_text t @ NUL # rest"
    using read_buffer_text [OF assms(2)] by blast
  then show ?thesis
    by (simp add: theme_save_text [OF assms] theme_load_from_disk_def theme_parse_text [OF assms(1)] theme_defaults_def)
qed

theorem theme_save_load_roundtrip_witness:
  "\<exists>file. theme_save_to_disk (replicate 256 NUL) True demo_theme = Some file \<and>
     theme_load_from_disk file demo_theme = Some (demo_theme, 0, 42, 54)"
proof -
  have "\<forall>i \<in> set (theme_ints demo_theme). nonneg32 i"
    by (simp add: demo_theme_def theme_ints_def nonneg32_def)
  moreover have "length (theme_text demo_theme) \<le> 255"
    by (simp add: demo_theme_def theme_text_def dec.simps)
  moreover have "length (replicate 256 NUL) = 256" by simp
  ultimately show ?thesis
    using theme_save_load_roundtrip [of demo_theme "replicate 256 NUL" demo_theme] by (auto simp: demo_theme_def)
qed

end
