(* ===== verification/Font.thy ===== *)
theory Font
  imports Framebuffer
begin

text \<open>
  The 8x8 bitmap font of \<open>src/font.h\<close> and its character routine.  The table lists the rows of
  the designated initialisers in the order of the source; every other glyph is zero, as C leaves it.
\<close>

definition font_rows :: "(nat \<times> u8 list) list" where
  "font_rows =
     [
      (32, [0x00, 0x00, 0x00, 0x00, 0x00, 0x00, 0x00, 0x00]),
      (33, [0x08, 0x08, 0x08, 0x08, 0x08, 0x00, 0x08, 0x00]),
      (34, [0x24, 0x24, 0x24, 0x00, 0x00, 0x00, 0x00, 0x00]),
      (35, [0x24, 0x24, 0x7E, 0x24, 0x7E, 0x24, 0x24, 0x00]),
      (36, [0x08, 0x3E, 0x48, 0x3C, 0x0A, 0x3E, 0x08, 0x00]),
      (37, [0x42, 0x46, 0x08, 0x10, 0x20, 0x62, 0x42, 0x00]),
      (38, [0x1C, 0x22, 0x24, 0x18, 0x2A, 0x24, 0x1A, 0x00]),
      (39, [0x08, 0x08, 0x10, 0x00, 0x00, 0x00, 0x00, 0x00]),
      (40, [0x0C, 0x10, 0x20, 0x20, 0x20, 0x10, 0x0C, 0x00]),
      (41, [0x30, 0x08, 0x04, 0x04, 0x04, 0x08, 0x30, 0x00]),
      (42, [0x00, 0x14, 0x08, 0x3E, 0x08, 0x14, 0x00, 0x00]),
      (43, [0x00, 0x08, 0x08, 0x3E, 0x08, 0x08, 0x00, 0x00]),
      (44, [0x00, 0x00, 0x00, 0x00, 0x00, 0x0C, 0x04, 0x08]),
      (45, [0x00, 0x00, 0x00, 0x3E, 0x00, 0x00, 0x00, 0x00]),
      (46, [0x00, 0x00, 0x00, 0x00, 0x00, 0x0C, 0x0C, 0x00]),
      (47, [0x00, 0x02, 0x04, 0x08, 0x10, 0x20, 0x40, 0x00]),
      (48, [0x1C, 0x22, 0x26, 0x2A, 0x32, 0x22, 0x1C, 0x00]),
      (49, [0x08, 0x18, 0x08, 0x08, 0x08, 0x08, 0x1C, 0x00]),
      (50, [0x1C, 0x22, 0x02, 0x0C, 0x10, 0x20, 0x3E, 0x00]),
      (51, [0x3E, 0x02, 0x04, 0x0E, 0x04, 0x22, 0x1C, 0x00]),
      (52, [0x04, 0x0C, 0x14, 0x24, 0x3E, 0x04, 0x04, 0x00]),
      (53, [0x3E, 0x20, 0x3C, 0x02, 0x02, 0x22, 0x1C, 0x00]),
      (54, [0x1C, 0x20, 0x3C, 0x22, 0x22, 0x22, 0x1C, 0x00]),
      (55, [0x3E, 0x02, 0x04, 0x08, 0x10, 0x10, 0x10, 0x00]),
      (56, [0x1C, 0x22, 0x22, 0x1C, 0x22, 0x22, 0x1C, 0x00]),
      (57, [0x1C, 0x22, 0x22, 0x1E, 0x02, 0x02, 0x1C, 0x00]),
      (58, [0x00, 0x0C, 0x0C, 0x00, 0x0C, 0x0C, 0x00, 0x00]),
      (59, [0x00, 0x0C, 0x0C, 0x00, 0x0C, 0x04, 0x08, 0x00]),
      (60, [0x04, 0x08, 0x10, 0x20, 0x10, 0x08, 0x04, 0x00]),
      (61, [0x00, 0x00, 0x3E, 0x00, 0x3E, 0x00, 0x00, 0x00]),
      (62, [0x20, 0x10, 0x08, 0x04, 0x08, 0x10, 0x20, 0x00]),
      (63, [0x1C, 0x22, 0x02, 0x04, 0x08, 0x00, 0x08, 0x00]),
      (64, [0x1C, 0x22, 0x4A, 0x56, 0x4E, 0x20, 0x1C, 0x00]),
      (65, [0x10, 0x28, 0x44, 0x44, 0x7C, 0x44, 0x44, 0x00]),
      (66, [0x38, 0x24, 0x24, 0x38, 0x24, 0x24, 0x38, 0x00]),
      (67, [0x18, 0x24, 0x40, 0x40, 0x40, 0x24, 0x18, 0x00]),
      (68, [0x38, 0x24, 0x24, 0x24, 0x24, 0x24, 0x38, 0x00]),
      (69, [0x7C, 0x40, 0x40, 0x78, 0x40, 0x40, 0x7C, 0x00]),
      (70, [0x7C, 0x40, 0x40, 0x78, 0x40, 0x40, 0x40, 0x00]),
      (71, [0x18, 0x24, 0x40, 0x4E, 0x44, 0x24, 0x18, 0x00]),
      (72, [0x44, 0x44, 0x44, 0x7C, 0x44, 0x44, 0x44, 0x00]),
      (73, [0x3E, 0x08, 0x08, 0x08, 0x08, 0x08, 0x3E, 0x00]),
      (74, [0x1F, 0x02, 0x02, 0x02, 0x02, 0x22, 0x1C, 0x00]),
      (75, [0x44, 0x4C, 0x50, 0x60, 0x50, 0x4C, 0x44, 0x00]),
      (76, [0x40, 0x40, 0x40, 0x40, 0x40, 0x40, 0x7C, 0x00]),
      (77, [0x44, 0x6C, 0x54, 0x54, 0x44, 0x44, 0x44, 0x00]),
      (78, [0x44, 0x64, 0x54, 0x4C, 0x44, 0x44, 0x44, 0x00]),
      (79, [0x38, 0x44, 0x44, 0x44, 0x44, 0x44, 0x38, 0x00]),
      (80, [0x38, 0x24, 0x24, 0x38, 0x40, 0x40, 0x40, 0x00]),
      (81, [0x38, 0x44, 0x44, 0x44, 0x4C, 0x42, 0x3D, 0x00]),
      (82, [0x38, 0x24, 0x24, 0x38, 0x30, 0x28, 0x44, 0x00]),
      (83, [0x1C, 0x22, 0x30, 0x1C, 0x02, 0x22, 0x1C, 0x00]),
      (84, [0x7E, 0x08, 0x08, 0x08, 0x08, 0x08, 0x08, 0x00]),
      (85, [0x44, 0x44, 0x44, 0x44, 0x44, 0x44, 0x38, 0x00]),
      (86, [0x44, 0x44, 0x44, 0x44, 0x28, 0x10, 0x10, 0x00]),
      (87, [0x44, 0x44, 0x44, 0x54, 0x54, 0x6C, 0x44, 0x00]),
      (88, [0x44, 0x44, 0x28, 0x10, 0x28, 0x44, 0x44, 0x00]),
      (89, [0x44, 0x44, 0x28, 0x10, 0x10, 0x10, 0x10, 0x00]),
      (90, [0x7E, 0x02, 0x04, 0x08, 0x10, 0x20, 0x7E, 0x00]),
      (91, [0x3C, 0x20, 0x20, 0x20, 0x20, 0x20, 0x3C, 0x00]),
      (92, [0x00, 0x40, 0x20, 0x10, 0x08, 0x04, 0x02, 0x00]),
      (93, [0x3C, 0x04, 0x04, 0x04, 0x04, 0x04, 0x3C, 0x00]),
      (94, [0x08, 0x14, 0x22, 0x00, 0x00, 0x00, 0x00, 0x00]),
      (95, [0x00, 0x00, 0x00, 0x00, 0x00, 0x00, 0x7E, 0x00]),
      (96, [0x10, 0x08, 0x04, 0x00, 0x00, 0x00, 0x00, 0x00]),
      (97, [0x00, 0x00, 0x3C, 0x02, 0x3E, 0x42, 0x3E, 0x00]),
      (98, [0x40, 0x40, 0x5C, 0x62, 0x42, 0x62, 0x5C, 0x00]),
      (99, [0x00, 0x00, 0x3C, 0x40, 0x40, 0x42, 0x3C, 0x00]),
      (100, [0x02, 0x02, 0x3A, 0x46, 0x42, 0x46, 0x3A, 0x00]),
      (101, [0x00, 0x00, 0x3C, 0x42, 0x7E, 0x40, 0x3C, 0x00]),
      (102, [0x1C, 0x22, 0x20, 0x78, 0x20, 0x20, 0x20, 0x00]),
      (103, [0x00, 0x00, 0x3A, 0x46, 0x3A, 0x02, 0x3C, 0x40]),
      (104, [0x40, 0x40, 0x5C, 0x62, 0x42, 0x42, 0x42, 0x00]),
      (105, [0x08, 0x00, 0x18, 0x08, 0x08, 0x08, 0x1C, 0x00]),
      (106, [0x04, 0x00, 0x0C, 0x04, 0x04, 0x04, 0x24, 0x18]),
      (107, [0x40, 0x40, 0x44, 0x48, 0x70, 0x48, 0x44, 0x00]),
      (108, [0x18, 0x08, 0x08, 0x08, 0x08, 0x08, 0x1C, 0x00]),
      (109, [0x00, 0x00, 0x6C, 0x54, 0x54, 0x44, 0x44, 0x00]),
      (110, [0x00, 0x00, 0x5C, 0x62, 0x42, 0x42, 0x42, 0x00]),
      (111, [0x00, 0x00, 0x3C, 0x42, 0x42, 0x42, 0x3C, 0x00]),
      (112, [0x00, 0x00, 0x5C, 0x62, 0x42, 0x62, 0x5C, 0x40]),
      (113, [0x00, 0x00, 0x3A, 0x46, 0x42, 0x46, 0x3A, 0x02]),
      (114, [0x00, 0x00, 0x5C, 0x62, 0x40, 0x40, 0x40, 0x00]),
      (115, [0x00, 0x00, 0x3E, 0x40, 0x3C, 0x02, 0x7C, 0x00]),
      (116, [0x08, 0x08, 0x3E, 0x08, 0x08, 0x0A, 0x04, 0x00]),
      (117, [0x00, 0x00, 0x42, 0x42, 0x42, 0x46, 0x3A, 0x00]),
      (118, [0x00, 0x00, 0x42, 0x42, 0x24, 0x24, 0x10, 0x00]),
      (119, [0x00, 0x00, 0x44, 0x44, 0x54, 0x54, 0x28, 0x00]),
      (120, [0x00, 0x00, 0x42, 0x24, 0x10, 0x24, 0x42, 0x00]),
      (121, [0x00, 0x00, 0x42, 0x42, 0x3E, 0x02, 0x3C, 0x40]),
      (122, [0x00, 0x00, 0x7E, 0x08, 0x10, 0x20, 0x7E, 0x00]),
      (123, [0x0C, 0x10, 0x10, 0x20, 0x10, 0x10, 0x0C, 0x00]),
      (124, [0x08, 0x08, 0x08, 0x08, 0x08, 0x08, 0x08, 0x00]),
      (125, [0x30, 0x08, 0x08, 0x04, 0x08, 0x08, 0x30, 0x00]),
      (126, [0x32, 0x4C, 0x00, 0x00, 0x00, 0x00, 0x00, 0x00])]"

definition font_bitmap :: "nat \<Rightarrow> u8 list" where
  "font_bitmap c = (case map_of font_rows c of None \<Rightarrow> replicate 8 0 | Some rows \<Rightarrow> rows)"

text \<open>The bit test \<open>row_data & (0x80 >> col)\<close>.\<close>

definition glyph_bit :: "char \<Rightarrow> int \<Rightarrow> int \<Rightarrow> bool" where
  "glyph_bit c row col \<longleftrightarrow> font_bitmap (of_char c) ! nat row AND drop_bit (nat col) 0x80 \<noteq> 0"

definition draw_char :: "pixmap \<Rightarrow> int \<Rightarrow> int \<Rightarrow> char \<Rightarrow> u32 \<Rightarrow> u32 \<Rightarrow> pixmap" where
  "draw_char fb x y c color pitch =
     (if (of_char c :: nat) > 127 then fb
      else for_int 0 8 (\<lambda>row. for_int 0 8 (\<lambda>col fb.
        if glyph_bit c row col then putpixel fb (x + col) (y + row) color pitch else fb)) fb)"

text \<open>Every glyph has eight rows, so the row index of the drawing loops is in range.\<close>

lemma length_font_bitmap: "length (font_bitmap c) = 8"
proof -
  have "\<forall>(k, rows) \<in> set font_rows. length rows = 8" by (simp add: font_rows_def)
  then show ?thesis by (auto simp: font_bitmap_def split: option.split dest: map_of_SomeD)
qed

end
