(* ===== verification/Gui.thy ===== *)
theory Gui
  imports Complex_Main Memory_Manager Theme Font
begin

text \<open>
  The drawing backend of the user interface (\<open>src/gui.c\<close>): alpha blending, plain and rounded
  rectangles, and the renderer of the command list Nuklear produces.  The command list is Nuklear's
  and therefore an argument.  The line command steps in floating point: every operation is the
  exact rational one followed by a rounding \<open>rnd\<close>, an argument as well, so what is proved holds for
  every precision the compiler chooses.
\<close>

section \<open>Allocation hooks\<close>

definition os_font_get_text_width :: "int \<Rightarrow> int" where
  "os_font_get_text_width len = len * 8"

definition nk_kmalloc_hook :: "u32 \<Rightarrow> mm_state \<Rightarrow> kmalloc_result option" where
  "nk_kmalloc_hook sz = kmalloc sz"

definition nk_kfree_hook :: "u32 \<Rightarrow> mm_state \<Rightarrow> mm_state option" where
  "nk_kfree_hook ptr = kfree ptr"

record nk_user_font =
  font_userdata :: u32
  font_height :: int
  font_width :: "int \<Rightarrow> int"

record nk_allocator =
  alloc_userdata :: u32
  alloc_alloc :: "u32 \<Rightarrow> mm_state \<Rightarrow> kmalloc_result option"
  alloc_free :: "u32 \<Rightarrow> mm_state \<Rightarrow> mm_state option"

text \<open>\<open>nk_init\<close> is Nuklear's; when it fails the kernel stops for good (\<^const>\<open>None\<close>).\<close>

definition init_nk_backend ::
  "('ctx \<Rightarrow> nk_allocator \<Rightarrow> nk_user_font \<Rightarrow> 'ctx option) \<Rightarrow> 'ctx \<Rightarrow> ('ctx \<times> nk_user_font) option" where
  "init_nk_backend nk_init ctx = do {
     let font = \<lparr>font_userdata = 0, font_height = 8, font_width = os_font_get_text_width\<rparr>;
     let alloc = \<lparr>alloc_userdata = 0, alloc_alloc = nk_kmalloc_hook, alloc_free = nk_kfree_hook\<rparr>;
     ctx \<leftarrow> nk_init ctx alloc font;
     Some (ctx, font)
   }"

section \<open>Clipping and blending\<close>

record scissor =
  scissor_x :: int
  scissor_y :: int
  scissor_w :: int
  scissor_h :: int

definition in_scissor :: "scissor \<Rightarrow> int \<Rightarrow> int \<Rightarrow> bool" where
  "in_scissor sc x y \<longleftrightarrow> x \<ge> scissor_x sc \<and> x < scissor_x sc + scissor_w sc \<and>
     y \<ge> scissor_y sc \<and> y < scissor_y sc + scissor_h sc"

definition pack_rgb :: "u8 \<Rightarrow> u8 \<Rightarrow> u8 \<Rightarrow> u32" where
  "pack_rgb r g b = push_bit 16 (ucast r) OR push_bit 8 (ucast g) OR ucast b"

definition chan_r :: "u32 \<Rightarrow> u8" where "chan_r p = ucast (drop_bit 16 p AND 0xFF)"
definition chan_g :: "u32 \<Rightarrow> u8" where "chan_g p = ucast (drop_bit 8 p AND 0xFF)"
definition chan_b :: "u32 \<Rightarrow> u8" where "chan_b p = ucast (p AND 0xFF)"
definition chan_a :: "u32 \<Rightarrow> u8" where "chan_a p = ucast (drop_bit 24 p AND 0xFF)"

text \<open>One channel: \<open>(uint8_t)(((c * a) + (bg * (255 - a))) / 255)\<close>.\<close>

definition blend :: "u8 \<Rightarrow> u8 \<Rightarrow> u8 \<Rightarrow> u8" where
  "blend c bg a = of_int ((uint c * uint a + uint bg * (255 - uint a)) div 255)"

definition blend_rgb :: "nk_color \<Rightarrow> u32 \<Rightarrow> u32" where
  "blend_rgb c bg = pack_rgb (blend (nk_r c) (chan_r bg) (nk_a c)) (blend (nk_g c) (chan_g bg) (nk_a c))
     (blend (nk_b c) (chan_b bg) (nk_a c))"

text \<open>The cell \<open>target_fb[y * gfx_width + x]\<close>.\<close>

definition pixel_index :: "gfx \<Rightarrow> int \<Rightarrow> int \<Rightarrow> u32" where
  "pixel_index g x y = 4 * (of_int y * gfx_width g + of_int x)"

definition paint :: "gfx \<Rightarrow> nk_color \<Rightarrow> u32 \<Rightarrow> int \<Rightarrow> int \<Rightarrow> pixmap \<Rightarrow> pixmap" where
  "paint g c opaque_color x y fb =
     (if nk_a c = 255 then putpixel fb x y opaque_color (gfx_width g * 4)
      else if nk_a c > 0 then putpixel fb x y (blend_rgb c (fb (pixel_index g x y))) (gfx_width g * 4)
      else fb)"

section \<open>Rectangles\<close>

definition idt_draw_rect_target ::
  "gfx \<Rightarrow> scissor \<Rightarrow> int \<Rightarrow> int \<Rightarrow> int \<Rightarrow> int \<Rightarrow> nk_color \<Rightarrow> pixmap \<Rightarrow> pixmap" where
  "idt_draw_rect_target g sc x y w h c =
     for_int y (y + h) (\<lambda>curr_y. for_int x (x + w) (\<lambda>curr_x fb.
       if in_scissor sc curr_x curr_y then
         if on_screen g curr_x curr_y then paint g c (pack_rgb (nk_r c) (nk_g c) (nk_b c)) curr_x curr_y fb
         else fb
       else fb))"

definition ROUND_TOP_LEFT :: u8 where "ROUND_TOP_LEFT = push_bit 0 1"
definition ROUND_TOP_RIGHT :: u8 where "ROUND_TOP_RIGHT = push_bit 1 1"
definition ROUND_BOTTOM_LEFT :: u8 where "ROUND_BOTTOM_LEFT = push_bit 2 1"
definition ROUND_BOTTOM_RIGHT :: u8 where "ROUND_BOTTOM_RIGHT = push_bit 3 1"
definition ROUND_ALL_CORNERS :: u8 where
  "ROUND_ALL_CORNERS = ROUND_TOP_LEFT OR ROUND_TOP_RIGHT OR ROUND_BOTTOM_LEFT OR ROUND_BOTTOM_RIGHT"

text \<open>The centre of the corner a point lies in, if any.\<close>

definition corner_centre ::
  "int \<Rightarrow> int \<Rightarrow> int \<Rightarrow> int \<Rightarrow> int \<Rightarrow> u8 \<Rightarrow> int \<Rightarrow> int \<Rightarrow> (int \<times> int) option" where
  "corner_centre x y w h rounding corner_flags curr_x curr_y =
     (if corner_flags AND ROUND_TOP_LEFT \<noteq> 0 \<and> curr_x < x + rounding \<and> curr_y < y + rounding
      then Some (x + rounding, y + rounding)
      else if corner_flags AND ROUND_TOP_RIGHT \<noteq> 0 \<and> curr_x \<ge> x + w - rounding \<and> curr_y < y + rounding
      then Some (x + w - rounding - 1, y + rounding)
      else if corner_flags AND ROUND_BOTTOM_LEFT \<noteq> 0 \<and> curr_x < x + rounding \<and> curr_y \<ge> y + h - rounding
      then Some (x + rounding, y + h - rounding - 1)
      else if corner_flags AND ROUND_BOTTOM_RIGHT \<noteq> 0 \<and> curr_x \<ge> x + w - rounding \<and> curr_y \<ge> y + h - rounding
      then Some (x + w - rounding - 1, y + h - rounding - 1)
      else None)"

text \<open>The three \<open>continue\<close> branches.\<close>

definition skip_point ::
  "int \<Rightarrow> int \<Rightarrow> int \<Rightarrow> int \<Rightarrow> int \<Rightarrow> bool \<Rightarrow> u8 \<Rightarrow> int \<Rightarrow> int \<Rightarrow> bool" where
  "skip_point x y w h rounding filled corner_flags curr_x curr_y =
     (case corner_centre x y w h rounding corner_flags curr_x curr_y of
        Some (cx, cy) \<Rightarrow>
          let dx = curr_x - cx; dy = curr_y - cy; dist_sq = dx * dx + dy * dy; r_sq = rounding * rounding
          in if filled then dist_sq > r_sq
             else let inner_r = rounding - 1 in dist_sq > r_sq \<or> dist_sq < inner_r * inner_r
      | None \<Rightarrow>
          \<not> filled \<and> curr_x > x \<and> curr_x < x + w - 1 \<and> curr_y > y \<and> curr_y < y + h - 1)"

definition idt_draw_rect_rounded_target ::
  "gfx \<Rightarrow> scissor \<Rightarrow> int \<Rightarrow> int \<Rightarrow> int \<Rightarrow> int \<Rightarrow> int \<Rightarrow> nk_color \<Rightarrow> bool \<Rightarrow> u8 \<Rightarrow> pixmap \<Rightarrow> pixmap" where
  "idt_draw_rect_rounded_target g sc x y w h rounding c filled corner_flags =
     for_int y (y + h) (\<lambda>curr_y. for_int x (x + w) (\<lambda>curr_x fb.
       if in_scissor sc curr_x curr_y then
         if on_screen g curr_x curr_y then
           if skip_point x y w h rounding filled corner_flags curr_x curr_y then fb
           else paint g c (pack_rgb (nk_r c) (nk_g c) (nk_b c)) curr_x curr_y fb
         else fb
       else fb))"

section \<open>The command renderer\<close>

text \<open>Coordinates are the values of the 16-bit fields of Nuklear's commands.  The pixels behind an
  image handle are given by index; a null handle is \<^const>\<open>None\<close>.\<close>

datatype nk_command =
    NK_COMMAND_RECT int int int int int nk_color
  | NK_COMMAND_LINE int int int int nk_color
  | NK_COMMAND_SCISSOR int int int int
  | NK_COMMAND_RECT_FILLED int int int int int nk_color
  | NK_COMMAND_TEXT int int string nk_color
  | NK_COMMAND_IMAGE int int int int "(int \<Rightarrow> u32) option"
  | NK_COMMAND_OTHER

definition truncate_rat :: "rat \<Rightarrow> int" where
  "truncate_rat q = (if q < 0 then - \<lfloor>- q\<rfloor> else \<lfloor>q\<rfloor>)"

primrec line_steps ::
  "(rat \<Rightarrow> rat) \<Rightarrow> gfx \<Rightarrow> scissor \<Rightarrow> nk_color \<Rightarrow> rat \<Rightarrow> rat \<Rightarrow> nat \<Rightarrow> rat \<Rightarrow> rat \<Rightarrow> pixmap \<Rightarrow> pixmap" where
  "line_steps rnd g sc c x_inc y_inc 0 current_x current_y fb = fb"
| "line_steps rnd g sc c x_inc y_inc (Suc n) current_x current_y fb =
     (let fb = idt_draw_rect_target g sc (truncate_rat current_x) (truncate_rat current_y) 1 1 c fb
      in line_steps rnd g sc c x_inc y_inc n (rnd (current_x + x_inc)) (rnd (current_y + y_inc)) fb)"

definition draw_line ::
  "(rat \<Rightarrow> rat) \<Rightarrow> gfx \<Rightarrow> scissor \<Rightarrow> int \<Rightarrow> int \<Rightarrow> int \<Rightarrow> int \<Rightarrow> nk_color \<Rightarrow> pixmap \<Rightarrow> pixmap" where
  "draw_line rnd g sc begin_x begin_y end_x end_y c fb =
     (let dx = end_x - begin_x; dy = end_y - begin_y;
          abs_dx = (if dx < 0 then - dx else dx); abs_dy = (if dy < 0 then - dy else dy);
          steps = (if abs_dx > abs_dy then abs_dx else abs_dy)
      in if steps = 0 then idt_draw_rect_target g sc begin_x begin_y 1 1 c fb
         else line_steps rnd g sc c (rnd (of_int dx / of_int steps)) (rnd (of_int dy / of_int steps))
                (nat (steps + 1)) (of_int begin_x) (of_int begin_y) fb)"

definition draw_glyph :: "gfx \<Rightarrow> scissor \<Rightarrow> nk_color \<Rightarrow> int \<Rightarrow> int \<Rightarrow> char \<Rightarrow> pixmap \<Rightarrow> pixmap" where
  "draw_glyph g sc c char_x char_y ch =
     for_int 0 8 (\<lambda>row. for_int 0 8 (\<lambda>col fb.
       let pixel_x = char_x + col; pixel_y = char_y + row in
       if in_scissor sc pixel_x pixel_y then
         if (of_char ch :: nat) \<le> 127 then
           if glyph_bit ch row col then idt_draw_rect_target g sc pixel_x pixel_y 1 1 c fb else fb
         else fb
       else fb))"

primrec draw_text :: "gfx \<Rightarrow> scissor \<Rightarrow> nk_color \<Rightarrow> int \<Rightarrow> int \<Rightarrow> string \<Rightarrow> pixmap \<Rightarrow> pixmap" where
  "draw_text g sc c x y [] fb = fb"
| "draw_text g sc c x y (ch # s) fb = draw_text g sc c (x + 8) y s (draw_glyph g sc c x y ch fb)"

definition pixel_color :: "u32 \<Rightarrow> nk_color" where
  "pixel_color p = \<lparr>nk_r = chan_r p, nk_g = chan_g p, nk_b = chan_b p, nk_a = chan_a p\<rparr>"

definition draw_image ::
  "gfx \<Rightarrow> scissor \<Rightarrow> int \<Rightarrow> int \<Rightarrow> int \<Rightarrow> int \<Rightarrow> (int \<Rightarrow> u32) \<Rightarrow> pixmap \<Rightarrow> pixmap" where
  "draw_image g sc start_x start_y img_w img_h source_pixels =
     for_int 0 img_h (\<lambda>y_offset. for_int 0 img_w (\<lambda>x_offset fb.
       let pixel_x = start_x + x_offset; pixel_y = start_y + y_offset in
       if in_scissor sc pixel_x pixel_y then
         if on_screen g pixel_x pixel_y then
           let raw_pixel = source_pixels (y_offset * img_w + x_offset)
           in paint g (pixel_color raw_pixel) (raw_pixel AND 0x00FFFFFF) pixel_x pixel_y fb
         else fb
       else fb))"

fun render_command :: "(rat \<Rightarrow> rat) \<Rightarrow> gfx \<Rightarrow> nk_color \<Rightarrow> nk_command \<Rightarrow> scissor \<times> pixmap \<Rightarrow> scissor \<times> pixmap" where
  "render_command rnd g header (NK_COMMAND_RECT x y w h rounding c) (sc, fb) =
     (if rounding > 0 then
        let flags = (if h < 35 then ROUND_TOP_LEFT OR ROUND_TOP_RIGHT else ROUND_ALL_CORNERS)
        in (sc, idt_draw_rect_rounded_target g sc x y w h rounding c False flags fb)
      else
        (sc, idt_draw_rect_target g sc (x + w - 1) y 1 h c
               (idt_draw_rect_target g sc x y 1 h c
               (idt_draw_rect_target g sc x (y + h - 1) w 1 c
               (idt_draw_rect_target g sc x y w 1 c fb)))))"
| "render_command rnd g header (NK_COMMAND_LINE begin_x begin_y end_x end_y c) (sc, fb) =
     (sc, draw_line rnd g sc begin_x begin_y end_x end_y c fb)"
| "render_command rnd g header (NK_COMMAND_SCISSOR x y w h) (sc, fb) =
     (\<lparr>scissor_x = x, scissor_y = y, scissor_w = w, scissor_h = h\<rparr>, fb)"
| "render_command rnd g header (NK_COMMAND_RECT_FILLED x y w h rounding c) (sc, fb) =
     (if rounding > 0 then
        let flags = (if h < 35 \<and> nk_r c = nk_r header \<and> nk_g c = nk_g header
                     then ROUND_TOP_LEFT OR ROUND_TOP_RIGHT else ROUND_ALL_CORNERS)
        in (sc, idt_draw_rect_rounded_target g sc x y w h rounding c True flags fb)
      else (sc, idt_draw_rect_target g sc x y w h c fb))"
| "render_command rnd g header (NK_COMMAND_TEXT x y s c) (sc, fb) = (sc, draw_text g sc c x y s fb)"
| "render_command rnd g header (NK_COMMAND_IMAGE x y w h None) (sc, fb) = (sc, fb)"
| "render_command rnd g header (NK_COMMAND_IMAGE x y w h (Some pixels)) (sc, fb) =
     (sc, draw_image g sc x y w h pixels fb)"
| "render_command rnd g header NK_COMMAND_OTHER (sc, fb) = (sc, fb)"

definition nk_os_render_target ::
  "(rat \<Rightarrow> rat) \<Rightarrow> gfx \<Rightarrow> nk_color \<Rightarrow> nk_command list \<Rightarrow> pixmap \<Rightarrow> scissor \<times> pixmap" where
  "nk_os_render_target rnd g header cmds fb =
     fold (render_command rnd g header) cmds
       (\<lparr>scissor_x = 0, scissor_y = 0, scissor_w = sint (gfx_width g), scissor_h = sint (gfx_height g)\<rparr>, fb)"

section \<open>Single pixels\<close>

definition mix :: "nk_color \<Rightarrow> u32 \<Rightarrow> u32 \<Rightarrow> u32" where
  "mix c opaque_color p = (if nk_a c = 255 then opaque_color else if nk_a c > 0 then blend_rgb c p else p)"

lemma pixel_index_address: "pixel_index g x y = pixel_address x y (gfx_width g * 4)"
  by (simp add: pixel_index_def pixel_address_def algebra_simps)

lemma paint_eq: "paint g c opq x y fb = fb(pixel_address x y (gfx_width g * 4) := mix c opq (fb (pixel_address x y (gfx_width g * 4))))"
  by (simp add: paint_def mix_def putpixel_def pixel_index_address)

lemma u8_high_bit: "8 \<le> m \<Longrightarrow> \<not> bit (x :: u8) (m + n)"
  using bit_imp_le_length [of x "m + n"] by auto

lemma chan_pack [simp]: "chan_r (pack_rgb r g b) = r" "chan_g (pack_rgb r g b) = g" "chan_b (pack_rgb r g b) = b"
  by (auto simp: chan_r_def chan_g_def chan_b_def pack_rgb_def word_norm intro!: bit_word_eqI
      simp: bit_simps u8_high_bit)

lemma uint_lt_u8: "uint (x :: u8) < 256"
proof -
  have "uint x < 2 ^ LENGTH(8)" by (rule unsigned_less)
  then show ?thesis by simp
qed

text \<open>\<open>between a b v\<close>: a channel value \<open>v\<close> on the way from \<open>b\<close> to \<open>a\<close>.\<close>

definition between :: "u8 \<Rightarrow> u8 \<Rightarrow> u8 \<Rightarrow> bool" where
  "between a b v \<longleftrightarrow> min (uint a) (uint b) \<le> uint v \<and> uint v \<le> max (uint a) (uint b)"

lemma between_trans: "between a v v' \<Longrightarrow> between a b v \<Longrightarrow> between a b v'"
  unfolding between_def by linarith

lemma between_refl [simp]: "between a b b" "between a b a"
  by (simp_all add: between_def)

text \<open>The rounded-down average of two channels lies between them, so the conversion to eight bits
  loses nothing.\<close>

lemma blend_between: "between c bg (blend c bg a)"
proof -
  let ?c = "uint c" and ?b = "uint bg" and ?a = "uint a"
  have a: "0 \<le> ?a" "?a \<le> 255" using uint_lt_u8 [of a] by simp_all
  have c: "0 \<le> ?c" "?c \<le> 255" "0 \<le> ?b" "?b \<le> 255" using uint_lt_u8 [of c] uint_lt_u8 [of bg] by simp_all
  define v where "v = (?c * ?a + ?b * (255 - ?a)) div 255"
  have "min ?c ?b * ?a + min ?c ?b * (255 - ?a) \<le> ?c * ?a + ?b * (255 - ?a)"
    using a by (intro add_mono mult_right_mono) auto
  then have "min ?c ?b * 255 \<le> ?c * ?a + ?b * (255 - ?a)" by (simp add: algebra_simps)
  then have lo: "min ?c ?b \<le> v" unfolding v_def using zdiv_mono1 [of "min ?c ?b * 255" "?c * ?a + ?b * (255 - ?a)" 255] by simp
  have "?c * ?a + ?b * (255 - ?a) \<le> max ?c ?b * ?a + max ?c ?b * (255 - ?a)"
    using a by (intro add_mono mult_right_mono) auto
  then have "?c * ?a + ?b * (255 - ?a) \<le> max ?c ?b * 255" by (simp add: algebra_simps)
  then have hi: "v \<le> max ?c ?b" unfolding v_def using zdiv_mono1 [of "?c * ?a + ?b * (255 - ?a)" "max ?c ?b * 255" 255] by simp
  have "uint (blend c bg a) = v" unfolding blend_def v_def [symmetric]
    using lo hi c by (simp add: uint_word_of_int_eq) (rule take_bit_int_eq_self, use lo hi c in linarith, use lo hi c in simp)
  then show ?thesis using lo hi by (simp add: between_def)
qed

lemma chan_mix:
  "between (nk_r c) (chan_r p) (chan_r (mix c (pack_rgb (nk_r c) (nk_g c) (nk_b c)) p))"
  "between (nk_g c) (chan_g p) (chan_g (mix c (pack_rgb (nk_r c) (nk_g c) (nk_b c)) p))"
  "between (nk_b c) (chan_b p) (chan_b (mix c (pack_rgb (nk_r c) (nk_g c) (nk_b c)) p))"
  by (simp_all add: mix_def blend_rgb_def blend_between)

section \<open>What a drawing operation may change\<close>

text \<open>\<open>only S f\<close>: \<open>f\<close> writes no cell outside \<open>S\<close>.\<close>

definition only :: "u32 set \<Rightarrow> (pixmap \<Rightarrow> pixmap) \<Rightarrow> bool" where
  "only S f \<longleftrightarrow> (\<forall>fb p. p \<notin> S \<longrightarrow> f fb p = fb p)"

definition cells :: "gfx \<Rightarrow> scissor \<Rightarrow> u32 set" where
  "cells g sc = {pixel_address x y (gfx_width g * 4) | x y. in_scissor sc x y \<and> on_screen g x y}"

definition screen_cells :: "gfx \<Rightarrow> u32 set" where
  "screen_cells g = {pixel_address x y (gfx_width g * 4) | x y. on_screen g x y}"

lemma only_id: "only S (\<lambda>fb. fb)"
  by (simp add: only_def)

lemma only_comp: "only S f \<Longrightarrow> only S f' \<Longrightarrow> only S (\<lambda>fb. f' (f fb))"
  by (simp add: only_def)

lemma only_mono: "only S f \<Longrightarrow> S \<subseteq> T \<Longrightarrow> only T f"
  by (auto simp: only_def)

lemma only_for_int: "(\<And>i. only S (body i)) \<Longrightarrow> only S (for_int lo hi body)"
  unfolding only_def
  by (intro allI impI, rule for_int_invariant [where P = "\<lambda>fb'. fb' p = fb p" for p fb]) auto

lemma only_if: "(b \<Longrightarrow> only S f) \<Longrightarrow> (\<not> b \<Longrightarrow> only S f') \<Longrightarrow> only S (\<lambda>fb. if b then f fb else f' fb)"
  by (cases b) auto

lemma only_paint: "in_scissor sc x y \<Longrightarrow> on_screen g x y \<Longrightarrow> only (cells g sc) (paint g c opq x y)"
  by (auto simp: only_def cells_def paint_eq)

lemma only_rect: "only (cells g sc) (idt_draw_rect_target g sc x y w h c)"
  unfolding idt_draw_rect_target_def by (intro only_for_int only_if only_id only_paint)

lemma only_rounded: "only (cells g sc) (idt_draw_rect_rounded_target g sc x y w h rounding c filled flags)"
  unfolding idt_draw_rect_rounded_target_def by (intro only_for_int only_if only_id only_paint)

lemma only_line_steps: "only (cells g sc) (line_steps rnd g sc c x_inc y_inc n current_x current_y)"
proof (induction n arbitrary: current_x current_y)
  case (Suc n)
  show ?case unfolding line_steps.simps Let_def by (rule only_comp [OF only_rect Suc])
qed (simp add: only_def)

lemma only_line: "only (cells g sc) (draw_line rnd g sc bx by' ex ey c)"
  unfolding draw_line_def Let_def by (intro only_if only_rect only_line_steps)

lemma only_text: "only (cells g sc) (draw_text g sc c x y s)"
proof (induction s arbitrary: x)
  case (Cons ch s)
  have "only (cells g sc) (draw_glyph g sc c x y ch)"
    unfolding draw_glyph_def Let_def by (intro only_for_int only_if only_id only_rect)
  then show ?case unfolding draw_text.simps by (rule only_comp [OF _ Cons])
qed (simp add: only_def)

lemma only_image: "only (cells g sc) (draw_image g sc x y w h pixels)"
  unfolding draw_image_def Let_def by (intro only_for_int only_if only_id only_paint)

lemmas only_draw = only_rect only_rounded only_line only_text only_image

lemma only_command:
  "(\<And>x y w h. cmd \<noteq> NK_COMMAND_SCISSOR x y w h) \<Longrightarrow>
     fst (render_command rnd g header cmd (sc, fb)) = sc \<and>
     (p \<notin> cells g sc \<longrightarrow> snd (render_command rnd g header cmd (sc, fb)) p = fb p)"
  using only_draw [unfolded only_def]
  by (cases "(rnd, g, header, cmd, (sc, fb))" rule: render_command.cases) (simp_all add: Let_def)

definition is_scissor :: "nk_command \<Rightarrow> bool" where
  "is_scissor cmd = (case cmd of NK_COMMAND_SCISSOR _ _ _ _ \<Rightarrow> True | _ \<Rightarrow> False)"

lemma only_commands:
  assumes "\<not> list_ex is_scissor cmds" "p \<notin> cells g sc"
  shows "snd (fold (render_command rnd g header) cmds (sc, fb)) p = fb p"
  using assms
proof (induction cmds arbitrary: fb)
  case (Cons cmd cmds)
  have c: "\<And>x y w h. cmd \<noteq> NK_COMMAND_SCISSOR x y w h" using Cons.prems(1) by (auto simp: is_scissor_def)
  obtain fb' where "render_command rnd g header cmd (sc, fb) = (sc, fb')" "fb' p = fb p"
    using only_command [OF c, of rnd g header sc fb p] Cons.prems(2) by (metis prod.collapse)
  then show ?case using Cons by simp
qed simp

lemma only_screen:
  "p \<notin> screen_cells g \<Longrightarrow> snd (fold (render_command rnd g header) cmds s) p = snd s p"
proof (induction cmds arbitrary: s)
  case (Cons cmd cmds)
  have "cells g sc \<subseteq> screen_cells g" for sc by (auto simp: cells_def screen_cells_def)
  then have "snd (render_command rnd g header cmd (sc, fb)) p = fb p" for sc fb
    using only_command [of cmd rnd g header sc fb p] Cons.prems by (cases cmd) auto
  then show ?case using Cons by (cases s) simp
qed simp

text \<open>C20. Rendering a frame is memory safe and respects clipping, for every command list, every
  rounding of the line arithmetic and every image: no cell outside the visible part of the target
  buffer is written, and what is drawn after a scissor command changes no cell outside the
  scissor rectangle until the next scissor command.\<close>

theorem render_clipped:
  assumes "\<not> list_ex is_scissor draws"
    and "p \<notin> cells g \<lparr>scissor_x = x, scissor_y = y, scissor_w = w, scissor_h = h\<rparr>"
  shows "snd (nk_os_render_target rnd g header (cmds @ NK_COMMAND_SCISSOR x y w h # draws) fb) p =
      snd (nk_os_render_target rnd g header cmds fb) p \<and>
    (q \<notin> screen_cells g \<longrightarrow> snd (nk_os_render_target rnd g header cmds fb) q = fb q)"
proof -
  obtain sc fb' where "nk_os_render_target rnd g header cmds fb = (sc, fb')" by (cases "nk_os_render_target rnd g header cmds fb")
  then show ?thesis
    using only_commands [OF assms, of rnd header fb'] only_screen [of q g rnd header cmds
        "(\<lparr>scissor_x = 0, scissor_y = 0, scissor_w = sint (gfx_width g), scissor_h = sint (gfx_height g)\<rparr>, fb)"]
    by (simp add: nk_os_render_target_def)
qed

theorem render_clipped_witness:
  "snd (nk_os_render_target (\<lambda>q. q)
     \<lparr>gfx_framebuffer = None, gfx_width = 1024, gfx_height = 768, gfx_pitch = 4096\<rparr> (nk_rgb 30 30 30)
     ([] @ NK_COMMAND_SCISSOR 0 0 0 0 # [NK_COMMAND_LINE 5 5 90 40 (nk_rgb 1 2 3)]) (\<lambda>_. 0)) 4 =
   snd (nk_os_render_target (\<lambda>q. q)
     \<lparr>gfx_framebuffer = None, gfx_width = 1024, gfx_height = 768, gfx_pitch = 4096\<rparr> (nk_rgb 30 30 30) [] (\<lambda>_. 0)) 4"
  by (rule conjunct1 [OF render_clipped]) (simp_all add: is_scissor_def cells_def in_scissor_def)

text \<open>Alpha blending never overshoots: after a rectangle is drawn, every colour channel of
  every pixel lies between its old value and the channel of the drawn colour, for every opacity.\<close>

theorem rect_blend_bounds:
  "between (nk_r c) (chan_r (fb p)) (chan_r (idt_draw_rect_target g sc x y w h c fb p)) \<and>
   between (nk_g c) (chan_g (fb p)) (chan_g (idt_draw_rect_target g sc x y w h c fb p)) \<and>
   between (nk_b c) (chan_b (fb p)) (chan_b (idt_draw_rect_target g sc x y w h c fb p))"
proof -
  define P where "P = (\<lambda>v. between (nk_r c) (chan_r (fb p)) (chan_r v) \<and>
    between (nk_g c) (chan_g (fb p)) (chan_g v) \<and> between (nk_b c) (chan_b (fb p)) (chan_b v))"
  have "P (mix c (pack_rgb (nk_r c) (nk_g c) (nk_b c)) v)" if "P v" for v
    using that chan_mix between_trans unfolding P_def by blast
  then have step: "P (paint g c (pack_rgb (nk_r c) (nk_g c) (nk_b c)) x y fb' p)" if "P (fb' p)" for x y fb'
    using that by (auto simp: paint_eq)
  have "P (idt_draw_rect_target g sc x y w h c fb p)"
    unfolding idt_draw_rect_target_def
    by (rule for_int_invariant [where P = "\<lambda>fb. P (fb p)"], rule for_int_invariant [where P = "\<lambda>fb. P (fb p)"])
      (use step in \<open>auto simp: P_def\<close>)
  then show ?thesis unfolding P_def .
qed

text \<open>A rounded filled rectangle with radius zero is the plain rectangle, whatever corners are
  selected.\<close>

theorem rounded_radius_zero:
  "idt_draw_rect_rounded_target g sc x y w h 0 c True flags fb = idt_draw_rect_target g sc x y w h c fb"
proof -
  have "\<not> skip_point x y w h 0 True flags px py" if "x \<le> px" "px < x + w" for px py
    using that by (auto simp: skip_point_def corner_centre_def)
  then show ?thesis unfolding idt_draw_rect_rounded_target_def idt_draw_rect_target_def
    by (intro for_int_cong) simp
qed

end
