(* ===== verification/Boot_Screen.thy ===== *)
theory Boot_Screen
  imports Font
begin

text \<open>
  The boot screen (\<open>src/boot_screen.h\<close>): rectangles, text, progress bar and image drawn straight
  into the framebuffer, and the animation that waits on the timer between its steps.  The timer is
  advanced by interrupts while the code polls it, so it is an argument: \<open>clock n\<close> is the value the
  \<open>n\<close>-th read of \<open>timer_ticks\<close> returns, and the number of reads made is part of the state.
\<close>

section \<open>Drawing primitives\<close>

definition boot_draw_rect :: "pixmap \<Rightarrow> int \<Rightarrow> int \<Rightarrow> int \<Rightarrow> int \<Rightarrow> u32 \<Rightarrow> u32 \<Rightarrow> pixmap" where
  "boot_draw_rect fb x y w h color pitch =
     for_int 0 h (\<lambda>row. for_int 0 w (\<lambda>col fb. putpixel fb (x + col) (y + row) color pitch)) fb"

primrec boot_draw_string :: "pixmap \<Rightarrow> int \<Rightarrow> int \<Rightarrow> string \<Rightarrow> u32 \<Rightarrow> u32 \<Rightarrow> pixmap" where
  "boot_draw_string fb x y [] color pitch = fb"
| "boot_draw_string fb x y (c # str) color pitch =
     boot_draw_string (draw_char fb x y c color pitch) (x + 8) y str color pitch"

definition boot_draw_progress_bar :: "pixmap \<Rightarrow> int \<Rightarrow> int \<Rightarrow> int \<Rightarrow> int \<Rightarrow> int \<Rightarrow> u32 \<Rightarrow> pixmap" where
  "boot_draw_progress_bar fb x y width height progress_pct pitch =
     (let fb = boot_draw_rect fb x y width height 0x00AAAAAA pitch;
          fb = boot_draw_rect fb (x + 2) (y + 2) (width - 4) (height - 4) 0x00333333 pitch;
          fill_w = cdiv ((width - 4) * progress_pct) 100
      in if fill_w > 0 then boot_draw_rect fb (x + 2) (y + 2) fill_w (height - 4) 0x0044AAFF pitch else fb)"

definition boot_draw_image ::
  "pixmap \<Rightarrow> int \<Rightarrow> int \<Rightarrow> (int \<Rightarrow> u32) \<Rightarrow> int \<Rightarrow> int \<Rightarrow> u32 \<Rightarrow> pixmap" where
  "boot_draw_image fb img_x img_y pixels img_w img_h pitch =
     for_int 0 img_h (\<lambda>py. for_int 0 img_w (\<lambda>px fb.
       let pixel = pixels (py * img_w + px); a = ucast (drop_bit 24 pixel AND 0xFF) :: u8 in
       if a < 10 then fb else putpixel fb (img_x + px) (img_y + py) pixel pitch)) fb"

section \<open>Waiting for the timer\<close>

text \<open>\<open>while ((int)timer_ticks < (int)target) if ((int)(timer_ticks - target) > 1000) break;\<close>\<close>

partial_function (option) wait_until :: "(nat \<Rightarrow> u32) \<Rightarrow> u32 \<Rightarrow> nat \<Rightarrow> nat option" where
  "wait_until clock target n =
     (if sint (clock n) < sint target then
        if sint (clock (n + 1) - target) > 1000 then Some (n + 2) else wait_until clock target (n + 2)
      else Some (n + 1))"

section \<open>The animation\<close>

definition pct_text :: "int \<Rightarrow> string" where
  "pct_text pct =
     (if pct = 100 then ''100%''
      else if pct \<ge> 10 then [char_of (nat (pct div 10 + 48)), char_of (nat (pct mod 10 + 48)), CHR ''%'']
      else [char_of (nat (pct + 48)), CHR ''%''])"

definition stages :: "string list" where
  "stages = [''Initializing system...'', ''Loading drivers...'', ''Mounting storage...'',
     ''Starting network...'', ''Preparing desktop...'']"

definition boot_step :: "(nat \<Rightarrow> u32) \<Rightarrow> u32 \<Rightarrow> int \<Rightarrow> int \<Rightarrow> int \<Rightarrow> pixmap \<times> nat \<Rightarrow> (pixmap \<times> nat) option" where
  "boot_step clock pitch bar_x bar_y pct s = do {
     let (fb, n) = s;
     let bar_width = 320;
     let bar_height = 22;
     let bg_color = 0x001A1A2E;
     let fb = boot_draw_progress_bar fb bar_x bar_y bar_width bar_height pct pitch;
     let fb = boot_draw_rect fb (bar_x + bar_width + 10) bar_y 50 bar_height bg_color pitch;
     let fb = boot_draw_string fb (bar_x + bar_width + 12) (bar_y + cdiv (bar_height - 8) 2) (pct_text pct) 0x00FFFFFF pitch;
     let num_stages = int (length stages);
     let stage_idx = cdiv (pct * num_stages) 100;
     let stage_idx = (if stage_idx \<ge> num_stages then num_stages - 1 else stage_idx);
     let fb = boot_draw_rect fb bar_x (bar_y + bar_height + 5) bar_width 14 bg_color pitch;
     stage \<leftarrow> get_at stages (nat stage_idx);
     let status_x = bar_x + cdiv (bar_width - int (length stage) * 8) 2;
     let fb = boot_draw_string fb status_x (bar_y + bar_height + 5) stage 0x00AAAAAA pitch;
     let target_wait = (if pct \<ge> 90 then 2 else 1);
     n \<leftarrow> wait_until clock (clock n + target_wait) (n + 1);
     Some (fb, n)
   }"

primrec boot_steps :: "(nat \<Rightarrow> u32) \<Rightarrow> u32 \<Rightarrow> int \<Rightarrow> int \<Rightarrow> int list \<Rightarrow> pixmap \<times> nat \<Rightarrow> (pixmap \<times> nat) option" where
  "boot_steps clock pitch bar_x bar_y [] s = Some s"
| "boot_steps clock pitch bar_x bar_y (pct # pcts) s = do {
     s \<leftarrow> boot_step clock pitch bar_x bar_y pct s;
     boot_steps clock pitch bar_x bar_y pcts s
   }"

text \<open>The picture or the fallback text, and the height of the progress bar below it.\<close>

definition boot_picture :: "gfx \<Rightarrow> (int \<Rightarrow> u32) option \<Rightarrow> int \<Rightarrow> int \<Rightarrow> pixmap \<Rightarrow> pixmap \<times> int" where
  "boot_picture g boot_img boot_img_w boot_img_h fb =
     (let screen_w = sint (gfx_width g); screen_h = sint (gfx_height g); pitch = gfx_pitch g; bar_height = 22;
          fallback = (let title = ''FATAL: 0:/boot.png Corrupt  Missing'';
                          title_x = cdiv (screen_w - int (length title) * 8) 2;
                          title_y = cdiv screen_h 2 - 40;
                          fb = boot_draw_string fb title_x title_y title 0x0044AAFF pitch;
                          fb = boot_draw_string fb title_x (title_y + 20) ''Corrupt.'' 0x00AAAAAA pitch
                      in (fb, title_y + 60))
      in case boot_img of
           Some pixels \<Rightarrow>
             if boot_img_w > 0 \<and> boot_img_h > 0 then
               let img_x = cdiv (screen_w - boot_img_w) 2;
                   img_y = cdiv (screen_h - boot_img_h - bar_height - 80) 2;
                   img_y = (if img_y < 10 then 10 else img_y)
               in (boot_draw_image fb img_x img_y pixels boot_img_w boot_img_h pitch, img_y + boot_img_h + 30)
             else fallback
         | None \<Rightarrow> fallback)"

text \<open>\<^const>\<open>None\<close> when the framebuffer pointer is null.\<close>

definition show_boot_screen ::
  "(nat \<Rightarrow> u32) \<Rightarrow> (int \<Rightarrow> u32) option \<Rightarrow> int \<Rightarrow> int \<Rightarrow> gfx \<Rightarrow> nat \<Rightarrow> (gfx \<times> nat) option" where
  "show_boot_screen clock boot_img boot_img_w boot_img_h g n = do {
     fb \<leftarrow> gfx_framebuffer g;
     let screen_w = sint (gfx_width g);
     let screen_h = sint (gfx_height g);
     let pitch = gfx_pitch g;
     let bg_color = 0x001A1A2E;
     let fb = boot_draw_rect fb 0 0 screen_w screen_h bg_color pitch;
     let bar_x = cdiv (screen_w - 320) 2;
     let (fb, bar_y) = boot_picture g boot_img boot_img_w boot_img_h fb;
     (fb, n) \<leftarrow> boot_steps clock pitch bar_x bar_y [0..100] (fb, n);
     n \<leftarrow> wait_until clock (clock n + 5) (n + 1);
     let fb = boot_draw_rect fb 0 0 screen_w screen_h bg_color pitch;
     Some (g\<lparr>gfx_framebuffer := Some fb\<rparr>, n)
   }"

section \<open>The waits return\<close>

text \<open>A timer driven by interrupts: between two reads it stands still or advances by one tick (a
  tick takes far longer than a read), and it never stops.\<close>

definition advancing :: "(nat \<Rightarrow> u32) \<Rightarrow> bool" where
  "advancing clock \<longleftrightarrow> (\<forall>n. clock (Suc n) = clock n \<or> clock (Suc n) = clock n + 1) \<and> (\<forall>n. \<exists>m > n. clock m \<noteq> clock n)"

lemma wait_until_returns_if:
  "sint (clock (n + 2 * j + 1) - target) > 1000 \<Longrightarrow> \<exists>n'. wait_until clock target n = Some n'"
proof (induction j arbitrary: n)
  case 0
  then show ?case by (simp add: wait_until.simps [of clock target n])
next
  case (Suc j)
  then have "\<exists>n'. wait_until clock target (n + 2) = Some n'" by (simp add: algebra_simps)
  then show ?case by (auto simp: wait_until.simps [of clock target n])
qed

primrec ticks_from :: "(nat \<Rightarrow> u32) \<Rightarrow> nat \<Rightarrow> nat \<Rightarrow> nat" where
  "ticks_from clock n 0 = 0"
| "ticks_from clock n (Suc i) = ticks_from clock n i + (if clock (n + Suc i) = clock (n + i) then 0 else 1)"

lemma clock_ticks_from: "advancing clock \<Longrightarrow> clock (n + i) = clock n + of_nat (ticks_from clock n i)"
proof (induction i)
  case (Suc i)
  have "clock (Suc (n + i)) = clock (n + i) \<or> clock (Suc (n + i)) = clock (n + i) + 1"
    using Suc.prems by (simp add: advancing_def)
  then show ?case using Suc by auto
qed simp

lemma ticks_reach:
  assumes "advancing clock"
  shows "\<exists>i. ticks_from clock n i = v"
proof (induction v)
  case 0
  show ?case by (rule exI [of _ 0]) simp
next
  case (Suc v)
  then obtain i where i: "ticks_from clock n i = v" by blast
  obtain m where m: "m > n + i" "clock m \<noteq> clock (n + i)" using assms by (auto simp: advancing_def)
  define k where "k = m - (n + i)"
  have mk: "m = n + (i + k)" using m(1) by (simp add: k_def)
  have "ticks_from clock n (i + k) \<noteq> v" using m(2) i clock_ticks_from [OF assms, of n] mk by metis
  then have "\<exists>k. ticks_from clock n (i + k) \<noteq> v" by blast
  then obtain k where k: "ticks_from clock n (i + k) \<noteq> v" "\<And>l. l < k \<Longrightarrow> ticks_from clock n (i + l) = v"
    using exists_least_iff [of "\<lambda>k. ticks_from clock n (i + k) \<noteq> v"] by blast
  then obtain l where "k = Suc l" using i by (cases k) auto
  then have "ticks_from clock n (i + k) = Suc v" using k by (auto split: if_splits)
  then show ?case by blast
qed

lemma wait_until_returns:
  assumes "advancing clock"
  shows "\<exists>n'. wait_until clock target n = Some n'"
proof -
  define v where "v = unat (target + 1001 - clock n)"
  have v: "clock n + of_nat v = target + 1001" by (simp add: v_def)
  obtain i where i: "ticks_from clock n i = v" using ticks_reach [OF assms] by blast
  have at_i: "clock (n + i) - target = 1001"
    using v by (simp add: clock_ticks_from [OF assms] i)
  have step: "clock (Suc (n + i)) = clock (n + i) \<or> clock (Suc (n + i)) = clock (n + i) + 1"
    using assms by (simp add: advancing_def)
  have nxt: "clock (n + i + 1) - target = 1001 \<or> clock (n + i + 1) - target = 1002"
    using step at_i by (auto simp: algebra_simps)
  show ?thesis
  proof (cases "even i")
    case True
    then obtain j where "i = 2 * j" by blast
    then have "sint (clock (n + 2 * j + 1) - target) > 1000" using nxt by auto
    then show ?thesis by (rule wait_until_returns_if)
  next
    case False
    then obtain j where "i = 2 * j + 1" by (metis oddE)
    then have "sint (clock (n + 2 * j + 1) - target) > 1000" using at_i by (simp add: add.assoc)
    then show ?thesis by (rule wait_until_returns_if)
  qed
qed

lemma boot_steps_return:
  assumes "advancing clock" "\<forall>pct \<in> set pcts. 0 \<le> pct"
  shows "\<exists>s'. boot_steps clock pitch bar_x bar_y pcts s = Some s'"
  using assms(2)
proof (induction pcts arbitrary: s)
  case (Cons pct pcts)
  define idx where "idx = (if cdiv (pct * 5) 100 \<ge> 5 then 4 else cdiv (pct * 5) 100)"
  have "0 \<le> cdiv (pct * 5) 100" using Cons.prems by (cases "pct = 0") (auto simp: cdiv_def sgn_mult pos_imp_zdiv_nonneg_iff)
  then have "0 \<le> idx \<and> idx < 5" by (simp add: idx_def)
  then obtain stage where stage: "get_at stages (nat idx) = Some stage" by (auto simp: get_at_def stages_def nat_less_iff)
  have len: "int (length stages) = 5" by (simp add: stages_def)
  obtain fb n where s: "s = (fb, n)" by force
  obtain n' where "wait_until clock (clock n + (if pct \<ge> 90 then 2 else 1)) (n + 1) = Some n'"
    using wait_until_returns [OF assms(1)] by blast
  then have "\<exists>s'. boot_step clock pitch bar_x bar_y pct s = Some s'"
    using stage by (auto simp: boot_step_def Let_def s len idx_def)
  then show ?case using Cons by auto
qed simp

lemma boot_clear:
  assumes "fits (nat (sint (gfx_width g))) (nat (sint (gfx_height g))) (gfx_pitch g)" "on_screen g x y"
  shows "boot_draw_rect fb 0 0 (sint (gfx_width g)) (sint (gfx_height g)) c (gfx_pitch g) (pixel_address x y (gfx_pitch g)) = c"
proof -
  let ?w = "sint (gfx_width g)" and ?h = "sint (gfx_height g)"
  have "boot_draw_rect fb 0 0 ?w ?h c (gfx_pitch g) = raster_loop 0 ?w 0 ?h (on_screen g) (\<lambda>_ _ _. c) (gfx_pitch g) fb"
    unfolding boot_draw_rect_def putpixel_raster [symmetric] by (intro for_int_cong) (simp add: on_screen_def)
  moreover have "raster_loop 0 ?w 0 ?h (on_screen g) (\<lambda>_ _ _. c) (gfx_pitch g) fb (pixel_address x y (gfx_pitch g)) = c"
    by (rule raster_at [OF assms(1) on_screen_bounds]) (use assms(2) in \<open>auto simp: on_screen_def\<close>)
  ultimately show ?thesis by simp
qed



end
