(* ===== verification/Loops.thy ===== *)
theory Loops
  imports Prelude
begin

text \<open>
  Counting loops whose body may fail: \<open>for_opt n body s\<close> runs the body for 0, 1, ..., \<open>n - 1\<close> and
  stops with \<^const>\<open>None\<close> at the first access outside an array.
\<close>

primrec for_list :: "'i list \<Rightarrow> ('i \<Rightarrow> 's \<Rightarrow> 's option) \<Rightarrow> 's \<Rightarrow> 's option" where
  "for_list [] body s = Some s"
| "for_list (i # is) body s = do { s \<leftarrow> body i s; for_list is body s }"

definition for_opt :: "nat \<Rightarrow> (nat \<Rightarrow> 's \<Rightarrow> 's option) \<Rightarrow> 's \<Rightarrow> 's option" where
  "for_opt n body s = for_list [0..<n] body s"

lemma for_list_total:
  assumes "\<And>i s. i \<in> set is \<Longrightarrow> P s \<Longrightarrow> \<exists>s'. body i s = Some s' \<and> P s'" and "P s"
  shows "\<exists>s'. for_list is body s = Some s' \<and> P s'"
  using assms
proof (induction "is" arbitrary: s)
  case (Cons i "is")
  then obtain s' where "body i s = Some s'" "P s'" by (meson list.set_intros(1))
  then show ?case using Cons.IH [of s'] Cons.prems(1) by auto
qed simp

text \<open>A loop whose body cannot fail under an invariant does not fail and keeps the invariant.\<close>

lemma for_opt_total:
  assumes "\<And>i s. i < n \<Longrightarrow> P s \<Longrightarrow> \<exists>s'. body i s = Some s' \<and> P s'" and "P s"
  shows "\<exists>s'. for_opt n body s = Some s' \<and> P s'"
  unfolding for_opt_def by (rule for_list_total) (use assms in auto)

lemma for_list_keeps:
  assumes "\<And>i s s'. i \<in> set is \<Longrightarrow> P s \<Longrightarrow> body i s = Some s' \<Longrightarrow> P s'" and "P s" and "for_list is body s = Some s'"
  shows "P s'"
  using assms
proof (induction "is" arbitrary: s)
  case (Cons i "is")
  then obtain t where "body i s = Some t" "for_list is body t = Some s'" by (auto simp: bind_eq_Some_conv)
  then show ?case using Cons by (meson list.set_intros)
qed simp

lemma for_opt_keeps:
  assumes "\<And>i s s'. i < n \<Longrightarrow> P s \<Longrightarrow> body i s = Some s' \<Longrightarrow> P s'" and "P s" and "for_opt n body s = Some s'"
  shows "P s'"
  by (rule for_list_keeps [where P = P and body = body and s = s, OF _ assms(2) assms(3) [unfolded for_opt_def]])
    (use assms(1) in auto)

end
