(* ===== verification/Cursor.thy ===== *)
theory Cursor
  imports Gui Loops
begin

text \<open>
  The static mouse pointer (\<open>src/cursor_loader.c\<close>).  A file is the list of its bytes and
  \<open>f_read\<close> delivers what is left of it, up to the size asked for.  Storing more bytes than the
  pixel array holds, or reading outside it, is \<^const>\<open>None\<close>.
\<close>

section \<open>Loading and drawing\<close>

record cursor =
  cursor_pixels :: "u8 list"
  c_width :: u32
  c_height :: u32
  hotspot_x :: int
  hotspot_y :: int

definition MAX_CURSOR_W :: nat where "MAX_CURSOR_W = 32"
definition MAX_CURSOR_H :: nat where "MAX_CURSOR_H = 32"

text \<open>The zero-initialised globals.\<close>

definition cursor_init :: cursor where
  "cursor_init = \<lparr>cursor_pixels = replicate (MAX_CURSOR_W * MAX_CURSOR_H * 4) 0,
     c_width = 0, c_height = 0, hotspot_x = 0, hotspot_y = 0\<rparr>"

text \<open>\<open>f_read(&file, buf, n, &br)\<close> at a position of the file: the bytes land at the start of the
  buffer, the rest of the buffer keeps its contents.\<close>

definition read_into :: "u8 list \<Rightarrow> nat \<Rightarrow> u8 list \<Rightarrow> u8 list option" where
  "read_into rest n buf =
     (let got = take n rest in if length got \<le> length buf then Some (got @ drop (length got) buf) else None)"

definition le16 :: "u8 list \<Rightarrow> nat \<Rightarrow> u16 option" where
  "le16 buf i = do { b0 \<leftarrow> get_at buf i; b1 \<leftarrow> get_at buf (i + 1); Some (ucast b0 OR push_bit 8 (ucast b1)) }"

definition le32 :: "u8 list \<Rightarrow> nat \<Rightarrow> u32 option" where
  "le32 buf i = do {
     b0 \<leftarrow> get_at buf i; b1 \<leftarrow> get_at buf (i + 1); b2 \<leftarrow> get_at buf (i + 2); b3 \<leftarrow> get_at buf (i + 3);
     Some (ucast b0 OR push_bit 8 (ucast b1) OR push_bit 16 (ucast b2) OR push_bit 24 (ucast b3)) }"

text \<open>\<open>file\<close> is \<^const>\<open>None\<close> when it cannot be opened; \<open>header\<close> and \<open>bmi_header\<close> are the
  uninitialised stack buffers.\<close>

definition load_system_cursor :: "u8 list option \<Rightarrow> u8 list \<Rightarrow> u8 list \<Rightarrow> cursor \<Rightarrow> cursor option" where
  "load_system_cursor file header bmi_header st =
     (case file of
        None \<Rightarrow> Some st
      | Some content \<Rightarrow> do {
          header \<leftarrow> read_into content 22 header;
          type \<leftarrow> le16 header 2;
          if type \<noteq> 2 then Some st
          else do {
            w \<leftarrow> get_at header 6;
            h \<leftarrow> get_at header 7;
            let st = st\<lparr>c_width := (if w \<noteq> 0 then ucast w else 256), c_height := (if h \<noteq> 0 then ucast h else 256)\<rparr>;
            hx \<leftarrow> le16 header 10;
            hy \<leftarrow> le16 header 12;
            let st = st\<lparr>hotspot_x := uint hx, hotspot_y := uint hy\<rparr>;
            data_offset \<leftarrow> le32 header 18;
            let rest = drop (unat data_offset) content;
            bmi_header \<leftarrow> read_into rest 40 bmi_header;
            bpp \<leftarrow> le16 bmi_header 14;
            let rest = drop 40 rest;
            if bpp = 32 then do {
              px \<leftarrow> read_into rest (unat (c_width st * c_height st * 4)) (cursor_pixels st);
              Some (st\<lparr>cursor_pixels := px\<rparr>)
            } else if bpp = 24 then do {
              px \<leftarrow> read_into rest (unat (c_width st * c_height st * 3)) (cursor_pixels st);
              Some (st\<lparr>cursor_pixels := px\<rparr>)
            } else Some st
          }
        })"

text \<open>One pointer pixel: the four bytes at \<open>idx\<close>; magenta and zero alpha are transparent.\<close>

definition pointer_pixel :: "gfx \<Rightarrow> u8 list \<Rightarrow> u32 \<Rightarrow> int \<Rightarrow> int \<Rightarrow> pixmap \<Rightarrow> pixmap option" where
  "pointer_pixel g px idx scr_x scr_y fb = do {
     b \<leftarrow> get_at px (unat (idx + 0));
     gr \<leftarrow> get_at px (unat (idx + 1));
     r \<leftarrow> get_at px (unat (idx + 2));
     a \<leftarrow> get_at px (unat (idx + 3));
     Some (if (r = 255 \<and> gr = 0 \<and> b = 255) \<or> a = 0 then fb
           else fb(pixel_index g scr_x scr_y := pack_rgb r gr b))
   }"

definition draw_custom_cursor :: "gfx \<Rightarrow> int \<Rightarrow> int \<Rightarrow> cursor \<Rightarrow> pixmap \<Rightarrow> pixmap option" where
  "draw_custom_cursor g mouse_x mouse_y st fb =
     (if c_width st = 0 \<or> c_height st = 0 then Some fb
      else
        let start_x = mouse_x - hotspot_x st; start_y = mouse_y - hotspot_y st in
        for_opt (unat (c_height st)) (\<lambda>y. for_opt (unat (c_width st)) (\<lambda>x fb.
          let scr_x = start_x + int x; scr_y = start_y + int y in
          if \<not> on_screen g scr_x scr_y then Some fb
          else
            let bmp_y = c_height st - 1 - of_nat y; idx = (bmp_y * c_width st + of_nat x) * 4 in
            pointer_pixel g (cursor_pixels st) idx scr_x scr_y fb)) fb)"

section \<open>Safety\<close>

definition fits_pointer :: "cursor \<Rightarrow> bool" where
  "fits_pointer st \<longleftrightarrow> unat (c_width st) \<le> MAX_CURSOR_W \<and> unat (c_height st) \<le> MAX_CURSOR_H \<and>
     length (cursor_pixels st) = MAX_CURSOR_W * MAX_CURSOR_H * 4"

lemma length_read_into: "read_into rest n buf = Some buf' \<Longrightarrow> length buf' = length buf"
  by (auto simp: read_into_def Let_def split: if_splits)

text \<open>The byte index of a pixel of an image of at most 32 by 32 pixels.\<close>

lemma pointer_index:
  assumes "r < h" "c < w" "w \<le> 32" "h \<le> 32"
  shows "unat ((of_nat r * of_nat w + of_nat c) * 4 :: u32) = (r * w + c) * 4" "(r * w + c) * 4 + 3 < 4096"
proof -
  have "Suc r * w \<le> 32 * 32" using assms by (intro mult_le_mono) auto
  then have lt: "r * w + c < 1024" using assms by simp
  then show "(r * w + c) * 4 + 3 < 4096" by simp
  have "((of_nat r * of_nat w + of_nat c) * 4 :: u32) = of_nat ((r * w + c) * 4)" by simp
  then show "unat ((of_nat r * of_nat w + of_nat c) * 4 :: u32) = (r * w + c) * 4"
    using lt unat_of_nat_u32 [of "(r * w + c) * 4"] by simp
qed

lemma pointer_pixel_safe:
  assumes "unat idx = i" "i + 3 < length px" "i + 3 < 4294967296" "on_screen g sx sy"
  shows "\<exists>fb'. pointer_pixel g px idx sx sy fb = Some fb' \<and> (\<forall>p. p \<notin> screen_cells g \<longrightarrow> fb' p = fb p)"
proof -
  have idx: "unat (idx + 0) = i" "unat (idx + 1) = i + 1" "unat (idx + 2) = i + 2" "unat (idx + 3) = i + 3"
    using assms by (auto simp: unat_add_u32)
  then show ?thesis using assms
    by (auto simp: pointer_pixel_def idx pixel_index_address screen_cells_def)
qed

lemma draw_cursor_safe:
  assumes "fits_pointer st"
  shows "\<exists>fb'. draw_custom_cursor g mx my st fb = Some fb' \<and> (\<forall>p. p \<notin> screen_cells g \<longrightarrow> fb' p = fb p)"
proof (cases "c_width st = 0 \<or> c_height st = 0")
  case False
  let ?w = "unat (c_width st)" and ?h = "unat (c_height st)"
  let ?P = "\<lambda>fb'. \<forall>p. p \<notin> screen_cells g \<longrightarrow> fb' p = fb p"
  have len: "length (cursor_pixels st) = 4096" and wh: "?w \<le> 32" "?h \<le> 32"
    using assms by (simp_all add: fits_pointer_def MAX_CURSOR_W_def MAX_CURSOR_H_def)
  have px: "\<exists>fb''. (let scr_x = sx + int x; scr_y = sy + int y in
          if \<not> on_screen g scr_x scr_y then Some fb'
          else let bmp_y = c_height st - 1 - of_nat y; idx = (bmp_y * c_width st + of_nat x) * 4 in
            pointer_pixel g (cursor_pixels st) idx scr_x scr_y fb') = Some fb'' \<and> ?P fb''"
    if "y < ?h" "x < ?w" "?P fb'" for x y fb' sx sy
  proof -
    have bmp: "c_height st - 1 - of_nat y = of_nat (?h - 1 - y)"
    proof -
      have "c_height st = of_nat ?h" by simp
      moreover have "of_nat ?h - 1 - of_nat y = (of_nat (?h - 1 - y) :: u32)" using that(1) by (simp add: of_nat_diff)
      ultimately show ?thesis by simp
    qed
    have i: "unat ((of_nat (?h - 1 - y) * c_width st + of_nat x) * 4 :: u32) = ((?h - 1 - y) * ?w + x) * 4"
        "((?h - 1 - y) * ?w + x) * 4 + 3 < 4096"
      using pointer_index [of "?h - 1 - y" ?h x ?w] that wh by simp_all
    show ?thesis using that(3) pointer_pixel_safe [OF i(1), of "cursor_pixels st" g "sx + int x" "sy + int y" fb'] i(2) len
      by (auto simp: Let_def bmp)
  qed
  show ?thesis using False unfolding draw_custom_cursor_def Let_def
    by (simp only: if_False) (rule for_opt_total [where P = ?P], rule for_opt_total [where P = ?P],
      rule px [unfolded Let_def], simp_all)
qed (auto simp: draw_custom_cursor_def)

lemma read_into_full: "n \<le> length rest \<Longrightarrow> length buf = n \<Longrightarrow> read_into rest n buf = Some (take n rest)"
  by (simp add: read_into_def Let_def)

lemma read_into_fits:
  "n \<le> length buf \<Longrightarrow> \<exists>buf'. read_into rest n buf = Some buf' \<and> length buf' = length buf"
  by (auto simp: read_into_def Let_def)

lemma get_at_le: "i + 1 < length buf \<Longrightarrow> \<exists>v. le16 buf i = Some v" "i + 3 < length buf \<Longrightarrow> \<exists>v. le32 buf i = Some v"
  by (simp_all add: le16_def le32_def)

text \<open>The width or height a directory entry means: zero stands for 256.\<close>

definition dir_size :: "u8 \<Rightarrow> nat" where
  "dir_size b = (if b = 0 then 256 else unat b)"

lemma unat_dir_size: "unat (if b \<noteq> 0 then ucast b else 256 :: u32) = dir_size b"
  using unat_lt_u8 [of b] by (simp add: dir_size_def unsigned_ucast_eq unsigned_take_bit_eq take_bit_nat_eq_self)

lemma unat_dir_product:
  assumes "k \<le> 4"
  shows "unat ((if b \<noteq> 0 then ucast b else 256) * (if b' \<noteq> 0 then ucast b' else 256) * of_nat k :: u32) = dir_size b * dir_size b' * k"
proof -
  let ?w = "(if b \<noteq> 0 then ucast b else 256) :: u32" and ?h = "(if b' \<noteq> 0 then ucast b' else 256) :: u32"
  have "dir_size b \<le> 256" "dir_size b' \<le> 256" using unat_lt_u8 [of b] unat_lt_u8 [of b'] by (simp_all add: dir_size_def)
  then have "dir_size b * dir_size b' * k \<le> 256 * 256 * 4" using assms by (intro mult_le_mono)
  then have "unat (of_nat (dir_size b * dir_size b' * k) :: u32) = dir_size b * dir_size b' * k"
    by (intro unat_of_nat_u32) simp
  moreover have "?w = of_nat (dir_size b)" "?h = of_nat (dir_size b')"
    using arg_cong [OF unat_dir_size [of b], of "of_nat :: nat \<Rightarrow> u32"] arg_cong [OF unat_dir_size [of b'], of "of_nat :: nat \<Rightarrow> u32"]
    by simp_all
  ultimately show ?thesis by simp
qed

lemma load_cursor_fits:
  assumes "fits_pointer st" "length header = 22" "length bmi_header = 40"
    and "22 \<le> length content" "dir_size (content ! 6) \<le> 32" "dir_size (content ! 7) \<le> 32"
  shows "\<exists>st'. load_system_cursor (Some content) header bmi_header st = Some st' \<and> fits_pointer st'"
proof -
  define h where "h = take 22 content"
  have h: "read_into content 22 header = Some h" "length h = 22" "h ! 6 = content ! 6" "h ! 7 = content ! 7"
    using assms by (simp_all add: h_def read_into_full)
  obtain ty hx hy off where le: "le16 h 2 = Some ty" "le16 h 10 = Some hx" "le16 h 12 = Some hy" "le32 h 18 = Some off"
    using get_at_le(1) [of 2 h] get_at_le(1) [of 10 h] get_at_le(1) [of 12 h] get_at_le(2) [of 18 h] h(2) by auto
  obtain bmi where bmi: "read_into (drop (unat off) content) 40 bmi_header = Some bmi" "length bmi = 40"
    using read_into_fits [of 40 bmi_header] assms(3) by auto
  obtain bpp where bpp: "le16 bmi 14 = Some bpp" using get_at_le(1) [of 14 bmi] bmi(2) by auto
  define w where "w = (if content ! 6 \<noteq> 0 then ucast (content ! 6) else 256 :: u32)"
  define ht where "ht = (if content ! 7 \<noteq> 0 then ucast (content ! 7) else 256 :: u32)"
  have wh: "unat w \<le> 32" "unat ht \<le> 32" using assms(5,6) unat_dir_size by (simp_all only: w_def ht_def)
  have len: "length (cursor_pixels st) = 4096" using assms(1) by (simp add: fits_pointer_def MAX_CURSOR_W_def MAX_CURSOR_H_def)
  have "dir_size (content ! 6) * dir_size (content ! 7) * k \<le> 4096" if "k \<le> 4" for k
    using mult_le_mono [OF mult_le_mono [OF assms(5,6)] that] by simp
  then have sz: "unat (w * ht * 4) \<le> 4096" "unat (w * ht * 3) \<le> 4096"
    using unat_dir_product [of 4 "content ! 6" "content ! 7"] unat_dir_product [of 3 "content ! 6" "content ! 7"]
    by (simp_all add: w_def [symmetric] ht_def [symmetric])
  define rest where "rest = drop 40 (drop (unat off) content)"
  obtain px px' where px: "read_into rest (unat (w * ht * 4)) (cursor_pixels st) = Some px" "length px = 4096"
      "read_into rest (unat (w * ht * 3)) (cursor_pixels st) = Some px'" "length px' = 4096"
    using read_into_fits [of _ "cursor_pixels st" rest] sz len by metis
  have "load_system_cursor (Some content) header bmi_header st =
    (if ty \<noteq> 2 then Some st
     else let st = st\<lparr>c_width := w, c_height := ht, hotspot_x := uint hx, hotspot_y := uint hy\<rparr>
          in Some (if bpp = 32 then st\<lparr>cursor_pixels := px\<rparr> else if bpp = 24 then st\<lparr>cursor_pixels := px'\<rparr> else st))"
    using h le bmi(1) bpp px
    by (simp add: load_system_cursor_def Let_def w_def [symmetric] ht_def [symmetric] rest_def [symmetric] del: drop_drop)
  then show ?thesis using assms(1) wh px(2,4) len
    by (simp add: Let_def fits_pointer_def MAX_CURSOR_W_def MAX_CURSOR_H_def)
qed

text \<open>C22. Loading a cursor whose directory entry announces at most 32 by 32 pixels is safe whatever
  the rest of the file holds, and so is drawing the pointer afterwards: no byte outside the pixel
  array is read or written, and only visible pixels of the back buffer change, wherever the mouse and
  the hot spot are.\<close>

theorem cursor_load_draw_safe:
  assumes "fits_pointer st" "length header = 22" "length bmi_header = 40"
    and "22 \<le> length content" "dir_size (content ! 6) \<le> 32" "dir_size (content ! 7) \<le> 32"
  shows "\<exists>st'. load_system_cursor (Some content) header bmi_header st = Some st' \<and>
    (\<exists>fb'. draw_custom_cursor g mx my st' fb = Some fb' \<and> (\<forall>p. p \<notin> screen_cells g \<longrightarrow> fb' p = fb p))"
  using load_cursor_fits [OF assms] draw_cursor_safe by blast

lemma cursor_init_fits: "fits_pointer cursor_init"
  by (simp add: fits_pointer_def cursor_init_def)

theorem cursor_load_draw_safe_witness:
  "\<exists>st' fb'. load_system_cursor (Some [0, 0, 2, 0, 1, 0, 32, 32, 0, 0, 5, 0, 5, 0, 0, 0, 0, 0, 22, 0, 0, 0])
      (replicate 22 0) (replicate 40 0) cursor_init = Some st' \<and>
    draw_custom_cursor \<lparr>gfx_framebuffer = None, gfx_width = 1024, gfx_height = 768, gfx_pitch = 4096\<rparr>
      3 3 st' (\<lambda>_. 0) = Some fb'"
  using cursor_load_draw_safe [OF cursor_init_fits, of "replicate 22 0" "replicate 40 0"
      "[0, 0, 2, 0, 1, 0, 32, 32, 0, 0, 5, 0, 5, 0, 0, 0, 0, 0, 22, 0, 0, 0]"
      "\<lparr>gfx_framebuffer = None, gfx_width = 1024, gfx_height = 768, gfx_pitch = 4096\<rparr>" 3 3 "\<lambda>_. 0"]
  by (auto simp: dir_size_def)

text \<open>C23. The size of the entry is not checked: a 32-bit cursor that announces more than 1024 pixels
  and holds more than 4096 bytes of pixel data makes the load write past the pixel array.\<close>

theorem cursor_load_overflows:
  assumes "fits_pointer st" "length header = 22" "length bmi_header = 40"
    and "le16 (take 22 content) 2 = Some 2" "le32 (take 22 content) 18 = Some off"
    and "le16 (take 40 (drop (unat off) content)) 14 = Some 32"
    and "1024 < dir_size (content ! 6) * dir_size (content ! 7)" "unat off + 40 + 4096 < length content"
  shows "load_system_cursor (Some content) header bmi_header st = None"
proof -
  define h where "h = take 22 content"
  have h: "read_into content 22 header = Some h" "length h = 22" "h ! 6 = content ! 6" "h ! 7 = content ! 7"
    using assms by (simp_all add: h_def read_into_full)
  obtain hx hy where le: "le16 h 10 = Some hx" "le16 h 12 = Some hy"
    using get_at_le(1) [of 10 h] get_at_le(1) [of 12 h] h(2) by auto
  define w where "w = (if content ! 6 \<noteq> 0 then ucast (content ! 6) else 256 :: u32)"
  define ht where "ht = (if content ! 7 \<noteq> 0 then ucast (content ! 7) else 256 :: u32)"
  define rest where "rest = drop 40 (drop (unat off) content)"
  have len: "length (cursor_pixels st) = 4096" using assms(1) by (simp add: fits_pointer_def MAX_CURSOR_W_def MAX_CURSOR_H_def)
  have "unat (w * ht * 4) = dir_size (content ! 6) * dir_size (content ! 7) * 4"
    using unat_dir_product [of 4 "content ! 6" "content ! 7"] by (simp add: w_def ht_def)
  then have "4096 < unat (w * ht * 4)" using assms(7) by simp
  moreover have "4096 < length rest" using assms(8) by (simp add: rest_def)
  ultimately have "read_into rest (unat (w * ht * 4)) (cursor_pixels st) = None"
    by (simp add: read_into_def Let_def len)
  then show ?thesis using h le assms(2-6,8)
    by (simp add: load_system_cursor_def Let_def h_def [symmetric] read_into_full w_def [symmetric] ht_def [symmetric]
        rest_def [symmetric] del: drop_drop)
qed

definition big_cursor :: "u8 list" where
  "big_cursor = [0, 0, 2, 0, 1, 0, 64, 64, 0, 0, 0, 0, 0, 0, 0, 0, 0, 0, 22, 0, 0, 0] @
     [40, 0, 0, 0, 64, 0, 0, 0, 128, 0, 0, 0, 1, 0, 32, 0] @ replicate 16384 0"

theorem cursor_load_overflows_witness:
  "load_system_cursor (Some big_cursor) (replicate 22 0) (replicate 40 0) cursor_init = None"
proof -
  define z where "z = (replicate 16384 0 :: u8 list)"
  have z: "length z = 16384" by (simp add: z_def)
  have e: "big_cursor = [0, 0, 2, 0, 1, 0, 64, 64, 0, 0, 0, 0, 0, 0, 0, 0, 0, 0, 22, 0, 0, 0] @
     [40, 0, 0, 0, 64, 0, 0, 0, 128, 0, 0, 0, 1, 0, 32, 0] @ z" by (simp only: big_cursor_def z_def)
  show ?thesis unfolding e
    by (rule cursor_load_overflows [OF cursor_init_fits, where off = 22])
      (simp_all add: le16_def le32_def dir_size_def z)
qed

end
