(* ===== verification/Ani.thy ===== *)
theory Ani
  imports Cursor
begin

text \<open>
  Animated pointers (\<open>src/ani_loader.c\<close>): parsing the RIFF container and the frames in it,
  selecting the frame to show from the timer, drawing it, and the delay loop.  Offsets into the file
  buffer are 32-bit and wrap as in the code; a read or write outside the buffers is \<^const>\<open>None\<close>, and
  so is a chunk loop that never ends.
\<close>

section \<open>State\<close>

definition ANI_MAX_FRAMES :: nat where "ANI_MAX_FRAMES = 16"
definition ANI_MAX_CURSOR_W :: u32 where "ANI_MAX_CURSOR_W = 32"
definition ANI_MAX_CURSOR_H :: u32 where "ANI_MAX_CURSOR_H = 32"

record ani_frame =
  duration_jiffies :: u32
  frame_width :: u32
  frame_height :: u32
  frame_hotspot_x :: int
  frame_hotspot_y :: int
  frame_pixels :: "u8 list"

record ani =
  ani_frames :: "ani_frame list"
  ani_frame_count :: nat
  ani_active :: bool
  ani_current_frame :: nat
  ani_frame_start_tick :: u32
  ani_file_buf :: "u8 list"

definition ani_speed_percentage :: u32 where "ani_speed_percentage = 1600"

definition jiffies_to_ticks :: "u32 \<Rightarrow> u32" where
  "jiffies_to_ticks jiffies =
     (if jiffies = 0 then 0
      else let adjusted_jiffies = (jiffies * 100) div ani_speed_percentage;
               adjusted_jiffies = (if adjusted_jiffies = 0 then 1 else adjusted_jiffies);
               ticks = (adjusted_jiffies * 18 + 30) div 60
           in if ticks = 0 then 1 else ticks)"

section \<open>Parsing a frame\<close>

text \<open>Reads at a 32-bit offset of the file buffer.\<close>

definition byte_at :: "u8 list \<Rightarrow> u32 \<Rightarrow> u8 option" where
  "byte_at buf i = get_at buf (unat i)"

definition read_le32 :: "u8 list \<Rightarrow> u32 \<Rightarrow> u32 option" where
  "read_le32 buf i = do {
     b0 \<leftarrow> byte_at buf i; b1 \<leftarrow> byte_at buf (i + 1); b2 \<leftarrow> byte_at buf (i + 2); b3 \<leftarrow> byte_at buf (i + 3);
     Some (ucast b0 OR push_bit 8 (ucast b1) OR push_bit 16 (ucast b2) OR push_bit 24 (ucast b3)) }"

definition read_le16 :: "u8 list \<Rightarrow> u32 \<Rightarrow> u16 option" where
  "read_le16 buf i = do { b0 \<leftarrow> byte_at buf i; b1 \<leftarrow> byte_at buf (i + 1); Some (ucast b0 OR push_bit 8 (ucast b1)) }"

text \<open>One pixel of a frame: \<open>n\<close> colour bytes from the file, and 255 for a missing alpha byte.\<close>

definition copy_pixel :: "u8 list \<Rightarrow> u32 \<Rightarrow> bool \<Rightarrow> u32 \<Rightarrow> u8 list \<Rightarrow> u8 list option" where
  "copy_pixel buf src alpha dst_idx px = do {
     b0 \<leftarrow> byte_at buf (src + 0); px \<leftarrow> put_at (unat (dst_idx + 0)) b0 px;
     b1 \<leftarrow> byte_at buf (src + 1); px \<leftarrow> put_at (unat (dst_idx + 1)) b1 px;
     b2 \<leftarrow> byte_at buf (src + 2); px \<leftarrow> put_at (unat (dst_idx + 2)) b2 px;
     b3 \<leftarrow> (if alpha then byte_at buf (src + 3) else Some 255);
     put_at (unat (dst_idx + 3)) b3 px
   }"

definition copy_frame ::
  "u8 list \<Rightarrow> u32 \<Rightarrow> u32 \<Rightarrow> u32 \<Rightarrow> u32 \<Rightarrow> bool \<Rightarrow> u8 list \<Rightarrow> u8 list option" where
  "copy_frame buf start cw ch row_stride alpha px =
     for_opt (unat ch) (\<lambda>y.
       let src_row = ch - 1 - of_nat y in
       for_opt (unat cw) (\<lambda>x px.
         let src_idx = src_row * row_stride + of_nat x * (if alpha then 4 else 3);
             dst_idx = (of_nat y * cw + of_nat x) * 4
         in copy_pixel buf (start + src_idx) alpha dst_idx px)) px"

text \<open>The bitmap behind the directory entry.  \<open>cur\<close> is the offset of \<open>cur_data\<close> in the file buffer.
  The pixels are cleared before the depth is known to be supported.\<close>

definition parse_pixels :: "u8 list \<Rightarrow> u32 \<Rightarrow> u32 \<Rightarrow> u32 \<Rightarrow> u16 \<Rightarrow> ani_frame \<Rightarrow> (bool \<times> ani_frame) option" where
  "parse_pixels buf cur cur_size pixel_start bpp frame =
     (let cw = frame_width frame; ch = frame_height frame;
          bytes_per_pixel = (ucast bpp + 7) div 8;
          row_stride = (cw * bytes_per_pixel + 3) AND (- 4);
          pixel_bytes = row_stride * ch
      in if pixel_start + pixel_bytes > cur_size then Some (False, frame)
         else
           let px = replicate (length (frame_pixels frame)) 0 in
           if bpp = 32 \<or> bpp = 24 then do {
             px \<leftarrow> copy_frame buf (cur + pixel_start) cw ch row_stride (bpp = 32) px;
             Some (True, frame\<lparr>frame_pixels := px\<rparr>)
           } else Some (False, frame\<lparr>frame_pixels := px\<rparr>))"

definition parse_dib :: "u8 list \<Rightarrow> u32 \<Rightarrow> u32 \<Rightarrow> u32 \<Rightarrow> ani_frame \<Rightarrow> (bool \<times> ani_frame) option" where
  "parse_dib buf cur cur_size data_offset frame =
     (if data_offset + 40 > cur_size then Some (False, frame)
      else do {
        let dib = cur + data_offset;
        dib_header_size \<leftarrow> read_le32 buf dib;
        if dib_header_size < 40 then Some (False, frame)
        else do {
          bpp \<leftarrow> read_le16 buf (dib + 14);
          let pixel_start = data_offset + dib_header_size;
          if pixel_start > cur_size then Some (False, frame)
          else parse_pixels buf cur cur_size pixel_start bpp frame
        }
      })"

text \<open>The frame is changed also where the function reports failure.\<close>

definition parse_cur_frame :: "u8 list \<Rightarrow> u32 \<Rightarrow> u32 \<Rightarrow> ani_frame \<Rightarrow> (bool \<times> ani_frame) option" where
  "parse_cur_frame buf cur cur_size frame =
     (if cur_size < 22 then Some (False, frame)
      else do {
        type \<leftarrow> read_le16 buf (cur + 2);
        if type \<noteq> 2 then Some (False, frame)
        else do {
          w \<leftarrow> byte_at buf (cur + 6);
          let cw = (if w \<noteq> 0 then ucast w else 256);
          h \<leftarrow> byte_at buf (cur + 7);
          let ch = (if h \<noteq> 0 then ucast h else 256);
          hx \<leftarrow> read_le16 buf (cur + 10);
          hy \<leftarrow> read_le16 buf (cur + 12);
          data_offset \<leftarrow> read_le32 buf (cur + 18);
          let cw = (if cw > ANI_MAX_CURSOR_W then ANI_MAX_CURSOR_W else cw);
          let ch = (if ch > ANI_MAX_CURSOR_H then ANI_MAX_CURSOR_H else ch);
          parse_dib buf cur cur_size data_offset
            (frame\<lparr>frame_width := cw, frame_height := ch, frame_hotspot_x := sint hx, frame_hotspot_y := sint hy\<rparr>)
        }
      })"

section \<open>Loading the container\<close>

definition ani_init :: "ani \<Rightarrow> ani" where
  "ani_init s = s\<lparr>ani_frame_count := 0, ani_active := False, ani_current_frame := 0, ani_frame_start_tick := 0\<rparr>"

definition tag_at :: "u8 list \<Rightarrow> u32 \<Rightarrow> (u8 \<times> u8 \<times> u8 \<times> u8) option" where
  "tag_at buf i = do {
     b0 \<leftarrow> byte_at buf i; b1 \<leftarrow> byte_at buf (i + 1); b2 \<leftarrow> byte_at buf (i + 2); b3 \<leftarrow> byte_at buf (i + 3);
     Some (b0, b1, b2, b3) }"

definition pad_even :: "u32 \<Rightarrow> u32" where
  "pad_even i = (if i AND 1 \<noteq> 0 then i + 1 else i)"

text \<open>An \<open>icon\<close> chunk: the next frame slot is filled and, when the parse succeeds, counted.\<close>

definition add_frame :: "u32 \<Rightarrow> u32 \<Rightarrow> u32 \<Rightarrow> ani \<Rightarrow> ani option" where
  "add_frame cur cur_size anih_rate s = do {
     frame \<leftarrow> get_at (ani_frames s) (ani_frame_count s);
     (ok, frame) \<leftarrow> parse_cur_frame (ani_file_buf s) cur cur_size frame;
     let frame = (if ok then frame\<lparr>duration_jiffies := anih_rate\<rparr> else frame);
     frames \<leftarrow> put_at (ani_frame_count s) frame (ani_frames s);
     Some (s\<lparr>ani_frames := frames, ani_frame_count := (if ok then ani_frame_count s + 1 else ani_frame_count s)\<rparr>)
   }"

definition list_step :: "u32 \<Rightarrow> u32 \<Rightarrow> ani \<Rightarrow> (u32 \<times> ani) option" where
  "list_step anih_rate sub_offset s = do {
     sub_id \<leftarrow> tag_at (ani_file_buf s) sub_offset;
     sub_size \<leftarrow> read_le32 (ani_file_buf s) (sub_offset + 4);
     let sub_end = pad_even (sub_offset + 8 + sub_size);
     s \<leftarrow> (if sub_id = (105, 99, 111, 110) then add_frame (sub_offset + 8) sub_size anih_rate s else Some s);
     Some (sub_end, s)
   }"

partial_function (option) list_loop :: "u32 \<Rightarrow> u32 \<Rightarrow> u32 \<Rightarrow> ani \<Rightarrow> ani option" where
  "list_loop list_end anih_rate sub_offset s =
     (if sub_offset + 8 \<le> list_end \<and> ani_frame_count s < ANI_MAX_FRAMES then do {
        (sub_offset, s) \<leftarrow> list_step anih_rate sub_offset s;
        list_loop list_end anih_rate sub_offset s
      } else Some s)"

text \<open>The \<open>anih\<close> header chunk sets the frame rate, zero meaning 60.  Its other fields and the
  \<open>seq\<close> table are read but used by nothing.\<close>

definition anih_chunk :: "u32 \<Rightarrow> u32 \<Rightarrow> u32 \<Rightarrow> u32 \<Rightarrow> ani \<Rightarrow> u32 option" where
  "anih_chunk file_size offset chunk_size anih_rate s =
     (if chunk_size \<ge> 36 \<and> offset + 8 + 36 \<le> file_size then do {
        _ \<leftarrow> read_le32 (ani_file_buf s) (offset + 8 + 4);
        _ \<leftarrow> read_le32 (ani_file_buf s) (offset + 8 + 8);
        r \<leftarrow> read_le32 (ani_file_buf s) (offset + 8 + 20);
        Some (if r = 0 then 60 else r)
      } else Some anih_rate)"

definition seq_chunk :: "u32 \<Rightarrow> u32 \<Rightarrow> ani \<Rightarrow> u8 list option" where
  "seq_chunk offset chunk_size s =
     for_opt (min 256 (unat (chunk_size div 4)))
       (\<lambda>i seq. do { v \<leftarrow> read_le32 (ani_file_buf s) (offset + 8 + of_nat i * 4); put_at i (ucast v) seq }) (replicate 256 0)"

definition chunk_step :: "u32 \<Rightarrow> u32 \<Rightarrow> u32 \<Rightarrow> ani \<Rightarrow> (u32 \<times> u32 \<times> ani) option" where
  "chunk_step file_size offset anih_rate s = do {
     chunk_id \<leftarrow> tag_at (ani_file_buf s) offset;
     chunk_size \<leftarrow> read_le32 (ani_file_buf s) (offset + 4);
     let chunk_end = pad_even (offset + 8 + chunk_size);
     (anih_rate, s) \<leftarrow>
       (if chunk_id = (97, 110, 105, 104) then do {
          r \<leftarrow> anih_chunk file_size offset chunk_size anih_rate s; Some (r, s) }
        else if chunk_id = (115, 101, 113, 32) then do {
          _ \<leftarrow> seq_chunk offset chunk_size s; Some (anih_rate, s) }
        else if chunk_id = (76, 73, 83, 84) then do {
          s \<leftarrow> list_loop (pad_even (offset + 8 + chunk_size)) anih_rate (offset + 8 + 4) s; Some (anih_rate, s) }
        else if chunk_id = (105, 99, 111, 110) then
          (if ani_frame_count s < ANI_MAX_FRAMES then do {
             s \<leftarrow> add_frame (offset + 8) chunk_size anih_rate s; Some (anih_rate, s) }
           else Some (anih_rate, s))
        else Some (anih_rate, s));
     Some (chunk_end, anih_rate, s)
   }"

partial_function (option) chunk_loop :: "u32 \<Rightarrow> u32 \<Rightarrow> u32 \<Rightarrow> ani \<Rightarrow> ani option" where
  "chunk_loop file_size offset anih_rate s =
     (if offset + 8 \<le> file_size then do {
        (offset, anih_rate, s) \<leftarrow> chunk_step file_size offset anih_rate s;
        if offset \<ge> file_size then Some s else chunk_loop file_size offset anih_rate s
      } else Some s)"

text \<open>\<open>file\<close> is \<^const>\<open>None\<close> when it cannot be opened, \<open>read_ok\<close> says whether reading all of it succeeds.\<close>

definition ani_load :: "u8 list option \<Rightarrow> bool \<Rightarrow> ani \<Rightarrow> (bool \<times> ani) option" where
  "ani_load file read_ok s =
     (let s = ani_init s in
      case file of
        None \<Rightarrow> Some (False, s)
      | Some content \<Rightarrow>
          if length content > 65536 then Some (False, s)
          else if \<not> read_ok then Some (False, s)
          else do {
            let s = s\<lparr>ani_file_buf := content @ drop (length content) (ani_file_buf s)\<rparr>;
            let file_size = of_nat (length content);
            if file_size < 12 then Some (False, s)
            else do {
              riff \<leftarrow> tag_at (ani_file_buf s) 0;
              if riff \<noteq> (82, 73, 70, 70) then Some (False, s)
              else do {
                acon \<leftarrow> tag_at (ani_file_buf s) 8;
                if acon \<noteq> (65, 67, 79, 78) then Some (False, s)
                else do {
                  s \<leftarrow> chunk_loop file_size 12 60 s;
                  Some (ani_frame_count s \<noteq> 0, s)
                }
              }
            }
          })"

section \<open>Playing\<close>

definition ani_play :: "u32 \<Rightarrow> ani \<Rightarrow> ani" where
  "ani_play timer_ticks s =
     (if ani_frame_count s = 0 then s
      else s\<lparr>ani_active := True, ani_current_frame := 0, ani_frame_start_tick := timer_ticks\<rparr>)"

definition ani_stop :: "ani \<Rightarrow> ani" where
  "ani_stop s = s\<lparr>ani_active := False, ani_current_frame := 0\<rparr>"

fun pick_frame :: "u32 \<Rightarrow> u32 \<Rightarrow> nat \<Rightarrow> u32 list \<Rightarrow> nat option" where
  "pick_frame mod_elapsed accum i [] = None"
| "pick_frame mod_elapsed accum i (d # ds) =
     (if mod_elapsed < accum + d then Some i else pick_frame mod_elapsed (accum + d) (i + 1) ds)"

definition frame_ticks :: "ani \<Rightarrow> u32 list" where
  "frame_ticks s = map (\<lambda>f. jiffies_to_ticks (duration_jiffies f)) (take (ani_frame_count s) (ani_frames s))"

definition ani_update :: "u32 \<Rightarrow> ani \<Rightarrow> bool \<times> ani" where
  "ani_update current_tick s =
     (if \<not> ani_active s \<or> ani_frame_count s = 0 then (False, s)
      else
        let elapsed = current_tick - ani_frame_start_tick s;
            total_duration = foldl (+) 0 (frame_ticks s)
        in if total_duration = 0 then (True, s\<lparr>ani_current_frame := 0\<rparr>)
           else
             let mod_elapsed = elapsed mod total_duration
             in case pick_frame mod_elapsed 0 0 (frame_ticks s) of
                  None \<Rightarrow> (True, s\<lparr>ani_current_frame := ani_frame_count s - 1\<rparr>)
                | Some i \<Rightarrow> (True, s\<lparr>ani_current_frame := i\<rparr>))"

definition ani_draw :: "gfx \<Rightarrow> int \<Rightarrow> int \<Rightarrow> ani \<Rightarrow> pixmap \<Rightarrow> pixmap option" where
  "ani_draw g m_x m_y s fb =
     (if \<not> ani_active s \<or> ani_frame_count s = 0 then Some fb
      else do {
        frame \<leftarrow> get_at (ani_frames s) (ani_current_frame s);
        if frame_width frame = 0 \<or> frame_height frame = 0 then Some fb
        else
          let start_x = m_x - frame_hotspot_x frame; start_y = m_y - frame_hotspot_y frame in
          for_opt (unat (frame_height frame)) (\<lambda>y. for_opt (unat (frame_width frame)) (\<lambda>x fb.
            let scr_x = start_x + int x; scr_y = start_y + int y in
            if \<not> on_screen g scr_x scr_y then Some fb
            else pointer_pixel g (frame_pixels frame) ((of_nat y * frame_width frame + of_nat x) * 4) scr_x scr_y fb)) fb
      })"

definition ani_is_active :: "ani \<Rightarrow> bool" where
  "ani_is_active s = ani_active s"

section \<open>The delay loop\<close>

text \<open>The timer and the mouse are changed by interrupts; \<open>clock n\<close>, \<open>mxs n\<close> and \<open>mys n\<close> are what the
  \<open>n\<close>-th volatile read returns.  The buffer handed over is the back buffer.\<close>

definition blit :: "u32 \<Rightarrow> u32 \<Rightarrow> u32 \<Rightarrow> pixmap \<Rightarrow> pixmap \<Rightarrow> pixmap" where
  "blit gw gh gp bb =
     for_int 0 (uint gh) (\<lambda>y. for_int 0 (uint gw) (\<lambda>x fb.
       fb(4 * (of_int y * (gp div 4) + of_int x) := bb (4 * (of_int y * gw + of_int x)))))"

partial_function (option) spin_wait :: "(nat \<Rightarrow> u32) \<Rightarrow> u32 \<Rightarrow> u32 \<Rightarrow> nat \<Rightarrow> nat option" where
  "spin_wait clock start ticks n =
     (if clock n - start < ticks then spin_wait clock start ticks (n + 1) else Some (n + 1))"

partial_function (option) delay_loop ::
  "(nat \<Rightarrow> u32) \<Rightarrow> (nat \<Rightarrow> int) \<Rightarrow> (nat \<Rightarrow> int) \<Rightarrow> gfx \<Rightarrow> u32 \<Rightarrow> u32 \<Rightarrow> u32 \<Rightarrow> u32 \<Rightarrow> u32 \<Rightarrow>
    nat \<Rightarrow> u32 \<Rightarrow> int \<Rightarrow> int \<Rightarrow> int \<Rightarrow> ani \<Rightarrow> pixmap \<Rightarrow> pixmap \<Rightarrow> (ani \<times> pixmap \<times> pixmap) option" where
  "delay_loop clock mxs mys g gw gh gp start ticks n last_frame_draw last_mouse_x last_mouse_y last_frame_idx s bb fb =
     (if clock n - start < ticks then
        (let s = snd (ani_update (clock (n + 1)) s) in
         if clock (n + 2) \<noteq> last_frame_draw \<and>
            (mxs (n + 3) \<noteq> last_mouse_x \<or> mys (n + 4) \<noteq> last_mouse_y \<or> int (ani_current_frame s) \<noteq> last_frame_idx)
         then do {
           bb \<leftarrow> ani_draw g (mxs (n + 8)) (mys (n + 9)) s bb;
           delay_loop clock mxs mys g gw gh gp start ticks (n + 10) (clock (n + 5)) (mxs (n + 6)) (mys (n + 7))
             (int (ani_current_frame s)) s bb (blit gw gh gp bb fb)
         }
         else delay_loop clock mxs mys g gw gh gp start ticks (n + 5) last_frame_draw last_mouse_x last_mouse_y last_frame_idx s bb fb)
      else Some (s, bb, fb))"

definition ani_delay_ticks ::
  "(nat \<Rightarrow> u32) \<Rightarrow> (nat \<Rightarrow> int) \<Rightarrow> (nat \<Rightarrow> int) \<Rightarrow> gfx \<Rightarrow> u32 \<Rightarrow> u32 \<Rightarrow> u32 \<Rightarrow> u32 \<Rightarrow> ani \<Rightarrow> pixmap \<Rightarrow> pixmap
     \<Rightarrow> (ani \<times> pixmap \<times> pixmap) option" where
  "ani_delay_ticks clock mxs mys g ticks gw gh gp s bb fb =
     (let start = clock 0;
          s = (if ani_active s then s\<lparr>ani_frame_start_tick := clock 1\<rparr> else s)
      in if \<not> ani_active s \<or> ani_frame_count s = 0
         then do { _ \<leftarrow> spin_wait clock start ticks 2; Some (s, bb, fb) }
         else delay_loop clock mxs mys g gw gh gp start ticks 2 0 (- 1) (- 1) (- 1) s bb fb)"

section \<open>The invariant\<close>

definition frame_ok :: "ani_frame \<Rightarrow> bool" where
  "frame_ok f \<longleftrightarrow> length (frame_pixels f) = 4096 \<and> unat (frame_width f) \<le> 32 \<and> unat (frame_height f) \<le> 32"

definition ani_inv :: "ani \<Rightarrow> bool" where
  "ani_inv s \<longleftrightarrow> length (ani_frames s) = ANI_MAX_FRAMES \<and> (\<forall>f \<in> set (ani_frames s). frame_ok f) \<and>
     ani_frame_count s \<le> ANI_MAX_FRAMES \<and> (ani_frame_count s > 0 \<longrightarrow> ani_current_frame s < ani_frame_count s)"

definition ani_boot :: ani where
  "ani_boot = \<lparr>ani_frames = replicate 16 \<lparr>duration_jiffies = 0, frame_width = 0, frame_height = 0,
       frame_hotspot_x = 0, frame_hotspot_y = 0, frame_pixels = replicate 4096 0\<rparr>,
     ani_frame_count = 0, ani_active = False, ani_current_frame = 0, ani_frame_start_tick = 0,
     ani_file_buf = replicate 65536 0\<rparr>"

lemma put_at_keeps: "put_at i x xs = Some ys \<Longrightarrow> length ys = length xs"
  by (auto simp: put_at_def split: if_splits)

lemma copy_pixel_length: "copy_pixel buf src alpha dst px = Some px' \<Longrightarrow> length px' = length px"
  by (auto simp: copy_pixel_def bind_eq_Some_conv dest!: put_at_keeps)

lemma copy_frame_length: "copy_frame buf start cw ch row_stride alpha px = Some px' \<Longrightarrow> length px' = length px"
  unfolding copy_frame_def Let_def
  by (erule for_opt_keeps [where P = "\<lambda>p. length p = length px", rotated 2])
    (auto elim!: for_opt_keeps [where P = "\<lambda>p. length p = length px", rotated 2] dest: copy_pixel_length)

lemma clamp_32: "unat (if (c :: u32) > 32 then 32 else c) \<le> 32"
  by (simp add: word_less_nat_alt)

lemma parse_pixels_ok:
  assumes "frame_ok f" "parse_pixels buf cur sz start bpp f = Some (ok, f')"
  shows "frame_ok f'"
proof -
  have "frame_ok (f\<lparr>frame_pixels := px\<rparr>)" if "length px = length (frame_pixels f)" for px
    using that assms(1) by (simp add: frame_ok_def)
  then show ?thesis using assms
    by (auto simp: parse_pixels_def bind_eq_Some_conv Let_def dest!: copy_frame_length split: if_split_asm)
qed

lemma parse_dib_ok:
  assumes "frame_ok f" "parse_dib buf cur sz off f = Some (ok, f')"
  shows "frame_ok f'"
  using assms by (auto simp: parse_dib_def bind_eq_Some_conv Let_def dest: parse_pixels_ok split: if_split_asm)

lemma parse_cur_frame_ok:
  assumes f: "frame_ok f" and p: "parse_cur_frame buf cur sz f = Some (ok, f')"
  shows "frame_ok f'"
proof -
  have ok: "frame_ok (f\<lparr>frame_width := (if c > ANI_MAX_CURSOR_W then ANI_MAX_CURSOR_W else c),
      frame_height := (if c' > ANI_MAX_CURSOR_H then ANI_MAX_CURSOR_H else c'),
      frame_hotspot_x := x, frame_hotspot_y := y\<rparr>)" for c c' x y
    using f clamp_32 [of c] clamp_32 [of c'] unfolding frame_ok_def ANI_MAX_CURSOR_W_def ANI_MAX_CURSOR_H_def by simp
  show ?thesis
  proof (cases "sz < 22 \<or> read_le16 buf (cur + 2) \<noteq> Some 2")
    case True
    then show ?thesis using f p unfolding parse_cur_frame_def by (auto simp: bind_eq_Some_conv split: if_split_asm)
  next
    case False
    then show ?thesis using p parse_dib_ok [OF ok] unfolding parse_cur_frame_def Let_def
      by (auto simp: bind_eq_Some_conv simp del: if_split)
  qed
qed

text \<open>During a load the frame counter is below its bound before a frame is added; the current frame is
  the first one.\<close>

definition load_inv :: "ani \<Rightarrow> bool" where
  "load_inv s \<longleftrightarrow> length (ani_frames s) = ANI_MAX_FRAMES \<and> (\<forall>f \<in> set (ani_frames s). frame_ok f) \<and>
     ani_frame_count s \<le> ANI_MAX_FRAMES \<and> ani_current_frame s = 0"

lemma load_inv_ani_inv: "load_inv s \<Longrightarrow> ani_inv s"
  by (simp add: load_inv_def ani_inv_def)

lemma add_frame_inv:
  assumes "load_inv s" "ani_frame_count s < ANI_MAX_FRAMES" "add_frame cur sz rate s = Some s'"
  shows "load_inv s'"
proof -
  let ?i = "ani_frame_count s"
  have i: "?i < length (ani_frames s)" using assms by (simp add: load_inv_def)
  then have f: "frame_ok (ani_frames s ! ?i)" using assms(1) by (simp add: load_inv_def)
  obtain ok f' where p: "parse_cur_frame (ani_file_buf s) cur sz (ani_frames s ! ?i) = Some (ok, f')"
      "s' = s\<lparr>ani_frames := (ani_frames s)[?i := (if ok then f'\<lparr>duration_jiffies := rate\<rparr> else f')],
        ani_frame_count := (if ok then ?i + 1 else ?i)\<rparr>"
    using assms(3) i by (auto simp: add_frame_def bind_eq_Some_conv)
  have "frame_ok (if ok then f'\<lparr>duration_jiffies := rate\<rparr> else f')"
    using parse_cur_frame_ok [OF f p(1)] by (simp add: frame_ok_def)
  moreover from this have "\<forall>f \<in> set ((ani_frames s)[?i := (if ok then f'\<lparr>duration_jiffies := rate\<rparr> else f')]). frame_ok f"
    using assms(1) set_update_subset_insert [of "ani_frames s" ?i] unfolding load_inv_def by blast
  ultimately show ?thesis using assms(1,2) unfolding p(2) load_inv_def by (simp add: Suc_le_eq)
qed

lemma list_step_inv:
  assumes "load_inv s" "ani_frame_count s < ANI_MAX_FRAMES" "list_step rate off s = Some (off', s')"
  shows "load_inv s'"
  using assms add_frame_inv [OF assms(1,2)]
  by (auto simp: list_step_def bind_eq_Some_conv Let_def split: if_split_asm)

lemma list_loop_inv:
  assumes "list_loop list_end rate off s = Some s'" "load_inv s"
  shows "load_inv s'"
proof -
  have "load_inv s \<longrightarrow> load_inv s'"
  proof (rule list_loop.raw_induct [where P = "\<lambda>_ _ _ s s'. load_inv s \<longrightarrow> load_inv s'", OF _ assms(1)], goal_cases)
    case IH: (1 loop list_end rate off s s')
    show ?case
    proof (cases "off + 8 \<le> list_end \<and> ani_frame_count s < ANI_MAX_FRAMES")
      case True
      then obtain off' t where t: "list_step rate off s = Some (off', t)" "loop list_end rate off' t = Some s'"
        using IH(2) by (auto simp: bind_eq_Some_conv)
      have "load_inv s \<Longrightarrow> load_inv t" using list_step_inv True t(1) by blast
      then show ?thesis using IH(1) [OF t(2)] by blast
    qed (use IH(2) in auto)
  qed
  then show ?thesis using assms(2) by blast
qed

lemma chunk_step_inv:
  assumes "load_inv s" "chunk_step fs off rate s = Some (off', rate', s')"
  shows "load_inv s'"
  using assms add_frame_inv [OF assms(1)] list_loop_inv [OF _ assms(1)]
  by (auto simp: chunk_step_def bind_eq_Some_conv Let_def split: if_split_asm)

lemma chunk_loop_inv:
  assumes "chunk_loop fs off rate s = Some s'" "load_inv s"
  shows "load_inv s'"
proof -
  have "load_inv s \<longrightarrow> load_inv s'"
  proof (rule chunk_loop.raw_induct [where P = "\<lambda>_ _ _ s s'. load_inv s \<longrightarrow> load_inv s'", OF _ assms(1)], goal_cases)
    case IH: (1 loop fs off rate s s')
    show ?case
    proof (cases "off + 8 \<le> fs")
      case True
      then obtain off' rate' t where t: "chunk_step fs off rate s = Some (off', rate', t)"
          "(if off' \<ge> fs then Some t else loop fs off' rate' t) = Some s'"
        using IH(2) by (auto simp: bind_eq_Some_conv)
      have inv: "load_inv s \<Longrightarrow> load_inv t" using chunk_step_inv t(1) by blast
      show ?thesis
      proof (cases "off' \<ge> fs")
        case True
        then show ?thesis using inv t(2) by simp
      next
        case False
        then have "loop fs off' rate' t = Some s'" using t(2) by simp
        from IH(1) [OF this] show ?thesis using inv by blast
      qed
    qed (use IH(2) in auto)
  qed
  then show ?thesis using assms(2) by blast
qed

lemma ani_load_inv:
  assumes "ani_inv s" "ani_load file ok s = Some (r, s')"
  shows "ani_inv s'"
proof -
  have 0: "load_inv (ani_init s)" "load_inv ((ani_init s)\<lparr>ani_file_buf := b\<rparr>)" for b
    using assms(1) by (auto simp: ani_inv_def load_inv_def ani_init_def)
  then show ?thesis using assms(2) chunk_loop_inv load_inv_ani_inv
    by (auto simp: ani_load_def Let_def bind_eq_Some_conv split: option.split_asm if_split_asm)
qed

lemma pick_frame_bound: "pick_frame m acc i ds = Some j \<Longrightarrow> i \<le> j \<and> j < i + length ds"
  by (induction ds arbitrary: acc i) (fastforce split: if_split_asm)+

lemma ani_update_inv:
  assumes "ani_inv s"
  shows "ani_inv (snd (ani_update t s))"
proof -
  have "j < ani_frame_count s" if "pick_frame m 0 0 (frame_ticks s) = Some j" for m j
    using pick_frame_bound [OF that] assms by (simp add: frame_ticks_def)
  then show ?thesis using assms
    by (auto simp: ani_update_def Let_def ani_inv_def split: option.split)
qed

lemma ani_play_inv: "ani_inv s \<Longrightarrow> ani_inv (ani_play t s)" and ani_stop_inv: "ani_inv s \<Longrightarrow> ani_inv (ani_stop s)"
  by (auto simp: ani_play_def ani_stop_def ani_inv_def)

section \<open>Drawing is safe in every reachable state\<close>

text \<open>The operations the rest of the kernel calls, in any order and with any file.\<close>

inductive ani_run :: "ani \<Rightarrow> bool" where
  boot: "ani_run ani_boot"
| init: "ani_run s \<Longrightarrow> ani_run (ani_init s)"
| load: "ani_run s \<Longrightarrow> ani_load file ok s = Some (r, s') \<Longrightarrow> ani_run s'"
| play: "ani_run s \<Longrightarrow> ani_run (ani_play t s)"
| stop: "ani_run s \<Longrightarrow> ani_run (ani_stop s)"
| update: "ani_run s \<Longrightarrow> ani_run (snd (ani_update t s))"

lemma ani_boot_inv: "ani_inv ani_boot"
  by (simp add: ani_inv_def ani_boot_def ANI_MAX_FRAMES_def frame_ok_def)

lemma ani_run_inv: "ani_run s \<Longrightarrow> ani_inv s"
proof (induction rule: ani_run.induct)
  case (init s)
  then show ?case by (auto simp: ani_init_def ani_inv_def)
qed (use ani_boot_inv ani_load_inv ani_play_inv ani_stop_inv ani_update_inv in blast)+

lemma ani_draw_safe:
  assumes "ani_inv s"
  shows "\<exists>fb'. ani_draw g mx my s fb = Some fb' \<and> (\<forall>p. p \<notin> screen_cells g \<longrightarrow> fb' p = fb p)"
proof (cases "\<not> ani_active s \<or> ani_frame_count s = 0")
  case False
  let ?P = "\<lambda>fb'. \<forall>p. p \<notin> screen_cells g \<longrightarrow> fb' p = fb p"
  define f where "f = ani_frames s ! ani_current_frame s"
  have cur: "ani_current_frame s < length (ani_frames s)" using False assms by (auto simp: ani_inv_def)
  then have f: "frame_ok f" using assms by (simp add: ani_inv_def f_def)
  let ?w = "unat (frame_width f)" and ?h = "unat (frame_height f)"
  have px: "\<exists>fb''. (if \<not> on_screen g (sx + int x) (sy + int y) then Some fb'
          else pointer_pixel g (frame_pixels f) ((of_nat y * frame_width f + of_nat x) * 4) (sx + int x) (sy + int y) fb')
        = Some fb'' \<and> ?P fb''"
    if "y < ?h" "x < ?w" "?P fb'" for x y fb' sx sy
  proof -
    have i: "unat ((of_nat y * frame_width f + of_nat x) * 4 :: u32) = (y * ?w + x) * 4" "(y * ?w + x) * 4 + 3 < 4096"
      using pointer_index [of y ?h x ?w] that f by (simp_all add: frame_ok_def)
    show ?thesis using that(3) pointer_pixel_safe [OF i(1), of "frame_pixels f" g "sx + int x" "sy + int y" fb'] i(2) f
      by (auto simp: frame_ok_def)
  qed
  have "\<exists>fb'. for_opt ?h (\<lambda>y. for_opt ?w (\<lambda>x fb.
            if \<not> on_screen g (sx + int x) (sy + int y) then Some fb
            else pointer_pixel g (frame_pixels f) ((of_nat y * frame_width f + of_nat x) * 4) (sx + int x) (sy + int y) fb)) fb
        = Some fb' \<and> ?P fb'" for sx sy
    by (rule for_opt_total [where P = ?P], rule for_opt_total [where P = ?P], rule px, simp_all)
  then show ?thesis using False cur by (simp add: ani_draw_def f_def [symmetric] Let_def)
qed (auto simp: ani_draw_def)



section \<open>Which frame is shown\<close>

lemma pick_frame_spec:
  "unat acc + sum_list (map unat ds) < 4294967296 \<Longrightarrow> unat acc \<le> unat m \<Longrightarrow> unat m < unat acc + sum_list (map unat ds) \<Longrightarrow>
     \<exists>j < length ds. pick_frame m acc i ds = Some (i + j) \<and>
       unat acc + sum_list (map unat (take j ds)) \<le> unat m \<and> unat m < unat acc + sum_list (map unat (take (Suc j) ds))"
proof (induction ds arbitrary: acc i)
  case (Cons d ds)
  have acc: "unat (acc + d) = unat acc + unat d" using Cons.prems(1) by (intro unat_add_u32) simp
  show ?case
  proof (cases "m < acc + d")
    case True
    then show ?thesis using Cons.prems acc by (intro exI [of _ 0]) (simp add: word_less_nat_alt)
  next
    case False
    then have "unat (acc + d) \<le> unat m" by (simp add: word_less_nat_alt)
    then obtain j where "j < length ds" "pick_frame m (acc + d) (i + 1) ds = Some (i + 1 + j)"
        "unat (acc + d) + sum_list (map unat (take j ds)) \<le> unat m"
        "unat m < unat (acc + d) + sum_list (map unat (take (Suc j) ds))"
      using Cons.IH [of "acc + d" "i + 1"] Cons.prems acc by auto
    then show ?thesis using False acc by (intro exI [of _ "Suc j"]) simp
  qed
qed simp

lemma foldl_add_unat:
  "unat acc + sum_list (map unat ds) < 4294967296 \<Longrightarrow> unat (foldl (+) acc (ds :: u32 list)) = unat acc + sum_list (map unat ds)"
proof (induction ds arbitrary: acc)
  case (Cons d ds)
  have "unat (acc + d) = unat acc + unat d" using Cons.prems by (intro unat_add_u32) simp
  then show ?case using Cons by simp
qed simp

text \<open>While the animation plays, the frame shown is the one whose interval contains the time
  since the start, taken modulo the length of the whole cycle: frame \<open>i\<close> is on from the sum of the
  durations before it to the sum including it, and then the cycle repeats.\<close>

theorem ani_update_frame:
  assumes "ani_inv s" "ani_active s" "0 < sum_list (map unat (frame_ticks s))"
    and "sum_list (map unat (frame_ticks s)) < 4294967296"
  shows "\<exists>i < ani_frame_count s. ani_update t s = (True, s\<lparr>ani_current_frame := i\<rparr>) \<and>
    (let e = unat (t - ani_frame_start_tick s) mod sum_list (map unat (frame_ticks s))
     in sum_list (map unat (take i (frame_ticks s))) \<le> e \<and> e < sum_list (map unat (take (Suc i) (frame_ticks s))))"
proof -
  let ?ds = "frame_ticks s" and ?el = "t - ani_frame_start_tick s"
  have total: "unat (foldl (+) 0 ?ds) = sum_list (map unat ?ds)" using foldl_add_unat [of 0 ?ds] assms(4) by simp
  have e: "unat (?el mod foldl (+) 0 ?ds) = unat ?el mod sum_list (map unat ?ds)"
    by (simp add: unat_mod_distrib total)
  have len: "length ?ds = ani_frame_count s" using assms(1) by (simp add: frame_ticks_def ani_inv_def)
  have "foldl (+) 0 ?ds \<noteq> 0" using total assms(3) by (metis less_irrefl unat_0)
  moreover have "ani_frame_count s \<noteq> 0" using assms(3) len by (cases ?ds) auto
  moreover obtain j where "j < length ?ds" "pick_frame (?el mod foldl (+) 0 ?ds) 0 0 ?ds = Some j"
      "sum_list (map unat (take j ?ds)) \<le> unat ?el mod sum_list (map unat ?ds)"
      "unat ?el mod sum_list (map unat ?ds) < sum_list (map unat (take (Suc j) ?ds))"
    using pick_frame_spec [of 0 ?ds "?el mod foldl (+) 0 ?ds" 0] assms(3,4) e by auto
  ultimately show ?thesis using assms(2) len by (intro exI [of _ j]) (simp add: ani_update_def Let_def)
qed

definition two_frames :: ani where
  "two_frames = ani_boot\<lparr>ani_frames := map (\<lambda>f. f\<lparr>duration_jiffies := 96\<rparr>) (ani_frames ani_boot), ani_frame_count := 2,
     ani_active := True\<rparr>"

theorem ani_update_frame_witness:
  "\<exists>i < ani_frame_count two_frames. ani_update 9 two_frames = (True, two_frames\<lparr>ani_current_frame := i\<rparr>)"
proof -
  have inv: "ani_inv two_frames"
    using ani_boot_inv by (auto simp: two_frames_def ani_inv_def ANI_MAX_FRAMES_def frame_ok_def ani_boot_def)
  have "jiffies_to_ticks 96 = 2" by code_simp
  then have "frame_ticks two_frames = [2, 2]"
    by (simp add: frame_ticks_def two_frames_def ani_boot_def numeral_2_eq_2)
  then show ?thesis using ani_update_frame [OF inv, of 9] by (auto simp: two_frames_def)
qed

text \<open>C25. A chunk that announces 0xFFFFFFF8 bytes ends, in 32-bit arithmetic, where it starts: once
  the loop of \<open>ani_load\<close> reaches such a chunk of a kind it skips, it never returns.\<close>

theorem ani_load_hangs:
  assumes "tag_at (ani_file_buf s) off = Some tag"
    and "tag \<notin> {(97, 110, 105, 104), (115, 101, 113, 32), (76, 73, 83, 84), (105, 99, 111, 110)}"
    and "read_le32 (ani_file_buf s) (off + 4) = Some 0xFFFFFFF8" "off AND 1 = 0" "off + 8 \<le> fs" "off < fs"
  shows "chunk_loop fs off rate s = None"
proof -
  have z: "(4294967296 :: u32) = 0" by simp
  have step: "chunk_step fs off rate s = Some (off, rate, s)" for rate
    using assms(1-4) by (simp add: chunk_step_def pad_even_def Let_def z split: prod.split)
  have off: "\<not> fs \<le> off" using assms(6) by simp
  have "\<not> (s2 = s \<and> fs2 = fs \<and> off2 = off)" if "chunk_loop fs2 off2 rate2 s2 = Some s'" for fs2 off2 rate2 s2 s'
  proof (rule chunk_loop.raw_induct [where P = "\<lambda>fs2 off2 _ s2 _. \<not> (s2 = s \<and> fs2 = fs \<and> off2 = off)", OF _ that], goal_cases)
    case (1 loop fs2 off2 rate2 s2 s')
    then show ?case using 1(1) [of fs off rate2 s s'] step assms(5) off by auto
  qed
  then show ?thesis by (metis not_None_eq)
qed

definition bad_chunk :: "u8 list" where
  "bad_chunk = [82, 73, 70, 70, 0, 0, 0, 0, 65, 67, 79, 78, 120, 120, 120, 120, 0xF8, 0xFF, 0xFF, 0xFF]"

theorem ani_load_hangs_witness:
  "chunk_loop 20 12 60 (ani_boot\<lparr>ani_file_buf := bad_chunk\<rparr>) = None"
  by (rule ani_load_hangs [where tag = "(120, 120, 120, 120)"])
    (simp_all add: bad_chunk_def tag_at_def read_le32_def byte_at_def)

end
