(* ===== verification/Fatfs_Api.thy ===== *)
theory Fatfs_Api
  imports C_Text
begin

text \<open>
  The parts of the system the desktop programs call and do not own, as arguments of their models:
  the FatFs operations (\<open>src/ff.h\<close>) on an abstract file system state, and the answers Nuklear gives
  during one frame of the user interface.
\<close>

section \<open>FatFs\<close>

text \<open>Result codes are the values of \<open>FRESULT\<close>; 0 is \<open>FR_OK\<close>.\<close>

type_synonym fresult = nat

definition FR_OK :: fresult where "FR_OK = 0"

record filinfo =
  fname :: string
  fsize :: u32
  fattrib :: u8

definition AM_DIR :: u8 where "AM_DIR = 0x10"

text \<open>A directory object is a number handed out by \<open>f_opendir\<close>.\<close>

record 'f fatfs =
  f_opendir :: "string \<Rightarrow> 'f \<Rightarrow> fresult \<times> nat \<times> 'f"
  f_readdir :: "nat \<Rightarrow> 'f \<Rightarrow> fresult \<times> filinfo \<times> 'f"
  f_closedir :: "nat \<Rightarrow> 'f \<Rightarrow> 'f"
  f_unlink :: "string \<Rightarrow> 'f \<Rightarrow> fresult \<times> 'f"
  f_rename :: "string \<Rightarrow> string \<Rightarrow> 'f \<Rightarrow> fresult \<times> 'f"
  f_mkdir :: "string \<Rightarrow> 'f \<Rightarrow> fresult \<times> 'f"

text \<open>Files: \<open>f_read\<close> returns the bytes it delivers, \<open>f_write\<close> the number it stored.\<close>

definition FA_READ :: u8 where "FA_READ = 0x01"
definition FA_WRITE :: u8 where "FA_WRITE = 0x02"
definition FA_OPEN_EXISTING :: u8 where "FA_OPEN_EXISTING = 0x00"
definition FA_CREATE_ALWAYS :: u8 where "FA_CREATE_ALWAYS = 0x08"

record 'f files =
  f_open :: "string \<Rightarrow> u8 \<Rightarrow> 'f \<Rightarrow> fresult \<times> nat \<times> 'f"
  f_read :: "nat \<Rightarrow> nat \<Rightarrow> 'f \<Rightarrow> fresult \<times> char list \<times> 'f"
  f_write :: "nat \<Rightarrow> char list \<Rightarrow> 'f \<Rightarrow> fresult \<times> nat \<times> 'f"
  f_close :: "nat \<Rightarrow> 'f \<Rightarrow> 'f"

section \<open>The user interface\<close>

type_synonym nk_rect = "int \<times> int \<times> int \<times> int"

text \<open>What Nuklear answers in the current frame, by window title and label (list rows by index).\<close>

record ui =
  nk_begin :: "string \<Rightarrow> bool"
  nk_group_begin :: "string \<Rightarrow> bool"
  nk_button_label :: "string \<Rightarrow> string \<Rightarrow> bool"
  nk_menu_begin_label :: "string \<Rightarrow> bool"
  nk_menu_item_label :: "string \<Rightarrow> bool"
  nk_row_clicked :: "nat \<Rightarrow> bool"
  nk_row_hovered :: "nat \<Rightarrow> bool"
  nk_group_hovered :: bool
  nk_rect_hovered :: "nk_rect \<Rightarrow> bool"
  nk_right_pressed :: bool
  nk_left_pressed :: bool
  nk_window_get_bounds :: "string \<Rightarrow> nk_rect"
  nk_window_has_focus :: "string \<Rightarrow> bool"
  nk_window_is_hovered :: "string \<Rightarrow> bool"
  nk_item_is_any_active :: bool
  nk_window_is_hidden :: "string \<Rightarrow> bool"
  nk_edit_string :: "string \<Rightarrow> string \<Rightarrow> string"
  mouse_at :: "int \<times> int"
  mouse_down :: bool

text \<open>What a program does to Nuklear besides drawing.\<close>

datatype ui_event = Set_Focus string | Clear_Active

end
