(* ===== verification/Explorer.thy ===== *)
theory Explorer
  imports Fatfs_Api
begin

text \<open>
  The file explorer (\<open>src/explorer.c\<close>).  The globals of the file, the drag lock the kernel passes by
  reference, the file system and the requests to Nuklear are one record.  A C string of a fixed-size
  buffer is kept as its text, except for \<open>current_path\<close>, whose bytes are edited in place; a text that
  does not fit its buffer is \<^const>\<open>None\<close>.
\<close>

section \<open>State\<close>

definition MAX_FILES_PER_DIR :: nat where "MAX_FILES_PER_DIR = 32"
definition MAX_FILENAME_LEN :: nat where "MAX_FILENAME_LEN = 64"

record file_entry =
  entry_name :: string
  entry_size :: u32
  is_directory :: bool

record 'f explorer =
  file_explorer_active :: bool
  file_explorer_minimized :: bool
  current_dir_items :: "file_entry list"
  current_path :: "char list"
  explorer_needs_refresh :: bool
  show_context_menu :: bool
  context_menu_pos :: "int \<times> int"
  context_target_idx :: int
  target_item_name :: string
  show_rename_dialog :: bool
  show_delete_dialog :: bool
  show_mkdir_dialog :: bool
  op_input_buffer :: string
  bounds_file_explorer :: nk_rect
  active_drag_window_id :: int
  disk :: 'f
  ui_out :: "ui_event list"

section \<open>Paths\<close>

fun mini_strrchr :: "string \<Rightarrow> char \<Rightarrow> string option" where
  "mini_strrchr [] ch = None"
| "mini_strrchr (c # str) ch =
     (case mini_strrchr str ch of Some s \<Rightarrow> Some s | None \<Rightarrow> if c = ch then Some (c # str) else None)"

definition fit :: "nat \<Rightarrow> string \<Rightarrow> string option" where
  "fit cap s = (if length s < cap then Some s else None)"

text \<open>An empty base would be read at index -1.\<close>

definition build_full_path :: "string \<Rightarrow> string \<Rightarrow> string option" where
  "build_full_path base name =
     (if base = [] then None
      else fit 256 (base @ (if last base \<noteq> CHR '':'' then ''/'' else []) @ name))"

definition store_path :: "string \<Rightarrow> char list \<Rightarrow> char list option" where
  "store_path s buf = (if length s < length buf then Some (s @ NUL # drop (length s + 1) buf) else None)"

text \<open>\<open>while (i > 2 && path[i] != '/') i--\<close>\<close>

fun scan_back :: "char list \<Rightarrow> nat \<Rightarrow> nat option" where
  "scan_back path i =
     (if i > 2 then do { c \<leftarrow> get_at path i; if c \<noteq> CHR ''/'' then scan_back path (i - 1) else Some i }
      else Some i)"

definition explorer_go_up :: "char list \<Rightarrow> char list option" where
  "explorer_go_up path = do {
     s \<leftarrow> cstr path;
     let len = length s;
     if len \<le> 2 then Some path
     else do {
       c \<leftarrow> get_at path (len - 1);
       path \<leftarrow> (if c = CHR ''/'' then put_at (len - 1) NUL path else Some path);
       let len = (if c = CHR ''/'' then len - 1 else len);
       i \<leftarrow> scan_back path (len - 1);
       c \<leftarrow> get_at path i;
       if c = CHR ''/'' then (if i = 2 then put_at 3 NUL path else put_at i NUL path) else Some path
     }
   }"

text \<open>Descending into a directory of the list.\<close>

definition enter_directory :: "string \<Rightarrow> char list \<Rightarrow> char list option" where
  "enter_directory name path = do {
     s \<leftarrow> cstr path;
     let len = length s;
     let sep = (if len = 2 \<and> s ! 1 = CHR '':'' then ''/''
                else if len > 0 \<and> s ! (len - 1) \<noteq> CHR ''/'' \<and> s ! (len - 1) \<noteq> CHR '':'' then ''/'' else []);
     store_path (s @ sep @ name) path
   }"

section \<open>Directories\<close>

definition file_entry_of :: "filinfo \<Rightarrow> file_entry" where
  "file_entry_of fno = \<lparr>entry_name = take (MAX_FILENAME_LEN - 1) (fname fno), entry_size = fsize fno,
     is_directory = (fattrib fno AND AM_DIR \<noteq> 0)\<rparr>"

partial_function (option) populate_loop ::
  "'f fatfs \<Rightarrow> nat \<Rightarrow> file_entry list \<Rightarrow> 'f \<Rightarrow> (file_entry list \<times> 'f) option" where
  "populate_loop F dir items fs =
     (if length items < MAX_FILES_PER_DIR then
        (case f_readdir F dir fs of
           (res, fno, fs) \<Rightarrow>
             if res \<noteq> FR_OK then Some (items, fs)
             else if fname fno = [] then Some (items, fs)
             else if fname fno = ''.'' then populate_loop F dir items fs
             else populate_loop F dir (items @ [file_entry_of fno]) fs)
      else Some (items, fs))"

definition populate_directory :: "'f fatfs \<Rightarrow> string \<Rightarrow> 'f explorer \<Rightarrow> 'f explorer option" where
  "populate_directory F path x =
     (case f_opendir F path (disk x) of
        (res, dir, fs) \<Rightarrow>
          if res \<noteq> FR_OK then Some (x\<lparr>current_dir_items := [], disk := fs\<rparr>)
          else do {
            (items, fs) \<leftarrow> populate_loop F dir [] fs;
            Some (x\<lparr>current_dir_items := items, disk := f_closedir F dir fs\<rparr>)
          })"

definition explorer_trigger_refresh :: "'f explorer \<Rightarrow> 'f explorer" where
  "explorer_trigger_refresh x = x\<lparr>explorer_needs_refresh := True\<rparr>"

text \<open>Recursive deletion: entering a directory, and the loop over its entries.\<close>

datatype delete_call = Enter string | Entries string nat

definition delete_finish :: "'f fatfs \<Rightarrow> string \<Rightarrow> nat \<Rightarrow> fresult \<Rightarrow> 'f \<Rightarrow> fresult \<times> 'f" where
  "delete_finish F path dir res fs =
     (let fs = f_closedir F dir fs in if res = FR_OK then f_unlink F path fs else (res, fs))"

partial_function (option) delete_run :: "'f fatfs \<Rightarrow> delete_call \<Rightarrow> 'f \<Rightarrow> (fresult \<times> 'f) option" where
  "delete_run F call fs =
     (case call of
        Enter path \<Rightarrow>
          (case f_opendir F path fs of
             (res, dir, fs) \<Rightarrow> if res \<noteq> FR_OK then Some (res, fs) else delete_run F (Entries path dir) fs)
      | Entries path dir \<Rightarrow>
          (case f_readdir F dir fs of
             (res, fno, fs) \<Rightarrow>
               if res \<noteq> FR_OK \<or> fname fno = [] then Some (delete_finish F path dir res fs)
               else if hd (fname fno) = CHR ''.'' then delete_run F (Entries path dir) fs
               else do {
                 sub_path \<leftarrow> build_full_path path (fname fno);
                 (res, fs) \<leftarrow> (if fattrib fno AND AM_DIR \<noteq> 0 then delete_run F (Enter sub_path) fs
                              else Some (f_unlink F sub_path fs));
                 if res \<noteq> FR_OK then Some (delete_finish F path dir res fs)
                 else delete_run F (Entries path dir) fs
               }))"

definition empty_and_delete_dir :: "'f fatfs \<Rightarrow> string \<Rightarrow> 'f \<Rightarrow> (fresult \<times> 'f) option" where
  "empty_and_delete_dir F path fs = delete_run F (Enter path) fs"

section \<open>One frame\<close>

definition main_window :: string where "main_window = ''File Explorer''"

definition explorer_toolbar :: "ui \<Rightarrow> 'f explorer \<Rightarrow> 'f explorer option" where
  "explorer_toolbar u x = do {
     let x = x\<lparr>bounds_file_explorer := nk_window_get_bounds u main_window\<rparr>;
     x \<leftarrow> (if nk_button_label u main_window ''..'' then do {
             p \<leftarrow> explorer_go_up (current_path x);
             Some (x\<lparr>current_path := p, explorer_needs_refresh := True\<rparr>)
           } else Some x);
     Some (if nk_button_label u main_window ''Refresh'' then x\<lparr>explorer_needs_refresh := True\<rparr> else x)
   }"

text \<open>The text of a row; it fits its 90 bytes because names have at most 63 characters.\<close>

definition display_name :: "file_entry \<Rightarrow> string option" where
  "display_name e = fit 90 ((if is_directory e then ''[DIR]  '' else ''[FILE] '') @ entry_name e)"

definition explorer_row :: "ui \<Rightarrow> nat \<Rightarrow> bool \<times> 'f explorer \<Rightarrow> (bool \<times> 'f explorer) option" where
  "explorer_row u i s = do {
     let (hovered, x) = s;
     e \<leftarrow> get_at (current_dir_items x) i;
     _ \<leftarrow> display_name e;
     x \<leftarrow> (if nk_row_clicked u i \<and> is_directory e then do {
             p \<leftarrow> enter_directory (entry_name e) (current_path x);
             Some (x\<lparr>current_path := p, explorer_needs_refresh := True\<rparr>)
           } else Some x);
     if nk_row_hovered u i then
       (if nk_right_pressed u then do {
          t \<leftarrow> fit MAX_FILENAME_LEN (entry_name e);
          Some (True, x\<lparr>show_context_menu := True, context_menu_pos := mouse_at u,
                         context_target_idx := int i, target_item_name := t\<rparr>)
        } else Some (True, x))
     else Some (hovered, x)
   }"

primrec explorer_rows :: "ui \<Rightarrow> nat list \<Rightarrow> bool \<times> 'f explorer \<Rightarrow> (bool \<times> 'f explorer) option" where
  "explorer_rows u [] s = Some s"
| "explorer_rows u (i # is) s = do { s \<leftarrow> explorer_row u i s; explorer_rows u is s }"

definition explorer_main_window :: "ui \<Rightarrow> 'f explorer \<Rightarrow> 'f explorer option" where
  "explorer_main_window u x =
     (if nk_begin u main_window then do {
        x \<leftarrow> explorer_toolbar u x;
        if nk_group_begin u ''FileGroup'' then do {
          (item_hovered, x) \<leftarrow> explorer_rows u [0..<length (current_dir_items x)] (False, x);
          Some (if \<not> item_hovered \<and> nk_right_pressed u \<and> nk_group_hovered u
                then x\<lparr>show_context_menu := True, context_menu_pos := mouse_at u, context_target_idx := - 1\<rparr>
                else x)
        } else Some x
      } else Some x)"

definition explorer_focus :: "ui \<Rightarrow> 'f explorer \<Rightarrow> 'f explorer" where
  "explorer_focus u x =
     (if nk_window_has_focus u main_window \<or> active_drag_window_id x = 3 \<or> active_drag_window_id x = 6 \<or>
         active_drag_window_id x = 7
      then (if mouse_down u \<and> active_drag_window_id x = 0 then x\<lparr>active_drag_window_id := 3\<rparr> else x)
      else if nk_window_is_hovered u main_window \<and> mouse_down u \<and> active_drag_window_id x = 0 then
        (if \<not> nk_item_is_any_active u
         then x\<lparr>active_drag_window_id := 3, ui_out := ui_out x @ [Set_Focus main_window]\<rparr> else x)
      else x)"

definition explorer_context_menu :: "ui \<Rightarrow> 'f explorer \<Rightarrow> 'f explorer option" where
  "explorer_context_menu u x =
     (if show_context_menu x \<and> nk_begin u ''ExplorerContext'' then
        if context_target_idx x \<noteq> - 1 then do {
          x \<leftarrow> (if nk_button_label u ''ExplorerContext'' ''Rename'' then do {
                  t \<leftarrow> fit 64 (target_item_name x);
                  Some (x\<lparr>show_rename_dialog := True, op_input_buffer := t, show_context_menu := False\<rparr>)
                } else Some x);
          Some (if nk_button_label u ''ExplorerContext'' ''Delete''
                then x\<lparr>show_delete_dialog := True, show_context_menu := False\<rparr> else x)
        }
        else Some (if nk_button_label u ''ExplorerContext'' ''New Folder''
                   then x\<lparr>show_mkdir_dialog := True, op_input_buffer := [], show_context_menu := False\<rparr> else x)
      else Some x)"

text \<open>The common part of the three dialogs' exits: the drag lock is released and the focus returns to
  the main window.\<close>

definition leave_dialog :: "'f explorer \<Rightarrow> 'f explorer" where
  "leave_dialog x = x\<lparr>active_drag_window_id := 0, ui_out := ui_out x @ [Clear_Active, Set_Focus main_window]\<rparr>"

text \<open>The end of a dialog that was neither confirmed nor cancelled: the drag lock, and the close box,
  which hides the dialog (\<open>close\<close>) and ends the frame.\<close>

definition dialog_tail :: "ui \<Rightarrow> string \<Rightarrow> ('f explorer \<Rightarrow> 'f explorer) \<Rightarrow> 'f explorer \<Rightarrow> bool \<times> 'f explorer" where
  "dialog_tail u title close x =
     (let x = (if nk_window_has_focus u title \<and> mouse_down u then x\<lparr>active_drag_window_id := 7\<rparr> else x)
      in if nk_window_is_hidden u title then (True, leave_dialog (close x)) else (False, x))"

definition rename_dialog :: "'f fatfs \<Rightarrow> ui \<Rightarrow> 'f explorer \<Rightarrow> (bool \<times> 'f explorer) option" where
  "rename_dialog F u x =
     (if \<not> show_rename_dialog x then Some (False, x)
      else
        let title = ''Rename Item''; close = (\<lambda>x. x\<lparr>show_rename_dialog := False\<rparr>) in
        if nk_begin u title then do {
          let x = x\<lparr>op_input_buffer := nk_edit_string u title (op_input_buffer x)\<rparr>;
          if nk_button_label u title ''OK'' then do {
            base \<leftarrow> cstr (current_path x);
            path_old \<leftarrow> build_full_path base (target_item_name x);
            path_new \<leftarrow> build_full_path base (op_input_buffer x);
            let (fr, fs) = f_rename F path_old path_new (disk x);
            Some (True, leave_dialog (close (x\<lparr>disk := fs, explorer_needs_refresh := True\<rparr>)))
          }
          else if nk_button_label u title ''Cancel'' then Some (True, leave_dialog (close x))
          else Some (dialog_tail u title close x)
        }
        else Some (dialog_tail u title close x))"

definition delete_dialog :: "'f fatfs \<Rightarrow> ui \<Rightarrow> 'f explorer \<Rightarrow> (bool \<times> 'f explorer) option" where
  "delete_dialog F u x =
     (if \<not> show_delete_dialog x then Some (False, x)
      else
        let title = ''Confirm Delete''; close = (\<lambda>x. x\<lparr>show_delete_dialog := False\<rparr>) in
        if nk_begin u title then
          if nk_button_label u title ''OK'' then do {
            base \<leftarrow> cstr (current_path x);
            path_del \<leftarrow> build_full_path base (target_item_name x);
            (fr, fs) \<leftarrow> empty_and_delete_dir F path_del (disk x);
            Some (True, leave_dialog (close (x\<lparr>disk := fs, explorer_needs_refresh := True\<rparr>)))
          }
          else if nk_button_label u title ''Cancel'' then Some (True, leave_dialog (close x))
          else Some (dialog_tail u title close x)
        else Some (dialog_tail u title close x))"

definition mkdir_dialog :: "'f fatfs \<Rightarrow> ui \<Rightarrow> 'f explorer \<Rightarrow> (bool \<times> 'f explorer) option" where
  "mkdir_dialog F u x =
     (if \<not> show_mkdir_dialog x then Some (False, x)
      else
        let title = ''New Folder''; close = (\<lambda>x. x\<lparr>show_mkdir_dialog := False\<rparr>) in
        if nk_begin u title then do {
          let x = x\<lparr>op_input_buffer := nk_edit_string u title (op_input_buffer x)\<rparr>;
          if nk_button_label u title ''OK'' then do {
            base \<leftarrow> cstr (current_path x);
            path_make \<leftarrow> build_full_path base (op_input_buffer x);
            let (fr, fs) = f_mkdir F path_make (disk x);
            Some (True, leave_dialog (close (x\<lparr>disk := fs, explorer_needs_refresh := True\<rparr>)))
          }
          else if nk_button_label u title ''Cancel'' then Some (True, leave_dialog (close x))
          else Some (dialog_tail u title close x)
        }
        else Some (dialog_tail u title close x))"

definition context_rect :: "'f explorer \<Rightarrow> nk_rect" where
  "context_rect x = (fst (context_menu_pos x), snd (context_menu_pos x), 130, (if context_target_idx x \<noteq> - 1 then 60 else 36))"

definition render_file_explorer :: "'f fatfs \<Rightarrow> ui \<Rightarrow> 'f explorer \<Rightarrow> 'f explorer option" where
  "render_file_explorer F u x =
     (if \<not> file_explorer_active x \<or> file_explorer_minimized x then Some x
      else do {
        x \<leftarrow> (if explorer_needs_refresh x then do {
                path \<leftarrow> cstr (current_path x);
                x \<leftarrow> populate_directory F path x;
                Some (x\<lparr>explorer_needs_refresh := False\<rparr>)
              } else Some x);
        let x = (if show_context_menu x \<and> nk_left_pressed u \<and> \<not> nk_rect_hovered u (context_rect x)
                 then x\<lparr>show_context_menu := False\<rparr> else x);
        x \<leftarrow> explorer_main_window u x;
        let x = explorer_focus u x;
        let x = (if nk_window_is_hidden u main_window
                 then x\<lparr>file_explorer_active := False, show_context_menu := False\<rparr> else x);
        x \<leftarrow> explorer_context_menu u x;
        (stop, x) \<leftarrow> rename_dialog F u x;
        if stop then Some x
        else do {
          (stop, x) \<leftarrow> delete_dialog F u x;
          if stop then Some x
          else do { (stop, x) \<leftarrow> mkdir_dialog F u x; Some x }
        }
      })"

section \<open>Moving through the tree\<close>

declare scan_back.simps [simp del]

lemma scan_back_name:
  assumes "CHR ''/'' \<notin> set name" "2 \<le> length s" "k \<le> length name"
  shows "scan_back (s @ CHR ''/'' # name @ r) (length s + k) = Some (length s)"
  using assms(3)
proof (induction k)
  case 0
  show ?case using assms(2) by (simp add: scan_back.simps [of _ "length s"])
next
  case (Suc k)
  have "name ! k \<noteq> CHR ''/''" using assms(1) Suc.prems by (auto simp: in_set_conv_nth)
  then have "(s @ CHR ''/'' # name @ r) ! (length s + Suc k) \<noteq> CHR ''/''" using Suc.prems by (simp add: nth_append)
  then show ?case using Suc assms(2) by (simp add: scan_back.simps [of _ "Suc (length s + k)"])
qed

lemma go_up_strip:
  assumes "CHR ''/'' \<notin> set name" "NUL \<notin> set name" "name \<noteq> []" "2 \<le> length s" "NUL \<notin> set s"
  shows "\<exists>p. explorer_go_up (s @ CHR ''/'' # name @ NUL # r) = Some p \<and>
    cstr p = Some (if length s = 2 then s @ ''/'' else s) \<and> length p = length s + length name + length r + 2"
proof -
  let ?p = "s @ CHR ''/'' # name @ NUL # r" and ?n = "length s + length name"
  have str: "cstr ?p = Some (s @ CHR ''/'' # name)"
    using assms cstr_append [of "s @ CHR ''/'' # name" r] by (simp add: NUL_def)
  have "?p ! ?n = last name"
    using assms(3) by (simp add: nth_append last_conv_nth)
  then have lst: "?p ! ?n \<noteq> CHR ''/''" using assms(1,3) last_in_set by metis
  have scan: "scan_back ?p ?n = Some (length s)" using scan_back_name [OF assms(1,4), of "length name" "NUL # r"] by simp
  have go: "explorer_go_up ?p = (if length s = 2 then put_at 3 NUL ?p else put_at (length s) NUL ?p)"
    using lst scan assms(3,4) by (simp add: explorer_go_up_def str Let_def)
  show ?thesis
  proof (cases "length s = 2")
    case True
    then have "?p[3 := NUL] = (s @ ''/'') @ NUL # drop 1 (name @ NUL # r)"
      using assms(3) by (cases name) (auto simp: list_update_append numeral_eq_Suc)
    then show ?thesis using True go cstr_append [of "s @ ''/''" "drop 1 (name @ NUL # r)"] assms(3,5)
      by (cases name) (auto simp: NUL_def)
  next
    case False
    then have "?p[length s := NUL] = s @ NUL # name @ NUL # r" by (simp add: list_update_append)
    then show ?thesis using False go cstr_append [OF assms(5), of "name @ NUL # r"] by simp
  qed
qed

text \<open>The separator rule of \<open>enter_directory\<close>.\<close>

lemma path_join:
  assumes "s = ''0:'' \<and> b = ''0:'' \<or> s = ''0:/'' \<and> b = ''0:'' \<or>
      3 \<le> length s \<and> last s \<noteq> CHR ''/'' \<and> last s \<noteq> CHR '':'' \<and> b = s"
  shows "s @ (if length s = 2 \<and> s ! 1 = CHR '':'' then ''/''
      else if length s > 0 \<and> s ! (length s - 1) \<noteq> CHR ''/'' \<and> s ! (length s - 1) \<noteq> CHR '':'' then ''/'' else []) @ name
      = b @ CHR ''/'' # name"
proof -
  consider "s = ''0:''" "b = ''0:''" | "s = ''0:/''" "b = ''0:''"
    | "3 \<le> length s" "last s \<noteq> CHR ''/''" "last s \<noteq> CHR '':''" "b = s" using assms by blast
  then show ?thesis
  proof cases
    case 3
    then have "s \<noteq> []" by auto
    then have "s ! (length s - 1) = last s" "length s \<noteq> 2" "length s > 0" using 3 last_conv_nth [of s] by auto
    then show ?thesis using 3 by simp
  qed simp_all
qed

text \<open>Opening a directory and going up again returns to the same place: from any path below the
  root, and from the root, where the path comes back with its slash.\<close>

theorem explorer_enter_then_up:
  assumes "cstr path = Some s" "length path = 128" "length s + 1 + length name < 128"
    and "name \<noteq> []" "CHR ''/'' \<notin> set name" "NUL \<notin> set name"
    and "s = ''0:'' \<or> s = ''0:/'' \<or> 3 \<le> length s \<and> last s \<noteq> CHR ''/'' \<and> last s \<noteq> CHR '':''"
  shows "\<exists>p p'. enter_directory name path = Some p \<and> explorer_go_up p = Some p' \<and> length p' = 128 \<and>
    cstr p' = Some (if s = ''0:'' then ''0:/'' else s)"
proof -
  obtain b where b: "s = ''0:'' \<and> b = ''0:'' \<or> s = ''0:/'' \<and> b = ''0:'' \<or>
      3 \<le> length s \<and> last s \<noteq> CHR ''/'' \<and> last s \<noteq> CHR '':'' \<and> b = s"
    using assms(7) by blast
  have s: "NUL \<notin> set s" using cstr_Some [OF assms(1)] by blast
  let ?d = "drop (length b + length name + 2) path"
  have "enter_directory name path = Some (b @ CHR ''/'' # name @ NUL # ?d)"
    using path_join [OF b] assms(1-3) by (auto simp: enter_directory_def Let_def store_path_def)
  moreover have b2: "2 \<le> length b" "NUL \<notin> set b" using b s by (auto simp: NUL_def)
  moreover obtain p' where p': "explorer_go_up (b @ CHR ''/'' # name @ NUL # ?d) = Some p'"
      "cstr p' = Some (if length b = 2 then b @ ''/'' else b)" "length p' = length b + length name + length ?d + 2"
    using go_up_strip [OF assms(5,6,4) b2] by blast
  moreover have "length p' = 128" using p'(3) assms(2,3) b by auto
  moreover have "(if length b = 2 then b @ ''/'' else b) = (if s = ''0:'' then ''0:/'' else s)"
    using b by auto
  ultimately show ?thesis by auto
qed

theorem explorer_enter_then_up_witness:
  "\<exists>p p'. enter_directory ''docs'' (''0:'' @ replicate 126 NUL) = Some p \<and> explorer_go_up p = Some p' \<and> cstr p' = Some ''0:/''"
  using explorer_enter_then_up [of "''0:'' @ replicate 126 NUL" "''0:''" "''docs''"]
    cstr_append [of "''0:''" "replicate 125 NUL"]
  by (auto simp: NUL_def numeral_eq_Suc)

section \<open>Listing a directory\<close>

text \<open>The directory object delivers the entries \<open>es\<close>, in this order, and then the empty name, as
  \<open>f_readdir\<close> does.\<close>

primrec delivers :: "'f fatfs \<Rightarrow> nat \<Rightarrow> 'f \<Rightarrow> filinfo list \<Rightarrow> bool" where
  "delivers F dir fs [] \<longleftrightarrow> (\<exists>fno fs'. f_readdir F dir fs = (FR_OK, fno, fs') \<and> fname fno = [])"
| "delivers F dir fs (e # es) \<longleftrightarrow> (\<exists>fs'. f_readdir F dir fs = (FR_OK, e, fs') \<and> fname e \<noteq> [] \<and> delivers F dir fs' es)"

definition shown :: "filinfo list \<Rightarrow> file_entry list" where
  "shown es = map file_entry_of (filter (\<lambda>e. fname e \<noteq> ''.'') es)"

lemma populate_loop_lists:
  "delivers F dir fs es \<Longrightarrow> length items \<le> MAX_FILES_PER_DIR \<Longrightarrow>
     \<exists>fs'. populate_loop F dir items fs = Some (take MAX_FILES_PER_DIR (items @ shown es), fs')"
proof (induction es arbitrary: items fs)
  case Nil
  then obtain fno fs' where "f_readdir F dir fs = (FR_OK, fno, fs')" "fname fno = []" by auto
  then show ?case using Nil.prems(2) by (simp add: populate_loop.simps [of F dir items fs] shown_def)
next
  case (Cons e es)
  then obtain fs' where r: "f_readdir F dir fs = (FR_OK, e, fs')" "fname e \<noteq> []" "delivers F dir fs' es" by auto
  show ?case
  proof (cases "length items < MAX_FILES_PER_DIR")
    case True
    have "\<exists>fs''. populate_loop F dir items fs' = Some (take MAX_FILES_PER_DIR (items @ shown es), fs'')"
      using Cons.IH [OF r(3)] True by simp
    moreover have "\<exists>fs''. populate_loop F dir (items @ [file_entry_of e]) fs' =
        Some (take MAX_FILES_PER_DIR ((items @ [file_entry_of e]) @ shown es), fs'')"
      using Cons.IH [OF r(3), of "items @ [file_entry_of e]"] True by simp
    ultimately show ?thesis using True r by (simp add: populate_loop.simps [of F dir items fs] shown_def)
  next
    case False
    then show ?thesis using Cons.prems(2) by (simp add: populate_loop.simps [of F dir items fs])
  qed
qed

text \<open>Refreshing the explorer ends and shows the directory: the entries FatFs delivers in their
  order, without the entry for the directory itself, cut to the first 32, each with its name cut to
  63 characters and marked as directory or file.\<close>

theorem populate_lists_directory:
  assumes "f_opendir F path (disk x) = (FR_OK, dir, fs)" "delivers F dir fs es"
  shows "\<exists>fs'. populate_directory F path x = Some (x\<lparr>current_dir_items := take MAX_FILES_PER_DIR (shown es), disk := fs'\<rparr>)"
  using populate_loop_lists [OF assms(2), of "[]"] assms(1) by (auto simp: populate_directory_def)

definition list_fs :: "filinfo list fatfs" where
  "list_fs = \<lparr>f_opendir = (\<lambda>_ fs. (0, 1, fs)),
     f_readdir = (\<lambda>_ fs. case fs of [] \<Rightarrow> (0, \<lparr>fname = [], fsize = 0, fattrib = 0\<rparr>, []) | e # es \<Rightarrow> (0, e, es)),
     f_closedir = (\<lambda>_ fs. fs), f_unlink = (\<lambda>_ fs. (0, fs)), f_rename = (\<lambda>_ _ fs. (0, fs)), f_mkdir = (\<lambda>_ fs. (0, fs))\<rparr>"

definition explorer_boot :: "'f \<Rightarrow> 'f explorer" where
  "explorer_boot fs = \<lparr>file_explorer_active = False, file_explorer_minimized = False, current_dir_items = [],
     current_path = ''0:'' @ replicate 126 NUL, explorer_needs_refresh = True, show_context_menu = False,
     context_menu_pos = (0, 0), context_target_idx = - 1, target_item_name = [], show_rename_dialog = False,
     show_delete_dialog = False, show_mkdir_dialog = False, op_input_buffer = [], bounds_file_explorer = (120, 90, 500, 350),
     active_drag_window_id = 0, disk = fs, ui_out = []\<rparr>"

theorem populate_lists_directory_witness:
  "\<exists>x. populate_directory list_fs ''0:'' (explorer_boot
      [\<lparr>fname = ''.'', fsize = 0, fattrib = 0x10\<rparr>, \<lparr>fname = ''docs'', fsize = 0, fattrib = 0x10\<rparr>]) = Some x \<and>
    map entry_name (current_dir_items x) = [''docs'']"
proof -
  let ?es = "[\<lparr>fname = ''.'', fsize = 0, fattrib = 0x10\<rparr>, \<lparr>fname = ''docs'', fsize = 0, fattrib = 0x10\<rparr>]"
  have "f_opendir list_fs ''0:'' (disk (explorer_boot ?es)) = (FR_OK, 1, ?es)"
    by (simp add: list_fs_def explorer_boot_def FR_OK_def)
  moreover have "delivers list_fs 1 ?es ?es" by (simp add: list_fs_def FR_OK_def)
  ultimately show ?thesis
    using populate_lists_directory [of list_fs "''0:''" "explorer_boot ?es" 1 ?es ?es]
    by (auto simp: shown_def file_entry_of_def MAX_FILES_PER_DIR_def MAX_FILENAME_LEN_def)
qed

end
