(* ===== verification/Nic.thy ===== *)
theory Nic
  imports Disk Loops
begin

text \<open>
  The network card driver (\<open>src/rtl8139.c\<close>) and the glue that connects it to the network stack
  (\<open>src/network/port/netif_driver.c\<close>).  The card is a port parameter; it also writes the receive
  ring by itself, so the ring is a view \<open>rx\<close> of the hardware state.  The link-time addresses of the
  buffers and the network stack are arguments.
\<close>

section \<open>Registers and state\<close>

definition RTL8139_VENDOR_ID :: u32 where "RTL8139_VENDOR_ID = 0x10EC"
definition RTL8139_DEVICE_ID :: u32 where "RTL8139_DEVICE_ID = 0x8139"
definition REG_MAC0 :: u32 where "REG_MAC0 = 0x00"
definition REG_TXSTATUS0 :: u32 where "REG_TXSTATUS0 = 0x10"
definition REG_TXADDR0 :: u32 where "REG_TXADDR0 = 0x20"
definition REG_RBSTART :: u32 where "REG_RBSTART = 0x30"
definition REG_COMMAND :: u32 where "REG_COMMAND = 0x37"
definition REG_CAPR :: u32 where "REG_CAPR = 0x38"
definition REG_IMR :: u32 where "REG_IMR = 0x3C"
definition REG_RCR :: u32 where "REG_RCR = 0x44"
definition REG_CONFIG1 :: u32 where "REG_CONFIG1 = 0x52"

record nic =
  io_base :: u32
  rx_offset :: u32
  tx_buffers :: "u8 list list"
  tx_counter :: u8
  mac_address :: "u8 list"

definition rx_buffer_size :: nat where "rx_buffer_size = 8192 + 16 + 1518"

definition nic_boot :: nic where
  "nic_boot = \<lparr>io_base = 0, rx_offset = 0, tx_buffers = replicate 4 (replicate 1536 0), tx_counter = 0,
     mac_address = replicate 6 0\<rparr>"

definition outl :: "'d ports \<Rightarrow> u16 \<Rightarrow> u32 \<Rightarrow> 'd \<Rightarrow> 'd" where
  "outl B port val d = out32 B port val d"

definition inl :: "'d ports \<Rightarrow> u16 \<Rightarrow> 'd \<Rightarrow> u32 \<times> 'd" where
  "inl B port d = in32 B port d"

section \<open>PCI configuration space\<close>

definition pci_address :: "u8 \<Rightarrow> u8 \<Rightarrow> u8 \<Rightarrow> u8 \<Rightarrow> u32" where
  "pci_address bus slot func offset =
     push_bit 16 (ucast bus) OR push_bit 11 (ucast slot) OR push_bit 8 (ucast func) OR ucast (offset AND 0xFC) OR 0x80000000"

definition pci_read_config :: "'d ports \<Rightarrow> u8 \<Rightarrow> u8 \<Rightarrow> u8 \<Rightarrow> u8 \<Rightarrow> 'd \<Rightarrow> u32 \<times> 'd" where
  "pci_read_config B bus slot func offset d =
     (let d = outl B 0xCF8 (pci_address bus slot func offset) d; (val, d) = inl B 0xCFC d
      in if offset = 0x10 then (val, d)
         else (drop_bit (unat (offset AND 2) * 8) val AND 0xFFFF, d))"

definition pci_write_config_dword :: "'d ports \<Rightarrow> u8 \<Rightarrow> u8 \<Rightarrow> u8 \<Rightarrow> u8 \<Rightarrow> u32 \<Rightarrow> 'd \<Rightarrow> 'd" where
  "pci_write_config_dword B bus slot func offset val d =
     outl B 0xCFC val (outl B 0xCF8 (pci_address bus slot func offset) d)"

section \<open>Bringing the card up\<close>

text \<open>\<open>n\<close> more polls of the reset bit are allowed after this one.\<close>

primrec reset_wait :: "'d ports \<Rightarrow> u32 \<Rightarrow> nat \<Rightarrow> 'd \<Rightarrow> bool \<times> 'd" where
  "reset_wait B base 0 d = (let (c, d) = inb B (ucast (base + REG_COMMAND)) d in (c AND 0x10 = 0, d))"
| "reset_wait B base (Suc n) d =
     (let (c, d) = inb B (ucast (base + REG_COMMAND)) d
      in if c AND 0x10 \<noteq> 0 then reset_wait B base n d else (True, d))"

primrec read_mac :: "'d ports \<Rightarrow> u32 \<Rightarrow> nat list \<Rightarrow> u8 list \<times> 'd \<Rightarrow> u8 list \<times> 'd" where
  "read_mac B base [] s = s"
| "read_mac B base (i # is) s =
     (let (mac, d) = s; (v, d) = inb B (ucast (base + REG_MAC0 + of_nat i)) d
      in read_mac B base is (mac[i := v], d))"

definition setup_card :: "'d ports \<Rightarrow> u32 \<Rightarrow> u8 \<Rightarrow> u8 \<Rightarrow> nic \<Rightarrow> 'd \<Rightarrow> bool \<times> nic \<times> 'd" where
  "setup_card B rx_addr bus slot s d =
     (let (bar0, d) = pci_read_config B bus slot 0 0x10 d;
          s = s\<lparr>io_base := bar0 AND NOT 3\<rparr>;
          base = io_base s
      in if base = 0 \<or> base = 0xFFFC then (False, s, d)
         else
           let (pci_cmd, d) = pci_read_config B bus slot 0 0x04 d;
               d = pci_write_config_dword B bus slot 0 0x04 (pci_cmd OR 4) d;
               d = outb B (ucast (base + REG_CONFIG1)) 0x00 d;
               d = outb B (ucast (base + REG_COMMAND)) 0x10 d;
               (ok, d) = reset_wait B base 1000000 d
           in if \<not> ok then (False, s, d)
              else
                let (mac, d) = read_mac B base [0..<6] (mac_address s, d);
                    d = outl B (ucast (base + REG_RBSTART)) rx_addr d;
                    d = outw B (ucast (base + REG_IMR)) 0x0000 d;
                    d = outl B (ucast (base + REG_RCR)) (0x0000000F OR 0x80) d;
                    d = outb B (ucast (base + REG_COMMAND)) 0x0C d
                in (True, s\<lparr>mac_address := mac\<rparr>, d))"

primrec pci_scan :: "'d ports \<Rightarrow> u32 \<Rightarrow> (u8 \<times> u8) list \<Rightarrow> nic \<Rightarrow> 'd \<Rightarrow> bool \<times> nic \<times> 'd" where
  "pci_scan B rx_addr [] s d = (False, s, d)"
| "pci_scan B rx_addr (p # ps) s d =
     (let (bus, slot) = p;
          (vendor, d) = pci_read_config B bus slot 0 0x00 d;
          (device, d) = pci_read_config B bus slot 0 0x02 d
      in if vendor = RTL8139_VENDOR_ID \<and> device = RTL8139_DEVICE_ID then setup_card B rx_addr bus slot s d
         else pci_scan B rx_addr ps s d)"

definition init_rtl8139 :: "'d ports \<Rightarrow> u32 \<Rightarrow> nic \<Rightarrow> 'd \<Rightarrow> bool \<times> nic \<times> 'd" where
  "init_rtl8139 B rx_addr s d =
     pci_scan B rx_addr (List.product (map of_nat [0..<256]) (map of_nat [0..<32])) s d"

section \<open>Sending and receiving\<close>

text \<open>\<open>buffer\<close> is \<^const>\<open>None\<close> for a null pointer.  The slot and the source are checked arrays.\<close>

definition nic_transmit_packet ::
  "'d ports \<Rightarrow> (nat \<Rightarrow> u32) \<Rightarrow> u8 list option \<Rightarrow> u32 \<Rightarrow> nic \<Rightarrow> 'd \<Rightarrow> (nic \<times> 'd) option" where
  "nic_transmit_packet B tx_addr buffer len s d =
     (if io_base s = 0 \<or> io_base s = 0xFFFC then Some (s, d)
      else case buffer of
        None \<Rightarrow> Some (s, d)
      | Some data \<Rightarrow>
          if len > 1536 \<or> len = 0 then Some (s, d)
          else do {
            slot \<leftarrow> get_at (tx_buffers s) (unat (tx_counter s));
            slot \<leftarrow> (if unat len \<le> length data \<and> unat len \<le> length slot
                     then Some (take (unat len) data @ drop (unat len) slot) else None);
            bufs \<leftarrow> put_at (unat (tx_counter s)) slot (tx_buffers s);
            let addr_reg = io_base s + REG_TXADDR0 + ucast (tx_counter s) * 4;
            let status_reg = io_base s + REG_TXSTATUS0 + ucast (tx_counter s) * 4;
            let d = outl B (ucast addr_reg) (tx_addr (unat (tx_counter s))) d;
            let d = outl B (ucast status_reg) (len AND 0x1FFF) d;
            Some (s\<lparr>tx_buffers := bufs, tx_counter := (tx_counter s + 1) mod 4\<rparr>, d)
          })"

definition ring16 :: "u8 list \<Rightarrow> nat \<Rightarrow> u16 option" where
  "ring16 ring i = do { b0 \<leftarrow> get_at ring i; b1 \<leftarrow> get_at ring (i + 1); Some (ucast b0 OR push_bit 8 (ucast b1)) }"

text \<open>\<open>memcpy\<close> out of the receive ring: \<open>n\<close> is the unsigned size after conversion.\<close>

definition rx_copy :: "u8 list \<Rightarrow> nat \<Rightarrow> nat \<Rightarrow> u8 list \<Rightarrow> u8 list option" where
  "rx_copy ring from n buffer =
     (if from + n \<le> length ring \<and> n \<le> length buffer then Some (take n (drop from ring) @ drop n buffer) else None)"

definition next_rx :: "u32 \<Rightarrow> u16 \<Rightarrow> u32" where
  "next_rx offset len =
     (let r = (offset + ucast len + 4 + 3) AND NOT 3 in if r \<ge> 8192 then r - 8192 else r)"

definition nic_poll_received_packet ::
  "'d ports \<Rightarrow> ('d \<Rightarrow> u8 list) \<Rightarrow> u8 list \<Rightarrow> nic \<Rightarrow> 'd \<Rightarrow> (u32 \<times> u8 list \<times> nic \<times> 'd) option" where
  "nic_poll_received_packet B rx buffer s d =
     (if io_base s = 0 then Some (0, buffer, s, d)
      else
        let (c, d) = inb B (ucast (io_base s + REG_COMMAND)) d in
        if c AND 0x01 \<noteq> 0 then Some (0, buffer, s, d)
        else do {
          let offset = unat (rx_offset s);
          status \<leftarrow> ring16 (rx d) offset;
          len \<leftarrow> ring16 (rx d) (offset + 2);
          if status AND 0x01 \<noteq> 0 then do {
            buffer \<leftarrow> rx_copy (rx d) (offset + 4) (unat (ucast len - 4 :: u32)) buffer;
            let r = next_rx (rx_offset s) len;
            let d = outw B (ucast (io_base s + REG_CAPR)) (ucast (r - 0x10)) d;
            Some (ucast len - 4, buffer, s\<lparr>rx_offset := r\<rparr>, d)
          } else do {
            let len = (if len = 0 \<or> len > 1536 then 64 else len);
            let r = next_rx (rx_offset s) len;
            let d = outw B (ucast (io_base s + REG_CAPR)) (ucast (r - 0x10)) d;
            Some (0, buffer, s\<lparr>rx_offset := r\<rparr>, d)
          }
        })"

section \<open>The network interface\<close>

text \<open>A packet of the stack is a chain of payloads.  The copy stops at the size of the frame buffer.\<close>

definition low_level_output ::
  "'d ports \<Rightarrow> (nat \<Rightarrow> u32) \<Rightarrow> u8 list list \<Rightarrow> nic \<Rightarrow> 'd \<Rightarrow> (nic \<times> 'd) option" where
  "low_level_output B tx_addr chain s d =
     (let frame = fold (\<lambda>q tx. fold (\<lambda>b tx. if length tx < 1518 then tx @ [b] else tx) q tx) chain []
      in nic_transmit_packet B tx_addr (Some (frame @ replicate (1518 - length frame) 0)) (of_nat (length frame)) s d)"

text \<open>The operations of the stack: allocating a packet of a size, filling it, handing it in (true for
  \<open>ERR_OK\<close>) and freeing it.\<close>

record ('p, 'l) lwip =
  pbuf_alloc :: "u32 \<Rightarrow> 'l \<Rightarrow> 'p option \<times> 'l"
  pbuf_take :: "'p \<Rightarrow> u8 list \<Rightarrow> 'l \<Rightarrow> 'l"
  netif_input :: "'p \<Rightarrow> 'l \<Rightarrow> bool \<times> 'l"
  pbuf_free :: "'p \<Rightarrow> 'l \<Rightarrow> 'l"

definition deliver :: "('p, 'l) lwip \<Rightarrow> u8 list \<Rightarrow> u32 \<Rightarrow> 'l \<Rightarrow> 'l" where
  "deliver L rx_temp_buffer packet_len l =
     (case pbuf_alloc L packet_len l of
        (None, l) \<Rightarrow> l
      | (Some p, l) \<Rightarrow>
          let l = pbuf_take L p (take (unat packet_len) rx_temp_buffer) l;
              (ok, l) = netif_input L p l
          in if ok then l else pbuf_free L p l)"

partial_function (option) poll_loop ::
  "'d ports \<Rightarrow> ('d \<Rightarrow> u8 list) \<Rightarrow> ('p, 'l) lwip \<Rightarrow> u32 \<Rightarrow> u8 list \<Rightarrow> nic \<Rightarrow> 'd \<Rightarrow> 'l \<Rightarrow> (u8 list \<times> nic \<times> 'd \<times> 'l) option" where
  "poll_loop B rx L packet_len buffer s d l =
     (if packet_len > 0 then do {
        let l = deliver L buffer packet_len l;
        (packet_len, buffer, s, d) \<leftarrow> nic_poll_received_packet B rx buffer s d;
        poll_loop B rx L packet_len buffer s d l
      } else Some (buffer, s, d, l))"

definition netif_driver_poll ::
  "'d ports \<Rightarrow> ('d \<Rightarrow> u8 list) \<Rightarrow> ('p, 'l) lwip \<Rightarrow> u8 list \<Rightarrow> nic \<Rightarrow> 'd \<Rightarrow> 'l \<Rightarrow> (u8 list \<times> nic \<times> 'd \<times> 'l) option" where
  "netif_driver_poll B rx L rx_temp_buffer s d l = do {
     (packet_len, buffer, s, d) \<leftarrow> nic_poll_received_packet B rx rx_temp_buffer s d;
     poll_loop B rx L packet_len buffer s d l
   }"

record netif =
  netif_name :: string
  netif_mtu :: u16
  netif_flags :: u8
  netif_hwaddr_len :: u8
  netif_hwaddr :: "u8 list"

text \<open>\<open>NETIF_FLAG_BROADCAST\<close> 0x02, \<open>NETIF_FLAG_LINK_UP\<close> 0x04, \<open>NETIF_FLAG_ETHARP\<close> 0x08,
  \<open>NETIF_FLAG_ETHERNET\<close> 0x10.\<close>

definition netif_driver_init :: "nic \<Rightarrow> netif \<Rightarrow> netif" where
  "netif_driver_init s n =
     (let n = n\<lparr>netif_name := ''en'', netif_mtu := 1500, netif_flags := 0x02 OR 0x08 OR 0x04, netif_hwaddr_len := 6\<rparr>;
          n = n\<lparr>netif_hwaddr := fold (\<lambda>i hw. hw[i := mac_address s ! i]) [0..<6] (netif_hwaddr n)\<rparr>
      in n\<lparr>netif_flags := netif_flags n OR (0x02 OR 0x08 OR 0x10)\<rparr>)"

section \<open>Receiving\<close>

lemma unat_next_rx:
  assumes "unat offset < 8192" "unat len \<le> 1600"
  shows "unat (next_rx offset len) < 8192 \<and> unat (next_rx offset len) mod 4 = 0 \<and>
    unat (next_rx offset len) = ((unat offset + unat len + 7) div 4 * 4) mod 8192"
proof -
  have len: "unat (ucast len :: u32) = unat len"
    using unat_lt_u16 [of len] by (simp add: unsigned_ucast_eq unsigned_take_bit_eq take_bit_nat_eq_self)
  have sum: "unat (offset + ucast len + 4 + 3) = unat offset + unat len + 7"
  proof -
    have "unat (offset + ucast len) = unat offset + unat len" using assms len by (subst unat_add_u32) auto
    moreover have "unat (offset + ucast len + 4) = unat (offset + ucast len) + 4" using calculation assms by (subst unat_add_u32) auto
    ultimately show ?thesis using assms by (subst unat_add_u32) auto
  qed
  define r where "r = (offset + ucast len + 4 + 3) AND NOT (3 :: u32)"
  have r: "unat r = (unat offset + unat len + 7) div 4 * 4"
    unfolding r_def using unat_and_not_3 [of "offset + ucast len + 4 + 3"] sum by simp
  have le: "unat r \<le> unat offset + unat len + 7" by (simp add: r)
  have nx: "next_rx offset len = (if r \<ge> 8192 then r - 8192 else r)" by (simp add: next_rx_def r_def Let_def)
  have m4: "(unat r - 8192) mod 4 = 0" if "8192 \<le> unat r" using that r by (simp add: mod_eq_0_iff_dvd dvd_diff_nat)
  show ?thesis
  proof (cases "8192 \<le> unat r")
    case True
    then have "unat (next_rx offset len) = unat r - 8192" by (simp add: nx word_le_nat_alt unat_sub_u32)
    moreover have "unat r - 8192 = unat r mod 8192" using True le assms by (simp add: le_mod_geq)
    ultimately show ?thesis using le assms True m4 r by simp
  next
    case False
    then have "unat (next_rx offset len) = unat r" by (simp add: nx word_le_nat_alt)
    then show ?thesis using False r by simp
  qed
qed

text \<open>C26. Receiving: when the card reports a packet and its header announces a length between 4 and
  1522 bytes, the driver copies exactly the payload of that length (without the checksum) into the
  frame buffer, and moves its ring offset past it, rounded up to four bytes and modulo 8192, so the
  offset stays inside the ring and aligned.\<close>

theorem nic_poll_delivers:
  assumes "io_base s \<noteq> 0" "inb B (ucast (io_base s + REG_COMMAND)) d = (c, d')" "c AND 1 = 0"
    and "length (rx d') = rx_buffer_size" "length buffer = 2048" "unat (rx_offset s) < 8192"
    and "ring16 (rx d') (unat (rx_offset s)) = Some status" "status AND 1 \<noteq> 0"
    and "ring16 (rx d') (unat (rx_offset s) + 2) = Some len" "4 \<le> unat len" "unat len \<le> 1522"
  shows "\<exists>n r d''. n = unat len - 4 \<and>
    nic_poll_received_packet B rx buffer s d =
      Some (of_nat n, take n (drop (unat (rx_offset s) + 4) (rx d')) @ drop n buffer, s\<lparr>rx_offset := r\<rparr>, d'') \<and>
    unat r = ((unat (rx_offset s) + unat len + 7) div 4 * 4) mod 8192 \<and> unat r < 8192 \<and> unat r mod 4 = 0"
proof -
  have len: "unat (ucast len :: u32) = unat len"
    using unat_lt_u16 [of len] by (simp add: unsigned_ucast_eq unsigned_take_bit_eq take_bit_nat_eq_self)
  then have n: "unat (ucast len - 4 :: u32) = unat len - 4" using assms(10) by (subst unat_sub_u32) auto
  then have n': "(ucast len - 4 :: u32) = of_nat (unat len - 4)" by (metis of_nat_unat ucast_id)
  have copy: "rx_copy (rx d') (unat (rx_offset s) + 4) (unat (ucast len - 4 :: u32)) buffer =
      Some (take (unat len - 4) (drop (unat (rx_offset s) + 4) (rx d')) @ drop (unat len - 4) buffer)"
    using assms(4-6,10,11) by (simp add: rx_copy_def n rx_buffer_size_def)
  have "unat len \<le> 1600" using assms(11) by simp
  note r = unat_next_rx [OF assms(6) this]
  show ?thesis
    using assms(1-3,7-9) copy r
    by (auto simp: nic_poll_received_packet_def Let_def n' [symmetric] intro!: exI [of _ "next_rx (rx_offset s) len"])
qed

definition demo_ring :: "u8 list" where
  "demo_ring = [1, 0, 64, 0] @ replicate 9722 7"

theorem nic_poll_delivers_witness:
  "\<exists>r d''. nic_poll_received_packet (recorder (\<lambda>_. 0)) (\<lambda>_. demo_ring) (replicate 2048 0) (nic_boot\<lparr>io_base := 0xC000\<rparr>) [] =
     Some (60, take 60 (drop 4 demo_ring) @ drop 60 (replicate 2048 0), nic_boot\<lparr>io_base := 0xC000, rx_offset := r\<rparr>, d'')"
proof -
  define z where "z = (replicate 9722 7 :: u8 list)"
  have ring: "demo_ring = 1 # 0 # 64 # 0 # z" "length z = 9722" by (simp_all add: demo_ring_def z_def)
  have "length (replicate 2048 (0 :: u8)) = 2048" by simp
  then show ?thesis
    using nic_poll_delivers [of "nic_boot\<lparr>io_base := 0xC000\<rparr>" "recorder (\<lambda>_. 0)" "[]" 0 "[In8 0xC037]" "\<lambda>_. demo_ring"
        "replicate 2048 0" 1 64]
    by (simp add: ring rx_buffer_size_def nic_boot_def REG_COMMAND_def ring16_def) blast
qed

section \<open>Sending\<close>

lemma fold_bounded:
  "length tx \<le> n \<Longrightarrow> fold (\<lambda>b tx. if length tx < n then tx @ [b] else tx) q tx = take n (tx @ q)"
proof (induction q arbitrary: tx)
  case (Cons b q)
  show ?case
  proof (cases "length tx < n")
    case True
    then show ?thesis using Cons.IH [of "tx @ [b]"] by simp
  next
    case False
    then show ?thesis using Cons by simp
  qed
qed simp

lemma fold_chain:
  "length tx \<le> n \<Longrightarrow>
     fold (\<lambda>q tx. fold (\<lambda>b tx. if length tx < n then tx @ [b] else tx) q tx) chain tx = take n (tx @ concat chain)"
proof (induction chain arbitrary: tx)
  case (Cons q chain)
  have "length (take n (tx @ q)) \<le> n" by simp
  then show ?case using Cons fold_bounded [OF Cons.prems, of q] by (simp add: min_def take_append)
qed simp

lemma and_8191: "unat (w :: u32) < 8192 \<Longrightarrow> w AND 0x1FFF = w"
proof -
  assume "unat w < 8192"
  then have "take_bit 13 w = w" by (intro word_unat_eq_iff [THEN iffD2]) (simp add: unsigned_take_bit_eq take_bit_nat_eq_self)
  then show ?thesis by (simp add: take_bit_eq_mask mask_eq_exp_minus_1)
qed

definition nic_inv :: "nic \<Rightarrow> bool" where
  "nic_inv s \<longleftrightarrow> length (tx_buffers s) = 4 \<and> (\<forall>b \<in> set (tx_buffers s). length b = 1536) \<and> unat (tx_counter s) < 4"

text \<open>Sending: a packet chain of the network stack becomes one frame, cut to 1518 bytes, in the
  next of the four transmit buffers; the card is told its address and then, by the length that starts
  the transmission, at the register pair of that buffer, and nothing else; the other buffers keep their
  contents and the buffers take turns.\<close>

theorem low_level_output_transmits:
  assumes "nic_inv s" "io_base s \<noteq> 0" "io_base s \<noteq> 0xFFFC" "concat chain \<noteq> []"
  shows "\<exists>slot. low_level_output (recorder f) tx_addr chain s h =
      Some (s\<lparr>tx_buffers := (tx_buffers s)[unat (tx_counter s) := slot], tx_counter := (tx_counter s + 1) mod 4\<rparr>,
        h @ [Out32 (ucast (io_base s + REG_TXADDR0 + ucast (tx_counter s) * 4)) (tx_addr (unat (tx_counter s))),
             Out32 (ucast (io_base s + REG_TXSTATUS0 + ucast (tx_counter s) * 4)) (of_nat (length (take 1518 (concat chain))))]) \<and>
    take (length (take 1518 (concat chain))) slot = take 1518 (concat chain) \<and>
    nic_inv (s\<lparr>tx_buffers := (tx_buffers s)[unat (tx_counter s) := slot], tx_counter := (tx_counter s + 1) mod 4\<rparr>)"
proof -
  let ?i = "unat (tx_counter s)"
  define fr where "fr = take 1518 (concat chain)"
  have fr: "fold (\<lambda>q tx. fold (\<lambda>b tx. if length tx < 1518 then tx @ [b] else tx) q tx) chain [] = fr"
    using fold_chain [of "[]" 1518 chain] by (simp add: fr_def)
  have len: "0 < length fr" "length fr \<le> 1518" using assms(4) by (simp_all add: fr_def)
  have u: "unat (of_nat (length fr) :: u32) = length fr" using len(2) by (intro unat_of_nat_u32) simp
  have guard: "\<not> (of_nat (length fr) :: u32) > 1536" "(of_nat (length fr) :: u32) \<noteq> 0"
    using len u by (auto simp: word_less_nat_alt)
  have msk: "(of_nat (length fr) :: u32) AND 0x1FFF = of_nat (length fr)"
    by (rule and_8191) (use u len(2) in simp)
  have i: "?i < length (tx_buffers s)" and old: "length (tx_buffers s ! ?i) = 1536" using assms(1) by (simp_all add: nic_inv_def)
  define slot where "slot = fr @ drop (length fr) (tx_buffers s ! ?i)"
  have slot: "length slot = 1536" "take (length fr) slot = fr" using old len(2) by (simp_all add: slot_def)
  have "low_level_output (recorder f) tx_addr chain s h =
      Some (s\<lparr>tx_buffers := (tx_buffers s)[?i := slot], tx_counter := (tx_counter s + 1) mod 4\<rparr>,
        h @ [Out32 (ucast (io_base s + REG_TXADDR0 + ucast (tx_counter s) * 4)) (tx_addr ?i),
             Out32 (ucast (io_base s + REG_TXSTATUS0 + ucast (tx_counter s) * 4)) (of_nat (length fr))])"
    using assms(2,3) guard i old len(2) unfolding low_level_output_def fr Let_def
    by (simp add: nic_transmit_packet_def Let_def u msk slot_def [symmetric] outl_def recorder_def)
  moreover have "nic_inv (s\<lparr>tx_buffers := (tx_buffers s)[?i := slot], tx_counter := (tx_counter s + 1) mod 4\<rparr>)"
    using assms(1) slot(1) set_update_subset_insert [of "tx_buffers s" ?i slot]
    by (auto simp: nic_inv_def unat_mod_distrib)
  ultimately show ?thesis using slot(2) unfolding fr_def [symmetric] by blast
qed

theorem low_level_output_transmits_witness:
  "\<exists>s' h'. low_level_output (recorder (\<lambda>_. 0)) (\<lambda>i. of_nat i * 1536) [[1, 2], [3]] (nic_boot\<lparr>io_base := 0xC000\<rparr>) [] = Some (s', h')"
  using low_level_output_transmits [of "nic_boot\<lparr>io_base := 0xC000\<rparr>" "[[1, 2], [3]]" "\<lambda>_. 0" "\<lambda>i. of_nat i * 1536" "[]"]
  by (auto simp: nic_inv_def nic_boot_def)

end
