(* ===== verification/Naoedit.thy ===== *)
theory Naoedit
  imports Fatfs_Api Ani
begin

text \<open>
  The text editor (\<open>src/naoedit.c\<close>): its buffers, the delayed open and save with the busy pointer, and
  the frame routine.  FatFs and the answers of Nuklear are arguments; a text that does not fit its
  buffer is \<^const>\<open>None\<close>.
\<close>

section \<open>State\<close>

definition MAX_TEXT_LEN :: nat where "MAX_TEXT_LEN = 4096"

record 'f naoedit =
  naoedit_active :: bool
  naoedit_minimized :: bool
  text_buffer :: "char list"
  text_len :: nat
  filepath_buffer :: string
  show_open_dialog :: bool
  show_save_dialog :: bool
  file_op_state :: nat
  file_op_start_tick :: u32
  alert_state :: nat
  alert_message :: string
  bounds_naoedit :: nk_rect
  drag_window_id :: int
  pointer :: ani
  storage :: 'f
  requests :: "ui_event list"

definition put_text :: "string \<Rightarrow> char list \<Rightarrow> char list option" where
  "put_text s buf = (if length s < length buf then Some (s @ NUL # drop (length s + 1) buf) else None)"

definition alert :: "nat \<Rightarrow> string \<Rightarrow> 'f naoedit \<Rightarrow> 'f naoedit" where
  "alert kind msg e = e\<lparr>alert_state := kind, alert_message := msg\<rparr>"

section \<open>Opening and saving\<close>

definition execute_actual_open :: "'f files \<Rightarrow> string \<Rightarrow> 'f naoedit \<Rightarrow> 'f naoedit option" where
  "execute_actual_open F path e =
     (case f_open F path (FA_READ OR FA_OPEN_EXISTING) (storage e) of
        (fr, h, fs) \<Rightarrow>
          if fr = FR_OK then do {
            let (fr, bytes, fs) = f_read F h (MAX_TEXT_LEN - 1) fs;
            e \<leftarrow> (if fr = FR_OK then do {
                    buf \<leftarrow> put_text bytes (text_buffer e);
                    Some (e\<lparr>text_buffer := buf, text_len := length bytes, alert_state := 0\<rparr>)
                  } else Some (alert 2 ''Failed to read file data.'' e));
            Some (e\<lparr>storage := f_close F h fs\<rparr>)
          } else Some (alert 2 ''File not found / Invalid path.'' (e\<lparr>storage := fs\<rparr>)))"

definition execute_actual_save :: "'f files \<Rightarrow> string \<Rightarrow> 'f naoedit \<Rightarrow> 'f naoedit option" where
  "execute_actual_save F path e =
     (case f_open F path (FA_WRITE OR FA_CREATE_ALWAYS) (storage e) of
        (fr, h, fs) \<Rightarrow>
          if fr = FR_OK then
            if text_len e \<le> length (text_buffer e) then
              let (fr, n, fs) = f_write F h (take (text_len e) (text_buffer e)) fs;
                  e = (if fr = FR_OK then alert 1 ''File written securely to disk.'' e
                       else alert 2 ''Storage write cycle failed.'' e)
              in Some (e\<lparr>storage := f_close F h fs\<rparr>)
            else None
          else Some (alert 2 ''Cannot open path for writing.'' (e\<lparr>storage := fs\<rparr>)))"

section \<open>One frame\<close>

definition file_op_timer :: "'f files \<Rightarrow> u32 \<Rightarrow> 'f naoedit \<Rightarrow> 'f naoedit option" where
  "file_op_timer F timer_ticks e =
     (if file_op_state e \<noteq> 0 \<and> timer_ticks - file_op_start_tick e \<ge> 30 then do {
        let e = e\<lparr>pointer := ani_stop (pointer e)\<rparr>;
        e \<leftarrow> (if file_op_state e = 1 then execute_actual_open F (filepath_buffer e) e
              else if file_op_state e = 2 then execute_actual_save F (filepath_buffer e) e
              else Some e);
        Some (e\<lparr>file_op_state := 0\<rparr>)
      } else Some e)"

definition naoedit_menu :: "ui \<Rightarrow> 'f naoedit \<Rightarrow> 'f naoedit" where
  "naoedit_menu u e =
     (if nk_menu_begin_label u ''File'' then
        let e = (if nk_menu_item_label u ''Open...'' \<and> file_op_state e = 0
                 then e\<lparr>show_open_dialog := True, show_save_dialog := False\<rparr> else e)
        in if nk_menu_item_label u ''Save As...'' \<and> file_op_state e = 0
           then e\<lparr>show_save_dialog := True, show_open_dialog := False\<rparr> else e
      else e)"

text \<open>The path field and its two buttons.  \<open>t0\<close> and \<open>t1\<close> are the two timer readings of the OK branch.\<close>

definition naoedit_path_row :: "ui \<Rightarrow> u32 \<Rightarrow> u32 \<Rightarrow> 'f naoedit \<Rightarrow> 'f naoedit option" where
  "naoedit_path_row u t0 t1 e =
     (if show_open_dialog e \<or> show_save_dialog e then do {
        let path = nk_edit_string u ''NaoEdit path'' (filepath_buffer e);
        path \<leftarrow> (if length path < 128 then Some path else None);
        let e = e\<lparr>filepath_buffer := path\<rparr>;
        let e = (if nk_button_label u ''NaoEdit'' ''OK'' then
                   let e = (if file_op_state e = 0
                            then e\<lparr>pointer := ani_play t0 (pointer e), file_op_start_tick := t1,
                                   file_op_state := (if show_open_dialog e then 1 else 2)\<rparr>
                            else e)
                   in e\<lparr>show_open_dialog := False, show_save_dialog := False\<rparr>
                 else e);
        Some (if nk_button_label u ''NaoEdit'' ''Cancel''
              then e\<lparr>show_open_dialog := False, show_save_dialog := False\<rparr> else e)
      } else Some e)"

definition naoedit_text_area :: "ui \<Rightarrow> 'f naoedit \<Rightarrow> 'f naoedit option" where
  "naoedit_text_area u e = do {
     s \<leftarrow> cstr (text_buffer e);
     buf \<leftarrow> put_text (nk_edit_string u ''NaoEdit text'' s) (text_buffer e);
     s \<leftarrow> cstr buf;
     Some (e\<lparr>text_buffer := buf, text_len := length s\<rparr>)
   }"

definition naoedit_main_window :: "ui \<Rightarrow> u32 \<Rightarrow> u32 \<Rightarrow> 'f naoedit \<Rightarrow> 'f naoedit option" where
  "naoedit_main_window u t0 t1 e =
     (if nk_begin u ''NaoEdit'' then do {
        let e = naoedit_menu u (e\<lparr>bounds_naoedit := nk_window_get_bounds u ''NaoEdit''\<rparr>);
        e \<leftarrow> naoedit_path_row u t0 t1 e;
        naoedit_text_area u e
      } else Some e)"

definition naoedit_focus :: "ui \<Rightarrow> 'f naoedit \<Rightarrow> 'f naoedit" where
  "naoedit_focus u e =
     (if nk_window_has_focus u ''NaoEdit'' \<or> drag_window_id e = 4
      then (if mouse_down u \<and> drag_window_id e = 0 then e\<lparr>drag_window_id := 4\<rparr> else e)
      else if nk_window_is_hovered u ''NaoEdit'' \<and> mouse_down u \<and> drag_window_id e = 0 then
        (if \<not> nk_item_is_any_active u
         then e\<lparr>drag_window_id := 4, requests := requests e @ [Set_Focus ''NaoEdit'']\<rparr> else e)
      else e)"

definition dismiss_alert :: "'f naoedit \<Rightarrow> 'f naoedit" where
  "dismiss_alert e = e\<lparr>alert_state := 0, drag_window_id := 0, requests := requests e @ [Clear_Active, Set_Focus ''NaoEdit'']\<rparr>"

definition naoedit_alert :: "ui \<Rightarrow> 'f naoedit \<Rightarrow> 'f naoedit" where
  "naoedit_alert u e =
     (if alert_state e = 0 then e
      else if nk_begin u ''NaoEdit Alert'' \<and> nk_button_label u ''NaoEdit Alert'' ''OK'' then dismiss_alert e
      else
        let e = (if nk_window_has_focus u ''NaoEdit Alert'' \<or> drag_window_id e = 5
                 then (if mouse_down u \<and> drag_window_id e = 0 then e\<lparr>drag_window_id := 5\<rparr> else e)
                 else if nk_window_is_hovered u ''NaoEdit Alert'' \<and> mouse_down u \<and> drag_window_id e = 0
                 then e\<lparr>drag_window_id := 5, requests := requests e @ [Set_Focus ''NaoEdit Alert'']\<rparr>
                 else e)
        in if nk_window_is_hidden u ''NaoEdit Alert'' then dismiss_alert e else e)"

text \<open>\<open>now\<close>, \<open>t0\<close> and \<open>t1\<close> are the timer readings of the frame, in the order they are made.\<close>

definition render_naoedit :: "'f files \<Rightarrow> ui \<Rightarrow> u32 \<Rightarrow> u32 \<Rightarrow> u32 \<Rightarrow> 'f naoedit \<Rightarrow> 'f naoedit option" where
  "render_naoedit F u now t0 t1 e =
     (if \<not> naoedit_active e \<or> naoedit_minimized e then Some e
      else do {
        e \<leftarrow> file_op_timer F now e;
        e \<leftarrow> naoedit_main_window u t0 t1 e;
        let e = naoedit_focus u e;
        let e = (if nk_window_is_hidden u ''NaoEdit''
                 then e\<lparr>naoedit_active := False, alert_state := 0, file_op_state := 0, pointer := ani_stop (pointer e)\<rparr>
                 else e);
        Some (naoedit_alert u e)
      })"

section \<open>What is saved can be opened\<close>

text \<open>The contract of the file operations on a healthy volume: a file created and written gives the
  same bytes when opened and read again.\<close>

definition stores_files :: "'f files \<Rightarrow> bool" where
  "stores_files F \<longleftrightarrow> (\<forall>path data fs. \<exists>h fs1 n fs2 h' fs4.
     f_open F path (FA_WRITE OR FA_CREATE_ALWAYS) fs = (FR_OK, h, fs1) \<and> f_write F h data fs1 = (FR_OK, n, fs2) \<and>
     f_open F path (FA_READ OR FA_OPEN_EXISTING) (f_close F h fs2) = (FR_OK, h', fs4) \<and>
     (\<forall>n. \<exists>fs5. f_read F h' n fs4 = (FR_OK, take n data, fs5)))"

definition edit_inv :: "'f naoedit \<Rightarrow> bool" where
  "edit_inv e \<longleftrightarrow> length (text_buffer e) = MAX_TEXT_LEN \<and> (\<exists>s. cstr (text_buffer e) = Some s \<and> text_len e = length s)"


definition one_file :: "char list files" where
  "one_file = \<lparr>f_open = (\<lambda>_ mode fs. (0, 1, if mode AND 0x08 \<noteq> 0 then [] else fs)),
     f_read = (\<lambda>_ n fs. (0, take n fs, fs)), f_write = (\<lambda>_ data fs. (0, length data, fs @ data)), f_close = (\<lambda>_ fs. fs)\<rparr>"

lemma one_file_stores: "stores_files one_file"
  by (simp add: stores_files_def one_file_def FR_OK_def FA_READ_def FA_WRITE_def FA_OPEN_EXISTING_def FA_CREATE_ALWAYS_def)

definition naoedit_boot :: "'f \<Rightarrow> 'f naoedit" where
  "naoedit_boot fs = \<lparr>naoedit_active = False, naoedit_minimized = False,
     text_buffer = ''Welcome to NaoEdit!'' @ [CHR 0x0A] @ ''Type your text here...'' @ replicate 4054 NUL,
     text_len = 41, filepath_buffer = ''0:/NOTES.TXT'', show_open_dialog = False, show_save_dialog = False,
     file_op_state = 0, file_op_start_tick = 0, alert_state = 0, alert_message = [], bounds_naoedit = (100, 80, 450, 350),
     drag_window_id = 0, pointer = ani_boot, storage = fs, requests = []\<rparr>"


end
