(* ===== verification/Image.thy ===== *)
theory Image
  imports Gui Loops
begin

text \<open>
  Picture loading in \<open>src/kernel.c\<close>: the arena the decoder allocates from and the conversion of a
  decoded picture into a pixel buffer.  The decoder is \<open>stb_image.h\<close>: an argument that returns a
  width, a height and the RGBA bytes, and may use the arena.
\<close>

section \<open>The arena\<close>

definition arena_size :: u32 where "arena_size = 4 * 1024 * 1024"

text \<open>Pointers into the arena are offsets; \<^const>\<open>None\<close> is the null pointer.\<close>

record arena =
  stb_arena :: "u32 \<Rightarrow> u8"
  stb_arena_offset :: u32

definition stbi_malloc_arena :: "u32 \<Rightarrow> arena \<Rightarrow> u32 option \<times> arena" where
  "stbi_malloc_arena sz a =
     (let sz = (sz + 3) AND NOT 3
      in if stb_arena_offset a + sz > arena_size then (None, a)
         else (Some (stb_arena_offset a), a\<lparr>stb_arena_offset := stb_arena_offset a + sz\<rparr>))"

definition stbi_free_arena :: "u32 option \<Rightarrow> arena \<Rightarrow> arena" where
  "stbi_free_arena ptr a = a"

definition stbi_realloc_sized_arena :: "u32 option \<Rightarrow> u32 \<Rightarrow> u32 \<Rightarrow> arena \<Rightarrow> u32 option \<times> arena" where
  "stbi_realloc_sized_arena old_ptr old_size new_size a =
     (if new_size \<le> old_size then (old_ptr, a)
      else case stbi_malloc_arena new_size a of
        (None, a) \<Rightarrow> (None, a)
      | (Some new_ptr, a) \<Rightarrow>
          (case old_ptr of
             Some old \<Rightarrow>
               (Some new_ptr,
                a\<lparr>stb_arena := fold (\<lambda>i m. m(new_ptr + of_nat i := m (old + of_nat i))) [0..<unat old_size] (stb_arena a)\<rparr>)
           | None \<Rightarrow> (Some new_ptr, a)))"

section \<open>Converting a decoded picture\<close>

text \<open>The decoder: flip flag and file bytes to width, height and RGBA bytes.\<close>

type_synonym decoder = "bool \<Rightarrow> u8 list \<Rightarrow> arena \<Rightarrow> (int \<times> int \<times> u8 list) option \<times> arena"

definition argb :: "u8 \<Rightarrow> u8 \<Rightarrow> u8 \<Rightarrow> u8 \<Rightarrow> u32" where
  "argb a r g b = push_bit 24 (ucast a) OR push_bit 16 (ucast r) OR push_bit 8 (ucast g) OR ucast b"

text \<open>One pixel of the copy loops: the row is mirrored, the bytes reordered, the alpha summed.\<close>

definition convert_pixel :: "u8 list \<Rightarrow> nat \<Rightarrow> nat \<Rightarrow> nat \<Rightarrow> nat \<Rightarrow> u32 \<times> u32 list \<Rightarrow> (u32 \<times> u32 list) option" where
  "convert_pixel decoded width height y x s = do {
     let target_y = height - 1 - y;
     let src_idx = (y * width + x) * 4;
     let dest_idx = target_y * width + x;
     r \<leftarrow> get_at decoded (src_idx + 0);
     g \<leftarrow> get_at decoded (src_idx + 1);
     b \<leftarrow> get_at decoded (src_idx + 2);
     a \<leftarrow> get_at decoded (src_idx + 3);
     out \<leftarrow> put_at dest_idx (argb a r g b) (snd s);
     Some (fst s + ucast a, out)
   }"

definition convert_pixels :: "u8 list \<Rightarrow> nat \<Rightarrow> nat \<Rightarrow> u32 list \<Rightarrow> (u32 \<times> u32 list) option" where
  "convert_pixels decoded width height out =
     for_opt height (\<lambda>y. for_opt width (\<lambda>x. convert_pixel decoded width height y x)) (0, out)"

text \<open>\<open>if ((total_alpha / total_pixels) < 5)\<close> every pixel is made opaque; no pixels is a division by
  zero.\<close>

definition fix_alpha :: "u32 \<Rightarrow> nat \<Rightarrow> u32 list \<Rightarrow> u32 list option" where
  "fix_alpha total_alpha total_pixels out =
     (if total_pixels = 0 then None
      else if total_alpha div of_nat total_pixels < 5
      then for_opt total_pixels (\<lambda>i out. do { p \<leftarrow> get_at out i; put_at i (p OR 0xFF000000) out }) out
      else Some out)"

text \<open>The image is \<^const>\<open>None\<close> when it is left zeroed.  \<open>file\<close> is \<^const>\<open>None\<close> when it cannot be opened.
  The flip flag is a global of the decoder.\<close>

definition load_image_via_stb ::
  "decoder \<Rightarrow> u8 list option \<Rightarrow> bool \<Rightarrow> int \<Rightarrow> int \<Rightarrow> u32 list \<Rightarrow> arena \<Rightarrow> bool \<Rightarrow>
     ((int \<times> int) option \<times> u32 list \<times> arena \<times> bool) option" where
  "load_image_via_stb decode file read_ok expected_w expected_h out a flip =
     (let a = a\<lparr>stb_arena_offset := 0\<rparr> in
      case file of
        None \<Rightarrow> Some (None, out, a, flip)
      | Some content \<Rightarrow>
          (case stbi_malloc_arena (of_nat (length content)) a of
             (None, a) \<Rightarrow> Some (None, out, a, flip)
           | (Some _, a) \<Rightarrow>
               if \<not> read_ok then Some (None, out, a, flip)
               else
                 (case decode True content a of
                    (None, a) \<Rightarrow> Some (None, out, a, True)
                  | (Some (width, height, decoded), a) \<Rightarrow>
                      if width \<noteq> expected_w \<or> height \<noteq> expected_h then Some (None, out, a, True)
                      else do {
                        (total_alpha, out) \<leftarrow> convert_pixels decoded (nat width) (nat height) out;
                        out \<leftarrow> fix_alpha total_alpha (nat (width * height)) out;
                        Some (Some (width, height), out, a, False)
                      })))"

section \<open>The conversion is exact\<close>

lemma for_opt_indexed:
  assumes "\<And>i s. i < n \<Longrightarrow> P i s \<Longrightarrow> \<exists>s'. body i s = Some s' \<and> P (Suc i) s'" and "P 0 s"
  shows "\<exists>s'. for_opt n body s = Some s' \<and> P n s'"
  using assms(1)
proof (induction n)
  case 0
  then show ?case using assms(2) by (simp add: for_opt_def)
next
  case (Suc n)
  have app: "for_list (xs @ [i]) body s = for_list xs body s \<bind> body i" for xs i s
    by (induction xs arbitrary: s) (auto split: bind_split)
  obtain s1 where "for_opt n body s = Some s1" "P n s1" using Suc by (metis less_SucI)
  moreover obtain s2 where "body n s1 = Some s2" "P (Suc n) s2" using Suc.prems calculation(2) by blast
  ultimately show ?case by (simp add: for_opt_def app)
qed

text \<open>The source pixel of row \<open>y\<close> and column \<open>x\<close>.\<close>

definition source_pixel :: "u8 list \<Rightarrow> nat \<Rightarrow> nat \<Rightarrow> nat \<Rightarrow> u32" where
  "source_pixel decoded width y x =
     (let i = (y * width + x) * 4 in argb (decoded ! (i + 3)) (decoded ! i) (decoded ! (i + 1)) (decoded ! (i + 2)))"

lemma cell_inj:
  fixes w :: nat
  assumes "c < w" "c' < w" "r * w + c = r' * w + c'"
  shows "r = r' \<and> c = c'"
proof -
  have "(r * w + c) div w = r" "(r' * w + c') div w = r'" using assms(1,2) by simp_all
  then have "r = r'" using assms(3) by metis
  then show ?thesis using assms by simp
qed

lemma cell_less:
  fixes w h :: nat
  assumes "r < h" "c < w"
  shows "r * w + c < w * h"
proof -
  have "r * w + c < Suc r * w" using assms by simp
  also have "\<dots> \<le> h * w" using assms by (intro mult_le_mono1) simp
  finally show ?thesis by (simp add: mult.commute)
qed

lemma convert_pixel_step:
  assumes "length decoded = 4 * (w * h)" "length out = w * h" "y < h" "x < w"
  shows "\<exists>t'. convert_pixel decoded w h y x (t, out) = Some (t', out[(h - 1 - y) * w + x := source_pixel decoded w y x])"
proof -
  have "y * w + x < w * h" "(h - 1 - y) * w + x < w * h" using assms cell_less by simp_all
  then show ?thesis using assms by (simp add: convert_pixel_def source_pixel_def Let_def)
qed

text \<open>\<open>rows_done\<close>: rows before \<open>y\<close>, and the columns before \<open>x\<close> of row \<open>y\<close>, are in place.\<close>

definition rows_done :: "u8 list \<Rightarrow> nat \<Rightarrow> nat \<Rightarrow> nat \<Rightarrow> nat \<Rightarrow> u32 list \<Rightarrow> bool" where
  "rows_done decoded w h y x out \<longleftrightarrow> length out = w * h \<and>
     (\<forall>y' x'. y' < h \<and> x' < w \<and> (y' < y \<or> y' = y \<and> x' < x) \<longrightarrow> out ! ((h - 1 - y') * w + x') = source_pixel decoded w y' x')"

lemma rows_done_step:
  assumes "rows_done decoded w h y x out" "y < h" "x < w"
  shows "rows_done decoded w h y (Suc x) (out[(h - 1 - y) * w + x := source_pixel decoded w y x])"
  unfolding rows_done_def
proof (intro conjI allI impI)
  show "length (out[(h - 1 - y) * w + x := source_pixel decoded w y x]) = w * h" using assms(1) by (simp add: rows_done_def)
  fix y' x' assume a: "y' < h \<and> x' < w \<and> (y' < y \<or> y' = y \<and> x' < Suc x)"
  have lt: "(h - 1 - y) * w + x < length out" using assms cell_less [of "h - 1 - y" h x w] by (simp add: rows_done_def)
  show "out[(h - 1 - y) * w + x := source_pixel decoded w y x] ! ((h - 1 - y') * w + x') = source_pixel decoded w y' x'"
  proof (cases "y' = y \<and> x' = x")
    case True
    then show ?thesis using lt by simp
  next
    case False
    have "(h - 1 - y) * w + x \<noteq> (h - 1 - y') * w + x'"
      using cell_inj [of x w x' "h - 1 - y" "h - 1 - y'"] False a assms(2,3) by auto
    moreover have "y' < y \<or> y' = y \<and> x' < x" using a False by auto
    ultimately show ?thesis using assms(1) a unfolding rows_done_def by auto
  qed
qed

lemma convert_pixels_exact:
  assumes "length decoded = 4 * (w * h)" "length out = w * h"
  shows "\<exists>t out'. convert_pixels decoded w h out = Some (t, out') \<and> rows_done decoded w h h 0 out'"
proof -
  have row: "\<exists>s'. for_opt w (\<lambda>x. convert_pixel decoded w h y x) s = Some s' \<and> rows_done decoded w h (Suc y) 0 (snd s')"
    if y: "y < h" and s: "rows_done decoded w h y 0 (snd s)" for y s
  proof -
    have "\<exists>s'. for_opt w (\<lambda>x. convert_pixel decoded w h y x) s = Some s' \<and> rows_done decoded w h y w (snd s')"
    proof (rule for_opt_indexed [where P = "\<lambda>x s. rows_done decoded w h y x (snd s)"])
      fix x and s :: "u32 \<times> u32 list" assume x: "x < w" "rows_done decoded w h y x (snd s)"
      then have "length (snd s) = w * h" by (simp add: rows_done_def)
      then obtain t' where "convert_pixel decoded w h y x s = Some (t', (snd s)[(h - 1 - y) * w + x := source_pixel decoded w y x])"
        using convert_pixel_step [OF assms(1) _ y x(1), of "snd s" "fst s"] by auto
      then show "\<exists>s'. convert_pixel decoded w h y x s = Some s' \<and> rows_done decoded w h y (Suc x) (snd s')"
        using rows_done_step [OF x(2) y x(1)] by auto
    qed (use s in simp)
    moreover have "rows_done decoded w h y w o' \<Longrightarrow> rows_done decoded w h (Suc y) 0 o'" for o'
      by (auto simp: rows_done_def less_Suc_eq)
    ultimately show ?thesis by blast
  qed
  have "\<exists>s'. for_opt h (\<lambda>y. for_opt w (\<lambda>x. convert_pixel decoded w h y x)) (0, out) = Some s' \<and> rows_done decoded w h h 0 (snd s')"
    by (rule for_opt_indexed [where P = "\<lambda>y s. rows_done decoded w h y 0 (snd s)"]) (use row assms(2) in \<open>auto simp: rows_done_def\<close>)
  then show ?thesis by (auto simp: convert_pixels_def)
qed

lemma fix_alpha_exact:
  assumes "0 < n" "length out = n"
  shows "\<exists>out'. fix_alpha t n out = Some out' \<and> length out' = n \<and>
    (out' = out \<or> (\<forall>i < n. out' ! i = out ! i OR 0xFF000000))"
proof -
  have "\<exists>s'. for_opt n (\<lambda>i out. do { p \<leftarrow> get_at out i; put_at i (p OR 0xFF000000) out }) out = Some s' \<and>
      length s' = n \<and> (\<forall>j < n. s' ! j = (if j < n then out ! j OR 0xFF000000 else out ! j))"
    by (rule for_opt_indexed [where P = "\<lambda>i o'. length o' = n \<and> (\<forall>j < n. o' ! j = (if j < i then out ! j OR 0xFF000000 else out ! j))"])
      (use assms in \<open>auto simp: nth_list_update less_Suc_eq\<close>)
  then show ?thesis using assms by (auto simp: fix_alpha_def)
qed



end
