(* ===== verification/Naoview.thy ===== *)
theory Naoview imports Image Theme Fatfs_Api
begin

text \<open>
  The image viewer (\<open>src/naoview.c\<close>): loading a picture into a heap block, releasing it, and the frame
  routine with its two pop-ups.  The heap is the model of \<open>Memory_Manager\<close>; the decoder, the file and the
  answers of Nuklear are arguments.  An allocation that panics never returns (\<^const>\<open>None\<close>).
\<close>

section \<open>State\<close>

datatype naoview_status = NAOVIEW_STATUS_OK | NAOVIEW_STATUS_ERR_NOT_FOUND | NAOVIEW_STATUS_ERR_BAD_FORMAT

text \<open>\<open>naoview_pixels\<close> is the heap pointer (0 for null) and \<open>naoview_data\<close> the pixels it points to.\<close>

record naoview =
  naoview_active :: bool
  naoview_minimized :: bool
  naoview_show_open_dialog :: bool
  naoview_alert :: naoview_status
  naoview_current_file :: "char list"
  naoview_pixels :: u32
  naoview_data :: "u32 list"
  naoview_width :: int
  naoview_height :: int
  naoview_img_set :: bool
  bounds_naoview :: nk_rect
  nv_drag_id :: int
  nv_heap :: mm_state
  nv_arena :: arena
  nv_flip :: bool
  nv_requests :: "ui_event list"

section \<open>Loading and closing\<close>

definition naoview_close_image :: "naoview \<Rightarrow> naoview option" where
  "naoview_close_image v = do {
     v \<leftarrow> (if naoview_pixels v \<noteq> 0 then do {
             heap \<leftarrow> kfree (naoview_pixels v) (nv_heap v);
             Some (v\<lparr>nv_heap := heap, naoview_pixels := 0, naoview_data := []\<rparr>)
           } else Some v);
     Some (v\<lparr>naoview_width := 0, naoview_height := 0, naoview_img_set := False\<rparr>)
   }"

text \<open>The copy loop over the decoded bytes, as in the picture loader of the kernel but without the
  alpha sum, into a block of \<open>n\<close> bytes.  Only the length of the block matters: every pixel is
  overwritten.\<close>

definition view_pixels :: "u8 list \<Rightarrow> nat \<Rightarrow> nat \<Rightarrow> u32 \<Rightarrow> u32 list option" where
  "view_pixels decoded width height n =
     map_option snd (convert_pixels decoded width height (replicate (unat n div 4) 0))"

text \<open>The part of \<open>naoview_load_image\<close> after a successful decoding.\<close>

definition naoview_place :: "int \<Rightarrow> int \<Rightarrow> u8 list \<Rightarrow> naoview \<Rightarrow> (bool \<times> naoview) option" where
  "naoview_place width height decoded v = do {
     let n = of_int (width * height * 4);
     (p, heap) \<leftarrow> kalloc n (nv_heap v);
     let v = v\<lparr>nv_heap := heap, naoview_pixels := p, nv_flip := False\<rparr>;
     if p = 0 then Some (False, v)
     else do {
       px \<leftarrow> view_pixels decoded (nat width) (nat height) n;
       Some (True, v\<lparr>naoview_data := px, naoview_width := width, naoview_height := height, naoview_img_set := True\<rparr>)
     }
   }"

text \<open>\<open>opened\<close> gives the contents for a path, \<^const>\<open>None\<close> when it cannot be opened.\<close>

definition naoview_load_image ::
  "decoder \<Rightarrow> (string \<Rightarrow> u8 list option) \<Rightarrow> bool \<Rightarrow> string \<Rightarrow> naoview \<Rightarrow> (bool \<times> naoview) option" where
  "naoview_load_image decode opened read_ok path v = do {
     v \<leftarrow> naoview_close_image v;
     let v = v\<lparr>naoview_alert := NAOVIEW_STATUS_OK, nv_arena := (nv_arena v)\<lparr>stb_arena_offset := 0\<rparr>\<rparr>;
     case opened path of
       None \<Rightarrow> Some (False, v\<lparr>naoview_alert := NAOVIEW_STATUS_ERR_NOT_FOUND\<rparr>)
     | Some content \<Rightarrow>
         (case stbi_malloc_arena (of_nat (length content)) (nv_arena v) of
            (None, a) \<Rightarrow> Some (False, v\<lparr>nv_arena := a, naoview_alert := NAOVIEW_STATUS_ERR_BAD_FORMAT\<rparr>)
          | (Some _, a) \<Rightarrow>
              if \<not> read_ok then Some (False, v\<lparr>nv_arena := a, naoview_alert := NAOVIEW_STATUS_ERR_BAD_FORMAT\<rparr>)
              else
                (case decode True content a of
                   (None, a) \<Rightarrow> Some (False, v\<lparr>nv_arena := a, nv_flip := False, naoview_alert := NAOVIEW_STATUS_ERR_BAD_FORMAT\<rparr>)
                 | (Some (width, height, decoded), a) \<Rightarrow> naoview_place width height decoded (v\<lparr>nv_arena := a, nv_flip := True\<rparr>)))
   }"

definition naoview_open_file ::
  "decoder \<Rightarrow> (string \<Rightarrow> u8 list option) \<Rightarrow> bool \<Rightarrow> string \<Rightarrow> naoview \<Rightarrow> naoview option" where
  "naoview_open_file decode opened read_ok path v = do {
     let v = v\<lparr>naoview_active := True, naoview_minimized := False\<rparr>;
     f \<leftarrow> strncpy (naoview_current_file v) (path @ [NUL]) 127;
     p \<leftarrow> cstr f;
     (_, v) \<leftarrow> naoview_load_image decode opened read_ok p (v\<lparr>naoview_current_file := f\<rparr>);
     Some v
   }"

section \<open>One frame\<close>

text \<open>\<^const>\<open>nk_group_begin\<close> answers for the pop-ups too.\<close>

definition nv_window :: string where "nv_window = ''NaoView - Image Viewer''"

definition naoview_menu :: "ui \<Rightarrow> naoview \<Rightarrow> naoview option" where
  "naoview_menu u v =
     (if nk_menu_begin_label u ''File'' then do {
        let v = (if nk_menu_item_label u ''Open PNG...''
                 then v\<lparr>naoview_show_open_dialog := True, naoview_alert := NAOVIEW_STATUS_OK\<rparr> else v);
        if nk_menu_item_label u ''Close Image'' then do {
          v \<leftarrow> naoview_close_image v;
          f \<leftarrow> strncpy (naoview_current_file v) (''0:/'' @ [NUL]) 127;
          Some (v\<lparr>naoview_current_file := f, naoview_alert := NAOVIEW_STATUS_OK\<rparr>)
        } else Some v
      } else Some v)"

text \<open>The information line is formatted into a buffer of 140 bytes, whatever its initial contents.\<close>

definition naoview_info :: "char list \<Rightarrow> naoview \<Rightarrow> (char list option \<times> nat) option" where
  "naoview_info info_text v = do {
     p \<leftarrow> cstr (naoview_current_file v);
     mini_snprintf (Some info_text) 140 ''Source: %s [%dx%d]'' [VStr p, VInt (naoview_width v), VInt (naoview_height v)]
   }"

definition naoview_open_dialog ::
  "decoder \<Rightarrow> (string \<Rightarrow> u8 list option) \<Rightarrow> bool \<Rightarrow> ui \<Rightarrow> naoview \<Rightarrow> naoview option" where
  "naoview_open_dialog decode opened read_ok u v =
     (if \<not> naoview_show_open_dialog v then Some v
      else if nk_group_begin u ''Open File'' then do {
        p \<leftarrow> cstr (naoview_current_file v);
        let p = nk_edit_string u ''Open File'' p;
        f \<leftarrow> (if length p < length (naoview_current_file v)
              then Some (p @ NUL # drop (length p + 1) (naoview_current_file v)) else None);
        let v = v\<lparr>naoview_current_file := f\<rparr>;
        v \<leftarrow> (if nk_button_label u ''Open File'' ''Load'' then do {
                (_, v) \<leftarrow> naoview_load_image decode opened read_ok p v;
                Some (if naoview_alert v = NAOVIEW_STATUS_OK then v\<lparr>naoview_show_open_dialog := False\<rparr> else v)
              } else Some v);
        Some (if nk_button_label u ''Open File'' ''Cancel'' then v\<lparr>naoview_show_open_dialog := False\<rparr> else v)
      }
      else Some (v\<lparr>naoview_show_open_dialog := False\<rparr>))"

definition naoview_alert_dialog :: "char list \<Rightarrow> ui \<Rightarrow> naoview \<Rightarrow> naoview option" where
  "naoview_alert_dialog target_lbl u v =
     (if naoview_alert v = NAOVIEW_STATUS_OK then Some v
      else if nk_group_begin u ''Application Alert'' then do {
        p \<leftarrow> cstr (naoview_current_file v);
        _ \<leftarrow> mini_snprintf (Some target_lbl) 160 ''Path: %s'' [VStr p];
        Some (if nk_button_label u ''Application Alert'' ''OK'' then v\<lparr>naoview_alert := NAOVIEW_STATUS_OK\<rparr> else v)
      }
      else Some (v\<lparr>naoview_alert := NAOVIEW_STATUS_OK\<rparr>))"

definition naoview_focus :: "ui \<Rightarrow> naoview \<Rightarrow> naoview" where
  "naoview_focus u v =
     (if nk_window_has_focus u nv_window \<or> nv_drag_id v = 5
      then (if mouse_down u then v\<lparr>nv_drag_id := 5\<rparr> else v)
      else if nk_window_is_hovered u nv_window \<and> mouse_down u \<and> nv_drag_id v = 0 then
        (if \<not> nk_item_is_any_active u then v\<lparr>nv_drag_id := 5, nv_requests := nv_requests v @ [Set_Focus nv_window]\<rparr> else v)
      else v)"

definition render_naoview ::
  "decoder \<Rightarrow> (string \<Rightarrow> u8 list option) \<Rightarrow> bool \<Rightarrow> char list \<Rightarrow> char list \<Rightarrow> ui \<Rightarrow> naoview \<Rightarrow> naoview option" where
  "render_naoview decode opened read_ok info_text target_lbl u v =
     (if \<not> naoview_active v \<or> naoview_minimized v then Some v
      else do {
        v \<leftarrow> (if nk_begin u nv_window then do {
                v \<leftarrow> naoview_menu u (v\<lparr>bounds_naoview := nk_window_get_bounds u nv_window\<rparr>);
                _ \<leftarrow> (if naoview_pixels v \<noteq> 0 \<and> naoview_img_set v then map_option (\<lambda>_. ()) (naoview_info info_text v) else Some ());
                v \<leftarrow> naoview_open_dialog decode opened read_ok u v;
                naoview_alert_dialog target_lbl u v
              } else Some v);
        let v = naoview_focus u v;
        if nk_window_is_hidden u nv_window then naoview_close_image (v\<lparr>naoview_active := False\<rparr>) else Some v
      })"

section \<open>The viewer owns one block\<close>

text \<open>\<open>owns bs p heap n\<close>: besides the blocks \<open>bs\<close> of the rest of the kernel, the heap holds the block of
  \<open>n\<close> bytes at \<open>p\<close>, taken by first fit; nothing when \<open>p\<close> is null.\<close>

definition owns :: "block list \<Rightarrow> u32 \<Rightarrow> nat \<Rightarrow> mm_state \<Rightarrow> bool" where
  "owns bs p n heap \<longleftrightarrow>
     (if p = 0 then mm_inv heap bs
      else \<exists>m k bs'. n \<le> m \<and> first_fit m bs = Some (k, bs') \<and> mm_inv heap bs' \<and> p = heap_start heap + of_nat (k + 12))"

definition view_inv :: "block list \<Rightarrow> naoview \<Rightarrow> bool" where
  "view_inv bs v \<longleftrightarrow>
     owns bs (naoview_pixels v) (4 * length (naoview_data v)) (nv_heap v) \<and>
     0 \<le> naoview_width v \<and> naoview_width v < 2147483648 \<and> 0 \<le> naoview_height v \<and> naoview_height v < 2147483648 \<and>
     (if naoview_pixels v = 0 then naoview_data v = []
      else length (naoview_data v) = nat (naoview_width v * naoview_height v)) \<and>
     length (naoview_current_file v) = 128 \<and> last (naoview_current_file v) = NUL"

text \<open>What the viewer relies on: the decoder returns pictures of at most \<open>N\<close> bytes with four bytes per
  pixel, and a text field keeps to its 127 bytes.\<close>

definition decodes_within :: "nat \<Rightarrow> decoder \<Rightarrow> bool" where
  "decodes_within N decode \<longleftrightarrow> (\<forall>flip content a w h d a'. decode flip content a = (Some (w, h, d), a') \<longrightarrow>
     0 < w \<and> 0 < h \<and> w * h * 4 \<le> int N \<and> length d = nat (w * h * 4))"

definition edits_within :: "ui \<Rightarrow> bool" where
  "edits_within u \<longleftrightarrow> (\<forall>field s. field = ''Open File'' \<longrightarrow> length (nk_edit_string u field s) < 127)"

text \<open>A block of \<open>N\<close> bytes is free.\<close>

definition room :: "nat \<Rightarrow> block list \<Rightarrow> bool" where
  "room N bs \<longleftrightarrow> N \<le> 2147483647 \<and> coalesced bs \<and> first_fit ((N + 7) div 8 * 8) bs \<noteq> None"

lemma first_fit_mono: "first_fit m bs \<noteq> None \<Longrightarrow> n \<le> m \<Longrightarrow> first_fit n bs \<noteq> None"
  by (induction m bs rule: first_fit.induct) (auto split: if_splits)

lemma owns_release:
  assumes "owns bs p n heap" "coalesced bs"
  shows "\<exists>heap'. kfree p heap = Some heap' \<and> mm_inv heap' bs"
proof (cases "p = 0")
  case True
  then show ?thesis using assms(1) by (simp add: owns_def kfree_def)
next
  case False
  then obtain m k bs' where ff: "first_fit m bs = Some (k, bs')" "mm_inv heap bs'" "p = heap_start heap + of_nat (k + 12)"
    using assms(1) by (auto simp: owns_def)
  obtain l f where "payload_at (k + 12) bs' = Some (l, f)" using first_fit_payload [OF ff(1)] by auto
  then show ?thesis
    using kfree_release [OF ff(2)] ff(3) coalesce_release_first_fit [OF assms(2) ff(1)] by metis
qed

lemma owns_alloc:
  assumes "mm_inv heap bs" "room N bs" "n \<le> N"
  shows "\<exists>p heap'. kalloc (of_nat n) heap = Some (p, heap') \<and> p \<noteq> 0 \<and> owns bs p n heap'"
proof -
  have u: "unat (of_nat n :: u32) = n" using assms(2,3) by (simp add: room_def unat_of_nat_u32)
  then have le: "(of_nat n :: u32) \<le> 0xFFFFFFF8" using assms(2,3) by (simp add: word_le_nat_alt room_def)
  then have al: "unat (ALIGN (of_nat n)) = (n + 7) div 8 * 8" using ALIGN_exact u by simp
  have "(n + 7) div 8 * 8 \<le> (N + 7) div 8 * 8" using assms(3) by (intro mult_le_mono1 div_le_mono) simp
  then have "first_fit ((n + 7) div 8 * 8) bs \<noteq> None"
    using first_fit_mono assms(2) unfolding room_def by blast
  then obtain k bs' where ff: "first_fit ((n + 7) div 8 * 8) bs = Some (k, bs')" by auto
  then obtain heap' where h: "kmalloc (of_nat n) heap = Some (Allocated (heap_start heap + of_nat (k + 12)) heap')"
      "heap_start heap' = heap_start heap" "mm_inv heap' bs'"
    using kmalloc_first_fit [OF assms(1), of "of_nat n"] al by auto
  then have ka: "kalloc (of_nat n) heap = Some (heap_start heap + of_nat (k + 12), heap')" by (simp add: kalloc_def)
  have "mm_ok heap" using assms(1) by (auto simp: mm_ok_def)
  then have "heap_start heap + of_nat (k + 12) \<noteq> 0" using mm.alloc_live [OF _ le ka] by blast
  moreover have "n \<le> (n + 7) div 8 * 8" by arith
  ultimately have "owns bs (heap_start heap + of_nat (k + 12)) n heap'"
    unfolding owns_def using ff h(2,3) by metis
  then show ?thesis using ka \<open>heap_start heap + of_nat (k + 12) \<noteq> 0\<close> by blast
qed

lemma naoview_close_inv:
  assumes "view_inv bs v" "coalesced bs"
  shows "\<exists>v'. naoview_close_image v = Some v' \<and> view_inv bs v' \<and> mm_inv (nv_heap v') bs \<and> naoview_pixels v' = 0 \<and>
    naoview_data v' = []"
proof -
  have o: "owns bs (naoview_pixels v) (4 * length (naoview_data v)) (nv_heap v)" using assms(1) by (simp add: view_inv_def)
  then obtain heap where heap: "kfree (naoview_pixels v) (nv_heap v) = Some heap" "mm_inv heap bs"
    using owns_release assms(2) by blast
  let ?v = "v\<lparr>nv_heap := heap, naoview_pixels := 0, naoview_data := [], naoview_width := 0, naoview_height := 0, naoview_img_set := False\<rparr>"
  have "naoview_close_image v = Some ?v"
  proof (cases "naoview_pixels v = 0")
    case True
    then have "nv_heap v = heap" "naoview_data v = []" using heap assms(1) by (simp_all add: kfree_def view_inv_def)
    then show ?thesis using True by (cases v) (simp add: naoview_close_image_def)
  next
    case False
    then show ?thesis using heap by (simp add: naoview_close_image_def)
  qed
  moreover have "view_inv bs ?v" using assms(1) heap(2) by (simp add: view_inv_def owns_def)
  ultimately show ?thesis using heap(2) by simp
qed

text \<open>Fields the invariant does not read.\<close>

lemma view_inv_updates [simp]:
  "view_inv bs (v\<lparr>naoview_active := a\<rparr>) = view_inv bs v" "view_inv bs (v\<lparr>naoview_minimized := a\<rparr>) = view_inv bs v"
  "view_inv bs (v\<lparr>naoview_show_open_dialog := a\<rparr>) = view_inv bs v" "view_inv bs (v\<lparr>naoview_alert := st\<rparr>) = view_inv bs v"
  "view_inv bs (v\<lparr>nv_arena := ar\<rparr>) = view_inv bs v" "view_inv bs (v\<lparr>nv_flip := a\<rparr>) = view_inv bs v"
  "view_inv bs (v\<lparr>bounds_naoview := r\<rparr>) = view_inv bs v" "view_inv bs (v\<lparr>nv_drag_id := i\<rparr>) = view_inv bs v"
  "view_inv bs (v\<lparr>nv_requests := q\<rparr>) = view_inv bs v"
  by (simp_all add: view_inv_def)

lemma view_inv_file:
  "view_inv bs v \<Longrightarrow> length f = 128 \<Longrightarrow> last f = NUL \<Longrightarrow> view_inv bs (v\<lparr>naoview_current_file := f\<rparr>)"
  by (simp add: view_inv_def)

lemma view_pixels_total:
  assumes "0 < w" "0 < h" "w * h * 4 \<le> 2147483647" "length d = nat (w * h * 4)"
  shows "\<exists>px. view_pixels d (nat w) (nat h) (of_int (w * h * 4)) = Some px \<and> length px = nat (w * h)"
proof -
  have wh: "nat (w * h) = nat w * nat h" using assms(1,2) by (simp add: nat_mult_distrib)
  have "nat (w * h * 4) = 4 * (nat w * nat h)" using assms(1,2) by (simp add: nat_mult_distrib)
  then have d: "length d = 4 * (nat w * nat h)" using assms(4) by simp
  have "0 \<le> w * h" using assms(1,2) by simp
  then have "uint (of_int (w * h * 4) :: u32) = w * h * 4"
    using assms(3) by (subst uint_word_of_int) (simp, rule mod_pos_pos_trivial, linarith+)
  then have "unat (of_int (w * h * 4) :: u32) = nat (w * h * 4)" by (simp only: unat_eq_nat_uint)
  then have "unat (of_int (w * h * 4) :: u32) div 4 = nat w * nat h" using \<open>nat (w * h * 4) = 4 * (nat w * nat h)\<close> by simp
  then have "length (replicate (unat (of_int (w * h * 4) :: u32) div 4) (0 :: u32)) = nat w * nat h" by simp
  from convert_pixels_exact [OF d this] show ?thesis
    by (auto simp: view_pixels_def rows_done_def wh)
qed

lemma naoview_place_inv:
  assumes "view_inv bs v" "mm_inv (nv_heap v) bs" "room N bs"
    and d: "0 < w" "0 < h" "w * h * 4 \<le> int N" "length d = nat (w * h * 4)"
  shows "\<exists>v'. naoview_place w h d v = Some (True, v') \<and> view_inv bs v' \<and> naoview_pixels v' \<noteq> 0"
proof -
  have N: "int N \<le> 2147483647" using assms(3) by (simp add: room_def)
  define n :: u32 where "n = of_int (w * h * 4)"
  obtain px where px: "view_pixels d (nat w) (nat h) n = Some px" "length px = nat (w * h)"
    using view_pixels_total [OF d(1,2) _ d(4)] d(3) N unfolding n_def by auto
  have wh: "w \<le> w * h" "h \<le> w * h" "0 \<le> w * h" using d(1,2) by simp_all
  have le: "nat (w * h * 4) \<le> N" using d(3) by linarith
  have "of_nat (nat (w * h * 4)) = n" unfolding n_def using wh(3) by (metis of_int_of_nat_eq int_nat_eq mult_nonneg_nonneg zero_le_numeral)
  then obtain p heap where p: "kalloc n (nv_heap v) = Some (p, heap)" "p \<noteq> 0" "owns bs p (nat (w * h * 4)) heap"
    using owns_alloc [OF assms(2,3) le] by auto
  have small: "w < 2147483648" "h < 2147483648" using d(3) N wh by linarith+
  have "4 * length px = nat (w * h * 4)" using px(2) wh(3) by (simp add: nat_mult_distrib)
  then have own: "owns bs p (4 * length px) heap" using p(3) by simp
  let ?v = "v\<lparr>nv_heap := heap, naoview_pixels := p, nv_flip := False, naoview_data := px, naoview_width := w, naoview_height := h,
      naoview_img_set := True\<rparr>"
  have "naoview_place w h d v = Some (True, ?v)"
    unfolding naoview_place_def n_def [symmetric] Let_def using p(1,2) px(1) by simp
  moreover have "view_inv bs ?v" using assms(1) own px(2) p(2) small d(1,2) by (simp add: view_inv_def)
  ultimately show ?thesis using p(2) by simp
qed

lemma naoview_load_inv:
  assumes "view_inv bs v" "room N bs" "decodes_within N decode"
  shows "\<exists>ok v'. naoview_load_image decode opened read_ok path v = Some (ok, v') \<and> view_inv bs v' \<and>
    (ok \<longleftrightarrow> naoview_pixels v' \<noteq> 0)"
proof -
  obtain v1 where v1: "naoview_close_image v = Some v1" "view_inv bs v1" "mm_inv (nv_heap v1) bs" "naoview_pixels v1 = 0"
    using naoview_close_inv [OF assms(1)] assms(2) by (auto simp: room_def)
  have failed: "\<exists>ok v'. Some (False, u) = Some (ok, v') \<and> view_inv bs v' \<and> (ok \<longleftrightarrow> naoview_pixels v' \<noteq> 0)"
    if "view_inv bs u" "naoview_pixels u = 0" for u using that by blast
  have placed: "\<exists>v'. naoview_place w h d u = Some (naoview_pixels v' \<noteq> 0, v') \<and> view_inv bs v'"
    if u: "decode flip content a0 = (Some (w, h, d), a)" "view_inv bs u" "mm_inv (nv_heap u) bs" for flip content a0 w h d a u
  proof -
    have "0 < w" "0 < h" "w * h * 4 \<le> int N" "length d = nat (w * h * 4)"
      using assms(3) u(1) unfolding decodes_within_def by blast+
    then obtain v' where "naoview_place w h d u = Some (True, v')" "view_inv bs v'" "naoview_pixels v' \<noteq> 0"
      using naoview_place_inv [OF u(2,3) assms(2)] by blast
    then show ?thesis by auto
  qed
  show ?thesis
    using v1(2-4)
    by (auto simp: naoview_load_image_def v1(1) Let_def simp del: ex_simps intro!: failed placed split: option.split prod.split)
qed

text \<open>Copying into the path buffer leaves its last byte, the terminator, alone.\<close>

lemma strncpy_file:
  assumes "length f = 128" "last f = NUL"
  shows "\<exists>f'. strncpy f (src @ [NUL]) 127 = Some f' \<and> length f' = 128 \<and> last f' = NUL"
proof -
  obtain a where a: "strncpy f (src @ [NUL]) 127 = Some (a @ drop 127 f)" "length a = 127"
    using strncpy_total [of 127 f src] assms(1) by auto
  have "last (a @ drop 127 f) = NUL" using assms by (simp add: last_append last_drop)
  then show ?thesis using a assms(1) by auto
qed

lemma view_file:
  assumes "view_inv bs v"
  shows "\<exists>s. cstr (naoview_current_file v) = Some s"
  using assms cstr_last [of "naoview_current_file v"] by (fastforce simp: view_inv_def)

lemma naoview_info_total:
  assumes "view_inv bs v" "140 \<le> length info"
  shows "\<exists>r. naoview_info info v = Some r"
proof -
  obtain p where p: "cstr (naoview_current_file v) = Some p" using view_file [OF assms(1)] by auto
  have "int32_args [VStr p, VInt (naoview_width v), VInt (naoview_height v)]"
    using assms(1) by (simp add: view_inv_def int32_args_def)
  then show ?thesis
    using mini_snprintf_total [of "''Source: %s [%dx%d]''" "[VStr p, VInt (naoview_width v), VInt (naoview_height v)]"] assms(2)
    by (simp add: naoview_info_def p)
qed

lemma naoview_menu_inv:
  assumes "view_inv bs v" "coalesced bs"
  shows "\<exists>v'. naoview_menu u v = Some v' \<and> view_inv bs v'"
proof -
  have close: "\<exists>w'. (do {
       w \<leftarrow> naoview_close_image w;
       f \<leftarrow> strncpy (naoview_current_file w) (''0:/'' @ [NUL]) 127;
       Some (w\<lparr>naoview_current_file := f, naoview_alert := NAOVIEW_STATUS_OK\<rparr>)
     }) = Some w' \<and> view_inv bs w'" if w: "view_inv bs w" for w
  proof -
    obtain w1 where w1: "naoview_close_image w = Some w1" "view_inv bs w1" using naoview_close_inv [OF w assms(2)] by blast
    then obtain f where "strncpy (naoview_current_file w1) (''0:/'' @ [NUL]) 127 = Some f" "length f = 128" "last f = NUL"
      using strncpy_file [of "naoview_current_file w1" "''0:/''"] by (auto simp: view_inv_def)
    then show ?thesis using w1 view_inv_file by simp
  qed
  show ?thesis unfolding naoview_menu_def Let_def
    using assms(1) close [of v] close [of "v\<lparr>naoview_show_open_dialog := True, naoview_alert := NAOVIEW_STATUS_OK\<rparr>"]
    by (auto simp del: append.simps)
qed

lemma naoview_open_dialog_inv:
  assumes "view_inv bs v" "room N bs" "decodes_within N decode" "edits_within u"
  shows "\<exists>v'. naoview_open_dialog decode opened read_ok u v = Some v' \<and> view_inv bs v'"
proof -
  obtain p where p: "cstr (naoview_current_file v) = Some p" using view_file [OF assms(1)] by auto
  define q where "q = nk_edit_string u ''Open File'' p"
  define f where "f = q @ NUL # drop (length q + 1) (naoview_current_file v)"
  have q: "length q < 127" using assms(4) by (simp add: edits_within_def q_def)
  have len: "length (naoview_current_file v) = 128" "last (naoview_current_file v) = NUL" using assms(1) by (simp_all add: view_inv_def)
  have f: "length f = 128" "last f = NUL" using q len by (simp_all add: f_def last_drop)
  have v1: "view_inv bs (v\<lparr>naoview_current_file := f\<rparr>)" by (rule view_inv_file [OF assms(1) f])
  obtain ok v2 where v2: "naoview_load_image decode opened read_ok q (v\<lparr>naoview_current_file := f\<rparr>) = Some (ok, v2)" "view_inv bs v2"
    using naoview_load_inv [OF v1 assms(2,3)] by blast
  have f': "q @ NUL # drop (Suc (length q)) (naoview_current_file v) = f" by (simp add: f_def)
  show ?thesis
    unfolding naoview_open_dialog_def
    using assms(1) v1 v2 q len p
    by (simp add: Let_def f' flip: q_def)
qed

lemma naoview_alert_dialog_inv:
  assumes "view_inv bs v" "160 \<le> length lbl"
  shows "\<exists>v'. naoview_alert_dialog lbl u v = Some v' \<and> view_inv bs v'"
proof -
  obtain p where p: "cstr (naoview_current_file v) = Some p" using view_file [OF assms(1)] by auto
  obtain r where "mini_snprintf (Some lbl) 160 ''Path: %s'' [VStr p] = Some r"
    using mini_snprintf_total [of "''Path: %s''" "[VStr p]" _ 160 lbl] assms(2) by (auto simp: int32_args_def)
  then show ?thesis using assms(1) p by (simp add: naoview_alert_dialog_def)
qed

lemma render_naoview_inv:
  assumes "view_inv bs v" "room N bs" "decodes_within N decode" "edits_within u" "140 \<le> length info" "160 \<le> length lbl"
  shows "\<exists>v'. render_naoview decode opened read_ok info lbl u v = Some v' \<and> view_inv bs v'"
proof -
  have co: "coalesced bs" using assms(2) by (simp add: room_def)
  obtain v1 where v1: "naoview_menu u (v\<lparr>bounds_naoview := nk_window_get_bounds u nv_window\<rparr>) = Some v1" "view_inv bs v1"
    using naoview_menu_inv [OF _ co, of "v\<lparr>bounds_naoview := nk_window_get_bounds u nv_window\<rparr>" u] assms(1) by auto
  obtain r where r: "naoview_info info v1 = Some r" using naoview_info_total [OF v1(2) assms(5)] by blast
  obtain v2 where v2: "naoview_open_dialog decode opened read_ok u v1 = Some v2" "view_inv bs v2"
    using naoview_open_dialog_inv [OF v1(2) assms(2-4)] by blast
  obtain v3 where v3: "naoview_alert_dialog lbl u v2 = Some v3" "view_inv bs v3"
    using naoview_alert_dialog_inv [OF v2(2) assms(6)] by blast
  have focus: "view_inv bs (naoview_focus u w)" if "view_inv bs w" for w using that by (simp add: naoview_focus_def)
  have tail: "\<exists>v'. (let w = naoview_focus u w in
       if nk_window_is_hidden u nv_window then naoview_close_image (w\<lparr>naoview_active := False\<rparr>) else Some w) = Some v' \<and> view_inv bs v'"
    if "view_inv bs w" for w
    using naoview_close_inv [OF _ co, of "(naoview_focus u w)\<lparr>naoview_active := False\<rparr>"] focus [OF that] by (auto simp: Let_def)
  show ?thesis
    unfolding render_naoview_def using assms(1) tail v1 r v2 v3 by simp
qed

section \<open>Sessions\<close>

text \<open>What happens to the viewer over time: a file opened from the explorer, or a frame, each with the
  decoder, the volume and the stack contents of that moment.\<close>

datatype view_event =
    Open_File decoder "string \<Rightarrow> u8 list option" bool string
  | View_Frame decoder "string \<Rightarrow> u8 list option" bool "char list" "char list" ui

fun view_step :: "view_event \<Rightarrow> naoview \<Rightarrow> naoview option" where
  "view_step (Open_File decode opened read_ok path) v = naoview_open_file decode opened read_ok path v"
| "view_step (View_Frame decode opened read_ok info lbl u) v = render_naoview decode opened read_ok info lbl u v"

fun event_ok :: "nat \<Rightarrow> view_event \<Rightarrow> bool" where
  "event_ok N (Open_File decode opened read_ok path) \<longleftrightarrow> decodes_within N decode"
| "event_ok N (View_Frame decode opened read_ok info lbl u) \<longleftrightarrow>
     decodes_within N decode \<and> edits_within u \<and> length info = 140 \<and> length lbl = 160"

lemma naoview_open_file_inv:
  assumes "view_inv bs v" "room N bs" "decodes_within N decode"
  shows "\<exists>v'. naoview_open_file decode opened read_ok path v = Some v' \<and> view_inv bs v'"
proof -
  obtain f where f: "strncpy (naoview_current_file v) (path @ [NUL]) 127 = Some f" "length f = 128" "last f = NUL"
    using strncpy_file [of "naoview_current_file v" path] assms(1) by (auto simp: view_inv_def)
  obtain p where p: "cstr f = Some p" using cstr_last [of f] f(2,3) by fastforce
  have "view_inv bs (v\<lparr>naoview_active := True, naoview_minimized := False, naoview_current_file := f\<rparr>)"
    by (rule view_inv_file [OF _ f(2,3)]) (simp add: assms(1))
  from naoview_load_inv [OF this assms(2,3), of opened read_ok p]
  show ?thesis by (auto simp: naoview_open_file_def f p)
qed

lemma view_step_inv:
  assumes "view_inv bs v" "room N bs" "event_ok N e"
  shows "\<exists>v'. view_step e v = Some v' \<and> view_inv bs v'"
  using naoview_open_file_inv [OF assms(1,2)] render_naoview_inv [OF assms(1,2)] assms(3) by (cases e) auto

lemma view_run_inv:
  assumes "view_inv bs v" "room N bs" "\<forall>e \<in> set es. event_ok N e"
  shows "\<exists>v'. for_list es view_step v = Some v' \<and> view_inv bs v'"
  using assms(1,3)
proof (induction es arbitrary: v)
  case (Cons e es)
  then obtain v1 where "view_step e v = Some v1" "view_inv bs v1" using view_step_inv [OF _ assms(2), of v e] by auto
  then show ?case using Cons by simp
qed simp

definition naoview_boot :: "mm_state \<Rightarrow> naoview" where
  "naoview_boot heap = \<lparr>naoview_active = False, naoview_minimized = False, naoview_show_open_dialog = False,
     naoview_alert = NAOVIEW_STATUS_OK, naoview_current_file = ''0:/'' @ replicate 125 NUL, naoview_pixels = 0, naoview_data = [],
     naoview_width = 0, naoview_height = 0, naoview_img_set = False, bounds_naoview = (0, 0, 0, 0), nv_drag_id = 0,
     nv_heap = heap, nv_arena = \<lparr>stb_arena = (\<lambda>_. 0), stb_arena_offset = 0\<rparr>, nv_flip = False, nv_requests = []\<rparr>"

lemma view_inv_boot: "mm_inv heap bs \<Longrightarrow> view_inv bs (naoview_boot heap)"
  by (simp add: view_inv_def naoview_boot_def owns_def)


definition one_pixel :: decoder where
  "one_pixel flip content a = (if content = [] then (None, a) else (Some (1, 1, [1, 2, 3, 255]), a))"


end
