(* ===== verification/Fat_Window.thy ===== *)
theory Fat_Window
  imports Fatfs_Api Loops "HOL-Library.Monad_Syntax"
begin

text \<open>
  The sector window of FatFs (\<open>src/ff.c\<close>): little-endian access, the file system object, and flushing
  and moving the window.  The calls into the disk driver are an argument, and the locale
  \<open>block_device\<close> states what they promise.  The sector size is 512 (\<open>FF_MIN_SS = FF_MAX_SS\<close>).
\<close>

section \<open>Result codes and little-endian access\<close>

definition FR_DISK_ERR :: fresult where "FR_DISK_ERR = 1"
definition FR_INT_ERR :: fresult where "FR_INT_ERR = 2"

definition ld_word :: "u8 list \<Rightarrow> nat \<Rightarrow> u16 option" where
  "ld_word buf p = do {
     b1 \<leftarrow> get_at buf (p + 1);
     b0 \<leftarrow> get_at buf p;
     Some (push_bit 8 (ucast b1) OR ucast b0)
   }"

definition ld_dword :: "u8 list \<Rightarrow> nat \<Rightarrow> u32 option" where
  "ld_dword buf p = do {
     b3 \<leftarrow> get_at buf (p + 3);
     b2 \<leftarrow> get_at buf (p + 2);
     b1 \<leftarrow> get_at buf (p + 1);
     b0 \<leftarrow> get_at buf p;
     let rv = ucast b3;
     let rv = push_bit 8 rv OR ucast b2;
     let rv = push_bit 8 rv OR ucast b1;
     Some (push_bit 8 rv OR ucast b0)
   }"

definition st_word :: "nat \<Rightarrow> u16 \<Rightarrow> u8 list \<Rightarrow> u8 list option" where
  "st_word p val buf = do {
     buf \<leftarrow> put_at p (ucast val) buf;
     put_at (p + 1) (ucast (drop_bit 8 val)) buf
   }"

definition st_dword :: "nat \<Rightarrow> u32 \<Rightarrow> u8 list \<Rightarrow> u8 list option" where
  "st_dword p val buf = do {
     buf \<leftarrow> put_at p (ucast val) buf;
     let val = drop_bit 8 val;
     buf \<leftarrow> put_at (p + 1) (ucast val) buf;
     let val = drop_bit 8 val;
     buf \<leftarrow> put_at (p + 2) (ucast val) buf;
     let val = drop_bit 8 val;
     put_at (p + 3) (ucast val) buf
   }"

section \<open>The file system object\<close>

text \<open>One sector read, one sector written and the flush request, as FatFs calls them.  The flag tells
  whether the result is \<open>RES_OK\<close>; \<^const>\<open>None\<close> is a driver that never returns.\<close>

record 'd diskio =
  dio_read :: "u32 \<Rightarrow> 'd \<Rightarrow> (bool \<times> u8 list \<times> 'd) option"
  dio_write :: "u8 list \<Rightarrow> u32 \<Rightarrow> 'd \<Rightarrow> (bool \<times> 'd) option"
  dio_sync :: "'d \<Rightarrow> (bool \<times> 'd) option"

definition FS_FAT12 :: u8 where "FS_FAT12 = 1"
definition FS_FAT16 :: u8 where "FS_FAT16 = 2"
definition FS_FAT32 :: u8 where "FS_FAT32 = 3"

record 'd FATFS =
  fs_type :: u8
  n_fats :: u8
  wflag :: u8
  fsi_flag :: u8
  fs_id :: u16
  n_rootdir :: u16
  csize :: u16
  last_clst :: u32
  free_clst :: u32
  n_fatent :: u32
  fs_fsize :: u32
  volbase :: u32
  fatbase :: u32
  dirbase :: u32
  database :: u32
  winsect :: u32
  win :: "u8 list"
  dev :: 'd

section \<open>Flushing and moving the window\<close>

definition sync_window :: "'d diskio \<Rightarrow> 'd FATFS \<Rightarrow> (fresult \<times> 'd FATFS) option" where
  "sync_window M fs =
     (if wflag fs \<noteq> 0 then do {
        (ok, d) \<leftarrow> dio_write M (win fs) (winsect fs) (dev fs);
        let fs = fs\<lparr>dev := d\<rparr>;
        if ok then do {
          let fs = fs\<lparr>wflag := 0\<rparr>;
          if winsect fs - fatbase fs < fs_fsize fs \<and> n_fats fs = 2 then do {
            (_, d) \<leftarrow> dio_write M (win fs) (winsect fs + fs_fsize fs) (dev fs);
            Some (FR_OK, fs\<lparr>dev := d\<rparr>)
          } else Some (FR_OK, fs)
        } else Some (FR_DISK_ERR, fs)
      } else Some (FR_OK, fs))"

definition move_window :: "'d diskio \<Rightarrow> u32 \<Rightarrow> 'd FATFS \<Rightarrow> (fresult \<times> 'd FATFS) option" where
  "move_window M sect fs =
     (if sect \<noteq> winsect fs then do {
        (res, fs) \<leftarrow> sync_window M fs;
        if res = FR_OK then do {
          (ok, buf, d) \<leftarrow> dio_read M sect (dev fs);
          let fs = fs\<lparr>win := buf, dev := d\<rparr>;
          if ok then Some (FR_OK, fs\<lparr>winsect := sect\<rparr>)
          else Some (FR_DISK_ERR, fs\<lparr>winsect := - 1\<rparr>)
        } else Some (res, fs)
      } else Some (FR_OK, fs))"

definition sync_fs :: "'d diskio \<Rightarrow> 'd FATFS \<Rightarrow> (fresult \<times> 'd FATFS) option" where
  "sync_fs M fs = do {
     (res, fs) \<leftarrow> sync_window M fs;
     if res = FR_OK then do {
       fs \<leftarrow> (if fsi_flag fs = 1 then do {
                let fs = fs\<lparr>fsi_flag := 0\<rparr>;
                if fs_type fs = FS_FAT32 then do {
                  let w = replicate 512 0;
                  w \<leftarrow> st_dword 0 0x41615252 w;
                  w \<leftarrow> st_dword 484 0x61417272 w;
                  w \<leftarrow> st_dword 488 (free_clst fs) w;
                  w \<leftarrow> st_dword 492 (last_clst fs) w;
                  w \<leftarrow> st_dword 498 0xAA550000 w;
                  let fs = fs\<lparr>win := w, winsect := volbase fs + 1\<rparr>;
                  (_, d) \<leftarrow> dio_write M (win fs) (winsect fs) (dev fs);
                  Some (fs\<lparr>dev := d\<rparr>)
                } else Some fs
              } else Some fs);
       (ok, d) \<leftarrow> dio_sync M (dev fs);
       Some (if ok then FR_OK else FR_DISK_ERR, fs\<lparr>dev := d\<rparr>)
     } else Some (res, fs)
   }"

section \<open>The contract of a block device\<close>

text \<open>\<open>ready\<close> states answer, \<open>sector\<close> is what is stored; addresses below \<open>2 ^ 28\<close> are distinct
  sectors.\<close>

locale block_device =
  fixes M :: "'d diskio"
    and ready :: "'d \<Rightarrow> bool"
    and sector :: "'d \<Rightarrow> nat \<Rightarrow> u8 list"
  assumes read_sector: "ready d \<Longrightarrow> unat l < 2 ^ 28 \<Longrightarrow>
      \<exists>d'. dio_read M l d = Some (True, sector d (unat l), d') \<and> ready d' \<and> sector d' = sector d"
    and write_sector: "ready d \<Longrightarrow> unat l < 2 ^ 28 \<Longrightarrow> length b = 512 \<Longrightarrow>
      \<exists>d'. dio_write M b l d = Some (True, d') \<and> ready d' \<and> sector d' = (sector d)(unat l := b)"
    and sync_device: "ready d \<Longrightarrow> \<exists>d'. dio_sync M d = Some (True, d') \<and> ready d' \<and> sector d' = sector d"
    and sector_size: "ready d \<Longrightarrow> length (sector d n) = 512"

text \<open>The contents of the volume as FatFs sees it: the window over the device.\<close>

definition volume :: "('d \<Rightarrow> nat \<Rightarrow> u8 list) \<Rightarrow> 'd FATFS \<Rightarrow> nat \<Rightarrow> u8 list" where
  "volume sector fs = (sector (dev fs))(unat (winsect fs) := win fs)"

text \<open>The sectors of the second copy of the FAT.\<close>

definition mirror :: "'d FATFS \<Rightarrow> nat set" where
  "mirror fs = (if n_fats fs = 2 then {unat (fatbase fs) + unat (fs_fsize fs) ..< unat (fatbase fs) + 2 * unat (fs_fsize fs)} else {})"

definition in_fat :: "'d FATFS \<Rightarrow> nat set" where
  "in_fat fs = {unat (fatbase fs) ..< unat (fatbase fs) + unat (fs_fsize fs)}"

text \<open>A healthy window: a clean window agrees with the device, the window never shows the second copy,
  and outside the window the two copies agree.\<close>

definition window_ok :: "('d \<Rightarrow> bool) \<Rightarrow> ('d \<Rightarrow> nat \<Rightarrow> u8 list) \<Rightarrow> 'd FATFS \<Rightarrow> bool" where
  "window_ok ready sector fs \<longleftrightarrow>
     ready (dev fs) \<and> length (win fs) = 512 \<and> unat (winsect fs) < 2 ^ 28 \<and> unat (winsect fs) \<notin> mirror fs \<and>
     unat (fatbase fs) + 2 * unat (fs_fsize fs) \<le> 2 ^ 28 \<and>
     (wflag fs = 0 \<longrightarrow> win fs = sector (dev fs) (unat (winsect fs))) \<and>
     (n_fats fs = 2 \<longrightarrow> (\<forall>l \<in> in_fat fs. l \<noteq> unat (winsect fs) \<or> wflag fs = 0 \<longrightarrow>
        sector (dev fs) (l + unat (fs_fsize fs)) = sector (dev fs) l))"

text \<open>States that differ in the window and the device only.\<close>

definition same_volume :: "'d FATFS \<Rightarrow> 'd FATFS \<Rightarrow> bool" where
  "same_volume fs fs' \<longleftrightarrow> (\<exists>f s w d. fs' = fs\<lparr>wflag := f, winsect := s, win := w, dev := d\<rparr>)"

lemma same_volume_refl [simp]: "same_volume fs fs"
  unfolding same_volume_def by (rule exI [of _ "wflag fs"], rule exI [of _ "winsect fs"], rule exI [of _ "win fs"], rule exI [of _ "dev fs"]) simp

lemma same_volume_trans: "same_volume fs fs' \<Longrightarrow> same_volume fs' fs'' \<Longrightarrow> same_volume fs fs''"
  unfolding same_volume_def by (cases fs) auto

lemma same_volume_simps:
  assumes "same_volume fs fs'"
  shows "fs_type fs' = fs_type fs" "n_fats fs' = n_fats fs" "fsi_flag fs' = fsi_flag fs" "csize fs' = csize fs"
    "last_clst fs' = last_clst fs" "free_clst fs' = free_clst fs" "n_fatent fs' = n_fatent fs" "fs_fsize fs' = fs_fsize fs"
    "fatbase fs' = fatbase fs" "database fs' = database fs" "mirror fs' = mirror fs" "in_fat fs' = in_fat fs"
  using assms by (auto simp: same_volume_def mirror_def in_fat_def)

lemma in_fat_sub: "winsect fs - fatbase fs < fs_fsize fs \<longleftrightarrow> unat (winsect fs) \<in> in_fat fs"
  if "unat (fatbase fs) + 2 * unat (fs_fsize fs) \<le> 2 ^ 28" "unat (winsect fs) < 2 ^ 28"
proof (cases "fatbase fs \<le> winsect fs")
  case True
  then have "unat (winsect fs - fatbase fs) = unat (winsect fs) - unat (fatbase fs)" by (simp add: unat_sub)
  then show ?thesis using True by (auto simp: in_fat_def word_less_nat_alt word_le_nat_alt)
next
  case False
  then have lt: "unat (winsect fs) < unat (fatbase fs)" by (simp add: word_le_nat_alt)
  have "unat (winsect fs - fatbase fs) = 2 ^ 32 + unat (winsect fs) - unat (fatbase fs)"
    using lt unat_sub_if' [of "winsect fs" "fatbase fs"] by simp
  then have "\<not> winsect fs - fatbase fs < fs_fsize fs" using that lt by (simp add: word_less_nat_alt)
  then show ?thesis using lt by (simp add: in_fat_def)
qed

section \<open>The window on a healthy device\<close>

context block_device
begin

lemma sync_window_ok:
  assumes "window_ok ready sector fs"
  shows "\<exists>fs'. sync_window M fs = Some (FR_OK, fs') \<and> window_ok ready sector fs' \<and> same_volume fs fs' \<and> wflag fs' = 0 \<and>
    winsect fs' = winsect fs \<and> win fs' = win fs \<and> (\<forall>l. l \<notin> mirror fs \<longrightarrow> volume sector fs' l = volume sector fs l)"
proof (cases "wflag fs = 0")
  case True
  then show ?thesis using assms by (simp add: sync_window_def)
next
  case False
  note ok = assms [unfolded window_ok_def]
  obtain d1 where d1: "dio_write M (win fs) (winsect fs) (dev fs) = Some (True, d1)" "ready d1"
      "sector d1 = (sector (dev fs))(unat (winsect fs) := win fs)"
    using write_sector [of "dev fs" "winsect fs" "win fs"] ok by auto
  have fat: "winsect fs - fatbase fs < fs_fsize fs \<longleftrightarrow> unat (winsect fs) \<in> in_fat fs"
    using in_fat_sub ok by blast
  show ?thesis
  proof (cases "unat (winsect fs) \<in> in_fat fs \<and> n_fats fs = 2")
    case two: True
    have m: "unat (winsect fs + fs_fsize fs) = unat (winsect fs) + unat (fs_fsize fs)"
      using two ok by (intro unat_add_u32) (auto simp: in_fat_def)
    have lt: "unat (winsect fs + fs_fsize fs) < 2 ^ 28" using two ok unfolding m by (auto simp: in_fat_def)
    obtain d2 where d2: "dio_write M (win fs) (winsect fs + fs_fsize fs) d1 = Some (True, d2)" "ready d2"
        "sector d2 = (sector d1)(unat (winsect fs) + unat (fs_fsize fs) := win fs)"
      using write_sector [OF d1(2) lt, of "win fs"] ok unfolding m by auto
    let ?fs = "fs\<lparr>wflag := 0, dev := d2\<rparr>"
    have run: "sync_window M fs = Some (FR_OK, ?fs)" using False d1(1) d2(1) fat two by (simp add: sync_window_def)
    have pos: "unat (fs_fsize fs) > 0" using two by (auto simp: in_fat_def)
    have mir: "unat (winsect fs) + unat (fs_fsize fs) \<in> mirror fs" using two by (auto simp: mirror_def in_fat_def)
    have agree: "sector d2 (l + unat (fs_fsize fs)) = sector d2 l" if l: "l \<in> in_fat fs" for l
    proof -
      have "l + unat (fs_fsize fs) \<noteq> unat (winsect fs)" "l \<noteq> unat (winsect fs) + unat (fs_fsize fs)"
        using l two by (auto simp: in_fat_def)
      then show ?thesis using ok l two pos by (auto simp: d2(3) d1(3))
    qed
    have "window_ok ready sector ?fs"
      using ok d2(2) agree pos by (auto simp: window_ok_def mirror_def in_fat_def d2(3) d1(3))
    moreover have "\<forall>l. l \<notin> mirror fs \<longrightarrow> volume sector ?fs l = volume sector fs l"
      using mir by (auto simp: volume_def d2(3) d1(3))
    moreover have "same_volume fs ?fs"
      unfolding same_volume_def by (intro exI [of _ 0] exI [of _ "winsect fs"] exI [of _ "win fs"] exI [of _ d2]) simp
    ultimately show ?thesis using run by auto
  next
    case one: False
    let ?fs = "fs\<lparr>wflag := 0, dev := d1\<rparr>"
    have run: "sync_window M fs = Some (FR_OK, ?fs)" using False d1(1) fat one by (auto simp: sync_window_def)
    have "unat (winsect fs) \<notin> in_fat fs \<and> unat (winsect fs) \<notin> mirror fs" if "n_fats fs = 2" using one that ok by auto
    then have "sector d1 (l + unat (fs_fsize fs)) = sector d1 l" if "l \<in> in_fat fs" "n_fats fs = 2" for l
      using that ok by (auto simp: d1(3) in_fat_def mirror_def)
    then have "window_ok ready sector ?fs" using ok d1(2) by (auto simp: window_ok_def mirror_def in_fat_def d1(3))
    moreover have "same_volume fs ?fs"
      unfolding same_volume_def by (intro exI [of _ 0] exI [of _ "winsect fs"] exI [of _ "win fs"] exI [of _ d1]) simp
    ultimately show ?thesis using run by (auto simp: volume_def d1(3))
  qed
qed

lemma move_window_ok:
  assumes "window_ok ready sector fs" "unat sect < 2 ^ 28" "unat sect \<notin> mirror fs"
  shows "\<exists>fs'. move_window M sect fs = Some (FR_OK, fs') \<and> window_ok ready sector fs' \<and> same_volume fs fs' \<and>
    winsect fs' = sect \<and> win fs' = volume sector fs (unat sect) \<and>
    (\<forall>l. l \<notin> mirror fs \<longrightarrow> volume sector fs' l = volume sector fs l)"
proof (cases "sect = winsect fs")
  case True
  then show ?thesis using assms by (simp add: move_window_def volume_def)
next
  case False
  obtain f1 where f1: "sync_window M fs = Some (FR_OK, f1)" "window_ok ready sector f1" "same_volume fs f1" "wflag f1 = 0"
      "winsect f1 = winsect fs" "\<forall>l. l \<notin> mirror fs \<longrightarrow> volume sector f1 l = volume sector fs l"
    using sync_window_ok [OF assms(1)] by blast
  note ok = f1(2) [unfolded window_ok_def] and same = same_volume_simps [OF f1(3)]
  obtain d where d: "dio_read M sect (dev f1) = Some (True, sector (dev f1) (unat sect), d)" "ready d" "sector d = sector (dev f1)"
    using read_sector [of "dev f1" sect] ok assms(2) by auto
  let ?fs = "f1\<lparr>win := sector (dev f1) (unat sect), dev := d, winsect := sect\<rparr>"
  have clean: "sector (dev f1) (unat (winsect f1)) = win f1" using ok f1(4) by simp
  have run: "move_window M sect fs = Some (FR_OK, ?fs)" using False f1(1) d(1) by (simp add: move_window_def)
  have vol: "volume sector ?fs l = volume sector f1 l" for l using clean by (simp add: volume_def d(3))
  have "window_ok ready sector ?fs"
    using ok d(2) assms(2,3) f1(4) sector_size [of "dev f1"] same(11)
    by (auto simp: window_ok_def d(3) mirror_def in_fat_def)
  moreover have "same_volume fs ?fs"
    by (rule same_volume_trans [OF f1(3)], unfold same_volume_def,
      intro exI [of _ "wflag f1"] exI [of _ sect] exI [of _ "sector (dev f1) (unat sect)"] exI [of _ d]) simp
  moreover have "sector (dev f1) (unat sect) = volume sector fs (unat sect)"
  proof -
    have "volume sector f1 (unat sect) = sector (dev f1) (unat sect)" using clean by (auto simp: volume_def)
    then show ?thesis using f1(6) assms(3) by simp
  qed
  ultimately show ?thesis using run vol f1(6) by auto
qed

end

end
