(* ===== verification/Fat_Table.thy ===== *)
theory Fat_Table
  imports Fat_Window
begin

text \<open>
  The file allocation table of FatFs (\<open>src/ff.c\<close>): reading and changing entries of FAT12, FAT16 and
  FAT32 volumes through the sector window.
\<close>

section \<open>Definitions\<close>

definition clst2sect :: "u32 \<Rightarrow> 'd FATFS \<Rightarrow> u32" where
  "clst2sect clst fs =
     (let clst = clst - 2
      in if clst \<ge> n_fatent fs - 2 then 0 else database fs + ucast (csize fs) * clst)"

text \<open>A byte of the window, its offset taken modulo the sector size.\<close>

definition win_byte :: "u32 \<Rightarrow> 'd FATFS \<Rightarrow> u8 option" where
  "win_byte bc fs = get_at (win fs) (unat (bc mod 512))"

definition set_win_byte :: "u32 \<Rightarrow> u8 \<Rightarrow> 'd FATFS \<Rightarrow> 'd FATFS option" where
  "set_win_byte bc b fs = do {
     w \<leftarrow> put_at (unat (bc mod 512)) b (win fs);
     Some (fs\<lparr>win := w, wflag := 1\<rparr>)
   }"

definition get_fat12 :: "'d diskio \<Rightarrow> u32 \<Rightarrow> 'd FATFS \<Rightarrow> (u32 \<times> 'd FATFS) option" where
  "get_fat12 M clst fs = do {
     let bc = clst;
     let bc = bc + bc div 2;
     (res, fs) \<leftarrow> move_window M (fatbase fs + bc div 512) fs;
     if res \<noteq> FR_OK then Some (0xFFFFFFFF, fs)
     else do {
       wc \<leftarrow> win_byte bc fs;
       let wc = ucast wc;
       let bc = bc + 1;
       (res, fs) \<leftarrow> move_window M (fatbase fs + bc div 512) fs;
       if res \<noteq> FR_OK then Some (0xFFFFFFFF, fs)
       else do {
         b \<leftarrow> win_byte bc fs;
         let wc = wc OR push_bit 8 (ucast b);
         Some (if clst AND 1 \<noteq> 0 then drop_bit 4 wc else wc AND 0xFFF, fs)
       }
     }
   }"

definition get_fat16 :: "'d diskio \<Rightarrow> u32 \<Rightarrow> 'd FATFS \<Rightarrow> (u32 \<times> 'd FATFS) option" where
  "get_fat16 M clst fs = do {
     (res, fs) \<leftarrow> move_window M (fatbase fs + clst div 256) fs;
     if res \<noteq> FR_OK then Some (0xFFFFFFFF, fs)
     else do {
       v \<leftarrow> ld_word (win fs) (unat (clst * 2 mod 512));
       Some (ucast v, fs)
     }
   }"

definition get_fat32 :: "'d diskio \<Rightarrow> u32 \<Rightarrow> 'd FATFS \<Rightarrow> (u32 \<times> 'd FATFS) option" where
  "get_fat32 M clst fs = do {
     (res, fs) \<leftarrow> move_window M (fatbase fs + clst div 128) fs;
     if res \<noteq> FR_OK then Some (0xFFFFFFFF, fs)
     else do {
       v \<leftarrow> ld_dword (win fs) (unat (clst * 4 mod 512));
       Some (v AND 0x0FFFFFFF, fs)
     }
   }"

definition get_fat :: "'d diskio \<Rightarrow> u32 \<Rightarrow> 'd FATFS \<Rightarrow> (u32 \<times> 'd FATFS) option" where
  "get_fat M clst fs =
     (if clst < 2 \<or> clst \<ge> n_fatent fs then Some (1, fs)
      else if fs_type fs = FS_FAT12 then get_fat12 M clst fs
      else if fs_type fs = FS_FAT16 then get_fat16 M clst fs
      else if fs_type fs = FS_FAT32 then get_fat32 M clst fs
      else Some (1, fs))"

definition put_fat12 :: "'d diskio \<Rightarrow> u32 \<Rightarrow> u32 \<Rightarrow> 'd FATFS \<Rightarrow> (fresult \<times> 'd FATFS) option" where
  "put_fat12 M clst val fs = do {
     let bc = clst;
     let bc = bc + bc div 2;
     (res, fs) \<leftarrow> move_window M (fatbase fs + bc div 512) fs;
     if res \<noteq> FR_OK then Some (res, fs)
     else do {
       p \<leftarrow> win_byte bc fs;
       fs \<leftarrow> set_win_byte bc (if clst AND 1 \<noteq> 0 then (p AND 0x0F) OR push_bit 4 (ucast val) else ucast val) fs;
       let bc = bc + 1;
       (res, fs) \<leftarrow> move_window M (fatbase fs + bc div 512) fs;
       if res \<noteq> FR_OK then Some (res, fs)
       else do {
         p \<leftarrow> win_byte bc fs;
         fs \<leftarrow> set_win_byte bc (if clst AND 1 \<noteq> 0 then ucast (drop_bit 4 val)
                 else (p AND 0xF0) OR (ucast (drop_bit 8 val) AND 0x0F)) fs;
         Some (FR_OK, fs)
       }
     }
   }"

definition put_fat16 :: "'d diskio \<Rightarrow> u32 \<Rightarrow> u32 \<Rightarrow> 'd FATFS \<Rightarrow> (fresult \<times> 'd FATFS) option" where
  "put_fat16 M clst val fs = do {
     (res, fs) \<leftarrow> move_window M (fatbase fs + clst div 256) fs;
     if res \<noteq> FR_OK then Some (res, fs)
     else do {
       w \<leftarrow> st_word (unat (clst * 2 mod 512)) (ucast val) (win fs);
       Some (FR_OK, fs\<lparr>win := w, wflag := 1\<rparr>)
     }
   }"

definition put_fat32 :: "'d diskio \<Rightarrow> u32 \<Rightarrow> u32 \<Rightarrow> 'd FATFS \<Rightarrow> (fresult \<times> 'd FATFS) option" where
  "put_fat32 M clst val fs = do {
     (res, fs) \<leftarrow> move_window M (fatbase fs + clst div 128) fs;
     if res \<noteq> FR_OK then Some (res, fs)
     else do {
       v \<leftarrow> ld_dword (win fs) (unat (clst * 4 mod 512));
       w \<leftarrow> st_dword (unat (clst * 4 mod 512)) ((val AND 0x0FFFFFFF) OR (v AND 0xF0000000)) (win fs);
       Some (FR_OK, fs\<lparr>win := w, wflag := 1\<rparr>)
     }
   }"

definition put_fat :: "'d diskio \<Rightarrow> u32 \<Rightarrow> u32 \<Rightarrow> 'd FATFS \<Rightarrow> (fresult \<times> 'd FATFS) option" where
  "put_fat M clst val fs =
     (if clst \<ge> 2 \<and> clst < n_fatent fs then
        if fs_type fs = FS_FAT12 then put_fat12 M clst val fs
        else if fs_type fs = FS_FAT16 then put_fat16 M clst val fs
        else if fs_type fs = FS_FAT32 then put_fat32 M clst val fs
        else Some (FR_INT_ERR, fs)
      else Some (FR_INT_ERR, fs))"

section \<open>The table as bytes\<close>

text \<open>Byte \<open>i\<close> of the first FAT, as FatFs sees it.\<close>

definition fat_byte :: "('d \<Rightarrow> nat \<Rightarrow> u8 list) \<Rightarrow> 'd FATFS \<Rightarrow> nat \<Rightarrow> u8" where
  "fat_byte sector fs i = volume sector fs (unat (fatbase fs) + i div 512) ! (i mod 512)"

text \<open>The geometry a mounted volume has: the FAT holds all entries.\<close>

definition fat_geometry :: "'d FATFS \<Rightarrow> bool" where
  "fat_geometry fs \<longleftrightarrow>
     (fs_type fs = FS_FAT12 \<and> unat (n_fatent fs) \<le> 0xFF7 \<and> unat (n_fatent fs) * 3 \<le> unat (fs_fsize fs) * 1024 \<or>
      fs_type fs = FS_FAT16 \<and> unat (n_fatent fs) \<le> 0xFFF7 \<and> unat (n_fatent fs) * 2 \<le> unat (fs_fsize fs) * 512 \<or>
      fs_type fs = FS_FAT32 \<and> unat (n_fatent fs) \<le> 0x0FFFFFF7 \<and> unat (n_fatent fs) * 4 \<le> unat (fs_fsize fs) * 512)"

definition fat_ok :: "('d \<Rightarrow> bool) \<Rightarrow> ('d \<Rightarrow> nat \<Rightarrow> u8 list) \<Rightarrow> 'd FATFS \<Rightarrow> bool" where
  "fat_ok ready sector fs \<longleftrightarrow> window_ok ready sector fs \<and> fat_geometry fs"

text \<open>The entry of a cluster, and the table after a change, over the bytes of the FAT.\<close>

definition entry12 :: "(nat \<Rightarrow> u8) \<Rightarrow> nat \<Rightarrow> u32" where
  "entry12 B c = (let wc = ucast (B (c + c div 2)) OR push_bit 8 (ucast (B (c + c div 2 + 1)))
     in if odd c then drop_bit 4 wc else wc AND 0xFFF)"

definition entry16 :: "(nat \<Rightarrow> u8) \<Rightarrow> nat \<Rightarrow> u32" where
  "entry16 B c = push_bit 8 (ucast (B (2 * c + 1))) OR ucast (B (2 * c))"

definition entry32 :: "(nat \<Rightarrow> u8) \<Rightarrow> nat \<Rightarrow> u32" where
  "entry32 B c = (push_bit 24 (ucast (B (4 * c + 3))) OR push_bit 16 (ucast (B (4 * c + 2))) OR
     push_bit 8 (ucast (B (4 * c + 1))) OR ucast (B (4 * c))) AND 0x0FFFFFFF"

definition fat_entry :: "('d \<Rightarrow> nat \<Rightarrow> u8 list) \<Rightarrow> 'd FATFS \<Rightarrow> nat \<Rightarrow> u32" where
  "fat_entry sector fs c =
     (if fs_type fs = FS_FAT12 then entry12 (fat_byte sector fs) c
      else if fs_type fs = FS_FAT16 then entry16 (fat_byte sector fs) c
      else entry32 (fat_byte sector fs) c)"

text \<open>The bits of a value an entry keeps.\<close>

definition fat_mask :: "'d FATFS \<Rightarrow> u32" where
  "fat_mask fs = (if fs_type fs = FS_FAT12 then 0xFFF else if fs_type fs = FS_FAT16 then 0xFFFF else 0x0FFFFFFF)"

section \<open>Entries as bits\<close>

lemma even_bytes: "even c \<Longrightarrow> c + c div 2 = 3 * (c div 2)" for c :: nat
  by (auto elim!: evenE)

lemma odd_bytes: "odd c \<Longrightarrow> c + c div 2 = 3 * (c div 2) + 1" for c :: nat
  by (auto elim!: oddE)

lemma entry12_same:
  assumes "b = c + c div 2"
    and "x = (if odd c then (B b AND 0x0F) OR push_bit 4 (ucast v) else ucast v)"
    and "y = (if odd c then ucast (drop_bit 4 v) else (B (b + 1) AND 0xF0) OR (ucast (drop_bit 8 v) AND 0x0F))"
  shows "entry12 (B(b := x, b + 1 := y)) c = (v :: u32) AND 0xFFF"
proof (rule bit_word_eqI)
  fix n assume n: "n < LENGTH(32)"
  have m: "(0xFFF :: u32) = mask 12" "(0x0F :: u8) = mask 4" "(0xF0 :: u8) = push_bit 4 (mask 4)"
    by (simp_all add: mask_eq_exp_minus_1)
  show "bit (entry12 (B(b := x, b + 1 := y)) c) n = bit (v AND 0xFFF) n"
    using n by (cases "odd c") (auto simp: entry12_def Let_def assms m bit_simps)
qed

lemma entry12_other:
  assumes "b = c + c div 2" "c' \<noteq> c"
    and "x = (if odd c then (B b AND 0x0F) OR push_bit 4 (ucast v) else ucast v)"
    and "y = (if odd c then ucast (drop_bit 4 v) else (B (b + 1) AND 0xF0) OR (ucast (drop_bit 8 v) AND 0x0F))"
  shows "entry12 (B(b := x, b + 1 := y)) c' = entry12 B c'"
proof -
  have m: "(0xFFF :: u32) = mask 12" "(0x0F :: u8) = mask 4" "(0xF0 :: u8) = push_bit 4 (mask 4)"
    by (simp_all add: mask_eq_exp_minus_1)
  have "odd c \<and> c' = c - 1 \<or> even c \<and> c' = c + 1 \<or> c div 2 \<noteq> c' div 2" using assms(2) by presburger
  then consider "odd c" "c' = c - 1" | "even c" "c' = c + 1" | "c div 2 \<noteq> c' div 2" by blast
  then show ?thesis
  proof cases
    case 1
    then have "even c'" "c' div 2 = c div 2" by (auto elim!: oddE)
    then have e: "c' + c' div 2 = 3 * (c div 2)" "b = 3 * (c div 2) + 1" using even_bytes odd_bytes 1 assms(1) by auto
    show ?thesis
    proof (rule bit_word_eqI)
      fix n assume "n < LENGTH(32)"
      show "bit (entry12 (B(b := x, b + 1 := y)) c') n = bit (entry12 B c') n"
        using \<open>even c'\<close> 1(1) by (auto simp: entry12_def Let_def e assms(3) m bit_simps)
    qed
  next
    case 2
    then have "odd c'" "c' div 2 = c div 2" by (auto elim!: evenE)
    then have e: "c' + c' div 2 = 3 * (c div 2) + 1" "b = 3 * (c div 2)" using even_bytes odd_bytes 2 assms(1) by auto
    show ?thesis
    proof (rule bit_word_eqI)
      fix n assume "n < LENGTH(32)"
      show "bit (entry12 (B(b := x, b + 1 := y)) c') n = bit (entry12 B c') n"
        using \<open>odd c'\<close> 2(1) by (auto simp: entry12_def Let_def e assms(4) m bit_simps dest: bit_imp_le_length)
    qed
  next
    case 3
    have "c + c div 2 \<in> {3 * (c div 2), 3 * (c div 2) + 1}" "c' + c' div 2 \<in> {3 * (c' div 2), 3 * (c' div 2) + 1}"
      using even_bytes odd_bytes by (cases "even c"; cases "even c'"; auto)+
    then have "c' + c' div 2 \<noteq> b" "c' + c' div 2 \<noteq> b + 1" "c' + c' div 2 + 1 \<noteq> b" "c' + c' div 2 + 1 \<noteq> b + 1"
      using 3 assms(1) by auto
    then show ?thesis by (simp add: entry12_def)
  qed
qed

lemma u8_bit_less: "bit (b :: u8) n \<Longrightarrow> n < 8"
  by (auto dest: bit_imp_le_length)

lemma entry16_same: "entry16 (B(2 * c := ucast v, 2 * c + 1 := ucast (drop_bit 8 (ucast v :: u16)))) c = v AND 0xFFFF"
proof (rule bit_word_eqI)
  fix n assume "n < LENGTH(32)"
  have m: "(0xFFFF :: u32) = mask 16" by (simp add: mask_eq_exp_minus_1)
  show "bit (entry16 (B(2 * c := ucast v, 2 * c + 1 := ucast (drop_bit 8 (ucast v :: u16)))) c) n = bit (v AND 0xFFFF) n"
    by (auto simp: entry16_def m bit_simps)
qed

lemma entry16_other: "c' \<noteq> c \<Longrightarrow> entry16 (B(2 * c := x, 2 * c + 1 := y)) c' = entry16 B c'"
  by (simp add: entry16_def)

lemma ld_dword_Some:
  assumes "get_at buf (p + 3) = Some b3" "get_at buf (p + 2) = Some b2" "get_at buf (p + 1) = Some b1" "get_at buf (p + 0) = Some b0"
  shows "ld_dword buf p = Some (push_bit 24 (ucast b3) OR push_bit 16 (ucast b2) OR push_bit 8 (ucast b1) OR ucast b0)"
proof -
  have "push_bit 8 (push_bit 8 (push_bit 8 (ucast b3) OR ucast b2) OR ucast b1) OR (ucast b0 :: u32) =
     push_bit 24 (ucast b3) OR push_bit 16 (ucast b2) OR push_bit 8 (ucast b1) OR ucast b0"
    by (rule bit_word_eqI) (auto simp: bit_simps)
  then show ?thesis unfolding ld_dword_def Let_def using assms by (simp del: push_bit_or)
qed

lemma join_bytes32:
  "push_bit 24 (ucast (ucast (drop_bit 24 w) :: u8)) OR push_bit 16 (ucast (ucast (drop_bit 16 w) :: u8)) OR
   push_bit 8 (ucast (ucast (drop_bit 8 w) :: u8)) OR ucast (ucast w :: u8) = (w :: u32)"
proof (rule bit_word_eqI)
  fix n assume n: "n < LENGTH(32)"
  have "n < 8 \<or> 8 \<le> n \<and> n < 16 \<or> 16 \<le> n \<and> n < 24 \<or> 24 \<le> n \<and> n < 32" using n by auto
  then show "bit (push_bit 24 (ucast (ucast (drop_bit 24 w) :: u8)) OR push_bit 16 (ucast (ucast (drop_bit 16 w) :: u8)) OR
   push_bit 8 (ucast (ucast (drop_bit 8 w) :: u8)) OR (ucast (ucast w :: u8) :: u32)) n = bit w n"
    by (elim disjE) (auto simp: bit_simps)
qed

lemma entry32_same:
  assumes "w = (v AND 0x0FFFFFFF) OR (u AND 0xF0000000)"
  shows "entry32 (B(4 * c := ucast w, 4 * c + 1 := ucast (drop_bit 8 w), 4 * c + 2 := ucast (drop_bit 8 (drop_bit 8 w)),
      4 * c + 3 := ucast (drop_bit 8 (drop_bit 8 (drop_bit 8 w))))) c = v AND 0x0FFFFFFF"
proof -
  have m: "(0x0FFFFFFF :: u32) = mask 28" "(0xF0000000 :: u32) = push_bit 28 (mask 4)" by (simp_all add: mask_eq_exp_minus_1)
  have "w AND 0x0FFFFFFF = v AND 0x0FFFFFFF"
    unfolding assms m by (rule bit_word_eqI) (auto simp: bit_simps)
  then show ?thesis using join_bytes32 [of w] by (simp add: entry32_def)
qed

lemma entry32_other:
  "c' \<noteq> c \<Longrightarrow> entry32 (B(4 * c := x, 4 * c + 1 := y, 4 * c + 2 := z, 4 * c + 3 := u)) c' = entry32 B c'"
proof -
  assume "c' \<noteq> c"
  then have "4 * c' + i \<noteq> 4 * c + j" if "i < 4" "j < 4" for i j using that by presburger
  from this [of 0 0] this [of 0 1] this [of 0 2] this [of 0 3] this [of 1 0] this [of 1 1] this [of 1 2] this [of 1 3]
    this [of 2 0] this [of 2 1] this [of 2 2] this [of 2 3] this [of 3 0] this [of 3 1] this [of 3 2] this [of 3 3]
  show ?thesis by (simp add: entry32_def)
qed

section \<open>Reading and changing the table\<close>

text \<open>Reading leaves the table and the volume alone; only the window moves.\<close>

definition unchanged :: "('d \<Rightarrow> bool) \<Rightarrow> ('d \<Rightarrow> nat \<Rightarrow> u8 list) \<Rightarrow> 'd FATFS \<Rightarrow> 'd FATFS \<Rightarrow> bool" where
  "unchanged ready sector fs fs' \<longleftrightarrow> fat_ok ready sector fs' \<and> same_volume fs fs' \<and>
     unat (winsect fs') \<in> insert (unat (winsect fs)) (in_fat fs) \<and>
     (\<forall>i < 512 * unat (fs_fsize fs). fat_byte sector fs' i = fat_byte sector fs i) \<and>
     (\<forall>l. l \<notin> mirror fs \<longrightarrow> volume sector fs' l = volume sector fs l)"

lemma unchanged_trans:
  assumes "unchanged ready sector fs f1" "unchanged ready sector f1 f2"
  shows "unchanged ready sector fs f2"
proof -
  have "same_volume fs f1" using assms(1) by (simp add: unchanged_def)
  note same = same_volume_simps [OF this]
  show ?thesis using assms same_volume_trans [of fs f1 f2] unfolding unchanged_def same by auto
qed

text \<open>The bytes of the first FAT become \<open>B\<close>; nothing outside the two copies changes.\<close>

definition stored :: "('d \<Rightarrow> bool) \<Rightarrow> ('d \<Rightarrow> nat \<Rightarrow> u8 list) \<Rightarrow> (nat \<Rightarrow> u8) \<Rightarrow> 'd FATFS \<Rightarrow> 'd FATFS \<Rightarrow> bool" where
  "stored ready sector B fs fs' \<longleftrightarrow> fat_ok ready sector fs' \<and> same_volume fs fs' \<and>
     unat (winsect fs') \<in> insert (unat (winsect fs)) (in_fat fs) \<and>
     (\<forall>i < 512 * unat (fs_fsize fs). fat_byte sector fs' i = B i) \<and>
     (\<forall>l. l \<notin> in_fat fs \<union> mirror fs \<longrightarrow> volume sector fs' l = volume sector fs l)"

lemma unchanged_stored:
  assumes "unchanged ready sector fs f1" "stored ready sector B f1 f2"
  shows "stored ready sector B fs f2"
proof -
  have "same_volume fs f1" using assms(1) by (simp add: unchanged_def)
  note same = same_volume_simps [OF this]
  show ?thesis using assms same_volume_trans [of fs f1 f2] unfolding unchanged_def stored_def same by auto
qed

lemma stored_trans:
  assumes "stored ready sector B fs f1" "stored ready sector B' f1 f2"
  shows "stored ready sector B' fs f2"
proof -
  have "same_volume fs f1" using assms(1) by (simp add: stored_def)
  note same = same_volume_simps [OF this]
  show ?thesis using assms same_volume_trans [of fs f1 f2] unfolding stored_def same by auto
qed

lemma stored_cong:
  assumes "stored ready sector B fs f1" "\<And>i. i < 512 * unat (fs_fsize fs) \<Longrightarrow> B i = B' i"
  shows "stored ready sector B' fs f1"
  using assms by (auto simp: stored_def)

lemma odd_word: "clst AND 1 \<noteq> 0 \<longleftrightarrow> odd (unat clst)" for clst :: u32
  by transfer (simp add: and_one_eq mod_2_eq_odd even_nat_iff)

lemma unat_mult_u32: "unat a * unat b < 2 ^ 32 \<Longrightarrow> unat (a * b) = unat a * unat b" for a b :: u32
  by (simp add: unat_word_ariths)

lemma unat_half: "unat (c + c div 2) = unat c + unat c div 2" if "unat c \<le> 0xFF7" for c :: u32
  using that by (subst unat_add_u32) (simp_all add: unat_div)

context block_device
begin

lemma fat_move:
  assumes ok: "fat_ok ready sector fs" and q: "unat x = q" "q < unat (fs_fsize fs)"
  shows "\<exists>fs'. move_window M (fatbase fs + x) fs = Some (FR_OK, fs') \<and> unchanged ready sector fs fs' \<and>
    winsect fs' = fatbase fs + x \<and> (\<forall>j < 512. win fs' ! j = fat_byte sector fs (512 * q + j))"
proof -
  have w: "window_ok ready sector fs" "fat_geometry fs" using ok by (simp_all add: fat_ok_def)
  note geo = w(1) [unfolded window_ok_def]
  have a: "unat (fatbase fs + x) = unat (fatbase fs) + q" using q geo by (subst unat_add_u32) auto
  have "unat (fatbase fs + x) < 2 ^ 28" "unat (fatbase fs + x) \<notin> mirror fs" unfolding a using q geo by (auto simp: mirror_def)
  from move_window_ok [OF w(1) this] obtain fs' where m: "move_window M (fatbase fs + x) fs = Some (FR_OK, fs')"
      "window_ok ready sector fs'" "same_volume fs fs'" "winsect fs' = fatbase fs + x"
      "win fs' = volume sector fs (unat (fatbase fs) + q)" "\<forall>l. l \<notin> mirror fs \<longrightarrow> volume sector fs' l = volume sector fs l"
    unfolding a by blast
  note same = same_volume_simps [OF m(3)]
  have "fat_byte sector fs' i = fat_byte sector fs i" if "i < 512 * unat (fs_fsize fs)" for i
  proof -
    have "i div 512 < unat (fs_fsize fs)" using that by (simp add: div_less_iff_less_mult mult.commute)
    then have "unat (fatbase fs) + i div 512 \<notin> mirror fs" by (auto simp: mirror_def)
    then show ?thesis using m(6) by (simp add: fat_byte_def same)
  qed
  moreover have "win fs' ! j = fat_byte sector fs (512 * q + j)" if "j < 512" for j
    using that by (simp add: fat_byte_def m(5))
  moreover have "fat_ok ready sector fs'" using m(2) w(2) by (simp add: fat_ok_def fat_geometry_def same)
  moreover have "unat (winsect fs') \<in> in_fat fs" using q by (simp add: m(4) a in_fat_def)
  ultimately show ?thesis using m by (auto simp: unchanged_def)
qed

lemma fat_store:
  assumes ok: "fat_ok ready sector fs" and ws: "unat (winsect fs) = unat (fatbase fs) + q" "q < unat (fs_fsize fs)" "length w = 512"
  shows "fat_ok ready sector (fs\<lparr>win := w, wflag := 1\<rparr>)" "same_volume fs (fs\<lparr>win := w, wflag := 1\<rparr>)"
    "fat_byte sector (fs\<lparr>win := w, wflag := 1\<rparr>) i = (if i div 512 = q then w ! (i mod 512) else fat_byte sector fs i)"
    "l \<notin> in_fat fs \<Longrightarrow> volume sector (fs\<lparr>win := w, wflag := 1\<rparr>) l = volume sector fs l"
proof -
  note geo = ok [unfolded fat_ok_def window_ok_def]
  have "mirror (fs\<lparr>win := w, wflag := 1\<rparr>) = mirror fs" "in_fat (fs\<lparr>win := w, wflag := 1\<rparr>) = in_fat fs"
    by (simp_all add: mirror_def in_fat_def)
  then show "fat_ok ready sector (fs\<lparr>win := w, wflag := 1\<rparr>)"
    using geo ws(3) by (auto simp: fat_ok_def window_ok_def fat_geometry_def)
  show "same_volume fs (fs\<lparr>win := w, wflag := 1\<rparr>)"
    unfolding same_volume_def by (intro exI [of _ 1] exI [of _ "winsect fs"] exI [of _ w] exI [of _ "dev fs"]) simp
  show "fat_byte sector (fs\<lparr>win := w, wflag := 1\<rparr>) i = (if i div 512 = q then w ! (i mod 512) else fat_byte sector fs i)"
    using ws(1) by (auto simp: fat_byte_def volume_def)
  show "volume sector (fs\<lparr>win := w, wflag := 1\<rparr>) l = volume sector fs l" if "l \<notin> in_fat fs"
    using that ws by (auto simp: volume_def in_fat_def)
qed

lemma get_fat12_ok:
  assumes ok: "fat_ok ready sector fs" and ty: "fs_type fs = FS_FAT12" and c: "unat clst < unat (n_fatent fs)"
  shows "\<exists>fs'. get_fat12 M clst fs = Some (entry12 (fat_byte sector fs) (unat clst), fs') \<and> unchanged ready sector fs fs'"
proof -
  have geo: "unat (n_fatent fs) \<le> 0xFF7" "unat (n_fatent fs) * 3 \<le> unat (fs_fsize fs) * 1024"
    using ok ty by (auto simp: fat_ok_def fat_geometry_def FS_FAT12_def FS_FAT16_def FS_FAT32_def)
  define b where "b = unat clst + unat clst div 2"
  have bc: "unat (clst + clst div 2) = b" using c geo unat_half by (simp add: b_def)
  have bc1: "unat (clst + clst div 2 + 1) = b + 1" using c geo by (subst unat_add_u32) (auto simp: bc b_def)
  have lt: "b + 1 < 512 * unat (fs_fsize fs)" using c geo by (simp add: b_def)
  have q: "unat ((clst + clst div 2) div 512) = b div 512" "unat ((clst + clst div 2 + 1) div 512) = (b + 1) div 512"
    "unat ((clst + clst div 2) mod 512) = b mod 512" "unat ((clst + clst div 2 + 1) mod 512) = (b + 1) mod 512"
    by (simp_all only: unat_div unat_mod bc bc1) simp_all
  obtain f1 where f1: "move_window M (fatbase fs + (clst + clst div 2) div 512) fs = Some (FR_OK, f1)"
      "unchanged ready sector fs f1" "\<forall>j < 512. win f1 ! j = fat_byte sector fs (512 * (b div 512) + j)"
    using fat_move [OF ok q(1)] lt by (auto simp: div_less_iff_less_mult)
  have ok1: "fat_ok ready sector f1" "same_volume fs f1" using f1(2) by (simp_all add: unchanged_def)
  note same = same_volume_simps [OF ok1(2)]
  obtain f2 where f2: "move_window M (fatbase fs + (clst + clst div 2 + 1) div 512) f1 = Some (FR_OK, f2)"
      "unchanged ready sector f1 f2" "\<forall>j < 512. win f2 ! j = fat_byte sector f1 (512 * ((b + 1) div 512) + j)"
    using fat_move [OF ok1(1) q(2)] lt by (auto simp: div_less_iff_less_mult same)
  have len: "length (win f1) = 512" "length (win f2) = 512"
    using ok1(1) f2(2) by (simp_all add: unchanged_def fat_ok_def window_ok_def)
  have b0: "win_byte (clst + clst div 2) f1 = Some (fat_byte sector fs b)"
    using f1(3) len by (simp add: win_byte_def q(3))
  have "fat_byte sector f1 (b + 1) = fat_byte sector fs (b + 1)" using f1(2) lt by (simp add: unchanged_def)
  then have b1: "win_byte (clst + clst div 2 + 1) f2 = Some (fat_byte sector fs (b + 1))"
    using f2(3) len by (simp add: win_byte_def q(4))
  have "get_fat12 M clst fs = Some (entry12 (fat_byte sector fs) (unat clst), f2)"
    unfolding get_fat12_def Let_def entry12_def b_def [symmetric] odd_word using f1(1) f2(1) b0 b1 same by simp
  then show ?thesis using unchanged_trans [OF f1(2) f2(2)] by blast
qed

lemma get_fat16_ok:
  assumes ok: "fat_ok ready sector fs" and ty: "fs_type fs = FS_FAT16" and c: "unat clst < unat (n_fatent fs)"
  shows "\<exists>fs'. get_fat16 M clst fs = Some (entry16 (fat_byte sector fs) (unat clst), fs') \<and> unchanged ready sector fs fs'"
proof -
  have geo: "unat (n_fatent fs) \<le> 0xFFF7" "unat (n_fatent fs) * 2 \<le> unat (fs_fsize fs) * 512"
    using ok ty by (auto simp: fat_ok_def fat_geometry_def FS_FAT12_def FS_FAT16_def FS_FAT32_def)
  have q: "unat (clst div 256) = unat clst div 256" by (simp add: unat_div)
  have lt: "unat clst div 256 < unat (fs_fsize fs)" using c geo by (simp add: div_less_iff_less_mult)
  obtain f1 where f1: "move_window M (fatbase fs + clst div 256) fs = Some (FR_OK, f1)"
      "unchanged ready sector fs f1" "\<forall>j < 512. win f1 ! j = fat_byte sector fs (512 * (unat clst div 256) + j)"
    using fat_move [OF ok q lt] by blast
  have len: "length (win f1) = 512" using f1(2) by (simp add: unchanged_def fat_ok_def window_ok_def)
  have off: "unat (clst * 2 mod 512) = 2 * unat clst mod 512"
    using c geo by (simp add: unat_mod unat_mult_u32 mult.commute)
  have half: "2 * unat clst mod 512 = 2 * (unat clst mod 256)" using mod_mult_mult1 [of 2 "unat clst" 256] by simp
  have at: "512 * (unat clst div 256) + 2 * unat clst mod 512 = 2 * unat clst"
    unfolding half using mult_div_mod_eq [of 256 "unat clst"] by linarith
  have lt2: "2 * unat clst mod 512 + 1 < 512" unfolding half using mod_less_divisor [of 256 "unat clst"] by linarith
  have at1: "512 * (unat clst div 256) + (2 * unat clst mod 512 + 1) = 2 * unat clst + 1" using at by simp
  have "ld_word (win f1) (unat (clst * 2 mod 512)) =
      Some (push_bit 8 (ucast (fat_byte sector fs (2 * unat clst + 1))) OR ucast (fat_byte sector fs (2 * unat clst)))"
    using f1(3) lt2 len unfolding ld_word_def off by (simp add: at1 at)
  moreover have "ucast (push_bit 8 (ucast b1) OR ucast b0 :: u16) = (push_bit 8 (ucast b1) OR ucast b0 :: u32)" for b1 b0 :: u8
    by (rule bit_word_eqI) (auto simp: bit_simps dest: u8_bit_less)
  ultimately show ?thesis using f1(1,2) by (simp add: get_fat16_def entry16_def)
qed

lemma get_fat32_ok:
  assumes ok: "fat_ok ready sector fs" and ty: "fs_type fs = FS_FAT32" and c: "unat clst < unat (n_fatent fs)"
  shows "\<exists>fs'. get_fat32 M clst fs = Some (entry32 (fat_byte sector fs) (unat clst), fs') \<and> unchanged ready sector fs fs'"
proof -
  have geo: "unat (n_fatent fs) \<le> 0x0FFFFFF7" "unat (n_fatent fs) * 4 \<le> unat (fs_fsize fs) * 512"
    using ok ty by (auto simp: fat_ok_def fat_geometry_def FS_FAT12_def FS_FAT16_def FS_FAT32_def)
  have q: "unat (clst div 128) = unat clst div 128" by (simp add: unat_div)
  have lt: "unat clst div 128 < unat (fs_fsize fs)" using c geo by (simp add: div_less_iff_less_mult)
  obtain f1 where f1: "move_window M (fatbase fs + clst div 128) fs = Some (FR_OK, f1)"
      "unchanged ready sector fs f1" "\<forall>j < 512. win f1 ! j = fat_byte sector fs (512 * (unat clst div 128) + j)"
    using fat_move [OF ok q lt] by blast
  have len: "length (win f1) = 512" using f1(2) by (simp add: unchanged_def fat_ok_def window_ok_def)
  have off: "unat (clst * 4 mod 512) = 4 * unat clst mod 512"
    using c geo by (simp add: unat_mod unat_mult_u32 mult.commute)
  have quarter: "4 * unat clst mod 512 = 4 * (unat clst mod 128)" using mod_mult_mult1 [of 4 "unat clst" 128] by simp
  have at: "512 * (unat clst div 128) + (4 * unat clst mod 512 + i) = 4 * unat clst + i" for i
    unfolding quarter using mult_div_mod_eq [of 128 "unat clst"] by linarith
  have lt2: "4 * unat clst mod 512 + i < 512" if "i < 4" for i
    unfolding quarter using that mod_less_divisor [of 128 "unat clst"] by linarith
  have byte: "get_at (win f1) (4 * unat clst mod 512 + i) = Some (fat_byte sector fs (4 * unat clst + i))" if "i < 4" for i
  proof -
    have "win f1 ! (4 * unat clst mod 512 + i) = fat_byte sector fs (512 * (unat clst div 128) + (4 * unat clst mod 512 + i))"
      using f1(3) lt2 [OF that] by blast
    then show ?thesis unfolding at using lt2 [OF that] len by (simp add: get_at_def)
  qed
  have "ld_dword (win f1) (4 * unat clst mod 512) = Some (push_bit 24 (ucast (fat_byte sector fs (4 * unat clst + 3))) OR
      push_bit 16 (ucast (fat_byte sector fs (4 * unat clst + 2))) OR push_bit 8 (ucast (fat_byte sector fs (4 * unat clst + 1))) OR
      ucast (fat_byte sector fs (4 * unat clst + 0)))"
    by (rule ld_dword_Some) (rule byte, simp)+
  then show ?thesis unfolding get_fat32_def entry32_def off using f1(1,2) by simp
qed

lemma get_fat_ok:
  assumes ok: "fat_ok ready sector fs" and c: "2 \<le> unat clst" "unat clst < unat (n_fatent fs)"
  shows "\<exists>fs'. get_fat M clst fs = Some (fat_entry sector fs (unat clst), fs') \<and> unchanged ready sector fs fs'"
proof -
  have "fs_type fs = FS_FAT12 \<or> fs_type fs = FS_FAT16 \<or> fs_type fs = FS_FAT32" using ok by (auto simp: fat_ok_def fat_geometry_def)
  moreover have "\<not> (clst < 2 \<or> clst \<ge> n_fatent fs)" using c by (simp add: word_less_nat_alt word_le_nat_alt)
  ultimately show ?thesis
    using get_fat12_ok [OF ok _ c(2)] get_fat16_ok [OF ok _ c(2)] get_fat32_ok [OF ok _ c(2)]
    by (auto simp: get_fat_def fat_entry_def FS_FAT12_def FS_FAT16_def FS_FAT32_def)
qed

text \<open>Overwriting the window while it shows sector \<open>q\<close> of the FAT.\<close>

lemma win_stored:
  assumes ok: "fat_ok ready sector fs" and ws: "winsect fs = fatbase fs + x" "unat x = q" "q < unat (fs_fsize fs)" and len: "length w = 512"
    and B: "\<And>j. j < 512 \<Longrightarrow> w ! j = B (512 * q + j)"
    and other: "\<And>i. i div 512 \<noteq> q \<Longrightarrow> i < 512 * unat (fs_fsize fs) \<Longrightarrow> B i = fat_byte sector fs i"
  shows "stored ready sector B fs (fs\<lparr>win := w, wflag := 1\<rparr>)"
proof -
  have geo: "unat (fatbase fs) + 2 * unat (fs_fsize fs) \<le> 2 ^ 28" using ok by (simp add: fat_ok_def window_ok_def)
  have u: "unat (winsect fs) = unat (fatbase fs) + q" unfolding ws(1) using ws(2,3) geo by (subst unat_add_u32) auto
  note st = fat_store [OF ok u ws(3) len]
  have "fat_byte sector (fs\<lparr>win := w, wflag := 1\<rparr>) i = B i" if "i < 512 * unat (fs_fsize fs)" for i
    unfolding st(3) using B [of "i mod 512"] other [OF _ that] mult_div_mod_eq [of 512 i] by auto
  then show ?thesis using st(1,2,4) by (auto simp: stored_def)
qed

text \<open>Bringing the sector of byte \<open>i\<close> into the window and replacing the byte.\<close>

lemma replace_byte:
  assumes ok: "fat_ok ready sector fs" and bc: "unat bc = i" and i: "i < 512 * unat (fs_fsize fs)"
  shows "\<exists>f1 f2. move_window M (fatbase fs + bc div 512) fs = Some (FR_OK, f1) \<and> win_byte bc f1 = Some (fat_byte sector fs i) \<and>
    set_win_byte bc v f1 = Some f2 \<and> stored ready sector ((fat_byte sector fs)(i := v)) fs f2"
proof -
  have q: "unat (bc div 512) = i div 512" "unat (bc mod 512) = i mod 512" by (simp_all add: unat_div unat_mod bc)
  have lt: "i div 512 < unat (fs_fsize fs)" using i by (simp add: div_less_iff_less_mult mult.commute)
  obtain f1 where f1: "move_window M (fatbase fs + bc div 512) fs = Some (FR_OK, f1)" "unchanged ready sector fs f1"
      "winsect f1 = fatbase fs + bc div 512" "\<forall>j < 512. win f1 ! j = fat_byte sector fs (512 * (i div 512) + j)"
    using fat_move [OF ok q(1) lt] by blast
  have ok1: "fat_ok ready sector f1" "same_volume fs f1" "\<forall>i < 512 * unat (fs_fsize fs). fat_byte sector f1 i = fat_byte sector fs i"
    using f1(2) by (simp_all add: unchanged_def)
  note same = same_volume_simps [OF ok1(2)]
  have len: "length (win f1) = 512" using ok1(1) by (simp add: fat_ok_def window_ok_def)
  have "stored ready sector ((fat_byte sector fs)(i := v)) f1 (f1\<lparr>win := (win f1)[i mod 512 := v], wflag := 1\<rparr>)"
  proof (rule win_stored [OF ok1(1) _ q(1)])
    show "winsect f1 = fatbase f1 + bc div 512" "i div 512 < unat (fs_fsize f1)" using f1(3) lt by (simp_all add: same)
    show "length ((win f1)[i mod 512 := v]) = 512" using len by simp
    show "((fat_byte sector fs)(i := v)) k = fat_byte sector f1 k" if "k div 512 \<noteq> i div 512" "k < 512 * unat (fs_fsize f1)" for k
      using that ok1(3) by (auto simp: same)
    fix j :: nat assume j: "j < 512"
    have "(512 * (i div 512) + j = i) = (j = i mod 512)" using mult_div_mod_eq [of 512 i] by linarith
    then show "(win f1)[i mod 512 := v] ! j = ((fat_byte sector fs)(i := v)) (512 * (i div 512) + j)"
      using j len f1(4) by (simp add: nth_list_update)
  qed
  from unchanged_stored [OF f1(2) this] show ?thesis
    using f1(1,4) len by (simp add: set_win_byte_def win_byte_def q(2))
qed

lemma put_fat12_ok:
  assumes ok: "fat_ok ready sector fs" and ty: "fs_type fs = FS_FAT12" and c: "unat clst < unat (n_fatent fs)"
  defines "b \<equiv> unat clst + unat clst div 2" and "B \<equiv> fat_byte sector fs"
  shows "\<exists>fs'. put_fat12 M clst v fs = Some (FR_OK, fs') \<and> stored ready sector
    (B(b := (if odd (unat clst) then (B b AND 0x0F) OR push_bit 4 (ucast v) else ucast v),
       b + 1 := (if odd (unat clst) then ucast (drop_bit 4 v) else (B (b + 1) AND 0xF0) OR (ucast (drop_bit 8 v) AND 0x0F)))) fs fs'"
proof -
  have geo: "unat (n_fatent fs) \<le> 0xFF7" "unat (n_fatent fs) * 3 \<le> unat (fs_fsize fs) * 1024"
    using ok ty by (auto simp: fat_ok_def fat_geometry_def FS_FAT12_def FS_FAT16_def FS_FAT32_def)
  have bc: "unat (clst + clst div 2) = b" using c geo unat_half by (simp add: b_def)
  have bc1: "unat (clst + clst div 2 + 1) = b + 1" using c geo by (subst unat_add_u32) (auto simp: bc b_def)
  have lt: "b + 1 < 512 * unat (fs_fsize fs)" using c geo by (simp add: b_def)
  define x where "x = (if odd (unat clst) then (B b AND 0x0F) OR push_bit 4 (ucast v) else ucast v)"
  obtain f1 f2 where f: "move_window M (fatbase fs + (clst + clst div 2) div 512) fs = Some (FR_OK, f1)"
      "win_byte (clst + clst div 2) f1 = Some (B b)" "set_win_byte (clst + clst div 2) x f1 = Some f2"
      "stored ready sector (B(b := x)) fs f2"
    using replace_byte [OF ok bc, of x] lt unfolding B_def by auto
  have ok2: "fat_ok ready sector f2" "same_volume fs f2" "\<forall>i < 512 * unat (fs_fsize fs). fat_byte sector f2 i = (B(b := x)) i"
    using f(4) by (simp_all add: stored_def)
  note same2 = same_volume_simps [OF ok2(2)]
  define y where "y = (if odd (unat clst) then ucast (drop_bit 4 v) else (B (b + 1) AND 0xF0) OR (ucast (drop_bit 8 v) AND 0x0F))"
  obtain f3 f4 where g: "move_window M (fatbase fs + (clst + clst div 2 + 1) div 512) f2 = Some (FR_OK, f3)"
      "win_byte (clst + clst div 2 + 1) f3 = Some (B (b + 1))" "set_win_byte (clst + clst div 2 + 1) y f3 = Some f4"
      "stored ready sector ((fat_byte sector f2)(b + 1 := y)) f2 f4"
    using replace_byte [OF ok2(1) bc1, of y] lt ok2(3) unfolding same2 by auto
  have "stored ready sector (B(b := x, b + 1 := y)) fs f4"
    by (rule stored_cong [OF stored_trans [OF f(4) g(4)]]) (use ok2(3) in auto)
  moreover have "put_fat12 M clst v fs = Some (FR_OK, f4)"
    unfolding put_fat12_def Let_def odd_word using f(1-3) g(1-3) same2
    by (cases "odd (unat clst)") (simp_all add: x_def y_def)
  ultimately show ?thesis unfolding x_def y_def by blast
qed

lemma put_fat16_ok:
  assumes ok: "fat_ok ready sector fs" and ty: "fs_type fs = FS_FAT16" and c: "unat clst < unat (n_fatent fs)"
  shows "\<exists>fs'. put_fat16 M clst v fs = Some (FR_OK, fs') \<and> stored ready sector
    ((fat_byte sector fs)(2 * unat clst := ucast v, 2 * unat clst + 1 := ucast (drop_bit 8 (ucast v :: u16)))) fs fs'"
proof -
  let ?c = "unat clst"
  let ?B = "(fat_byte sector fs)(2 * ?c := ucast v, 2 * ?c + 1 := ucast (drop_bit 8 (ucast v :: u16)))"
  have geo: "unat (n_fatent fs) \<le> 0xFFF7" "unat (n_fatent fs) * 2 \<le> unat (fs_fsize fs) * 512"
    using ok ty by (auto simp: fat_ok_def fat_geometry_def FS_FAT12_def FS_FAT16_def FS_FAT32_def)
  have q: "unat (clst div 256) = ?c div 256" by (simp add: unat_div)
  have lt: "?c div 256 < unat (fs_fsize fs)" using c geo by (simp add: div_less_iff_less_mult)
  obtain f1 where f1: "move_window M (fatbase fs + clst div 256) fs = Some (FR_OK, f1)" "unchanged ready sector fs f1"
      "winsect f1 = fatbase fs + clst div 256" "\<forall>j < 512. win f1 ! j = fat_byte sector fs (512 * (?c div 256) + j)"
    using fat_move [OF ok q lt] by blast
  have ok1: "fat_ok ready sector f1" "same_volume fs f1" "\<forall>i < 512 * unat (fs_fsize fs). fat_byte sector f1 i = fat_byte sector fs i"
    using f1(2) by (simp_all add: unchanged_def)
  note same = same_volume_simps [OF ok1(2)]
  have len: "length (win f1) = 512" using ok1(1) by (simp add: fat_ok_def window_ok_def)
  have off: "unat (clst * 2 mod 512) = 2 * (?c mod 256)"
    using c geo mod_mult_mult1 [of 2 ?c 256] by (simp add: unat_mod unat_mult_u32 mult.commute)
  have lt2: "2 * (?c mod 256) + 1 < 512" using mod_less_divisor [of 256 ?c] by linarith
  define w where "w = (win f1)[2 * (?c mod 256) := ucast v, 2 * (?c mod 256) + 1 := ucast (drop_bit 8 (ucast v :: u16))]"
  have "(ucast (ucast v :: u16) :: u8) = ucast v" by (rule bit_word_eqI) (simp add: bit_simps)
  then have st: "st_word (unat (clst * 2 mod 512)) (ucast v) (win f1) = Some w"
    unfolding st_word_def off using lt2 len by (simp add: w_def)
  have "stored ready sector ?B f1 (f1\<lparr>win := w, wflag := 1\<rparr>)"
  proof (rule win_stored [OF ok1(1) _ q])
    show "winsect f1 = fatbase f1 + clst div 256" "?c div 256 < unat (fs_fsize f1)" using f1(3) lt by (simp_all add: same)
    show "length w = 512" using len by (simp add: w_def)
    have e: "2 * ?c = 512 * (?c div 256) + 2 * (?c mod 256)" using mult_div_mod_eq [of 256 ?c] by linarith
    then have d: "2 * ?c div 512 = ?c div 256" "(2 * ?c + 1) div 512 = ?c div 256" using lt2 by (simp_all add: div_mult2_eq [symmetric])
    show "?B k = fat_byte sector f1 k" if "k div 512 \<noteq> ?c div 256" "k < 512 * unat (fs_fsize f1)" for k
      using that ok1(3) d by (auto simp: same)
    show "w ! j = ?B (512 * (?c div 256) + j)" if "j < 512" for j
      using that len lt2 f1(4) unfolding e w_def by (simp add: nth_list_update)
  qed
  from unchanged_stored [OF f1(2) this] show ?thesis using f1(1) st by (simp add: put_fat16_def)
qed

lemma put_fat32_ok:
  assumes ok: "fat_ok ready sector fs" and ty: "fs_type fs = FS_FAT32" and c: "unat clst < unat (n_fatent fs)"
  shows "\<exists>fs' u w. put_fat32 M clst v fs = Some (FR_OK, fs') \<and> w = (v AND 0x0FFFFFFF) OR (u AND 0xF0000000) \<and>
    stored ready sector ((fat_byte sector fs)(4 * unat clst := ucast w, 4 * unat clst + 1 := ucast (drop_bit 8 w),
      4 * unat clst + 2 := ucast (drop_bit 8 (drop_bit 8 w)), 4 * unat clst + 3 := ucast (drop_bit 8 (drop_bit 8 (drop_bit 8 w))))) fs fs'"
proof -
  let ?c = "unat clst"
  have geo: "unat (n_fatent fs) \<le> 0x0FFFFFF7" "unat (n_fatent fs) * 4 \<le> unat (fs_fsize fs) * 512"
    using ok ty by (auto simp: fat_ok_def fat_geometry_def FS_FAT12_def FS_FAT16_def FS_FAT32_def)
  have q: "unat (clst div 128) = ?c div 128" by (simp add: unat_div)
  have lt: "?c div 128 < unat (fs_fsize fs)" using c geo by (simp add: div_less_iff_less_mult)
  obtain f1 where f1: "move_window M (fatbase fs + clst div 128) fs = Some (FR_OK, f1)" "unchanged ready sector fs f1"
      "winsect f1 = fatbase fs + clst div 128" "\<forall>j < 512. win f1 ! j = fat_byte sector fs (512 * (?c div 128) + j)"
    using fat_move [OF ok q lt] by blast
  have ok1: "fat_ok ready sector f1" "same_volume fs f1" "\<forall>i < 512 * unat (fs_fsize fs). fat_byte sector f1 i = fat_byte sector fs i"
    using f1(2) by (simp_all add: unchanged_def)
  note same = same_volume_simps [OF ok1(2)]
  have len: "length (win f1) = 512" using ok1(1) by (simp add: fat_ok_def window_ok_def)
  define o4 where "o4 = 4 * (?c mod 128)"
  have off: "unat (clst * 4 mod 512) = o4"
    using c geo mod_mult_mult1 [of 4 ?c 128] by (simp add: unat_mod unat_mult_u32 mult.commute o4_def)
  have lt2: "o4 + 3 < 512" using mod_less_divisor [of 128 ?c] unfolding o4_def by linarith
  obtain u where u: "ld_dword (win f1) o4 = Some u" using ld_dword_Some lt2 len by simp
  define w where "w = (v AND 0x0FFFFFFF) OR (u AND 0xF0000000)"
  define wb where "wb = (win f1)[o4 := ucast w, o4 + 1 := ucast (drop_bit 8 w), o4 + 2 := ucast (drop_bit 8 (drop_bit 8 w)),
     o4 + 3 := ucast (drop_bit 8 (drop_bit 8 (drop_bit 8 w)))]"
  let ?B = "(fat_byte sector fs)(4 * ?c := ucast w, 4 * ?c + 1 := ucast (drop_bit 8 w),
      4 * ?c + 2 := ucast (drop_bit 8 (drop_bit 8 w)), 4 * ?c + 3 := ucast (drop_bit 8 (drop_bit 8 (drop_bit 8 w))))"
  have st: "st_dword o4 w (win f1) = Some wb" unfolding st_dword_def Let_def using lt2 len by (simp add: wb_def)
  have e: "4 * ?c = 512 * (?c div 128) + o4" using mult_div_mod_eq [of 128 ?c] unfolding o4_def by linarith
  have "stored ready sector ?B f1 (f1\<lparr>win := wb, wflag := 1\<rparr>)"
  proof (rule win_stored [OF ok1(1) _ q])
    show "winsect f1 = fatbase f1 + clst div 128" "?c div 128 < unat (fs_fsize f1)" using f1(3) lt by (simp_all add: same)
    show "length wb = 512" using len by (simp add: wb_def)
    have "(4 * ?c + i) div 512 = ?c div 128" if "i < 4" for i
      by (rule div_nat_eqI) (use e lt2 that in \<open>simp_all add: algebra_simps\<close>)
    from this [of 0] this [of 1] this [of 2] this [of 3]
    show "?B k = fat_byte sector f1 k" if "k div 512 \<noteq> ?c div 128" "k < 512 * unat (fs_fsize f1)" for k
      using that ok1(3) by (auto simp: same)
    show "wb ! j = ?B (512 * (?c div 128) + j)" if j: "j < 512" for j
    proof -
      have "(512 * (?c div 128) + j = 4 * ?c + i) = (j = o4 + i)" for i using e by linarith
      from this [of 0] this [of 1] this [of 2] this [of 3]
      show ?thesis using j len lt2 f1(4) by (simp add: wb_def nth_list_update)
    qed
  qed
  from unchanged_stored [OF f1(2) this]
  have "stored ready sector ?B fs (f1\<lparr>win := wb, wflag := 1\<rparr>)" .
  moreover have "put_fat32 M clst v fs = Some (FR_OK, f1\<lparr>win := wb, wflag := 1\<rparr>)"
    unfolding put_fat32_def off using f1(1) u st by (simp add: w_def)
  ultimately show ?thesis using w_def by blast
qed

lemma put_fat_ok:
  assumes ok: "fat_ok ready sector fs" and c: "2 \<le> unat clst" "unat clst < unat (n_fatent fs)"
  shows "\<exists>fs' B. put_fat M clst v fs = Some (FR_OK, fs') \<and> stored ready sector B fs fs' \<and>
    fat_entry sector fs' (unat clst) = v AND fat_mask fs \<and>
    (\<forall>c. 2 \<le> c \<and> c < unat (n_fatent fs) \<and> c \<noteq> unat clst \<longrightarrow> fat_entry sector fs' c = fat_entry sector fs c)"
proof -
  have r: "\<not> (clst < 2 \<or> clst \<ge> n_fatent fs)" "clst \<ge> 2 \<and> clst < n_fatent fs" using c by (simp_all add: word_less_nat_alt word_le_nat_alt)
  note ty = FS_FAT12_def FS_FAT16_def FS_FAT32_def
  consider (a) "fs_type fs = FS_FAT12" | (b) "fs_type fs = FS_FAT16" | (c) "fs_type fs = FS_FAT32"
    using ok by (auto simp: fat_ok_def fat_geometry_def)
  then show ?thesis
  proof cases
    case a
    have lim: "3 * unat (n_fatent fs) \<le> 1024 * unat (fs_fsize fs)" using ok a by (auto simp: fat_ok_def fat_geometry_def ty)
    from put_fat12_ok [OF ok a c(2), of v] obtain fs' B where f: "put_fat12 M clst v fs = Some (FR_OK, fs')" "stored ready sector B fs fs'"
      "entry12 B (unat clst) = v AND 0xFFF" "\<And>c'. c' \<noteq> unat clst \<Longrightarrow> entry12 B c' = entry12 (fat_byte sector fs) c'"
      using entry12_same [OF refl refl refl] entry12_other [OF refl _ refl refl] by blast
    have "entry12 (fat_byte sector fs') c' = entry12 B c'" if "c' < unat (n_fatent fs)" for c'
      using f(2) that lim by (simp add: stored_def entry12_def)
    then show ?thesis using f a r c(2) by (auto simp: put_fat_def fat_entry_def fat_mask_def stored_def same_volume_simps)
  next
    case b
    have lim: "2 * unat (n_fatent fs) \<le> 512 * unat (fs_fsize fs)" using ok b by (auto simp: fat_ok_def fat_geometry_def ty)
    from put_fat16_ok [OF ok b c(2), of v] obtain fs' B where f: "put_fat16 M clst v fs = Some (FR_OK, fs')" "stored ready sector B fs fs'"
      "entry16 B (unat clst) = v AND 0xFFFF" "\<And>c'. c' \<noteq> unat clst \<Longrightarrow> entry16 B c' = entry16 (fat_byte sector fs) c'"
      using entry16_same entry16_other by blast
    have "entry16 (fat_byte sector fs') c' = entry16 B c'" if "c' < unat (n_fatent fs)" for c'
      using f(2) that lim by (simp add: stored_def entry16_def)
    then show ?thesis using f b r c(2) by (auto simp: put_fat_def fat_entry_def fat_mask_def stored_def same_volume_simps ty)
  next
    case c': c
    have lim: "4 * unat (n_fatent fs) \<le> 512 * unat (fs_fsize fs)" using ok c' by (auto simp: fat_ok_def fat_geometry_def ty)
    from put_fat32_ok [OF ok c' c(2), of v] obtain fs' B where f: "put_fat32 M clst v fs = Some (FR_OK, fs')" "stored ready sector B fs fs'"
      "entry32 B (unat clst) = v AND 0x0FFFFFFF" "\<And>c'. c' \<noteq> unat clst \<Longrightarrow> entry32 B c' = entry32 (fat_byte sector fs) c'"
      using entry32_same entry32_other by metis
    have "entry32 (fat_byte sector fs') c' = entry32 B c'" if "c' < unat (n_fatent fs)" for c'
      using f(2) that lim by (simp add: stored_def entry32_def)
    then show ?thesis using f c' r c(2) by (auto simp: put_fat_def fat_entry_def fat_mask_def stored_def same_volume_simps ty)
  qed
qed

end

end
