(* ===== verification/Fat_Chain.thy ===== *)
theory Fat_Chain
  imports Fat_Table
begin

text \<open>
  Cluster chains of FatFs (\<open>src/ff.c\<close>): removing a chain, and creating or stretching one.
\<close>

section \<open>Definitions\<close>

text \<open>The allocation information is updated when it is valid.\<close>

definition note_freed :: "'d FATFS \<Rightarrow> 'd FATFS" where
  "note_freed fs =
     (if free_clst fs < n_fatent fs - 2
      then fs\<lparr>free_clst := free_clst fs + 1, fsi_flag := fsi_flag fs OR 1\<rparr> else fs)"

partial_function (option) remove_loop :: "'d diskio \<Rightarrow> u32 \<Rightarrow> 'd FATFS \<Rightarrow> (fresult \<times> 'd FATFS) option" where
  "remove_loop M clst fs = do {
     (nxt, fs) \<leftarrow> get_fat M clst fs;
     if nxt = 0 then Some (FR_OK, fs)
     else if nxt = 1 then Some (FR_INT_ERR, fs)
     else if nxt = 0xFFFFFFFF then Some (FR_DISK_ERR, fs)
     else do {
       (res, fs) \<leftarrow> put_fat M clst 0 fs;
       if res \<noteq> FR_OK then Some (res, fs)
       else do {
         let fs = note_freed fs;
         if nxt < n_fatent fs then remove_loop M nxt fs else Some (FR_OK, fs)
       }
     }
   }"

definition remove_chain :: "'d diskio \<Rightarrow> u32 \<Rightarrow> u32 \<Rightarrow> 'd FATFS \<Rightarrow> (fresult \<times> 'd FATFS) option" where
  "remove_chain M clst pclst fs =
     (if clst < 2 \<or> clst \<ge> n_fatent fs then Some (FR_INT_ERR, fs)
      else do {
        (res, fs) \<leftarrow> (if pclst \<noteq> 0 then put_fat M pclst 0xFFFFFFFF fs else Some (FR_OK, fs));
        if res \<noteq> FR_OK then Some (res, fs) else remove_loop M clst fs
      })"

text \<open>The search for a free cluster after \<open>scl\<close>: the cluster found, or the status to return.\<close>

datatype search = Found u32 | Give_up u32

partial_function (option) find_loop :: "'d diskio \<Rightarrow> u32 \<Rightarrow> u32 \<Rightarrow> 'd FATFS \<Rightarrow> (search \<times> 'd FATFS) option" where
  "find_loop M scl ncl fs =
     (let ncl = ncl + 1;
          wrapped = (ncl \<ge> n_fatent fs);
          ncl = (if wrapped then 2 else ncl)
      in if wrapped \<and> ncl > scl then Some (Give_up 0, fs)
         else do {
           (cs, fs) \<leftarrow> get_fat M ncl fs;
           if cs = 0 then Some (Found ncl, fs)
           else if cs = 1 \<or> cs = 0xFFFFFFFF then Some (Give_up cs, fs)
           else if ncl = scl then Some (Give_up 0, fs)
           else find_loop M scl ncl fs
         })"

text \<open>Trying the next cluster first when a chain is stretched.\<close>

definition find_free :: "'d diskio \<Rightarrow> u32 \<Rightarrow> u32 \<Rightarrow> 'd FATFS \<Rightarrow> (search \<times> 'd FATFS) option" where
  "find_free M clst scl fs =
     (if scl = clst then do {
        let ncl = scl + 1;
        let ncl = (if ncl \<ge> n_fatent fs then 2 else ncl);
        (cs, fs) \<leftarrow> get_fat M ncl fs;
        if cs = 1 \<or> cs = 0xFFFFFFFF then Some (Give_up cs, fs)
        else if cs \<noteq> 0 then do {
          let cs = last_clst fs;
          let scl = (if cs \<ge> 2 \<and> cs < n_fatent fs then cs else scl);
          find_loop M scl scl fs
        } else Some (Found ncl, fs)
      } else find_loop M scl scl fs)"

text \<open>Linking the new cluster and updating the allocation information.\<close>

definition link_cluster :: "'d diskio \<Rightarrow> u32 \<Rightarrow> u32 \<Rightarrow> 'd FATFS \<Rightarrow> (u32 \<times> 'd FATFS) option" where
  "link_cluster M clst ncl fs = do {
     (res, fs) \<leftarrow> put_fat M ncl 0xFFFFFFFF fs;
     (res, fs) \<leftarrow> (if res = FR_OK \<and> clst \<noteq> 0 then put_fat M clst ncl fs else Some (res, fs));
     Some (if res = FR_OK then
             let fs = fs\<lparr>last_clst := ncl\<rparr>
             in (ncl, if free_clst fs > 0 \<and> free_clst fs \<le> n_fatent fs - 2
                      then fs\<lparr>free_clst := free_clst fs - 1, fsi_flag := fsi_flag fs OR 1\<rparr> else fs)
           else (if res = FR_DISK_ERR then 0xFFFFFFFF else 1, fs))
   }"

text \<open>Where to start searching, or the status to return at once.\<close>

definition chain_start :: "'d diskio \<Rightarrow> u32 \<Rightarrow> 'd FATFS \<Rightarrow> (search \<times> 'd FATFS) option" where
  "chain_start M clst fs =
     (if clst = 0 then Some (Found (if last_clst fs = 0 \<or> last_clst fs \<ge> n_fatent fs then 1 else last_clst fs), fs)
      else do {
        (cs, fs) \<leftarrow> get_fat M clst fs;
        Some (if cs < 2 then Give_up 1
              else if cs = 0xFFFFFFFF then Give_up cs
              else if cs < n_fatent fs then Give_up cs
              else Found clst, fs)
      })"

definition create_chain :: "'d diskio \<Rightarrow> u32 \<Rightarrow> 'd FATFS \<Rightarrow> (u32 \<times> 'd FATFS) option" where
  "create_chain M clst fs = do {
     (start, fs) \<leftarrow> chain_start M clst fs;
     case start of
       Give_up st \<Rightarrow> Some (st, fs)
     | Found scl \<Rightarrow>
         if free_clst fs = 0 then Some (0, fs)
         else do {
           (r, fs) \<leftarrow> find_free M clst scl fs;
           case r of
             Give_up st \<Rightarrow> Some (st, fs)
           | Found ncl \<Rightarrow> link_cluster M clst ncl fs
         }
   }"

section \<open>States of one volume\<close>

text \<open>\<open>tab ready sector fs0 T fs\<close>: \<open>fs\<close> is the volume \<open>fs0\<close> after some work, its table now is \<open>T\<close>, the window
  has moved within the FAT only, and nothing outside the two copies of the FAT has changed.\<close>

definition same_disk :: "'d FATFS \<Rightarrow> 'd FATFS \<Rightarrow> bool" where
  "same_disk fs fs' \<longleftrightarrow> (\<exists>l f i. same_volume (fs\<lparr>last_clst := l, free_clst := f, fsi_flag := i\<rparr>) fs')"

definition tab :: "('d \<Rightarrow> bool) \<Rightarrow> ('d \<Rightarrow> nat \<Rightarrow> u8 list) \<Rightarrow> 'd FATFS \<Rightarrow> (nat \<Rightarrow> u32) \<Rightarrow> 'd FATFS \<Rightarrow> bool" where
  "tab ready sector fs0 T fs \<longleftrightarrow> fat_ok ready sector fs \<and> same_disk fs0 fs \<and>
     unat (winsect fs) \<in> insert (unat (winsect fs0)) (in_fat fs0) \<and>
     (\<forall>c. 2 \<le> c \<and> c < unat (n_fatent fs0) \<longrightarrow> fat_entry sector fs c = T c) \<and>
     (\<forall>l. l \<notin> in_fat fs0 \<union> mirror fs0 \<longrightarrow> volume sector fs l = volume sector fs0 l)"

definition info :: "'d FATFS \<Rightarrow> u32 \<times> u32 \<times> u8" where
  "info fs = (last_clst fs, free_clst fs, fsi_flag fs)"

lemma same_disk_simps:
  assumes "same_disk fs fs'"
  shows "fs_type fs' = fs_type fs" "n_fatent fs' = n_fatent fs" "fs_fsize fs' = fs_fsize fs" "in_fat fs' = in_fat fs"
    "mirror fs' = mirror fs" "fat_mask fs' = fat_mask fs" "csize fs' = csize fs" "database fs' = database fs"
proof -
  obtain l f i where v: "same_volume (fs\<lparr>last_clst := l, free_clst := f, fsi_flag := i\<rparr>) fs'" using assms by (auto simp: same_disk_def)
  note s = same_volume_simps [OF v]
  show "fs_type fs' = fs_type fs" "n_fatent fs' = n_fatent fs" "fs_fsize fs' = fs_fsize fs" "in_fat fs' = in_fat fs"
    "mirror fs' = mirror fs" "fat_mask fs' = fat_mask fs" "csize fs' = csize fs" "database fs' = database fs"
    using s by (simp_all add: in_fat_def mirror_def fat_mask_def)
qed

lemma same_disk_volume: "same_disk fs0 fs \<Longrightarrow> same_volume fs fs' \<Longrightarrow> same_disk fs0 fs'"
  unfolding same_disk_def using same_volume_trans by blast

lemma same_volume_info: "same_volume fs fs' \<Longrightarrow> info fs' = info fs"
  by (simp add: info_def same_volume_simps)

lemma same_disk_refl [simp]: "same_disk fs fs"
  unfolding same_disk_def
  by (rule exI [of _ "last_clst fs"], rule exI [of _ "free_clst fs"], rule exI [of _ "fsi_flag fs"]) simp

lemma same_disk_info:
  assumes "same_disk fs0 fs"
  shows "same_disk fs0 (fs\<lparr>last_clst := l, free_clst := f, fsi_flag := i\<rparr>)"
proof -
  obtain l' f' i' a b w d where "fs = fs0\<lparr>last_clst := l', free_clst := f', fsi_flag := i', wflag := a, winsect := b, win := w, dev := d\<rparr>"
    using assms by (auto simp: same_disk_def same_volume_def)
  then have "fs\<lparr>last_clst := l, free_clst := f, fsi_flag := i\<rparr> =
    fs0\<lparr>last_clst := l, free_clst := f, fsi_flag := i\<rparr>\<lparr>wflag := a, winsect := b, win := w, dev := d\<rparr>" by simp
  then show ?thesis unfolding same_disk_def same_volume_def by blast
qed

lemma tab_info:
  assumes "tab ready sector fs0 T fs"
  shows "tab ready sector fs0 T (fs\<lparr>last_clst := l, free_clst := f, fsi_flag := i\<rparr>)"
proof -
  let ?f = "fs\<lparr>last_clst := l, free_clst := f, fsi_flag := i\<rparr>"
  have v: "volume sector ?f = volume sector fs" "mirror ?f = mirror fs" "in_fat ?f = in_fat fs"
    by (simp_all add: volume_def mirror_def in_fat_def)
  have "fat_byte sector ?f = fat_byte sector fs" by (rule ext) (simp add: fat_byte_def v)
  then have "fat_entry sector ?f = fat_entry sector fs" by (intro ext) (simp add: fat_entry_def)
  moreover have "fat_ok ready sector ?f = fat_ok ready sector fs"
    by (simp add: fat_ok_def window_ok_def fat_geometry_def v)
  moreover have "same_disk fs0 ?f" by (rule same_disk_info) (use assms in \<open>simp add: tab_def\<close>)
  ultimately show ?thesis using assms by (simp add: tab_def v)
qed

lemma tab_refl: "fat_ok ready sector fs \<Longrightarrow> tab ready sector fs (fat_entry sector fs) fs"
  by (simp add: tab_def)

lemma tab_cong:
  assumes "tab ready sector fs0 T fs" "\<And>c. 2 \<le> c \<Longrightarrow> c < unat (n_fatent fs0) \<Longrightarrow> T c = T' c"
  shows "tab ready sector fs0 T' fs"
  using assms by (simp add: tab_def)

lemma note_freed_eq:
  "\<exists>f i. note_freed fs = fs\<lparr>last_clst := last_clst fs, free_clst := f, fsi_flag := i\<rparr>"
  unfolding note_freed_def by (cases "free_clst fs < n_fatent fs - 2") (simp, blast, rule exI [of _ "free_clst fs"], rule exI [of _ "fsi_flag fs"], simp)

text \<open>The free clusters of a table, and a free count that is right or marked unknown.\<close>

definition free_set :: "nat \<Rightarrow> (nat \<Rightarrow> u32) \<Rightarrow> nat set" where
  "free_set n T = {c. 2 \<le> c \<and> c < n \<and> T c = 0}"

definition accurate :: "(nat \<Rightarrow> u32) \<Rightarrow> 'd FATFS \<Rightarrow> bool" where
  "accurate T fs \<longleftrightarrow> unat (free_clst fs) = card (free_set (unat (n_fatent fs)) T) \<or> free_clst fs > n_fatent fs - 2"

lemma finite_free_set [simp]: "finite (free_set n T)"
  by (rule finite_subset [of _ "{..<n}"]) (auto simp: free_set_def)

lemma free_set_insert: "2 \<le> c \<Longrightarrow> c < n \<Longrightarrow> free_set n (T(c := 0)) = insert c (free_set n T)"
  by (auto simp: free_set_def)

lemma free_set_remove: "v \<noteq> 0 \<Longrightarrow> free_set n (T(c := v)) = free_set n T - {c}"
  by (auto simp: free_set_def)

lemma card_free_set: "card (free_set n T) \<le> n - 2"
proof -
  have "free_set n T \<subseteq> {2..<n}" by (auto simp: free_set_def)
  from card_mono [OF _ this] show ?thesis by simp
qed

lemma card_free_set_less: "2 \<le> c \<Longrightarrow> c < n \<Longrightarrow> T c \<noteq> 0 \<Longrightarrow> card (free_set n T) < n - 2"
proof -
  assume c: "2 \<le> c" "c < n" "T c \<noteq> 0"
  then have "c \<in> {2..<n} - free_set n T" by (simp add: free_set_def)
  moreover have "free_set n T \<subseteq> {2..<n}" by (auto simp: free_set_def)
  ultimately have "free_set n T \<subset> {2..<n}" by blast
  from psubset_card_mono [OF _ this] show ?thesis by simp
qed

lemma unat_fatent: "2 \<le> unat n \<Longrightarrow> unat (n - 2) = unat n - 2" for n :: u32
  by (simp add: unat_sub word_le_nat_alt)

lemma accurate_freed:
  assumes "accurate T fs" "2 \<le> c" "c < unat (n_fatent fs)" "T c \<noteq> 0"
  shows "accurate (T(c := 0)) (note_freed fs)"
proof -
  have u: "unat (n_fatent fs - 2) = unat (n_fatent fs) - 2" using assms by (intro unat_fatent) simp
  have "card (free_set (unat (n_fatent fs)) (T(c := 0))) = Suc (card (free_set (unat (n_fatent fs)) T))"
    using assms by (simp add: free_set_insert) (simp add: free_set_def)
  moreover have "card (free_set (unat (n_fatent fs)) T) < unat (n_fatent fs) - 2" using card_free_set_less assms by blast
  moreover have "unat (free_clst fs + 1) = unat (free_clst fs) + 1" if "free_clst fs < n_fatent fs - 2"
    using that unat_lt_u32 [of "n_fatent fs - 2"] by (subst unat_add_u32) (simp_all add: word_less_nat_alt)
  ultimately show ?thesis using assms(1) u by (auto simp: accurate_def note_freed_def word_less_nat_alt)
qed

text \<open>A chain: a list of clusters each linking the next, the last with an end mark.\<close>

fun fat_chain :: "nat \<Rightarrow> (nat \<Rightarrow> u32) \<Rightarrow> nat list \<Rightarrow> bool" where
  "fat_chain n T [] \<longleftrightarrow> False"
| "fat_chain n T [c] \<longleftrightarrow> 2 \<le> c \<and> c < n \<and> n \<le> unat (T c)"
| "fat_chain n T (c # d # xs) \<longleftrightarrow> 2 \<le> c \<and> c < n \<and> T c = of_nat d \<and> fat_chain n T (d # xs)"

lemma fat_chain_hd: "fat_chain n T (c # xs) \<Longrightarrow> 2 \<le> c \<and> c < n"
  by (cases xs) auto

lemma fat_chain_cong: "fat_chain n T xs \<Longrightarrow> (\<And>c. c \<in> set xs \<Longrightarrow> T' c = T c) \<Longrightarrow> fat_chain n T' xs"
  by (induction n T xs rule: fat_chain.induct) auto

text \<open>No entry reads as the disk error mark.\<close>

lemma fat_entry_no_error: "fat_entry sector fs c \<noteq> 0xFFFFFFFF"
proof -
  have m: "(0x0FFFFFFF :: u32) = mask 28" "(0xFFFFFFFF :: u32) = mask 32" by (simp_all add: mask_eq_exp_minus_1)
  have "\<not> bit (fat_entry sector fs c) 31"
    by (auto simp: fat_entry_def entry12_def entry16_def entry32_def Let_def m bit_simps dest: u8_bit_less)
  moreover have "bit (0xFFFFFFFF :: u32) 31" unfolding m by (simp add: bit_mask_iff)
  ultimately show ?thesis by metis
qed

lemma fat_entry_cong:
  assumes "fat_ok ready sector fs" "same_volume fs fs'" "\<forall>i < 512 * unat (fs_fsize fs). fat_byte sector fs' i = fat_byte sector fs i"
    and c: "c < unat (n_fatent fs)"
  shows "fat_entry sector fs' c = fat_entry sector fs c"
proof -
  have "fs_type fs' = fs_type fs" using same_volume_simps [OF assms(2)] by simp
  then show ?thesis
    using assms(1,3) c
    by (auto simp: fat_ok_def fat_geometry_def fat_entry_def entry12_def entry16_def entry32_def FS_FAT12_def FS_FAT16_def FS_FAT32_def)
qed

context block_device
begin

lemma tab_get:
  assumes "tab ready sector fs0 T fs" "2 \<le> unat clst" "unat clst < unat (n_fatent fs0)"
  shows "\<exists>fs'. get_fat M clst fs = Some (T (unat clst), fs') \<and> tab ready sector fs0 T fs' \<and> info fs' = info fs"
proof -
  have t: "fat_ok ready sector fs" "same_disk fs0 fs" using assms(1) by (simp_all add: tab_def)
  note sd = same_disk_simps [OF t(2)]
  obtain fs' where f: "get_fat M clst fs = Some (fat_entry sector fs (unat clst), fs')" "unchanged ready sector fs fs'"
    using get_fat_ok [OF t(1) assms(2)] assms(3) by (auto simp: sd)
  have u: "fat_ok ready sector fs'" "same_volume fs fs'" "\<forall>i < 512 * unat (fs_fsize fs). fat_byte sector fs' i = fat_byte sector fs i"
      "\<forall>l. l \<notin> mirror fs \<longrightarrow> volume sector fs' l = volume sector fs l" "unat (winsect fs') \<in> insert (unat (winsect fs)) (in_fat fs)"
    using f(2) by (simp_all add: unchanged_def)
  have "fat_entry sector fs' c = fat_entry sector fs c" if "c < unat (n_fatent fs0)" for c
    by (rule fat_entry_cong [OF t(1) u(2,3)]) (use that sd in simp)
  then have "tab ready sector fs0 T fs'"
    using assms(1) u(1,4,5) same_disk_volume [OF t(2) u(2)] unfolding tab_def by (auto simp: sd)
  then show ?thesis using f(1) assms same_volume_info [OF u(2)] by (auto simp: tab_def)
qed

lemma tab_no_error: "tab ready sector fs0 T fs \<Longrightarrow> 2 \<le> c \<Longrightarrow> c < unat (n_fatent fs0) \<Longrightarrow> T c \<noteq> 0xFFFFFFFF"
  using fat_entry_no_error unfolding tab_def by metis

lemma tab_put:
  assumes "tab ready sector fs0 T fs" "2 \<le> unat clst" "unat clst < unat (n_fatent fs0)"
  shows "\<exists>fs'. put_fat M clst v fs = Some (FR_OK, fs') \<and> tab ready sector fs0 (T(unat clst := v AND fat_mask fs0)) fs' \<and> info fs' = info fs"
proof -
  have t: "fat_ok ready sector fs" "same_disk fs0 fs" using assms(1) by (simp_all add: tab_def)
  note sd = same_disk_simps [OF t(2)]
  obtain fs' B where f: "put_fat M clst v fs = Some (FR_OK, fs')" "stored ready sector B fs fs'"
      "fat_entry sector fs' (unat clst) = v AND fat_mask fs"
      "\<forall>c. 2 \<le> c \<and> c < unat (n_fatent fs) \<and> c \<noteq> unat clst \<longrightarrow> fat_entry sector fs' c = fat_entry sector fs c"
    using put_fat_ok [OF t(1) assms(2), of v] assms(3) by (auto simp: sd)
  have u: "fat_ok ready sector fs'" "same_volume fs fs'" "\<forall>l. l \<notin> in_fat fs \<union> mirror fs \<longrightarrow> volume sector fs' l = volume sector fs l"
    "unat (winsect fs') \<in> insert (unat (winsect fs)) (in_fat fs)"
    using f(2) by (simp_all add: stored_def)
  have "tab ready sector fs0 (T(unat clst := v AND fat_mask fs0)) fs'"
    using assms(1) u f(3,4) same_disk_volume [OF t(2) u(2)] unfolding tab_def by (auto simp: sd)
  then show ?thesis using f(1) same_volume_info [OF u(2)] by blast
qed

lemma tab_fatent: "tab ready sector fs0 T fs \<Longrightarrow> n_fatent fs = n_fatent fs0"
  using same_disk_simps(2) by (auto simp: tab_def)

lemma tab_freed:
  assumes "tab ready sector fs0 T fs"
  shows "tab ready sector fs0 T (note_freed fs)" "n_fatent (note_freed fs) = n_fatent fs0"
proof -
  obtain f i where e: "note_freed fs = fs\<lparr>last_clst := last_clst fs, free_clst := f, fsi_flag := i\<rparr>"
    using note_freed_eq by blast
  show "tab ready sector fs0 T (note_freed fs)" unfolding e by (rule tab_info [OF assms])
  show "n_fatent (note_freed fs) = n_fatent fs0" unfolding e using assms same_disk_simps by (auto simp: tab_def)
qed

lemma accurate_info:
  assumes "tab ready sector fs0 T fs" "tab ready sector fs0 T' fs'" "info fs' = info fs" "accurate U fs"
  shows "accurate U fs'"
proof -
  have "n_fatent fs' = n_fatent fs" using tab_fatent [OF assms(1)] tab_fatent [OF assms(2)] by simp
  then show ?thesis using assms(3,4) by (simp add: accurate_def info_def)
qed

text \<open>One turn of the removing loop.\<close>

lemma remove_turn:
  assumes t: "tab ready sector fs0 T fs" and c: "2 \<le> unat clst" "unat clst < unat (n_fatent fs0)"
    and nxt: "T (unat clst) \<noteq> 0" "T (unat clst) \<noteq> 1" and acc: "accurate T fs"
  shows "\<exists>fs'. remove_loop M clst fs = (if T (unat clst) < n_fatent fs0 then remove_loop M (T (unat clst)) fs' else Some (FR_OK, fs')) \<and>
    tab ready sector fs0 (T(unat clst := 0)) fs' \<and> accurate (T(unat clst := 0)) fs'"
proof -
  obtain f1 where f1: "get_fat M clst fs = Some (T (unat clst), f1)" "tab ready sector fs0 T f1" "info f1 = info fs"
    using tab_get [OF t c] by blast
  obtain f2 where f2: "put_fat M clst 0 f1 = Some (FR_OK, f2)" "tab ready sector fs0 (T(unat clst := 0)) f2" "info f2 = info f1"
    using tab_put [OF f1(2) c, of 0] by auto
  have nf: "n_fatent f2 = n_fatent fs0" using f2(2) same_disk_simps by (auto simp: tab_def)
  have "accurate T f2" by (rule accurate_info [OF t f2(2) _ acc]) (simp add: f1(3) f2(3))
  then have "accurate (T(unat clst := 0)) (note_freed f2)" by (rule accurate_freed) (use c nxt(1) nf in simp_all)
  moreover have "remove_loop M clst fs =
     (if T (unat clst) < n_fatent fs0 then remove_loop M (T (unat clst)) (note_freed f2) else Some (FR_OK, note_freed f2))"
    using f1(1) f2(1) nxt tab_no_error [OF t c] tab_freed [OF f2(2)] by (subst remove_loop.simps) (simp add: Let_def)
  ultimately show ?thesis using tab_freed(1) [OF f2(2)] by blast
qed

lemma remove_loop_chain:
  assumes "fat_chain (unat (n_fatent fs0)) T (unat clst # xs)" "distinct (unat clst # xs)" "tab ready sector fs0 T fs" "accurate T fs"
  shows "\<exists>fs'. remove_loop M clst fs = Some (FR_OK, fs') \<and>
    tab ready sector fs0 (\<lambda>c. if c \<in> set (unat clst # xs) then 0 else T c) fs' \<and>
    accurate (\<lambda>c. if c \<in> set (unat clst # xs) then 0 else T c) fs'"
  using assms
proof (induction xs arbitrary: clst T fs)
  case Nil
  then have c: "2 \<le> unat clst" "unat clst < unat (n_fatent fs0)" "unat (n_fatent fs0) \<le> unat (T (unat clst))"
    by auto
  then have n: "T (unat clst) \<noteq> 0" "T (unat clst) \<noteq> 1" "\<not> T (unat clst) < n_fatent fs0" by (auto simp: word_less_nat_alt)
  have e: "(\<lambda>c. if c \<in> set [unat clst] then 0 else T c) = T(unat clst := 0)" by auto
  show ?case unfolding e using remove_turn [OF Nil(3) c(1,2) n(1,2) Nil(4)] n(3) by auto
next
  case (Cons d xs)
  then have c: "2 \<le> unat clst" "unat clst < unat (n_fatent fs0)" "T (unat clst) = of_nat d" "fat_chain (unat (n_fatent fs0)) T (d # xs)"
    by auto
  have d: "2 \<le> d" "d < unat (n_fatent fs0)" using fat_chain_hd [OF c(4)] by auto
  then have u: "unat (of_nat d :: u32) = d" using unat_lt_u32 [of "n_fatent fs0"] by (simp add: unat_of_nat_u32)
  have w: "(of_nat d :: u32) \<noteq> 0" "(of_nat d :: u32) \<noteq> 1" "of_nat d < n_fatent fs0"
    using d u unat_lt_u32 [of "n_fatent fs0"] by (auto simp: word_less_nat_alt)
  obtain f1 where f1: "remove_loop M clst fs = remove_loop M (of_nat d) f1" "tab ready sector fs0 (T(unat clst := 0)) f1"
      "accurate (T(unat clst := 0)) f1"
    using remove_turn [OF Cons.prems(3) c(1,2) _ _ Cons.prems(4)] w by (auto simp: c(3))
  have "fat_chain (unat (n_fatent fs0)) (T(unat clst := 0)) (unat (of_nat d :: u32) # xs)"
    unfolding u by (rule fat_chain_cong [OF c(4)]) (use Cons.prems(2) in auto)
  from Cons.IH [OF this _ f1(2,3)] Cons.prems(2)
  obtain fs' where f: "remove_loop M (of_nat d) f1 = Some (FR_OK, fs')"
      "tab ready sector fs0 (\<lambda>c. if c \<in> set (d # xs) then 0 else (T(unat clst := 0)) c) fs'"
      "accurate (\<lambda>c. if c \<in> set (d # xs) then 0 else (T(unat clst := 0)) c) fs'"
    unfolding u by auto
  have "(\<lambda>c. if c \<in> set (d # xs) then 0 else (T(unat clst := 0)) c) = (\<lambda>c. if c \<in> set (unat clst # d # xs) then 0 else T c)"
    by auto
  then show ?case using f f1(1) by simp
qed

text \<open>The loop ends on every table, even on a cyclic chain: each turn frees a cluster that was in use.\<close>

lemma remove_loop_total:
  assumes "tab ready sector fs0 T fs" "accurate T fs" "2 \<le> unat clst" "unat clst < unat (n_fatent fs0)"
  shows "\<exists>res fs' T'. remove_loop M clst fs = Some (res, fs') \<and> tab ready sector fs0 T' fs' \<and> accurate T' fs' \<and>
    (\<forall>c. T' c = T c \<or> T' c = 0)"
  using assms
proof (induction "unat (n_fatent fs0) - card (free_set (unat (n_fatent fs0)) T)" arbitrary: clst T fs rule: less_induct)
  case less
  let ?n = "unat (n_fatent fs0)"
  note t = less.prems(1) and c = less.prems(3,4)
  obtain f1 where f1: "get_fat M clst fs = Some (T (unat clst), f1)" "tab ready sector fs0 T f1" "info f1 = info fs"
    using tab_get [OF t c] by blast
  show ?case
  proof (cases "T (unat clst) = 0 \<or> T (unat clst) = 1")
    case True
    have "accurate T f1" by (rule accurate_info [OF t f1(2,3) less.prems(2)])
    moreover have "\<exists>res. remove_loop M clst fs = Some (res, f1)" using f1(1) True by (subst remove_loop.simps) auto
    ultimately show ?thesis using f1(2) by blast
  next
    case False
    then obtain f2 where f2: "remove_loop M clst fs = (if T (unat clst) < n_fatent fs0 then remove_loop M (T (unat clst)) f2 else Some (FR_OK, f2))"
        "tab ready sector fs0 (T(unat clst := 0)) f2" "accurate (T(unat clst := 0)) f2"
      using remove_turn [OF t c _ _ less.prems(2)] by blast
    show ?thesis
    proof (cases "T (unat clst) < n_fatent fs0")
      case True
      have nz: "T (unat clst) \<noteq> 0" using False by simp
      have "card (free_set ?n (T(unat clst := 0))) = Suc (card (free_set ?n T))"
        unfolding free_set_insert [OF c] using nz by (simp add: free_set_def)
      moreover have "card (free_set ?n T) < ?n" using card_free_set_less [of "unat clst" ?n T] c nz by linarith
      ultimately have dec: "?n - card (free_set ?n (T(unat clst := 0))) < ?n - card (free_set ?n T)" by linarith
      have "unat (T (unat clst)) \<noteq> 0" "unat (T (unat clst)) \<noteq> 1" using False by (metis unat_eq_zero, metis unat_1 word_unat_eq_iff)
      then have ge: "2 \<le> unat (T (unat clst))" by linarith
      have lt: "unat (T (unat clst)) < ?n" using True by (simp add: word_less_nat_alt)
      obtain res fs' T' where r: "remove_loop M (T (unat clst)) f2 = Some (res, fs')" "tab ready sector fs0 T' fs'" "accurate T' fs'"
          "\<forall>c. T' c = (T(unat clst := 0)) c \<or> T' c = 0"
        using less.hyps [OF dec f2(2,3) ge lt] by blast
      have "\<forall>c. T' c = T c \<or> T' c = 0" using r(4) by (metis fun_upd_apply)
      then show ?thesis using f2(1) True r by auto
    next
      case nlt: False
      have "\<forall>c. (T(unat clst := 0)) c = T c \<or> (T(unat clst := 0)) c = 0" by simp
      moreover have "remove_loop M clst fs = Some (FR_OK, f2)" using f2(1) nlt by simp
      ultimately show ?thesis using f2(2,3) by blast
    qed
  qed
qed

end

section \<open>Searching a free cluster\<close>

text \<open>The table after a cluster is linked behind \<open>clst\<close> (0 for a new chain).\<close>

definition linked :: "u32 \<Rightarrow> u32 \<Rightarrow> u32 \<Rightarrow> (nat \<Rightarrow> u32) \<Rightarrow> nat \<Rightarrow> u32" where
  "linked eoc clst ncl T = (if clst = 0 then T(unat ncl := eoc) else T(unat ncl := eoc, unat clst := ncl))"

definition found_ok :: "nat \<Rightarrow> (nat \<Rightarrow> u32) \<Rightarrow> search \<Rightarrow> bool" where
  "found_ok n T r \<longleftrightarrow> (case r of
     Found k \<Rightarrow> unat k \<in> free_set n T
   | Give_up st \<Rightarrow> st = 0 \<and> free_set n T = {} \<or> st = 1 \<and> (\<exists>c. 2 \<le> c \<and> c < n \<and> T c = 1))"

text \<open>The clusters the search has seen when it stands at \<open>ncl\<close>, and the distance still to go.\<close>

definition seen :: "nat \<Rightarrow> nat \<Rightarrow> nat \<Rightarrow> bool" where
  "seen scl ncl c \<longleftrightarrow> (if scl \<le> ncl then scl < c \<and> c \<le> ncl else scl < c \<or> c \<le> ncl)"

definition distance :: "nat \<Rightarrow> nat \<Rightarrow> nat \<Rightarrow> nat" where
  "distance n scl ncl = (if scl \<le> ncl then n - ncl + scl else scl - ncl)"

context block_device
begin

lemma find_loop_ok:
  assumes "tab ready sector fs0 T fs" "1 \<le> unat scl" "unat scl < unat (n_fatent fs0)" "unat ncl < unat (n_fatent fs0)"
    and "unat scl \<le> unat ncl \<or> 2 \<le> unat ncl"
    and "\<forall>c. 2 \<le> c \<and> c < unat (n_fatent fs0) \<and> seen (unat scl) (unat ncl) c \<longrightarrow> T c \<noteq> 0"
  shows "\<exists>r fs'. find_loop M scl ncl fs = Some (r, fs') \<and> tab ready sector fs0 T fs' \<and> info fs' = info fs \<and>
    found_ok (unat (n_fatent fs0)) T r"
  using assms
proof (induction "distance (unat (n_fatent fs0)) (unat scl) (unat ncl)" arbitrary: ncl fs rule: less_induct)
  case less
  let ?n = "unat (n_fatent fs0)"
  note t = less.prems(1)
  have fe: "n_fatent fs = n_fatent fs0" using tab_fatent [OF t] .
  have u1: "unat (ncl + 1) = unat ncl + 1" using less.prems(4) unat_lt_u32 [of "n_fatent fs0"] by (subst unat_add_u32) auto
  define wrapped where "wrapped = (ncl + 1 \<ge> n_fatent fs0)"
  define k where "k = (if wrapped then 2 else ncl + 1)"
  have wr: "wrapped \<longleftrightarrow> unat ncl + 1 = ?n" using less.prems(4) u1 by (auto simp: wrapped_def word_le_nat_alt)
  have uk: "unat k = (if wrapped then 2 else unat ncl + 1)" by (simp add: k_def u1)
  have unfold: "find_loop M scl ncl fs = (if wrapped \<and> k > scl then Some (Give_up 0, fs)
         else do {
           (cs, fs) \<leftarrow> get_fat M k fs;
           if cs = 0 then Some (Found k, fs)
           else if cs = 1 \<or> cs = 0xFFFFFFFF then Some (Give_up cs, fs)
           else if k = scl then Some (Give_up 0, fs)
           else find_loop M scl k fs
         })"
    by (subst find_loop.simps) (simp only: Let_def fe flip: wrapped_def k_def)
  show ?case
  proof (cases "wrapped \<and> k > scl")
    case True
    then have "unat scl = 1" using less.prems(2) uk by (auto simp: word_less_nat_alt)
    then have "free_set ?n T = {}" using True less.prems(4,6) wr by (auto simp: free_set_def seen_def)
    then show ?thesis using True unfold t by (auto simp: found_ok_def)
  next
    case False
    have k: "2 \<le> unat k" "unat k < ?n"
      using False less.prems(2-5) wr uk by (auto simp: word_less_nat_alt split: if_splits)
    obtain f1 where f1: "get_fat M k fs = Some (T (unat k), f1)" "tab ready sector fs0 T f1" "info f1 = info fs"
      using tab_get [OF t k] by blast
    have ne: "T (unat k) \<noteq> 0xFFFFFFFF" using tab_no_error [OF t k] .
    show ?thesis
    proof (cases "T (unat k) = 0 \<or> T (unat k) = 1")
      case True
      then show ?thesis using False unfold f1 k by (auto simp: found_ok_def free_set_def)
    next
      case used: False
      have vis: "\<forall>c. 2 \<le> c \<and> c < ?n \<and> (seen (unat scl) (unat ncl) c \<or> c = unat k) \<longrightarrow> T c \<noteq> 0" using less.prems(6) used by auto
      show ?thesis
      proof (cases "k = scl")
        case True
        then have "free_set ?n T = {}"
          using vis uk wr less.prems(4,5) by (auto simp: free_set_def seen_def split: if_splits)
        then show ?thesis using False unfold f1 used ne True by (auto simp: found_ok_def)
      next
        case go: False
        then have ne2: "unat k \<noteq> unat scl" by (simp add: word_unat_eq_iff)
        have "distance ?n (unat scl) (unat k) < distance ?n (unat scl) (unat ncl)"
          using ne2 uk wr less.prems(3-5) False k by (auto simp: distance_def word_less_nat_alt split: if_splits)
        moreover have "\<forall>c. 2 \<le> c \<and> c < ?n \<and> seen (unat scl) (unat k) c \<longrightarrow> T c \<noteq> 0"
          using vis uk wr ne2 less.prems(4,5) False by (auto simp: seen_def word_less_nat_alt split: if_splits)
        moreover have "unat scl \<le> unat k \<or> 2 \<le> unat k" using k by simp
        ultimately obtain r fs' where "find_loop M scl k f1 = Some (r, fs')" "tab ready sector fs0 T fs'" "info fs' = info f1" "found_ok ?n T r"
          using less.hyps f1(2) less.prems(2,3) k(2) by blast
        then show ?thesis using False unfold f1 used ne go by auto
      qed
    qed
  qed
qed

lemma find_free_ok:
  assumes t: "tab ready sector fs0 T fs" and s: "1 \<le> unat scl" "unat scl < unat (n_fatent fs0)" "scl = clst \<longrightarrow> 2 \<le> unat scl"
  shows "\<exists>r fs'. find_free M clst scl fs = Some (r, fs') \<and> tab ready sector fs0 T fs' \<and> info fs' = info fs \<and>
    found_ok (unat (n_fatent fs0)) T r"
proof (cases "scl = clst")
  case False
  have "\<forall>c. 2 \<le> c \<and> c < unat (n_fatent fs0) \<and> seen (unat scl) (unat scl) c \<longrightarrow> T c \<noteq> 0" by (auto simp: seen_def)
  from find_loop_ok [OF t s(1,2,2) _ this] show ?thesis using False by (simp add: find_free_def)
next
  case True
  let ?n = "unat (n_fatent fs0)"
  have fe: "n_fatent fs = n_fatent fs0" using tab_fatent [OF t] .
  have u1: "unat (scl + 1) = unat scl + 1" using s(2) unat_lt_u32 [of "n_fatent fs0"] by (subst unat_add_u32) auto
  define k where "k = (if scl + 1 \<ge> n_fatent fs0 then 2 else scl + 1)"
  have k: "2 \<le> unat k" "unat k < ?n" using s True u1 by (auto simp: k_def word_le_nat_alt)
  obtain f1 where f1: "get_fat M k fs = Some (T (unat k), f1)" "tab ready sector fs0 T f1" "info f1 = info fs"
    using tab_get [OF t k] by blast
  have ne: "T (unat k) \<noteq> 0xFFFFFFFF" using tab_no_error [OF t k] .
  have fe1: "n_fatent f1 = n_fatent fs0" using tab_fatent [OF f1(2)] .
  define scl' where "scl' = (if last_clst f1 \<ge> 2 \<and> last_clst f1 < n_fatent fs0 then last_clst f1 else scl)"
  have s': "1 \<le> unat scl'" "unat scl' < ?n" using s by (auto simp: scl'_def word_le_nat_alt word_less_nat_alt)
  obtain r f2 where r: "find_loop M scl' scl' f1 = Some (r, f2)" "tab ready sector fs0 T f2" "info f2 = info f1" "found_ok ?n T r"
    using find_loop_ok [OF f1(2) s' s'(2)] unfolding seen_def by fastforce
  have "find_free M clst scl fs = (if T (unat k) = 1 then Some (Give_up 1, f1) else if T (unat k) \<noteq> 0 then Some (r, f2) else Some (Found k, f1))"
    unfolding find_free_def Let_def fe if_P [OF True] k_def [symmetric] using f1(1) ne r(1) fe1 scl'_def by simp
  then show ?thesis using f1 r k by (auto simp: found_ok_def free_set_def)
qed

lemma mask_fits:
  assumes "fat_ok ready sector fs"
  shows "unat (n_fatent fs) \<le> unat (fat_mask fs)" "c < n_fatent fs \<Longrightarrow> c AND fat_mask fs = c"
proof -
  have m: "(0xFFF :: u32) = mask 12" "(0xFFFF :: u32) = mask 16" "(0x0FFFFFFF :: u32) = mask 28" by (simp_all add: mask_eq_exp_minus_1)
  have g: "fat_geometry fs" using assms by (simp add: fat_ok_def)
  then show "unat (n_fatent fs) \<le> unat (fat_mask fs)"
    by (auto simp: fat_geometry_def fat_mask_def FS_FAT12_def FS_FAT16_def FS_FAT32_def)
  obtain b where b: "fat_mask fs = mask b" "unat (n_fatent fs) < 2 ^ b"
    using g that [of 12] that [of 16] that [of 28] unfolding fat_geometry_def fat_mask_def m
    by (auto simp: FS_FAT12_def FS_FAT16_def FS_FAT32_def)
  assume "c < n_fatent fs"
  then have "unat c < 2 ^ b" using b(2) by (simp add: word_less_nat_alt)
  then have "take_bit b c = c" by (simp add: word_unat_eq_iff unsigned_take_bit_eq take_bit_nat_eq_self)
  then show "c AND fat_mask fs = c" unfolding b(1) by (simp add: take_bit_eq_mask)
qed

lemma link_cluster_ok:
  assumes t: "tab ready sector fs0 T fs" and acc: "accurate T fs" and ncl: "unat ncl \<in> free_set (unat (n_fatent fs0)) T"
    and clst: "clst = 0 \<or> 2 \<le> unat clst \<and> unat clst < unat (n_fatent fs0) \<and> T (unat clst) \<noteq> 0"
  shows "\<exists>fs'. link_cluster M clst ncl fs = Some (ncl, fs') \<and> tab ready sector fs0 (linked (fat_mask fs0) clst ncl T) fs' \<and>
    accurate (linked (fat_mask fs0) clst ncl T) fs'"
proof -
  let ?n = "unat (n_fatent fs0)" and ?m = "fat_mask fs0"
  have n: "2 \<le> unat ncl" "unat ncl < ?n" "T (unat ncl) = 0" using ncl by (auto simp: free_set_def)
  have ok: "fat_ok ready sector fs" "same_disk fs0 fs" using t by (simp_all add: tab_def)
  have mask: "?n \<le> unat ?m" "ncl AND ?m = ncl"
    using mask_fits [OF ok(1)] n(2) same_disk_simps [OF ok(2)] by (simp_all add: word_less_nat_alt)
  have "(0xFFFFFFFF :: u32) = - 1" by simp
  then have all: "0xFFFFFFFF AND ?m = ?m" by (simp only: and.left_neutral)
  obtain f1 where f1: "put_fat M ncl 0xFFFFFFFF fs = Some (FR_OK, f1)" "tab ready sector fs0 (T(unat ncl := ?m)) f1" "info f1 = info fs"
    using tab_put [OF t n(1,2), of "0xFFFFFFFF"] all by auto
  obtain f2 where f2: "(if clst \<noteq> 0 then put_fat M clst ncl f1 else Some (FR_OK, f1)) = Some (FR_OK, f2)"
      "tab ready sector fs0 (linked ?m clst ncl T) f2" "info f2 = info fs"
  proof (cases "clst = 0")
    case False
    then show ?thesis using that tab_put [OF f1(2), of clst ncl] clst f1(3) mask(2) by (auto simp: linked_def)
  qed (use f1 that in \<open>simp add: linked_def\<close>)
  define f3 where "f3 = (let fs = f2\<lparr>last_clst := ncl\<rparr>
             in if free_clst fs > 0 \<and> free_clst fs \<le> n_fatent fs - 2
                then fs\<lparr>free_clst := free_clst fs - 1, fsi_flag := fsi_flag fs OR 1\<rparr> else fs)"
  have run: "link_cluster M clst ncl fs = Some (ncl, f3)"
    using f1(1) f2(1) by (cases "clst = 0") (simp_all add: link_cluster_def f3_def Let_def)
  have "\<exists>f i. f3 = f2\<lparr>last_clst := ncl, free_clst := f, fsi_flag := i\<rparr>"
    unfolding f3_def Let_def
    by (cases "free_clst f2 > 0 \<and> free_clst f2 \<le> n_fatent f2 - 2") (simp, blast, rule exI [of _ "free_clst f2"], rule exI [of _ "fsi_flag f2"], auto)
  then have tab3: "tab ready sector fs0 (linked ?m clst ncl T) f3" using tab_info [OF f2(2)] by auto
  have fe: "n_fatent f2 = n_fatent fs0" "n_fatent fs = n_fatent fs0" using tab_fatent f2(2) t by blast+
  have nz: "?m \<noteq> 0" "ncl \<noteq> 0" using mask(1) n by auto
  have "free_set ?n (linked ?m clst ncl T) = free_set ?n T - {unat ncl}"
    using clst nz by (auto simp: linked_def free_set_def)
  then have card: "card (free_set ?n (linked ?m clst ncl T)) = card (free_set ?n T) - 1" "0 < card (free_set ?n T)"
    using ncl by (auto simp: card_gt_0_iff)
  have un: "unat (n_fatent fs0 - 2) = ?n - 2" using n by (intro unat_fatent) simp
  have "free_clst f2 = free_clst fs" using f2(3) by (simp add: info_def)
  then have "accurate (linked ?m clst ncl T) f3"
    using acc card card_free_set [of ?n T] un unat_minus_one [of "free_clst fs"]
    by (auto simp: accurate_def f3_def Let_def fe word_less_nat_alt word_le_nat_alt unat_gt_0)
  then show ?thesis using run tab3 by blast
qed

lemma create_chain_ok:
  assumes t: "tab ready sector fs0 T fs" and acc: "accurate T fs" and n: "2 < unat (n_fatent fs0)"
    and sound: "\<forall>c. 2 \<le> c \<and> c < unat (n_fatent fs0) \<longrightarrow> T c \<noteq> 1"
    and clst: "clst = 0 \<or> 2 \<le> unat clst \<and> unat clst < unat (n_fatent fs0) \<and> unat (n_fatent fs0) \<le> unat (T (unat clst))"
  shows "\<exists>ncl fs' T'. create_chain M clst fs = Some (ncl, fs') \<and> tab ready sector fs0 T' fs' \<and> accurate T' fs' \<and>
    (if free_set (unat (n_fatent fs0)) T = {} then ncl = 0 \<and> T' = T
     else unat ncl \<in> free_set (unat (n_fatent fs0)) T \<and> T' = linked (fat_mask fs0) clst ncl T)"
proof -
  let ?n = "unat (n_fatent fs0)"
  have fe: "n_fatent fs = n_fatent fs0" using tab_fatent [OF t] .
  obtain scl f1 where f1: "chain_start M clst fs = Some (Found scl, f1)" "tab ready sector fs0 T f1" "info f1 = info fs"
      "1 \<le> unat scl" "unat scl < ?n" "scl = clst \<longrightarrow> 2 \<le> unat scl"
  proof (cases "clst = 0")
    case True
    let ?s = "if last_clst fs = 0 \<or> last_clst fs \<ge> n_fatent fs then 1 else last_clst fs"
    have s: "1 \<le> unat ?s" "unat ?s < ?n" using n by (auto simp: fe word_le_nat_alt Suc_le_eq unat_gt_0)
    then have "?s = clst \<longrightarrow> 2 \<le> unat ?s" using True by auto
    then show ?thesis using that [of ?s fs] s t True by (simp add: chain_start_def)
  next
    case False
    then have c: "2 \<le> unat clst" "unat clst < ?n" "?n \<le> unat (T (unat clst))" using clst by auto
    obtain f1 where g: "get_fat M clst fs = Some (T (unat clst), f1)" "tab ready sector fs0 T f1" "info f1 = info fs"
      using tab_get [OF t c(1,2)] by blast
    have "\<not> T (unat clst) < 2" "T (unat clst) \<noteq> 0xFFFFFFFF" "\<not> T (unat clst) < n_fatent f1"
      using c n tab_no_error [OF t c(1,2)] tab_fatent [OF g(2)] by (auto simp: word_less_nat_alt)
    then have "chain_start M clst fs = Some (Found clst, f1)" using False g(1) by (simp add: chain_start_def)
    then show ?thesis using that g c by simp
  qed
  have acc1: "accurate T f1" by (rule accurate_info [OF t f1(2,3) acc])
  show ?thesis
  proof (cases "free_clst f1 = 0")
    case True
    then have "free_set ?n T = {}" using acc1 tab_fatent [OF f1(2)] by (auto simp: accurate_def card_eq_0_iff)
    then show ?thesis using f1(1,2) acc1 True by (auto simp: create_chain_def)
  next
    case False
    obtain r f2 where r: "find_free M clst scl f1 = Some (r, f2)" "tab ready sector fs0 T f2" "info f2 = info f1" "found_ok ?n T r"
      using find_free_ok [OF f1(2,4,5,6)] by blast
    have acc2: "accurate T f2" by (rule accurate_info [OF f1(2) r(2,3) acc1])
    show ?thesis
    proof (cases r)
      case (Give_up st)
      then have "st = 0" "free_set ?n T = {}" using r(4) sound by (auto simp: found_ok_def)
      then show ?thesis using f1(1) False r(1,2) acc2 Give_up by (auto simp: create_chain_def)
    next
      case (Found ncl)
      then have k: "unat ncl \<in> free_set ?n T" using r(4) by (simp add: found_ok_def)
      have "T (unat clst) \<noteq> 0" if "clst \<noteq> 0" using clst that n by auto
      then have "clst = 0 \<or> 2 \<le> unat clst \<and> unat clst < ?n \<and> T (unat clst) \<noteq> 0" using clst by blast
      from link_cluster_ok [OF r(2) acc2 k this] k show ?thesis
        using f1(1) False r(1) Found by (auto simp: create_chain_def)
    qed
  qed
qed

end

end
