(* ===== verification/Fat_Disk.thy ===== *)
theory Fat_Disk
  imports Disk Fat_Chain
begin

text \<open>
  FatFs on the disk driver: the calls \<open>disk_read\<close>, \<open>disk_write\<close> and \<open>disk_ioctl\<close> of \<open>src/diskio.c\<close> as the
  block device under the sector window, and the main properties of the file allocation table.
\<close>

section \<open>The driver as a block device\<close>

text \<open>The driver moves 16-bit words; in memory each is two bytes, the low one first.\<close>

fun bytes_of :: "u16 list \<Rightarrow> u8 list" where
  "bytes_of [] = []"
| "bytes_of (w # ws) = ucast w # ucast (drop_bit 8 w) # bytes_of ws"

fun words_of :: "u8 list \<Rightarrow> u16 list" where
  "words_of (a # b # bs) = (push_bit 8 (ucast b) OR ucast a) # words_of bs"
| "words_of _ = []"

lemma length_bytes_of [simp]: "length (bytes_of ws) = 2 * length ws"
  by (induction ws) auto

lemma bytes_of_words_of: "even (length bs) \<Longrightarrow> bytes_of (words_of bs) = bs"
proof (induction bs rule: words_of.induct)
  case (1 a b bs)
  have "ucast (push_bit 8 (ucast b) OR ucast a :: u16) = a" "ucast (drop_bit 8 (push_bit 8 (ucast b) OR ucast a :: u16)) = b"
    by (rule bit_word_eqI; auto simp: bit_simps dest: u8_bit_less)+
  then show ?case using 1 by simp
qed auto

lemma length_words_of: "length (words_of bs) = length bs div 2"
  by (induction bs rule: words_of.induct) auto

definition driver_io :: "'d ports \<Rightarrow> ('d \<Rightarrow> bool \<times> 'd) \<Rightarrow> (irq_state \<times> 'd) diskio" where
  "driver_io B tick = \<lparr>
     dio_read = (\<lambda>l (s, d). do {
       (res, ws, s, d) \<leftarrow> disk_read B tick 0 l 1 s d;
       Some (res = RES_OK, bytes_of ws, (s, d)) }),
     dio_write = (\<lambda>b l (s, d). do {
       (res, s, d) \<leftarrow> disk_write B tick 0 (words_of b) l 1 s d;
       Some (res = RES_OK, (s, d)) }),
     dio_sync = (\<lambda>d. Some (fst (disk_ioctl 0 0) = RES_OK, d))\<rparr>"

definition drive_ready :: "('d \<Rightarrow> ata_dev) \<Rightarrow> irq_state \<times> 'd \<Rightarrow> bool" where
  "drive_ready view sd \<longleftrightarrow> (\<forall>l. length (media (view (snd sd)) l) = 256)"

definition drive_sector :: "('d \<Rightarrow> ata_dev) \<Rightarrow> irq_state \<times> 'd \<Rightarrow> nat \<Rightarrow> u8 list" where
  "drive_sector view sd l = bytes_of (media (view (snd sd)) l)"

lemma driver_block_device:
  assumes c: "ata_conforms B tick view"
  shows "block_device (driver_io B tick) (drive_ready view) (drive_sector view)"
proof
  fix sd :: "irq_state \<times> 'a" and l :: u32
  assume r: "drive_ready view sd" and l: "unat l < 2 ^ 28"
  obtain s d where sd: "sd = (s, d)" by fastforce
  have len: "\<And>l. length (media (view d) l) = 256" using r by (simp add: drive_ready_def sd)
  obtain s' d' where rd: "read_sectors B tick l 1 s d = Some (concat (map (\<lambda>i. media (view d) ((unat l + i) mod 268435456)) [0..<1]), s', d')"
      "media (view d') = media (view d)"
    using read_sectors_view [OF c len] by blast
  then show "\<exists>d'. dio_read (driver_io B tick) l sd = Some (True, drive_sector view sd (unat l), d') \<and> drive_ready view d' \<and>
      drive_sector view d' = drive_sector view sd"
    using r l by (auto simp: driver_io_def sd disk_read_def drive_sector_def drive_ready_def)
next
  fix sd :: "irq_state \<times> 'a" and l :: u32 and b :: "u8 list"
  assume r: "drive_ready view sd" and l: "unat l < 2 ^ 28" and b: "length b = 512"
  obtain s d where sd: "sd = (s, d)" by fastforce
  have wb: "length (words_of b) = 256" using b by (simp add: length_words_of)
  obtain s' d' where wr: "write_sectors B tick l 1 (words_of b) s d = Some (s', d')"
      "\<forall>i < 1. media (view d') ((unat l + i) mod 268435456) = take 256 (drop (256 * i) (words_of b))"
      "\<forall>k. (\<forall>i < 1. k \<noteq> (unat l + i) mod 268435456) \<longrightarrow> media (view d') k = media (view d) k"
    using write_sectors_view [OF c, of 1 "words_of b" l s d] wb by auto
  have m: "media (view d') = (media (view d))(unat l := words_of b)"
    using wr(2,3) l wb by (intro ext) auto
  have "bytes_of (words_of b) = b" using b by (intro bytes_of_words_of) simp
  then have "drive_sector view (s', d') = (drive_sector view sd)(unat l := b)" by (intro ext) (simp add: drive_sector_def sd m)
  moreover have "disk_write B tick 0 (words_of b) l 1 s d = Some (RES_OK, s', d')" unfolding disk_write_def unat_1 wr(1) by simp
  ultimately show "\<exists>d'. dio_write (driver_io B tick) b l sd = Some (True, d') \<and> drive_ready view d' \<and>
      drive_sector view d' = (drive_sector view sd)(unat l := b)"
    using r wb by (auto simp: driver_io_def sd drive_ready_def m)
qed (auto simp: driver_io_def disk_ioctl_def drive_ready_def drive_sector_def)

interpretation ata: block_device "driver_io ref_ports ata_tick" "drive_ready id" "drive_sector id"
  by (rule driver_block_device) (use ref_ports_conforms in \<open>simp add: id_def\<close>)

section \<open>Main properties\<close>

text \<open>A FAT16 volume of one FAT sector on an empty drive, with one allocated cluster: the state the
  witnesses start from.\<close>

definition small_media :: "nat \<Rightarrow> u16 list" where
  "small_media l = (replicate 256 0)[2 := 0xFFFF]"

definition small_drive :: "irq_state \<times> ata_dev" where
  "small_drive = (irq_init boot_screen_gfx, blank_drive\<lparr>media := small_media\<rparr>)"

definition small_volume :: "(irq_state \<times> ata_dev) FATFS" where
  "small_volume = \<lparr>fs_type = FS_FAT16, n_fats = 2, wflag = 0, fsi_flag = 0x80, fs_id = 1, n_rootdir = 16, csize = 1,
     last_clst = 0xFFFFFFFF, free_clst = 0xFFFFFFFF, n_fatent = 200, fs_fsize = 1, volbase = 0, fatbase = 1, dirbase = 3,
     database = 4, winsect = 1, win = bytes_of (small_media 1), dev = small_drive\<rparr>"

lemma small_volume_ok: "fat_ok (drive_ready id) (drive_sector id) small_volume"
  by (simp add: fat_ok_def window_ok_def fat_geometry_def small_volume_def small_drive_def small_media_def mirror_def in_fat_def
      drive_ready_def drive_sector_def FS_FAT16_def)

lemma nth_bytes_of:
  "i < length ws \<Longrightarrow> bytes_of ws ! (2 * i) = ucast (ws ! i) \<and> bytes_of ws ! (2 * i + 1) = ucast (drop_bit 8 (ws ! i))"
  by (induction ws arbitrary: i) (auto simp: nth_Cons split: nat.splits)

lemma small_volume_entry:
  assumes "c < 200"
  shows "fat_entry (drive_sector id) small_volume c = (if c = 2 then 0xFFFF else 0)"
proof -
  have "fat_byte (drive_sector id) small_volume i = bytes_of (small_media 1) ! i" if "i < 512" for i
    using that by (simp add: fat_byte_def volume_def small_volume_def)
  then have "fat_entry (drive_sector id) small_volume c = entry16 (\<lambda>i. bytes_of (small_media 1) ! i) c"
    using assms by (simp add: fat_entry_def entry16_def small_volume_def FS_FAT12_def FS_FAT16_def)
  also have "\<dots> = (if c = 2 then 0xFFFF else 0)"
    using nth_bytes_of [of c "small_media 1"] assms by (auto simp: entry16_def small_media_def nth_list_update)
  finally show ?thesis .
qed

text \<open>On a healthy block device, changing an entry of the FAT and reading any entry back gives the new
  value for that entry, cut to the bits the FAT type has, and the old value for every other entry; both
  calls succeed for FAT12, FAT16 and FAT32 alike, also where a FAT12 entry shares a byte with its neighbour
  or straddles two sectors, and no sector outside the two copies of the FAT changes.\<close>

theorem put_fat_get_fat:
  assumes dev: "block_device M ready sector" and ok: "fat_ok ready sector fs"
    and c: "2 \<le> unat clst" "unat clst < unat (n_fatent fs)" and c': "2 \<le> unat clst'" "unat clst' < unat (n_fatent fs)"
  shows "\<exists>old f0 f1 f2. get_fat M clst' fs = Some (old, f0) \<and> put_fat M clst v fs = Some (FR_OK, f1) \<and>
    get_fat M clst' f1 = Some (if clst' = clst then v AND fat_mask fs else old, f2) \<and>
    (\<forall>l. l \<notin> in_fat fs \<union> mirror fs \<longrightarrow> volume sector f2 l = volume sector fs l)"
proof -
  note t = tab_refl [OF ok]
  obtain f0 where f0: "get_fat M clst' fs = Some (fat_entry sector fs (unat clst'), f0)"
    using block_device.tab_get [OF dev t c'] by blast
  obtain f1 where f1: "put_fat M clst v fs = Some (FR_OK, f1)"
      "tab ready sector fs ((fat_entry sector fs)(unat clst := v AND fat_mask fs)) f1"
    using block_device.tab_put [OF dev t c] by blast
  obtain f2 where f2: "get_fat M clst' f1 = Some (((fat_entry sector fs)(unat clst := v AND fat_mask fs)) (unat clst'), f2)"
      "tab ready sector fs ((fat_entry sector fs)(unat clst := v AND fat_mask fs)) f2"
    using block_device.tab_get [OF dev f1(2) c'] by blast
  have "unat clst' = unat clst \<longleftrightarrow> clst' = clst" by (simp add: word_unat_eq_iff)
  then show ?thesis using f0 f1(1) f2 by (auto simp: tab_def)
qed

theorem put_fat_get_fat_witness:
  "\<exists>f1 f2. put_fat (driver_io ref_ports ata_tick) 7 0x12345 small_volume = Some (FR_OK, f1) \<and>
     get_fat (driver_io ref_ports ata_tick) 7 f1 = Some (0x2345, f2)"
  using put_fat_get_fat [OF ata.block_device_axioms small_volume_ok, of 7 7 "0x12345"]
  by (auto simp: small_volume_def fat_mask_def FS_FAT12_def FS_FAT16_def)

text \<open>Flushing the window succeeds and makes the two copies of the FAT on the device agree, with the
  changes of the window in both; what FatFs sees of the volume stays the same.\<close>

theorem sync_window_mirrors:
  assumes dev: "block_device M ready sector" and ok: "fat_ok ready sector fs" and two: "n_fats fs = 2"
  shows "\<exists>fs'. sync_window M fs = Some (FR_OK, fs') \<and> wflag fs' = 0 \<and>
    (\<forall>l. l \<in> in_fat fs \<longrightarrow> sector (dev fs') l = volume sector fs l \<and> sector (dev fs') (l + unat (fs_fsize fs)) = volume sector fs l) \<and>
    (\<forall>l. l \<notin> mirror fs \<longrightarrow> volume sector fs' l = volume sector fs l)"
proof -
  have w: "window_ok ready sector fs" using ok by (simp add: fat_ok_def)
  obtain fs' where f: "sync_window M fs = Some (FR_OK, fs')" "window_ok ready sector fs'" "same_volume fs fs'" "wflag fs' = 0"
      "\<forall>l. l \<notin> mirror fs \<longrightarrow> volume sector fs' l = volume sector fs l"
    using block_device.sync_window_ok [OF dev w] by blast
  note same = same_volume_simps [OF f(3)]
  have "volume sector fs' = sector (dev fs')"
    using f(2,4) by (auto simp: volume_def window_ok_def)
  moreover have "l \<notin> mirror fs" if "l \<in> in_fat fs" for l using that by (auto simp: in_fat_def mirror_def)
  moreover have "sector (dev fs') (l + unat (fs_fsize fs)) = sector (dev fs') l" if "l \<in> in_fat fs" for l
    using f(2,4) that two by (auto simp: window_ok_def same)
  ultimately have "sector (dev fs') l = volume sector fs l \<and> sector (dev fs') (l + unat (fs_fsize fs)) = volume sector fs l"
    if "l \<in> in_fat fs" for l using f(5) that by metis
  then show ?thesis using f(1,4,5) by blast
qed

theorem sync_window_mirrors_witness:
  "\<exists>fs'. sync_window (driver_io ref_ports ata_tick) small_volume = Some (FR_OK, fs') \<and>
     drive_sector id (dev fs') 2 = drive_sector id (dev fs') 1"
proof -
  have "1 \<in> in_fat small_volume" "n_fats small_volume = 2" "fs_fsize small_volume = 1" by (simp_all add: in_fat_def small_volume_def)
  then show ?thesis using sync_window_mirrors [OF ata.block_device_axioms small_volume_ok] by (auto simp: numeral_2_eq_2)
qed

lemma fat_chain_last: "fat_chain n T (ys @ [c]) \<Longrightarrow> n \<le> unat (T c)"
proof (induction ys)
  case (Cons y ys)
  then show ?case by (cases "ys @ [c]") auto
qed simp

lemma fat_chain_used: "fat_chain n T xs \<Longrightarrow> n \<le> 2 ^ 32 \<Longrightarrow> c \<in> set xs \<Longrightarrow> 2 \<le> c \<and> c < n \<and> T c \<noteq> 0"
proof (induction n T xs rule: fat_chain.induct)
  case (3 n T c' d xs)
  have "2 \<le> d" "d < n" using fat_chain_hd [of n T d xs] 3 by auto
  then have "unat (of_nat d :: u32) = d" using 3 by (intro unat_of_nat_u32) simp
  then have "(of_nat d :: u32) \<noteq> 0" using \<open>2 \<le> d\<close> by auto
  then show ?case using 3 by auto
qed auto

lemma fat_chain_link:
  assumes "fat_chain n T (xs @ [c])" "distinct (xs @ [c])" "k \<notin> set (xs @ [c])" "2 \<le> k" "k < n" "n \<le> unat (T' k)"
    and T': "T' c = of_nat k" "\<And>x. x \<noteq> c \<Longrightarrow> x \<noteq> k \<Longrightarrow> T' x = T x"
  shows "fat_chain n T' (xs @ [c, k])"
  using assms(1-3)
proof (induction xs)
  case Nil
  then show ?case using assms(4-7) by simp
next
  case (Cons x xs)
  then obtain y ys where y: "xs @ [c] = y # ys" by (cases "xs @ [c]") auto
  then have e: "xs @ [c, k] = y # ys @ [k]" by (metis append.assoc append_Cons append_Nil)
  have x: "x \<noteq> c" "x \<noteq> k" using Cons.prems(2,3) by simp_all
  have t: "2 \<le> x" "x < n" "T x = of_nat y" "fat_chain n T (xs @ [c])" using Cons.prems(1) y by simp_all
  have "fat_chain n T' (xs @ [c, k])" using Cons.IH [OF t(4)] Cons.prems(2,3) by simp
  then show ?case unfolding append_Cons e using x t T'(2) by simp
qed

text \<open>C30. On a healthy block device, where no entry holds the reserved value 1 and the count of free clusters is
  right or unknown, stretching a chain, or starting a new one, allocates a cluster exactly when one is free: the new
  cluster was free, the chain is extended by it and ends there, every other entry keeps its value, and
  the count of free clusters stays right.  When no cluster is free the result is 0 and the table is
  unchanged.  The search always ends, wherever the hint points.\<close>

theorem create_chain_extends:
  assumes dev: "block_device M ready sector" and ok: "fat_ok ready sector fs" and n: "2 < unat (n_fatent fs)"
    and acc: "accurate (fat_entry sector fs) fs"
    and sound: "\<forall>c. 2 \<le> c \<and> c < unat (n_fatent fs) \<longrightarrow> fat_entry sector fs c \<noteq> 1"
    and chain: "clst = 0 \<and> xs = [] \<or>
      (\<exists>ys. xs = ys @ [unat clst]) \<and> fat_chain (unat (n_fatent fs)) (fat_entry sector fs) xs \<and> distinct xs"
  shows "\<exists>ncl fs'. create_chain M clst fs = Some (ncl, fs') \<and> fat_ok ready sector fs' \<and> accurate (fat_entry sector fs') fs' \<and>
    (if free_set (unat (n_fatent fs)) (fat_entry sector fs) = {}
     then ncl = 0 \<and> (\<forall>c. 2 \<le> c \<and> c < unat (n_fatent fs) \<longrightarrow> fat_entry sector fs' c = fat_entry sector fs c)
     else unat ncl \<in> free_set (unat (n_fatent fs)) (fat_entry sector fs) \<and>
       fat_chain (unat (n_fatent fs)) (fat_entry sector fs') (xs @ [unat ncl]) \<and> distinct (xs @ [unat ncl]) \<and>
       (\<forall>c. 2 \<le> c \<and> c < unat (n_fatent fs) \<and> c \<noteq> unat clst \<and> c \<noteq> unat ncl \<longrightarrow> fat_entry sector fs' c = fat_entry sector fs c))"
proof -
  let ?n = "unat (n_fatent fs)" and ?T = "fat_entry sector fs" and ?m = "fat_mask fs"
  have lim: "?n \<le> 2 ^ 32" using unat_lt_u32 [of "n_fatent fs"] by simp
  have used: "2 \<le> c \<and> c < ?n \<and> ?T c \<noteq> 0" if "c \<in> set xs" for c using chain fat_chain_used [OF _ lim] that by auto
  have last: "unat clst \<in> set xs \<and> ?n \<le> unat (?T (unat clst))" if "clst \<noteq> 0"
    using chain that fat_chain_last by auto
  obtain ncl fs' T' where r: "create_chain M clst fs = Some (ncl, fs')" "tab ready sector fs T' fs'" "accurate T' fs'"
      "if free_set ?n ?T = {} then ncl = 0 \<and> T' = ?T else unat ncl \<in> free_set ?n ?T \<and> T' = linked ?m clst ncl ?T"
    using block_device.create_chain_ok [OF dev tab_refl [OF ok] acc n sound, of clst] last used by blast
  have e: "\<forall>c. 2 \<le> c \<and> c < ?n \<longrightarrow> fat_entry sector fs' c = T' c" "fat_ok ready sector fs'" "n_fatent fs' = n_fatent fs"
    using r(2) block_device.tab_fatent [OF dev r(2)] by (simp_all add: tab_def)
  have "free_set ?n (fat_entry sector fs') = free_set ?n T'" using e(1) by (auto simp: free_set_def)
  then have acc': "accurate (fat_entry sector fs') fs'" using r(3) e(3) by (simp add: accurate_def)
  show ?thesis
  proof (cases "free_set ?n ?T = {}")
    case True
    then show ?thesis using r(1,4) e acc' by auto
  next
    case False
    then have k: "unat ncl \<in> free_set ?n ?T" "T' = linked ?m clst ncl ?T" using r(4) by auto
    then have new: "unat ncl \<notin> set xs" "2 \<le> unat ncl" "unat ncl < ?n" using used by (auto simp: free_set_def)
    have m: "?n \<le> unat ?m" using block_device.mask_fits(1) [OF dev ok] .
    have "fat_chain ?n T' (xs @ [unat ncl])"
    proof (cases "clst = 0")
      case True
      then have "xs = []" using chain used [of 0] by auto
      then show ?thesis using True new m by (simp add: k(2) linked_def)
    next
      case False
      then obtain ys where ys: "xs = ys @ [unat clst]" "fat_chain ?n ?T xs" "distinct xs" using chain by auto
      have T': "T' (unat ncl) = ?m" "T' (unat clst) = of_nat (unat ncl)" "\<And>c. c \<noteq> unat clst \<Longrightarrow> c \<noteq> unat ncl \<Longrightarrow> T' c = ?T c"
        using False new(1) ys(1) by (auto simp: k(2) linked_def)
      show ?thesis using fat_chain_link [of ?n ?T ys "unat clst" "unat ncl" T'] ys new m T' by simp
    qed
    moreover have "T' c = ?T c" if "c \<noteq> unat clst" "c \<noteq> unat ncl" for c using that by (simp add: k(2) linked_def)
    ultimately show ?thesis using r(1) e acc' False k(1) new used chain fat_chain_cong [of ?n T' "xs @ [unat ncl]" "fat_entry sector fs'"]
      by auto
  qed
qed

lemma small_volume_facts:
  "n_fatent small_volume = 200" "accurate (fat_entry (drive_sector id) small_volume) small_volume"
  "\<forall>c. 2 \<le> c \<and> c < 200 \<longrightarrow> fat_entry (drive_sector id) small_volume c \<noteq> 1"
  "fat_chain 200 (fat_entry (drive_sector id) small_volume) [2]"
  using small_volume_entry by (auto simp: small_volume_def accurate_def)

theorem create_chain_extends_witness:
  "\<exists>ncl fs'. create_chain (driver_io ref_ports ata_tick) 2 small_volume = Some (ncl, fs') \<and>
     fat_chain 200 (fat_entry (drive_sector id) fs') [2, unat ncl]"
proof -
  have "free_set 200 (fat_entry (drive_sector id) small_volume) \<noteq> {}"
    using small_volume_entry [of 3] by (auto simp: free_set_def intro!: exI [of _ 3])
  then show ?thesis
    using create_chain_extends [OF ata.block_device_axioms small_volume_ok, of 2 "[2]"] small_volume_facts by auto
qed

text \<open>C31. On a healthy block device, removing the chain that starts at a cluster frees exactly its clusters: their entries become 0,
  the cluster before it, when one is given, becomes the end of its chain, every other entry keeps its
  value, and the count of free clusters stays right.\<close>

theorem remove_chain_frees:
  assumes dev: "block_device M ready sector" and ok: "fat_ok ready sector fs" and acc: "accurate (fat_entry sector fs) fs"
    and chain: "fat_chain (unat (n_fatent fs)) (fat_entry sector fs) (unat clst # xs)" "distinct (unat clst # xs)"
    and pclst: "pclst = 0 \<or> 2 \<le> unat pclst \<and> unat pclst < unat (n_fatent fs) \<and> unat pclst \<notin> set (unat clst # xs) \<and>
      fat_entry sector fs (unat pclst) \<noteq> 0"
  shows "\<exists>fs'. remove_chain M clst pclst fs = Some (FR_OK, fs') \<and> fat_ok ready sector fs' \<and> accurate (fat_entry sector fs') fs' \<and>
    (\<forall>c. 2 \<le> c \<and> c < unat (n_fatent fs) \<longrightarrow> fat_entry sector fs' c =
      (if c \<in> set (unat clst # xs) then 0 else if c = unat pclst then fat_mask fs else fat_entry sector fs c))"
proof -
  let ?n = "unat (n_fatent fs)" and ?T = "fat_entry sector fs" and ?m = "fat_mask fs"
  define T where "T = (if pclst = 0 then ?T else ?T(unat pclst := ?m))"
  have hd: "2 \<le> unat clst" "unat clst < ?n" using fat_chain_hd [OF chain(1)] by simp_all
  have m: "?n \<le> unat ?m" using block_device.mask_fits(1) [OF dev ok] .
  have "(0xFFFFFFFF :: u32) = - 1" by simp
  then have all: "0xFFFFFFFF AND ?m = ?m" by (simp only: and.left_neutral)
  obtain f1 where f1: "(if pclst \<noteq> 0 then put_fat M pclst 0xFFFFFFFF fs else Some (FR_OK, fs)) = Some (FR_OK, f1)"
      "tab ready sector fs T f1" "info f1 = info fs"
  proof (cases "pclst = 0")
    case True
    then show ?thesis using that [of fs] tab_refl [OF ok] by (simp add: T_def)
  next
    case False
    then show ?thesis
      using that block_device.tab_put [OF dev tab_refl [OF ok], of pclst "0xFFFFFFFF"] pclst all by (auto simp: T_def)
  qed
  have nz: "?m \<noteq> 0" using m hd by auto
  have "free_set ?n T = free_set ?n ?T" using pclst nz by (auto simp: T_def free_set_def)
  then have "accurate T fs" using acc by (simp add: accurate_def)
  then have acc1: "accurate T f1" by (rule block_device.accurate_info [OF dev tab_refl [OF ok] f1(2,3)])
  have "fat_chain ?n T (unat clst # xs)" by (rule fat_chain_cong [OF chain(1)]) (use pclst in \<open>auto simp: T_def\<close>)
  from block_device.remove_loop_chain [OF dev this chain(2) f1(2) acc1]
  obtain fs' where r: "remove_loop M clst f1 = Some (FR_OK, fs')"
      "tab ready sector fs (\<lambda>c. if c \<in> set (unat clst # xs) then 0 else T c) fs'"
      "accurate (\<lambda>c. if c \<in> set (unat clst # xs) then 0 else T c) fs'" by blast
  have e: "\<forall>c. 2 \<le> c \<and> c < ?n \<longrightarrow> fat_entry sector fs' c = (if c \<in> set (unat clst # xs) then 0 else T c)"
      "fat_ok ready sector fs'" "n_fatent fs' = n_fatent fs"
    using r(2) block_device.tab_fatent [OF dev r(2)] by (simp_all add: tab_def)
  have "free_set ?n (fat_entry sector fs') = free_set ?n (\<lambda>c. if c \<in> set (unat clst # xs) then 0 else T c)"
    using e(1) by (auto simp: free_set_def)
  then have acc': "accurate (fat_entry sector fs') fs'" using r(3) e(3) by (simp add: accurate_def)
  have "\<not> (clst < 2 \<or> clst \<ge> n_fatent fs)" using hd by (simp add: word_less_nat_alt word_le_nat_alt)
  then have "remove_chain M clst pclst fs = Some (FR_OK, fs')" using f1(1) r(1) by (simp add: remove_chain_def)
  moreover have "T c = (if c = unat pclst then ?m else ?T c)" if "2 \<le> c" for c using that by (auto simp: T_def)
  ultimately show ?thesis using e acc' by auto
qed

theorem remove_chain_frees_witness:
  "\<exists>fs'. remove_chain (driver_io ref_ports ata_tick) 2 0 small_volume = Some (FR_OK, fs') \<and> fat_entry (drive_sector id) fs' 2 = 0"
  using remove_chain_frees [OF ata.block_device_axioms small_volume_ok, of 2 "[]" 0] small_volume_facts by auto

text \<open>C32. On a healthy block device, removing a whole chain (no previous cluster given) returns on every table
  whose count of free clusters is right or unknown, also when the links form a cycle or run into free or
  damaged entries; whatever the result, each entry is either freed or keeps its value.\<close>

theorem remove_chain_returns:
  assumes dev: "block_device M ready sector" and ok: "fat_ok ready sector fs" and acc: "accurate (fat_entry sector fs) fs"
  shows "\<exists>res fs'. remove_chain M clst 0 fs = Some (res, fs') \<and> fat_ok ready sector fs' \<and> accurate (fat_entry sector fs') fs' \<and>
    (\<forall>c. 2 \<le> c \<and> c < unat (n_fatent fs) \<longrightarrow> fat_entry sector fs' c = fat_entry sector fs c \<or> fat_entry sector fs' c = 0)"
proof (cases "clst < 2 \<or> clst \<ge> n_fatent fs")
  case True
  then show ?thesis using ok acc by (auto simp: remove_chain_def)
next
  case False
  then have c: "2 \<le> unat clst" "unat clst < unat (n_fatent fs)" by (auto simp: word_less_nat_alt word_le_nat_alt)
  obtain res fs' T' where r: "remove_loop M clst fs = Some (res, fs')" "tab ready sector fs T' fs'" "accurate T' fs'"
      "\<forall>c. T' c = fat_entry sector fs c \<or> T' c = 0"
    using block_device.remove_loop_total [OF dev tab_refl [OF ok] acc c] by blast
  have e: "\<forall>c. 2 \<le> c \<and> c < unat (n_fatent fs) \<longrightarrow> fat_entry sector fs' c = T' c" "fat_ok ready sector fs'" "n_fatent fs' = n_fatent fs"
    using r(2) block_device.tab_fatent [OF dev r(2)] by (simp_all add: tab_def)
  have "free_set (unat (n_fatent fs)) (fat_entry sector fs') = free_set (unat (n_fatent fs)) T'" using e(1) by (auto simp: free_set_def)
  then have "accurate (fat_entry sector fs') fs'" using r(3) e(3) by (simp add: accurate_def)
  moreover have "remove_chain M clst 0 fs = Some (res, fs')" using False r(1) by (simp add: remove_chain_def)
  ultimately show ?thesis using r(4) e by metis
qed

theorem remove_chain_returns_witness:
  "\<exists>res fs'. remove_chain (driver_io ref_ports ata_tick) 9 0 small_volume = Some (res, fs')"
  using remove_chain_returns [OF ata.block_device_axioms small_volume_ok small_volume_facts(2), of 9] by blast

end
