(* ===== verification/Fat_File.thy ===== *)
theory Fat_File
  imports Fat_Disk
begin

text \<open>
  Open files of FatFs (\<open>src/ff.c\<close>): the file object, \<open>f_read\<close> and \<open>f_write\<close> over the cluster chains of
  \<open>Fat_Chain\<close>, the contract of a device that moves several sectors at a time, and the bytes of a file as
  its chain and its buffer hold them.  The file object has its own sector buffer (\<open>FF_FS_TINY = 0\<close>), and
  there is no fast seek (\<open>FF_USE_FASTSEEK = 0\<close>).
\<close>

section \<open>The file object\<close>

definition FR_DENIED :: fresult where "FR_DENIED = 7"
definition FR_INVALID_OBJECT :: fresult where "FR_INVALID_OBJECT = 9"
definition FA_MODIFIED :: u8 where "FA_MODIFIED = 0x40"
definition FA_DIRTY :: u8 where "FA_DIRTY = 0x80"

text \<open>\<open>obj_fs\<close> tells whether \<open>obj.fs\<close> points to the volume; \<open>dir_ptr\<close> is an offset into the window.\<close>

record FIL =
  obj_fs :: bool
  obj_id :: u16
  sclust :: u32
  objsize :: u32
  f_flag :: u8
  f_err :: u8
  fptr :: u32
  f_clust :: u32
  f_sect :: u32
  dir_sect :: u32
  dir_ptr :: nat
  f_buf :: "u8 list"

text \<open>The driver calls with their sector count; the window uses them one sector at a time.\<close>

record 'd multiio =
  dio_reads :: "u32 \<Rightarrow> u32 \<Rightarrow> 'd \<Rightarrow> (bool \<times> u8 list \<times> 'd) option"
  dio_writes :: "u8 list \<Rightarrow> u32 \<Rightarrow> u32 \<Rightarrow> 'd \<Rightarrow> (bool \<times> 'd) option"
  dio_flush :: "'d \<Rightarrow> (bool \<times> 'd) option"

definition single_io :: "'d multiio \<Rightarrow> 'd diskio" where
  "single_io M = \<lparr>dio_read = (\<lambda>l. dio_reads M l 1), dio_write = (\<lambda>b l. dio_writes M b l 1), dio_sync = dio_flush M\<rparr>"

definition validate :: "FIL \<Rightarrow> 'd FATFS \<Rightarrow> fresult" where
  "validate fp fs =
     (if obj_fs fp \<and> fs_type fs \<noteq> 0 \<and> obj_id fp = fs_id fs \<and> disk_status 0 AND STA_NOINIT = 0
      then FR_OK else FR_INVALID_OBJECT)"

definition dirty :: "FIL \<Rightarrow> bool" where
  "dirty fp \<longleftrightarrow> f_flag fp AND FA_DIRTY \<noteq> 0"

text \<open>What one turn of a transfer loop did: bytes moved, no cluster left, or \<open>ABORT\<close>.\<close>

datatype turn = Moved u32 | Full | Abort fresult

text \<open>Copying into a buffer and out of it; \<^const>\<open>None\<close> is an access out of bounds.\<close>

definition copy_into :: "nat \<Rightarrow> 'a list \<Rightarrow> 'a list \<Rightarrow> 'a list option" where
  "copy_into n src dst = (if n + length src \<le> length dst then Some (take n dst @ src @ drop (n + length src) dst) else None)"

definition copy_from :: "'a list \<Rightarrow> nat \<Rightarrow> nat \<Rightarrow> 'a list option" where
  "copy_from src n k = (if n + k \<le> length src then Some (take k (drop n src)) else None)"

text \<open>Writing the buffer back when it is dirty, and filling it.\<close>

definition write_back :: "'d multiio \<Rightarrow> FIL \<Rightarrow> 'd FATFS \<Rightarrow> (bool \<times> FIL \<times> 'd FATFS) option" where
  "write_back M fp fs =
     (if dirty fp then do {
        (ok, d) \<leftarrow> dio_writes M (f_buf fp) (f_sect fp) 1 (dev fs);
        let fs = fs\<lparr>dev := d\<rparr>;
        Some (ok, if ok then fp\<lparr>f_flag := f_flag fp AND NOT FA_DIRTY\<rparr> else fp, fs)
      } else Some (True, fp, fs))"

definition fill_buf :: "'d multiio \<Rightarrow> u32 \<Rightarrow> FIL \<Rightarrow> 'd FATFS \<Rightarrow> (bool \<times> FIL \<times> 'd FATFS) option" where
  "fill_buf M sect fp fs = do {
     (ok, b, d) \<leftarrow> dio_reads M sect 1 (dev fs);
     Some (ok, fp\<lparr>f_buf := b\<rparr>, fs\<lparr>dev := d\<rparr>)
   }"

definition sector_in_cluster :: "FIL \<Rightarrow> 'd FATFS \<Rightarrow> u32" where
  "sector_in_cluster fp fs = fptr fp div 512 AND (ucast (csize fs) - 1)"

definition clip_count :: "u32 \<Rightarrow> u32 \<Rightarrow> 'd FATFS \<Rightarrow> u32" where
  "clip_count csect cc fs = (if csect + cc > ucast (csize fs) then ucast (csize fs) - csect else cc)"

section \<open>Reading\<close>

text \<open>The cluster of the read pointer when it stands on a cluster boundary.\<close>

definition read_cluster :: "'d multiio \<Rightarrow> FIL \<Rightarrow> 'd FATFS \<Rightarrow> (turn option \<times> FIL \<times> 'd FATFS) option" where
  "read_cluster M fp fs = do {
     (clst, fs) \<leftarrow> (if fptr fp = 0 then Some (sclust fp, fs) else get_fat (single_io M) (f_clust fp) fs);
     Some (if clst < 2 then (Some (Abort FR_INT_ERR), fp, fs)
           else if clst = 0xFFFFFFFF then (Some (Abort FR_DISK_ERR), fp, fs)
           else (None, fp\<lparr>f_clust := clst\<rparr>, fs))
   }"

text \<open>The bytes of the buffer from the read pointer on.\<close>

definition read_buf :: "u32 \<Rightarrow> FIL \<Rightarrow> 'd FATFS \<Rightarrow> (turn \<times> u8 list \<times> FIL \<times> 'd FATFS) option" where
  "read_buf btr fp fs = do {
     let rcnt = 512 - fptr fp mod 512;
     let rcnt = (if rcnt > btr then btr else rcnt);
     bs \<leftarrow> copy_from (f_buf fp) (unat (fptr fp mod 512)) (unat rcnt);
     Some (Moved rcnt, bs, fp, fs)
   }"

text \<open>Whole sectors, read past the buffer; a dirty buffer replaces its sector.\<close>

definition read_direct :: "'d multiio \<Rightarrow> u32 \<Rightarrow> u32 \<Rightarrow> FIL \<Rightarrow> 'd FATFS \<Rightarrow> (turn \<times> u8 list \<times> FIL \<times> 'd FATFS) option" where
  "read_direct M sect cc fp fs = do {
     (ok, bs, d) \<leftarrow> dio_reads M sect cc (dev fs);
     let fs = fs\<lparr>dev := d\<rparr>;
     if \<not> ok then Some (Abort FR_DISK_ERR, [], fp, fs)
     else do {
       bs \<leftarrow> (if dirty fp \<and> f_sect fp - sect < cc then copy_into (unat (f_sect fp - sect) * 512) (f_buf fp) bs else Some bs);
       Some (Moved (512 * cc), bs, fp, fs)
     }
   }"

definition read_sect :: "'d multiio \<Rightarrow> u32 \<Rightarrow> u32 \<Rightarrow> FIL \<Rightarrow> 'd FATFS \<Rightarrow> (turn \<times> u8 list \<times> FIL \<times> 'd FATFS) option" where
  "read_sect M btr csect fp fs = do {
     let sect = clst2sect (f_clust fp) fs;
     if sect = 0 then Some (Abort FR_INT_ERR, [], fp, fs)
     else do {
       let sect = sect + csect;
       let cc = btr div 512;
       if cc > 0 then read_direct M sect (clip_count csect cc fs) fp fs
       else do {
         (ok, fp, fs) \<leftarrow> (if f_sect fp \<noteq> sect then do {
                              (ok, fp, fs) \<leftarrow> write_back M fp fs;
                              if ok then fill_buf M sect fp fs else Some (False, fp, fs)
                            } else Some (True, fp, fs));
         if ok then read_buf btr (fp\<lparr>f_sect := sect\<rparr>) fs else Some (Abort FR_DISK_ERR, [], fp, fs)
       }
     }
   }"

definition read_turn :: "'d multiio \<Rightarrow> u32 \<Rightarrow> FIL \<Rightarrow> 'd FATFS \<Rightarrow> (turn \<times> u8 list \<times> FIL \<times> 'd FATFS) option" where
  "read_turn M btr fp fs =
     (if fptr fp mod 512 = 0 then do {
        let csect = sector_in_cluster fp fs;
        (stop, fp, fs) \<leftarrow> (if csect = 0 then read_cluster M fp fs else Some (None, fp, fs));
        case stop of Some t \<Rightarrow> Some (t, [], fp, fs) | None \<Rightarrow> read_sect M btr csect fp fs
      } else read_buf btr fp fs)"

text \<open>The result, the bytes counted by \<open>*br\<close>, the file object and the volume.\<close>

partial_function (option) read_loop ::
  "'d multiio \<Rightarrow> u32 \<Rightarrow> u8 list \<Rightarrow> FIL \<Rightarrow> 'd FATFS \<Rightarrow> (fresult \<times> u8 list \<times> FIL \<times> 'd FATFS) option" where
  "read_loop M btr out fp fs =
     (if btr > 0 then do {
        (t, bs, fp, fs) \<leftarrow> read_turn M btr fp fs;
        case t of
          Moved rcnt \<Rightarrow> read_loop M (btr - rcnt) (out @ bs) (fp\<lparr>fptr := fptr fp + rcnt\<rparr>) fs
        | Full \<Rightarrow> Some (FR_OK, out, fp, fs)
        | Abort res \<Rightarrow> Some (res, out, fp\<lparr>f_err := of_nat res\<rparr>, fs)
      } else Some (FR_OK, out, fp, fs))"

definition f_read :: "'d multiio \<Rightarrow> u32 \<Rightarrow> FIL \<Rightarrow> 'd FATFS \<Rightarrow> (fresult \<times> u8 list \<times> FIL \<times> 'd FATFS) option" where
  "f_read M btr fp fs =
     (let res = validate fp fs
      in if res \<noteq> FR_OK then Some (res, [], fp, fs)
         else if unat (f_err fp) \<noteq> FR_OK then Some (unat (f_err fp), [], fp, fs)
         else if f_flag fp AND FA_READ = 0 then Some (FR_DENIED, [], fp, fs)
         else let remain = objsize fp - fptr fp
              in read_loop M (if btr > remain then remain else btr) [] fp fs)"

section \<open>Writing\<close>

definition write_cluster :: "'d multiio \<Rightarrow> FIL \<Rightarrow> 'd FATFS \<Rightarrow> (turn option \<times> FIL \<times> 'd FATFS) option" where
  "write_cluster M fp fs = do {
     (clst, fs) \<leftarrow> (if fptr fp = 0
                     then (if sclust fp = 0 then create_chain (single_io M) 0 fs else Some (sclust fp, fs))
                     else create_chain (single_io M) (f_clust fp) fs);
     Some (if clst = 0 then (Some Full, fp, fs)
           else if clst = 1 then (Some (Abort FR_INT_ERR), fp, fs)
           else if clst = 0xFFFFFFFF then (Some (Abort FR_DISK_ERR), fp, fs)
           else let fp = fp\<lparr>f_clust := clst\<rparr>
                in (None, if sclust fp = 0 then fp\<lparr>sclust := clst\<rparr> else fp, fs))
   }"

definition write_buf :: "u32 \<Rightarrow> u8 list \<Rightarrow> FIL \<Rightarrow> 'd FATFS \<Rightarrow> (turn \<times> FIL \<times> 'd FATFS) option" where
  "write_buf btw wbuff fp fs = do {
     let wcnt = 512 - fptr fp mod 512;
     let wcnt = (if wcnt > btw then btw else wcnt);
     bs \<leftarrow> copy_from wbuff 0 (unat wcnt);
     b \<leftarrow> copy_into (unat (fptr fp mod 512)) bs (f_buf fp);
     Some (Moved wcnt, fp\<lparr>f_buf := b, f_flag := f_flag fp OR FA_DIRTY\<rparr>, fs)
   }"

definition write_direct :: "'d multiio \<Rightarrow> u32 \<Rightarrow> u32 \<Rightarrow> u8 list \<Rightarrow> FIL \<Rightarrow> 'd FATFS \<Rightarrow> (turn \<times> FIL \<times> 'd FATFS) option" where
  "write_direct M sect cc wbuff fp fs = do {
     bs \<leftarrow> copy_from wbuff 0 (512 * unat cc);
     (ok, d) \<leftarrow> dio_writes M bs sect cc (dev fs);
     let fs = fs\<lparr>dev := d\<rparr>;
     if \<not> ok then Some (Abort FR_DISK_ERR, fp, fs)
     else do {
       fp \<leftarrow> (if f_sect fp - sect < cc then do {
                 b \<leftarrow> copy_from wbuff (unat (f_sect fp - sect) * 512) 512;
                 Some (fp\<lparr>f_buf := b, f_flag := f_flag fp AND NOT FA_DIRTY\<rparr>)
               } else Some fp);
       Some (Moved (512 * cc), fp, fs)
     }
   }"

definition write_sect :: "'d multiio \<Rightarrow> u32 \<Rightarrow> u8 list \<Rightarrow> u32 \<Rightarrow> FIL \<Rightarrow> 'd FATFS \<Rightarrow> (turn \<times> FIL \<times> 'd FATFS) option" where
  "write_sect M btw wbuff csect fp fs = do {
     (ok, fp, fs) \<leftarrow> write_back M fp fs;
     if \<not> ok then Some (Abort FR_DISK_ERR, fp, fs)
     else do {
       let sect = clst2sect (f_clust fp) fs;
       if sect = 0 then Some (Abort FR_INT_ERR, fp, fs)
       else do {
         let sect = sect + csect;
         let cc = btw div 512;
         if cc > 0 then write_direct M sect (clip_count csect cc fs) wbuff fp fs
         else do {
           (ok, fp, fs) \<leftarrow> (if f_sect fp \<noteq> sect \<and> fptr fp < objsize fp then fill_buf M sect fp fs else Some (True, fp, fs));
           if ok then write_buf btw wbuff (fp\<lparr>f_sect := sect\<rparr>) fs else Some (Abort FR_DISK_ERR, fp, fs)
         }
       }
     }
   }"

definition write_turn :: "'d multiio \<Rightarrow> u32 \<Rightarrow> u8 list \<Rightarrow> FIL \<Rightarrow> 'd FATFS \<Rightarrow> (turn \<times> FIL \<times> 'd FATFS) option" where
  "write_turn M btw wbuff fp fs =
     (if fptr fp mod 512 = 0 then do {
        let csect = sector_in_cluster fp fs;
        (stop, fp, fs) \<leftarrow> (if csect = 0 then write_cluster M fp fs else Some (None, fp, fs));
        case stop of Some t \<Rightarrow> Some (t, fp, fs) | None \<Rightarrow> write_sect M btw wbuff csect fp fs
      } else write_buf btw wbuff fp fs)"

text \<open>Moving the file pointer behind the bytes written; the file grows with it.\<close>

definition advance :: "u32 \<Rightarrow> FIL \<Rightarrow> FIL" where
  "advance wcnt fp = (let p = fptr fp + wcnt in fp\<lparr>fptr := p, objsize := if p > objsize fp then p else objsize fp\<rparr>)"

partial_function (option) write_loop ::
  "'d multiio \<Rightarrow> u32 \<Rightarrow> u8 list \<Rightarrow> u32 \<Rightarrow> FIL \<Rightarrow> 'd FATFS \<Rightarrow> (fresult \<times> u32 \<times> FIL \<times> 'd FATFS) option" where
  "write_loop M btw wbuff bw fp fs =
     (if btw > 0 then do {
        (t, fp, fs) \<leftarrow> write_turn M btw wbuff fp fs;
        case t of
          Moved wcnt \<Rightarrow> write_loop M (btw - wcnt) (drop (unat wcnt) wbuff) (bw + wcnt) (advance wcnt fp) fs
        | Full \<Rightarrow> Some (FR_OK, bw, fp\<lparr>f_flag := f_flag fp OR FA_MODIFIED\<rparr>, fs)
        | Abort res \<Rightarrow> Some (res, bw, fp\<lparr>f_err := of_nat res\<rparr>, fs)
      } else Some (FR_OK, bw, fp\<lparr>f_flag := f_flag fp OR FA_MODIFIED\<rparr>, fs))"

definition f_write :: "'d multiio \<Rightarrow> u8 list \<Rightarrow> u32 \<Rightarrow> FIL \<Rightarrow> 'd FATFS \<Rightarrow> (fresult \<times> u32 \<times> FIL \<times> 'd FATFS) option" where
  "f_write M buff btw fp fs =
     (let res = validate fp fs
      in if res \<noteq> FR_OK then Some (res, 0, fp, fs)
         else if unat (f_err fp) \<noteq> FR_OK then Some (unat (f_err fp), 0, fp, fs)
         else if f_flag fp AND FA_WRITE = 0 then Some (FR_DENIED, 0, fp, fs)
         else write_loop M (if fptr fp + btw < fptr fp then 0xFFFFFFFF - fptr fp else btw) buff 0 fp fs)"

section \<open>The contract of a device with sector counts\<close>

locale multi_device =
  fixes M :: "'d multiio"
    and ready :: "'d \<Rightarrow> bool"
    and sector :: "'d \<Rightarrow> nat \<Rightarrow> u8 list"
  assumes read_sectors: "ready d \<Longrightarrow> unat l + unat n \<le> 2 ^ 28 \<Longrightarrow>
      \<exists>d'. dio_reads M l n d = Some (True, concat (map (sector d) [unat l ..< unat l + unat n]), d') \<and> ready d' \<and> sector d' = sector d"
    and write_sectors: "ready d \<Longrightarrow> unat l + unat n \<le> 2 ^ 28 \<Longrightarrow> length b = 512 * unat n \<Longrightarrow>
      \<exists>d'. dio_writes M b l n d = Some (True, d') \<and> ready d' \<and>
        sector d' = (\<lambda>k. if unat l \<le> k \<and> k < unat l + unat n then take 512 (drop (512 * (k - unat l)) b) else sector d k)"
    and flush_device: "ready d \<Longrightarrow> \<exists>d'. dio_flush M d = Some (True, d') \<and> ready d' \<and> sector d' = sector d"
    and sector_length: "ready d \<Longrightarrow> length (sector d k) = 512"

sublocale multi_device \<subseteq> one: block_device "single_io M" ready sector
proof
  fix d :: 'd and l :: u32
  assume "ready d" "unat l < 2 ^ 28"
  then show "\<exists>d'. dio_read (single_io M) l d = Some (True, sector d (unat l), d') \<and> ready d' \<and> sector d' = sector d"
    using read_sectors [of d l 1] by (simp add: single_io_def)
next
  fix d :: 'd and l :: u32 and b :: "u8 list"
  assume "ready d" "unat l < 2 ^ 28" "length b = 512"
  moreover have "(\<lambda>k. if unat l \<le> k \<and> k < unat l + 1 then take 512 (drop (512 * (k - unat l)) b) else sector d k) = (sector d)(unat l := b)"
    if "length b = 512" using that by (intro ext) auto
  ultimately show "\<exists>d'. dio_write (single_io M) b l d = Some (True, d') \<and> ready d' \<and> sector d' = (sector d)(unat l := b)"
    using write_sectors [of d l 1 b] by (auto simp: single_io_def)
qed (use flush_device sector_length in \<open>simp_all add: single_io_def\<close>)

section \<open>The sectors and the bytes of a file\<close>

definition cluster_base :: "'d FATFS \<Rightarrow> nat \<Rightarrow> nat" where
  "cluster_base fs c = unat (database fs) + (c - 2) * unat (csize fs)"

definition cluster_sectors :: "'d FATFS \<Rightarrow> nat set \<Rightarrow> nat set" where
  "cluster_sectors fs C = (\<Union>c \<in> C. {cluster_base fs c ..< cluster_base fs c + unat (csize fs)})"

text \<open>Sector \<open>i\<close> of the file whose chain is \<open>ch\<close>.\<close>

definition file_sector :: "'d FATFS \<Rightarrow> nat list \<Rightarrow> nat \<Rightarrow> nat" where
  "file_sector fs ch i = cluster_base fs (ch ! (i div unat (csize fs))) + i mod unat (csize fs)"

text \<open>What a sector holds for the file: the buffer stands before the device.\<close>

definition buffered :: "('d \<Rightarrow> nat \<Rightarrow> u8 list) \<Rightarrow> 'd FATFS \<Rightarrow> FIL \<Rightarrow> nat \<Rightarrow> u8 list" where
  "buffered sector fs fp l = (if f_sect fp \<noteq> 0 \<and> l = unat (f_sect fp) then f_buf fp else sector (dev fs) l)"

definition file_byte :: "('d \<Rightarrow> nat \<Rightarrow> u8 list) \<Rightarrow> 'd FATFS \<Rightarrow> FIL \<Rightarrow> nat list \<Rightarrow> nat \<Rightarrow> u8" where
  "file_byte sector fs fp ch i = buffered sector fs fp (file_sector fs ch (i div 512)) ! (i mod 512)"

definition contents :: "('d \<Rightarrow> nat \<Rightarrow> u8 list) \<Rightarrow> 'd FATFS \<Rightarrow> FIL \<Rightarrow> nat list \<Rightarrow> u8 list" where
  "contents sector fs fp ch = map (file_byte sector fs fp ch) [0..<unat (objsize fp)]"

text \<open>The geometry of the data area: clusters of a power of two sectors, behind the FATs, at addresses
  the driver can tell apart.\<close>

definition data_ok :: "'d FATFS \<Rightarrow> bool" where
  "data_ok fs \<longleftrightarrow> unat (csize fs) \<in> {1, 2, 4, 8, 16, 32, 64, 128} \<and> 0 < unat (database fs) \<and> 2 < unat (n_fatent fs) \<and>
     unat (database fs) + (unat (n_fatent fs) - 2) * unat (csize fs) \<le> 2 ^ 28 \<and>
     unat (fatbase fs) + (if n_fats fs = 2 then 2 else 1) * unat (fs_fsize fs) \<le> unat (database fs)"

text \<open>\<open>ch\<close> is a chain of the volume (or empty), and the window shows neither one of its sectors nor a
  free one.\<close>

definition chain_ok :: "('d \<Rightarrow> bool) \<Rightarrow> ('d \<Rightarrow> nat \<Rightarrow> u8 list) \<Rightarrow> nat list \<Rightarrow> 'd FATFS \<Rightarrow> bool" where
  "chain_ok ready sector ch fs \<longleftrightarrow> fat_ok ready sector fs \<and> data_ok fs \<and>
     (ch \<noteq> [] \<longrightarrow> fat_chain (unat (n_fatent fs)) (fat_entry sector fs) ch) \<and>
     unat (winsect fs) \<notin> cluster_sectors fs (set ch \<union> free_set (unat (n_fatent fs)) (fat_entry sector fs))"

definition buffer_ok :: "('d \<Rightarrow> nat \<Rightarrow> u8 list) \<Rightarrow> nat list \<Rightarrow> 'd FATFS \<Rightarrow> FIL \<Rightarrow> bool" where
  "buffer_ok sector ch fs fp \<longleftrightarrow> length (f_buf fp) = 512 \<and>
     (f_sect fp = 0 \<and> \<not> dirty fp \<or>
      unat (f_sect fp) \<in> cluster_sectors fs (set ch) \<and> (dirty fp \<or> f_buf fp = sector (dev fs) (unat (f_sect fp))))"

definition position_ok :: "nat list \<Rightarrow> 'd FATFS \<Rightarrow> FIL \<Rightarrow> bool" where
  "position_ok ch fs fp \<longleftrightarrow> sclust fp = (if ch = [] then 0 else of_nat (hd ch)) \<and>
     unat (objsize fp) \<le> length ch * (unat (csize fs) * 512) \<and> fptr fp \<le> objsize fp \<and>
     (0 < unat (fptr fp) \<longrightarrow> f_clust fp = of_nat (ch ! ((unat (fptr fp) - 1) div (unat (csize fs) * 512)))) \<and>
     (unat (fptr fp) mod 512 \<noteq> 0 \<longrightarrow> unat (f_sect fp) = file_sector fs ch (unat (fptr fp) div 512))"

text \<open>An open file in good order.\<close>

definition file_ok :: "('d \<Rightarrow> bool) \<Rightarrow> ('d \<Rightarrow> nat \<Rightarrow> u8 list) \<Rightarrow> nat list \<Rightarrow> 'd FATFS \<Rightarrow> FIL \<Rightarrow> bool" where
  "file_ok ready sector ch fs fp \<longleftrightarrow> chain_ok ready sector ch fs \<and> buffer_ok sector ch fs fp \<and> position_ok ch fs fp \<and>
     obj_fs fp \<and> obj_id fp = fs_id fs \<and> f_err fp = 0"

lemma power_word_mod:
  fixes x :: u32 and c :: u16
  assumes "unat c \<in> {1, 2, 4, 8, 16, 32, 64, 128}"
  shows "unat (x AND (ucast c - 1)) = unat x mod unat c"
proof -
  obtain k where k: "unat c = 2 ^ k" "k < 8"
    using assms that [of 0] that [of 1] that [of 2] that [of 3] that [of 4] that [of 5] that [of 6] that [of 7] by auto
  have "(ucast c :: u32) = of_nat (unat c)" by (rule of_nat_unat [symmetric])
  then have "(ucast c :: u32) = 2 ^ k" by (simp add: k(1))
  then have "x AND (ucast c - 1) = take_bit k x" by (simp only: take_bit_eq_mask mask_eq_exp_minus_1)
  then have "unat (x AND (ucast c - 1)) = take_bit k (unat x)" by (simp only: unsigned_take_bit_eq)
  then show ?thesis by (simp only: k(1) take_bit_eq_mod)
qed

lemma clst2sect_base:
  assumes "data_ok fs" "2 \<le> c" "c < unat (n_fatent fs)"
  shows "unat (clst2sect (of_nat c) fs) = cluster_base fs c" "0 < cluster_base fs c"
    "cluster_base fs c + unat (csize fs) \<le> 2 ^ 28"
proof -
  have lt: "c < 2 ^ 32" using assms(3) unat_lt_u32 [of "n_fatent fs"] by simp
  then have u: "unat (of_nat c :: u32) = c" by (simp add: unsigned_of_nat take_bit_nat_eq_self)
  have s: "unat (of_nat c - 2 :: u32) = c - 2" using assms(2) u by (subst unat_sub) (simp_all add: word_le_nat_alt)
  have n: "unat (n_fatent fs - 2) = unat (n_fatent fs) - 2" using assms by (intro unat_fatent) simp
  have "c - 2 + 1 \<le> unat (n_fatent fs) - 2" using assms by simp
  from mult_le_mono1 [OF this, of "unat (csize fs)"]
  have le: "(c - 2) * unat (csize fs) + unat (csize fs) \<le> (unat (n_fatent fs) - 2) * unat (csize fs)" by simp
  then show b: "cluster_base fs c + unat (csize fs) \<le> 2 ^ 28" using assms(1) unfolding data_ok_def cluster_base_def by linarith
  show "0 < cluster_base fs c" using assms(1) by (simp add: data_ok_def cluster_base_def)
  have "unat (ucast (csize fs) * (of_nat c - 2) :: u32) = (c - 2) * unat (csize fs)"
    using b by (subst unat_mult_u32) (simp_all add: s unsigned_ucast_eq take_bit_nat_eq_self cluster_base_def mult.commute)
  moreover have "\<not> of_nat c - 2 \<ge> n_fatent fs - 2" using assms s n by (simp add: word_le_nat_alt)
  ultimately show "unat (clst2sect (of_nat c) fs) = cluster_base fs c"
    using b by (simp add: clst2sect_def Let_def cluster_base_def unat_add_u32)
qed

section \<open>Chains\<close>

lemma fat_chain_nth:
  "fat_chain n T ch \<Longrightarrow> i < length ch \<Longrightarrow> 2 \<le> ch ! i \<and> ch ! i < n"
  by (induction n T ch arbitrary: i rule: fat_chain.induct) (auto simp: nth_Cons split: nat.splits)

lemma fat_chain_step: "fat_chain n T ch \<Longrightarrow> Suc i < length ch \<Longrightarrow> T (ch ! i) = of_nat (ch ! Suc i)"
  by (induction n T ch arbitrary: i rule: fat_chain.induct) (auto simp: nth_Cons split: nat.splits)

lemma fat_chain_set: "fat_chain n T ch \<Longrightarrow> c \<in> set ch \<Longrightarrow> 2 \<le> c \<and> c < n"
  using fat_chain_nth by (metis in_set_conv_nth)

lemma fat_chain_drop: "fat_chain n T ch \<Longrightarrow> i < length ch \<Longrightarrow> fat_chain n T (drop i ch)"
  by (induction n T ch arbitrary: i rule: fat_chain.induct) (auto simp: drop_Cons split: nat.splits)

lemma fat_chain_unique:
  "fat_chain n T (c # xs) \<Longrightarrow> fat_chain n T (c # ys) \<Longrightarrow> n \<le> 2 ^ 32 \<Longrightarrow> xs = ys"
proof (induction xs arbitrary: c ys)
  case Nil
  show ?case
  proof (cases ys)
    case (Cons d zs)
    then have "T c = of_nat d" "d < n" using Nil.prems fat_chain_hd by auto
    then have "unat (T c) = d" using Nil.prems(3) by (simp add: unsigned_of_nat take_bit_nat_eq_self)
    then show ?thesis using Nil.prems(1) \<open>d < n\<close> by simp
  qed simp
next
  case (Cons d xs)
  have d: "T c = of_nat d" "d < n" "fat_chain n T (d # xs)" using Cons.prems(1) fat_chain_hd by auto
  then have u: "unat (T c) = d" using Cons.prems(3) by (simp add: unsigned_of_nat take_bit_nat_eq_self)
  obtain e zs where ys: "ys = e # zs" using Cons.prems(2) u d(2) by (cases ys) auto
  then have e: "T c = of_nat e" "e < n" "fat_chain n T (e # zs)" using Cons.prems(2) fat_chain_hd by auto
  then have "e = d" using u Cons.prems(3) by (simp add: unsigned_of_nat take_bit_nat_eq_self)
  then show ?case using Cons.IH [OF d(3)] e(3) Cons.prems(3) ys by simp
qed

lemma fat_chain_distinct:
  assumes "fat_chain n T ch" "n \<le> 2 ^ 32"
  shows "distinct ch"
proof (rule ccontr)
  assume "\<not> distinct ch"
  then obtain i j where ij: "i < j" "j < length ch" "ch ! i = ch ! j" by (metis distinct_conv_nth nat_neq_iff)
  have "drop i ch = ch ! i # drop (Suc i) ch" "drop j ch = ch ! i # drop (Suc j) ch" 
    using ij Cons_nth_drop_Suc [of i ch] Cons_nth_drop_Suc [of j ch] by simp_all
  then have "drop (Suc i) ch = drop (Suc j) ch"
    using fat_chain_unique [of n T "ch ! i"] fat_chain_drop [OF assms(1)] assms(2) ij by (metis less_trans)
  from arg_cong [OF this, of length] show False using ij by simp
qed

section \<open>The file on a healthy device\<close>

lemma fatent_bound: "unat (n_fatent fs) \<le> 2 ^ 32" using unat_lt_u32 [of "n_fatent fs"] by simp

lemma cluster_sectors_iff: "l \<in> cluster_sectors fs C \<longleftrightarrow> (\<exists>c \<in> C. cluster_base fs c \<le> l \<and> l < cluster_base fs c + unat (csize fs))"
  by (auto simp: cluster_sectors_def)

lemma cluster_base_inj:
  assumes "cluster_base fs c \<le> l" "l < cluster_base fs c + unat (csize fs)" "cluster_base fs d \<le> l" "l < cluster_base fs d + unat (csize fs)"
    and "2 \<le> c" "2 \<le> d"
  shows "c = d"
proof -
  have "c - 2 = (l - unat (database fs)) div unat (csize fs)" if "cluster_base fs c \<le> l" "l < cluster_base fs c + unat (csize fs)" for c
    by (rule div_nat_eqI [symmetric]) (use that in \<open>auto simp: cluster_base_def algebra_simps\<close>)
  then have "c - 2 = d - 2" using assms(1-4) by metis
  then show ?thesis using assms(5,6) by simp
qed

text \<open>Data sectors lie behind the FATs.\<close>

lemma cluster_sectors_fat:
  assumes "data_ok fs" "l \<in> cluster_sectors fs C"
  shows "l \<notin> in_fat fs" "l \<notin> mirror fs"
proof -
  have "unat (database fs) \<le> l" using assms(2) by (auto simp: cluster_sectors_def cluster_base_def)
  then show "l \<notin> in_fat fs" "l \<notin> mirror fs" using assms(1) by (auto simp: data_ok_def in_fat_def mirror_def split: if_splits)
qed

lemma cluster_sectors_small:
  assumes "data_ok fs" "l \<in> cluster_sectors fs C" "\<And>c. c \<in> C \<Longrightarrow> 2 \<le> c \<and> c < unat (n_fatent fs)"
  shows "0 < l" "l < 2 ^ 28"
proof -
  obtain c where c: "c \<in> C" "cluster_base fs c \<le> l" "l < cluster_base fs c + unat (csize fs)" using assms(2) by (auto simp: cluster_sectors_iff)
  have "2 \<le> c" "c < unat (n_fatent fs)" using assms(3) c(1) by simp_all
  note b = clst2sect_base(2,3) [OF assms(1) this]
  show "0 < l" "l < 2 ^ 28" using b c by linarith+
qed

lemma file_sector_in:
  assumes "data_ok fs" "i < length ch * unat (csize fs)"
  shows "file_sector fs ch i \<in> cluster_sectors fs (set ch)"
proof -
  have c: "0 < unat (csize fs)" using assms(1) by (auto simp: data_ok_def)
  have "i div unat (csize fs) < length ch" using assms(2) by (simp add: less_mult_imp_div_less)
  then have "ch ! (i div unat (csize fs)) \<in> set ch" by simp
  then show ?thesis unfolding cluster_sectors_iff file_sector_def using c by (intro bexI) auto
qed

lemma file_sector_inj:
  assumes "data_ok fs" "distinct ch" "\<And>c. c \<in> set ch \<Longrightarrow> 2 \<le> c" "i < length ch * unat (csize fs)" "j < length ch * unat (csize fs)"
    and e: "file_sector fs ch i = file_sector fs ch j"
  shows "i = j"
proof -
  let ?s = "unat (csize fs)"
  have c: "0 < ?s" using assms(1) by (auto simp: data_ok_def)
  have l: "i div ?s < length ch" "j div ?s < length ch" using assms(4,5) by (simp_all add: less_mult_imp_div_less)
  have m: "i mod ?s < ?s" "j mod ?s < ?s" using c by simp_all
  have "ch ! (i div ?s) = ch ! (j div ?s)"
  proof (rule cluster_base_inj)
    show "cluster_base fs (ch ! (i div ?s)) \<le> file_sector fs ch i" "file_sector fs ch i < cluster_base fs (ch ! (i div ?s)) + ?s"
      using m by (simp_all add: file_sector_def)
    show "cluster_base fs (ch ! (j div ?s)) \<le> file_sector fs ch i" "file_sector fs ch i < cluster_base fs (ch ! (j div ?s)) + ?s"
      unfolding e using m by (simp_all add: file_sector_def)
  qed (use assms(3) l in auto)
  then have "i div ?s = j div ?s" using assms(2) l by (simp add: nth_eq_iff_index_eq)
  moreover from this e have "i mod ?s = j mod ?s" by (simp add: file_sector_def)
  ultimately show ?thesis by (metis div_mult_mod_eq)
qed

lemma chain_ok_chain:
  assumes "chain_ok ready sector ch fs"
  shows "fat_ok ready sector fs" "data_ok fs" "window_ok ready sector fs" "distinct ch" "\<And>c. c \<in> set ch \<Longrightarrow> 2 \<le> c \<and> c < unat (n_fatent fs)"
    "ready (dev fs)"
proof -
  show a: "fat_ok ready sector fs" "data_ok fs" using assms by (simp_all add: chain_ok_def)
  then show "window_ok ready sector fs" by (simp add: fat_ok_def)
  then show "ready (dev fs)" by (simp add: window_ok_def)
  have c: "ch \<noteq> [] \<Longrightarrow> fat_chain (unat (n_fatent fs)) (fat_entry sector fs) ch" using assms by (simp add: chain_ok_def)
  show "distinct ch" using fat_chain_distinct [OF c fatent_bound] by (cases "ch = []") auto
  show "2 \<le> c \<and> c < unat (n_fatent fs)" if "c \<in> set ch" for c
    using fat_chain_set [OF c that] that by (cases "ch = []") auto
qed

text \<open>States whose table and geometry agree have the same chains.\<close>

lemma chain_ok_cong:
  assumes "chain_ok ready sector ch fs" "fat_ok ready sector fs'"
    and "database fs' = database fs" "csize fs' = csize fs" "n_fatent fs' = n_fatent fs" "fatbase fs' = fatbase fs"
      "n_fats fs' = n_fats fs" "fs_fsize fs' = fs_fsize fs"
    and e: "\<And>c. c < unat (n_fatent fs) \<Longrightarrow> fat_entry sector fs' c = fat_entry sector fs c"
    and w: "unat (winsect fs') \<in> insert (unat (winsect fs)) (in_fat fs)"
  shows "chain_ok ready sector ch fs'"
proof -
  have d: "data_ok fs" "data_ok fs'" using assms by (simp_all add: chain_ok_def data_ok_def)
  have cs: "cluster_sectors fs' = cluster_sectors fs" using assms(3,4) by (simp add: cluster_sectors_def cluster_base_def fun_eq_iff)
  have "free_set (unat (n_fatent fs)) (fat_entry sector fs') = free_set (unat (n_fatent fs)) (fat_entry sector fs)"
    using e by (auto simp: free_set_def)
  moreover have "ch \<noteq> [] \<Longrightarrow> fat_chain (unat (n_fatent fs)) (fat_entry sector fs') ch"
    by (rule fat_chain_cong [of _ "fat_entry sector fs"]) (use assms(1) chain_ok_chain(5) [OF assms(1)] e in \<open>auto simp: chain_ok_def\<close>)
  moreover have "unat (winsect fs') \<notin> cluster_sectors fs (set ch \<union> free_set (unat (n_fatent fs)) (fat_entry sector fs))"
    using w assms(1) cluster_sectors_fat(1) [OF d(1)] by (auto simp: chain_ok_def)
  ultimately show ?thesis using d assms by (simp add: chain_ok_def cs)
qed

section \<open>The driver\<close>

definition driver_multi :: "'d ports \<Rightarrow> ('d \<Rightarrow> bool \<times> 'd) \<Rightarrow> (irq_state \<times> 'd) multiio" where
  "driver_multi B tick = \<lparr>
     dio_reads = (\<lambda>l n (s, d). do {
       (res, ws, s, d) \<leftarrow> disk_read B tick 0 l n s d;
       Some (res = RES_OK, bytes_of ws, (s, d)) }),
     dio_writes = (\<lambda>b l n (s, d). do {
       (res, s, d) \<leftarrow> disk_write B tick 0 (words_of b) l n s d;
       Some (res = RES_OK, (s, d)) }),
     dio_flush = (\<lambda>d. Some (fst (disk_ioctl 0 0) = RES_OK, d))\<rparr>"

lemma bytes_of_concat: "bytes_of (concat wss) = concat (map bytes_of wss)"
proof -
  have "bytes_of (xs @ ys) = bytes_of xs @ bytes_of ys" for xs ys by (induction xs) auto
  then show ?thesis by (induction wss) auto
qed

lemma words_of_drop: "words_of (drop (2 * k) bs) = drop k (words_of bs)"
proof (induction k arbitrary: bs)
  case (Suc k)
  then show ?case by (cases bs rule: words_of.cases) auto
qed simp

lemma words_of_take: "words_of (take (2 * k) bs) = take k (words_of bs)"
proof (induction k arbitrary: bs)
  case (Suc k)
  then show ?case by (cases bs rule: words_of.cases) auto
qed simp

lemma bytes_of_chunk:
  assumes "length b = 512 * n" "i < n"
  shows "bytes_of (take 256 (drop (256 * i) (words_of b))) = take 512 (drop (512 * i) b)"
proof -
  have "take 256 (drop (256 * i) (words_of b)) = words_of (take 512 (drop (512 * i) b))"
    using words_of_take [of 256 "drop (512 * i) b"] words_of_drop [of "256 * i" b] by simp
  moreover have "512 * i + 512 \<le> length b" using assms by simp
  ultimately show ?thesis by (simp add: bytes_of_words_of)
qed

lemma driver_multi_device:
  assumes c: "ata_conforms B tick view"
  shows "multi_device (driver_multi B tick) (drive_ready view) (drive_sector view)"
proof
  fix sd :: "irq_state \<times> 'a" and l n :: u32
  assume r: "drive_ready view sd" and l: "unat l + unat n \<le> 2 ^ 28"
  obtain s d where sd: "sd = (s, d)" by fastforce
  have len: "\<And>l. length (media (view d) l) = 256" using r by (simp add: drive_ready_def sd)
  have e: "map (\<lambda>i. bytes_of (media (view d) ((unat l + i) mod 268435456))) [0..<unat n] = map (drive_sector view sd) [unat l..<unat l + unat n]"
    by (rule nth_equalityI) (use l in \<open>simp_all add: drive_sector_def sd\<close>)
  obtain s' d' where rd: "read_sectors B tick l (unat n) s d = Some (concat (map (\<lambda>i. media (view d) ((unat l + i) mod 268435456)) [0..<unat n]), s', d')"
      "media (view d') = media (view d)"
    using read_sectors_view [OF c len] by blast
  then have "dio_reads (driver_multi B tick) l n sd = Some (True, concat (map (drive_sector view sd) [unat l..<unat l + unat n]), (s', d'))"
    by (simp add: driver_multi_def sd disk_read_def bytes_of_concat comp_def e [unfolded sd])
  then show "\<exists>d'. dio_reads (driver_multi B tick) l n sd = Some (True, concat (map (drive_sector view sd) [unat l..<unat l + unat n]), d') \<and>
      drive_ready view d' \<and> drive_sector view d' = drive_sector view sd"
    using r rd(2) by (auto simp: drive_sector_def drive_ready_def sd)
next
  fix sd :: "irq_state \<times> 'a" and l n :: u32 and b :: "u8 list"
  assume r: "drive_ready view sd" and l: "unat l + unat n \<le> 2 ^ 28" and b: "length b = 512 * unat n"
  obtain s d where sd: "sd = (s, d)" by fastforce
  let ?m = "268435456 :: nat"
  have "256 * unat n \<le> length (words_of b)" "unat n \<le> ?m" using b l by (simp_all add: length_words_of)
  from write_sectors_view [OF c this, of l s d] obtain s' d' where w: "write_sectors B tick l (unat n) (words_of b) s d = Some (s', d')"
      "\<forall>i < unat n. media (view d') ((unat l + i) mod ?m) = take 256 (drop (256 * i) (words_of b))"
      "\<forall>k. (\<forall>i < unat n. k \<noteq> (unat l + i) mod ?m) \<longrightarrow> media (view d') k = media (view d) k" by blast
  have at: "media (view d') k = (if unat l \<le> k \<and> k < unat l + unat n then take 256 (drop (256 * (k - unat l)) (words_of b)) else media (view d) k)" for k
  proof (cases "unat l \<le> k \<and> k < unat l + unat n")
    case True
    then have "k - unat l < unat n" by arith
    moreover have "(unat l + (k - unat l)) mod ?m = k" using True l by simp
    ultimately show ?thesis using w(2) True by metis
  next
    case False
    then have "\<forall>i < unat n. k \<noteq> (unat l + i) mod ?m" using l by auto
    then show ?thesis using w(3) False by auto
  qed
  have "length (media (view d') k) = 256" for k
    using r b by (cases "unat l \<le> k \<and> k < unat l + unat n") (auto simp: at drive_ready_def sd length_words_of min_def)
  moreover have "drive_sector view (s', d') = (\<lambda>k. if unat l \<le> k \<and> k < unat l + unat n then take 512 (drop (512 * (k - unat l)) b) else drive_sector view sd k)"
    by (rule ext) (use bytes_of_chunk [OF b] in \<open>auto simp: drive_sector_def at sd\<close>)
  moreover have "dio_writes (driver_multi B tick) b l n sd = Some (True, (s', d'))" using w(1) by (simp add: driver_multi_def sd disk_write_def)
  ultimately show "\<exists>d'. dio_writes (driver_multi B tick) b l n sd = Some (True, d') \<and> drive_ready view d' \<and>
      drive_sector view d' = (\<lambda>k. if unat l \<le> k \<and> k < unat l + unat n then take 512 (drop (512 * (k - unat l)) b) else drive_sector view sd k)"
    by (auto simp: drive_ready_def)
qed (auto simp: driver_multi_def disk_ioctl_def drive_ready_def drive_sector_def)

interpretation atam: multi_device "driver_multi ref_ports ata_tick" "drive_ready id" "drive_sector id"
  by (rule driver_multi_device) (use ref_ports_conforms in \<open>simp add: id_def\<close>)

end
