(* ===== verification/Fat_Read.thy ===== *)
theory Fat_Read
  imports Fat_File
begin

text \<open>
  What \<open>f_read\<close> of FatFs returns: on a device that keeps its contract and a file in good order, the bytes of
  the file from the file pointer on, with the volume left as it was.
\<close>

section \<open>Steps that leave the file alone\<close>

text \<open>The table and the sectors outside the file stay; only the buffer and the file pointer may move.\<close>

definition framed :: "('d \<Rightarrow> nat \<Rightarrow> u8 list) \<Rightarrow> nat list \<Rightarrow> 'd FATFS \<Rightarrow> FIL \<Rightarrow> 'd FATFS \<Rightarrow> FIL \<Rightarrow> bool" where
  "framed sector ch fs fp fs' fp' \<longleftrightarrow> same_volume fs fs' \<and>
     (\<forall>l. l \<notin> cluster_sectors fs (set ch) \<union> mirror fs \<longrightarrow> volume sector fs' l = volume sector fs l) \<and>
     (\<forall>c < unat (n_fatent fs). fat_entry sector fs' c = fat_entry sector fs c) \<and>
     (\<exists>q c x b g. fp' = fp\<lparr>f_flag := g, fptr := q, f_clust := c, f_sect := x, f_buf := b\<rparr> \<and> g AND NOT FA_DIRTY = f_flag fp AND NOT FA_DIRTY)"

text \<open>The bytes of the file stay as well.\<close>

definition kept :: "('d \<Rightarrow> nat \<Rightarrow> u8 list) \<Rightarrow> nat list \<Rightarrow> 'd FATFS \<Rightarrow> FIL \<Rightarrow> 'd FATFS \<Rightarrow> FIL \<Rightarrow> bool" where
  "kept sector ch fs fp fs' fp' \<longleftrightarrow> framed sector ch fs fp fs' fp' \<and>
     (\<forall>l \<in> cluster_sectors fs (set ch). buffered sector fs' fp' l = buffered sector fs fp l)"

lemma cluster_sectors_same: "same_volume fs fs' \<Longrightarrow> cluster_sectors fs' = cluster_sectors fs"
  by (simp add: cluster_sectors_def cluster_base_def fun_eq_iff same_volume_simps)

lemma file_sector_same: "same_volume fs fs' \<Longrightarrow> file_sector fs' = file_sector fs"
  by (simp add: file_sector_def cluster_base_def fun_eq_iff same_volume_simps)

lemma same_fil: "\<exists>q c x b g. fp = fp\<lparr>f_flag := g, fptr := q, f_clust := c, f_sect := x, f_buf := b\<rparr> \<and> g AND NOT FA_DIRTY = f_flag fp AND NOT FA_DIRTY"
  by (rule exI [of _ "fptr fp"], rule exI [of _ "f_clust fp"], rule exI [of _ "f_sect fp"], rule exI [of _ "f_buf fp"], rule exI [of _ "f_flag fp"]) simp

lemma kept_refl [simp]: "kept sector ch fs fp fs fp"
  using same_fil by (simp add: kept_def framed_def)

lemma framed_trans:
  assumes "framed sector ch fs fp f1 p1" "framed sector ch f1 p1 f2 p2"
  shows "framed sector ch fs fp f2 p2"
proof -
  have v: "same_volume fs f1" "same_volume f1 f2" using assms by (simp_all add: framed_def)
  note s = same_volume_simps [OF v(1)] cluster_sectors_same [OF v(1)]
  obtain q c x b g where p1: "p1 = fp\<lparr>f_flag := g, fptr := q, f_clust := c, f_sect := x, f_buf := b\<rparr>" "g AND NOT FA_DIRTY = f_flag fp AND NOT FA_DIRTY"
    using assms(1) by (auto simp: framed_def)
  obtain q' c' x' b' g' where p2: "p2 = p1\<lparr>f_flag := g', fptr := q', f_clust := c', f_sect := x', f_buf := b'\<rparr>" "g' AND NOT FA_DIRTY = f_flag p1 AND NOT FA_DIRTY"
    using assms(2) by (auto simp: framed_def)
  have "\<exists>q c x b g. p2 = fp\<lparr>f_flag := g, fptr := q, f_clust := c, f_sect := x, f_buf := b\<rparr> \<and> g AND NOT FA_DIRTY = f_flag fp AND NOT FA_DIRTY"
    by (intro exI [of _ q'] exI [of _ c'] exI [of _ x'] exI [of _ b'] exI [of _ g']) (use p1 p2 in simp)
  then show ?thesis using assms same_volume_trans [OF v] by (simp add: framed_def s)
qed

lemma kept_trans:
  assumes "kept sector ch fs fp f1 p1" "kept sector ch f1 p1 f2 p2"
  shows "kept sector ch fs fp f2 p2"
proof -
  have "cluster_sectors f1 = cluster_sectors fs" using assms(1) by (intro cluster_sectors_same) (simp add: kept_def framed_def)
  then show ?thesis using assms framed_trans [of sector ch fs fp f1 p1 f2 p2] by (simp add: kept_def)
qed

lemma framed_fields:
  assumes "framed sector ch fs fp fs' fp'"
  shows "objsize fp' = objsize fp" "sclust fp' = sclust fp" "obj_fs fp' = obj_fs fp" "obj_id fp' = obj_id fp" "f_err fp' = f_err fp"
    "f_flag fp' AND NOT FA_DIRTY = f_flag fp AND NOT FA_DIRTY" "fs_id fs' = fs_id fs" "dir_sect fp' = dir_sect fp" "dir_ptr fp' = dir_ptr fp"
  using assms by (auto simp: framed_def same_volume_def)

lemma kept_framed: "kept sector ch fs fp fs' fp' \<Longrightarrow> framed sector ch fs fp fs' fp'"
  by (simp add: kept_def)

lemmas kept_fields = framed_fields [OF kept_framed]

lemma kept_byte:
  assumes "kept sector ch fs fp fs' fp'" "data_ok fs" "i < length ch * (unat (csize fs) * 512)"
  shows "file_byte sector fs' fp' ch i = file_byte sector fs fp ch i"
proof -
  have "i div 512 < length ch * unat (csize fs)" using assms(3) by (simp add: div_less_iff_less_mult algebra_simps)
  then have "file_sector fs ch (i div 512) \<in> cluster_sectors fs (set ch)" by (rule file_sector_in [OF assms(2)])
  moreover have "file_sector fs' = file_sector fs" using assms(1) by (intro file_sector_same) (simp add: kept_def framed_def)
  ultimately show ?thesis using assms(1) by (simp add: kept_def framed_def file_byte_def)
qed

lemma unchanged_sectors:
  assumes u: "unchanged ready sector fs fs'" and c: "chain_ok ready sector ch fs" "chain_ok ready sector ch fs'" and l: "l \<in> cluster_sectors fs (set ch)"
  shows "sector (dev fs') l = sector (dev fs) l"
proof -
  have v: "same_volume fs fs'" "volume sector fs' l = volume sector fs l"
    using u cluster_sectors_fat(2) [OF chain_ok_chain(2) [OF c(1)] l] by (simp_all add: unchanged_def)
  have "cluster_sectors fs (set ch) \<subseteq> cluster_sectors fs (set ch \<union> X)" for X by (auto simp: cluster_sectors_def)
  then have "l \<noteq> unat (winsect fs)" "l \<noteq> unat (winsect fs')" using l c unfolding chain_ok_def cluster_sectors_same [OF v(1)] by blast+
  then show ?thesis using v(2) by (simp add: volume_def)
qed

lemma kept_fat:
  assumes "unchanged ready sector fs fs'" "chain_ok ready sector ch fs" "buffer_ok sector ch fs fp"
  shows "chain_ok ready sector ch fs'" "buffer_ok sector ch fs' fp" "kept sector ch fs fp fs' (fp\<lparr>f_clust := c\<rparr>)"
proof -
  have u: "fat_ok ready sector fs'" "same_volume fs fs'" "\<forall>i < 512 * unat (fs_fsize fs). fat_byte sector fs' i = fat_byte sector fs i"
      "\<forall>l. l \<notin> mirror fs \<longrightarrow> volume sector fs' l = volume sector fs l" "unat (winsect fs') \<in> insert (unat (winsect fs)) (in_fat fs)"
    using assms(1) by (simp_all add: unchanged_def)
  note c = chain_ok_chain [OF assms(2)]
  have e: "fat_entry sector fs' c = fat_entry sector fs c" if "c < unat (n_fatent fs)" for c by (rule fat_entry_cong [OF c(1) u(2,3) that])
  show ch: "chain_ok ready sector ch fs'" by (rule chain_ok_cong [OF assms(2) u(1) _ _ _ _ _ _ e u(5)]) (use u(2) in \<open>simp_all add: same_volume_simps\<close>)
  note s = unchanged_sectors [OF assms(1,2) ch]
  show "buffer_ok sector ch fs' fp" using assms(3) s by (auto simp: buffer_ok_def cluster_sectors_same [OF u(2)])
  have "\<exists>q c' x b g. fp\<lparr>f_clust := c\<rparr> = fp\<lparr>f_flag := g, fptr := q, f_clust := c', f_sect := x, f_buf := b\<rparr> \<and> g AND NOT FA_DIRTY = f_flag fp AND NOT FA_DIRTY"
    by (intro exI [of _ "fptr fp"] exI [of _ c] exI [of _ "f_sect fp"] exI [of _ "f_buf fp"] exI [of _ "f_flag fp"]) simp
  moreover have "buffered sector fs' (fp\<lparr>f_clust := c\<rparr>) l = buffered sector fs fp l" if "l \<in> cluster_sectors fs (set ch)" for l
    using s that by (simp add: buffered_def)
  ultimately show "kept sector ch fs fp fs' (fp\<lparr>f_clust := c\<rparr>)" using u(2,4) e by (simp add: kept_def framed_def)
qed

text \<open>Writing sectors of the file on the device.\<close>

lemma device_changed:
  assumes "chain_ok ready sector ch fs" "ready d" "\<And>l. l \<notin> cluster_sectors fs (set ch) \<Longrightarrow> sector d l = sector (dev fs) l"
  shows "chain_ok ready sector ch (fs\<lparr>dev := d\<rparr>)" "same_volume fs (fs\<lparr>dev := d\<rparr>)"
    "\<And>l. l \<notin> cluster_sectors fs (set ch) \<Longrightarrow> volume sector (fs\<lparr>dev := d\<rparr>) l = volume sector fs l"
    "\<And>c. c < unat (n_fatent fs) \<Longrightarrow> fat_entry sector (fs\<lparr>dev := d\<rparr>) c = fat_entry sector fs c"
proof -
  let ?f = "fs\<lparr>dev := d\<rparr>"
  note c = chain_ok_chain [OF assms(1)]
  show v: "same_volume fs ?f"
    unfolding same_volume_def by (intro exI [of _ "wflag fs"] exI [of _ "winsect fs"] exI [of _ "win fs"] exI [of _ d]) simp
  have w: "unat (winsect fs) \<notin> cluster_sectors fs (set ch)" using assms(1) by (auto simp: chain_ok_def cluster_sectors_def)
  show vol: "volume sector ?f l = volume sector fs l" if "l \<notin> cluster_sectors fs (set ch)" for l
    using assms(3) that by (simp add: volume_def)
  have fat: "sector d l = sector (dev fs) l" if "l \<in> in_fat fs \<union> mirror fs" for l
    using assms(3) cluster_sectors_fat [OF c(2)] that by blast
  have plus: "l \<in> in_fat fs \<Longrightarrow> n_fats fs = 2 \<Longrightarrow> l + unat (fs_fsize fs) \<in> mirror fs" for l by (auto simp: in_fat_def mirror_def)
  have m: "mirror ?f = mirror fs" "in_fat ?f = in_fat fs" by (simp_all add: mirror_def in_fat_def)
  have "window_ok ready sector ?f"
    using c(3) assms(2) assms(3) [OF w] fat plus unfolding window_ok_def m by auto
  then have ok: "fat_ok ready sector ?f" using c(1) by (simp add: fat_ok_def fat_geometry_def)
  have "fat_byte sector ?f i = fat_byte sector fs i" if "i < 512 * unat (fs_fsize fs)" for i
  proof -
    have "unat (fatbase fs) + i div 512 \<in> in_fat fs" using that by (simp add: in_fat_def div_less_iff_less_mult mult.commute)
    then show ?thesis using fat by (simp add: fat_byte_def volume_def)
  qed
  then show e: "fat_entry sector ?f c = fat_entry sector fs c" if "c < unat (n_fatent fs)" for c
    by (intro fat_entry_cong [OF c(1) v _ that]) simp
  show "chain_ok ready sector ch ?f" by (rule chain_ok_cong [OF assms(1) ok _ _ _ _ _ _ e]) simp_all
qed

section \<open>Positions\<close>

lemma csect_mod:
  assumes "data_ok fs"
  shows "unat (sector_in_cluster fp fs) = (unat (fptr fp) div 512) mod unat (csize fs)"
proof -
  have "unat (fptr fp div 512) = unat (fptr fp) div 512" by (simp add: unat_div)
  then show ?thesis using power_word_mod [of "csize fs" "fptr fp div 512"] assms by (simp add: sector_in_cluster_def data_ok_def)
qed

lemma clip_count_min:
  assumes "data_ok fs" "unat csect < unat (csize fs)" "unat cc < 2 ^ 24"
  shows "unat (clip_count csect cc fs) = min (unat cc) (unat (csize fs) - unat csect)"
proof -
  have u: "unat (ucast (csize fs) :: u32) = unat (csize fs)" using unat_lt_u16 [of "csize fs"] by (simp add: unsigned_ucast_eq take_bit_nat_eq_self)
  have a: "unat (csect + cc) = unat csect + unat cc" using assms(2,3) unat_lt_u16 [of "csize fs"] by (intro unat_add_u32) simp
  have "unat (ucast (csize fs) - csect :: u32) = unat (csize fs) - unat csect"
    using assms(2) u by (subst unat_sub) (simp_all add: word_le_nat_alt)
  then show ?thesis using u a assms(2) by (auto simp: clip_count_def word_less_nat_alt)
qed

text \<open>The sector of a position in the cluster that holds it.\<close>

lemma position_sector:
  assumes "chain_ok ready sector ch fs" "p < length ch * (unat (csize fs) * 512)"
    and "f_clust fp = of_nat (ch ! (p div (unat (csize fs) * 512)))" "unat csect = (p div 512) mod unat (csize fs)"
  shows "clst2sect (f_clust fp) fs \<noteq> 0" "unat (clst2sect (f_clust fp) fs + csect) = file_sector fs ch (p div 512)"
    "file_sector fs ch (p div 512) + (unat (csize fs) - unat csect) \<le> 2 ^ 28" "unat csect < unat (csize fs)"
    "file_sector fs ch (p div 512) \<in> cluster_sectors fs (set ch)" "0 < file_sector fs ch (p div 512)"
    "\<And>j. j < unat (csize fs) - unat csect \<Longrightarrow> file_sector fs ch (p div 512 + j) = file_sector fs ch (p div 512) + j"
proof -
  let ?s = "unat (csize fs)"
  note c = chain_ok_chain [OF assms(1)]
  have s: "0 < ?s" using c(2) by (auto simp: data_ok_def)
  have d: "p div 512 div ?s = p div (?s * 512)" by (simp add: div_mult2_eq [symmetric] mult.commute)
  have k: "p div (?s * 512) < length ch" using assms(2) by (simp add: less_mult_imp_div_less)
  let ?c = "ch ! (p div (?s * 512))"
  have "2 \<le> ?c" "?c < unat (n_fatent fs)" using c(5) k by simp_all
  note b = clst2sect_base [OF c(2) this]
  show cs: "unat csect < ?s" using assms(4) s by simp
  have fs: "file_sector fs ch (p div 512) = cluster_base fs ?c + unat csect" by (simp add: file_sector_def d assms(4))
  show "clst2sect (f_clust fp) fs \<noteq> 0" using b(1,2) assms(3) by auto
  show "unat (clst2sect (f_clust fp) fs + csect) = file_sector fs ch (p div 512)"
    unfolding fs assms(3) b(1) [symmetric] using b cs by (intro unat_add_u32) simp
  show "file_sector fs ch (p div 512) + (?s - unat csect) \<le> 2 ^ 28" "0 < file_sector fs ch (p div 512)" using fs b cs by linarith+
  show "file_sector fs ch (p div 512) \<in> cluster_sectors fs (set ch)"
    using k cs nth_mem [OF k] unfolding fs cluster_sectors_iff by (intro bexI [of _ ?c]) auto
  show "file_sector fs ch (p div 512 + j) = file_sector fs ch (p div 512) + j" if "j < ?s - unat csect" for j
  proof -
    have e: "p div 512 + j = ?s * (p div (?s * 512)) + (unat csect + j)" 
      using mult_div_mod_eq [of ?s "p div 512"] unfolding d assms(4) by simp
    have "(p div 512 + j) div ?s = p div (?s * 512)" "(p div 512 + j) mod ?s = unat csect + j"
      unfolding e using that s by simp_all
    then show ?thesis unfolding fs by (simp add: file_sector_def)
  qed
qed

lemma div_mod_inside: "p mod 512 + i < 512 \<Longrightarrow> (p + i) div 512 = p div 512 \<and> (p + i) mod 512 = p mod 512 + i" for p i :: nat
  using div_mult_self3 [of 512 "p div 512" "p mod 512 + i"] mod_mult_self3 [of "p div 512" 512 "p mod 512 + i"] by (simp add: add.assoc [symmetric])

lemma pred_div: "p mod 512 \<noteq> 0 \<Longrightarrow> (p - 1) div 512 = p div 512" for p :: nat
proof (rule div_nat_eqI)
  assume "p mod 512 \<noteq> 0"
  then show "512 * (p div 512) \<le> p - 1" using mult_div_mod_eq [of 512 p] by linarith
  have "p mod 512 < 512" by simp
  then show "p - 1 < 512 * Suc (p div 512)" using mult_div_mod_eq [of 512 p] unfolding mult_Suc_right by linarith
qed

lemma div_mod_aligned: "p mod 512 = 0 \<Longrightarrow> (p + i) div 512 = p div 512 + i div 512 \<and> (p + i) mod 512 = i mod 512" for p i :: nat
  by (auto elim!: dvdE simp: mod_eq_0_iff_dvd)

lemma map_bytes:
  assumes "\<And>j. j < n \<Longrightarrow> length (D j) = 512"
  shows "concat (map D [0..<n]) = map (\<lambda>i. D (i div 512) ! (i mod 512)) [0..<512 * n]"
  using assms
proof (induction n)
  case (Suc n)
  have "map (\<lambda>i. D (i div 512) ! (i mod 512)) [512 * n..<512 * n + 512] = D n"
    by (rule nth_equalityI) (use Suc.prems [of n] in auto)
  moreover have "[0..<512 * Suc n] = [0..<512 * n] @ [512 * n..<512 * n + 512]" using upt_add_eq_append [of 0 "512 * n" 512] by (simp add: add.commute)
  ultimately show ?case using Suc by simp
qed simp

lemma overlay_bytes:
  assumes len: "length b = 512" and k: "k < n"
  shows "copy_into (k * 512) b (map (\<lambda>i. S (i div 512) ! (i mod 512)) [0..<512 * n]) = Some (map (\<lambda>i. (S(k := b)) (i div 512) ! (i mod 512)) [0..<512 * n])"
proof -
  let ?x = "map (\<lambda>i. S (i div 512) ! (i mod 512)) [0..<512 * n]"
  have fit: "k * 512 + 512 \<le> 512 * n" using k by simp
  have "take (k * 512) ?x @ b @ drop (k * 512 + 512) ?x = map (\<lambda>i. (S(k := b)) (i div 512) ! (i mod 512)) [0..<512 * n]" (is "?l = ?r")
  proof (rule nth_equalityI)
    show ll: "length ?l = length ?r" using fit len by simp
    fix i assume "i < length ?l"
    then have i: "i < 512 * n" using ll by simp
    consider "i < k * 512" | "k * 512 \<le> i" "i < k * 512 + 512" | "k * 512 + 512 \<le> i" by linarith
    then show "?l ! i = ?r ! i"
    proof cases
      case 1
      then have "i div 512 < k" by (simp add: div_less_iff_less_mult)
      then show ?thesis using 1 i by (simp add: nth_append)
    next
      case 2
      then have "i div 512 = k" by (intro div_nat_eqI) simp_all
      moreover have "i mod 512 = i - k * 512" using 2 mult_div_mod_eq [of 512 i] calculation by linarith
      moreover have "i - k * 512 < 512" using 2 by linarith
      ultimately show ?thesis using 2 i len fit by (simp add: nth_append)
    next
      case 3
      then have "Suc k \<le> i div 512" by (simp add: less_eq_div_iff_mult_less_eq)
      moreover have "\<not> i - k * 512 < 512" using 3 by linarith
      ultimately show ?thesis using 3 i len fit by (simp add: nth_append)
    qed
  qed
  then show ?thesis using len fit by (simp add: copy_into_def)
qed

text \<open>A run of sectors that ends in the cluster it starts in.\<close>

text \<open>Where a sector lies relative to a run of sectors, in the unsigned arithmetic of the code.\<close>

lemma in_run:
  fixes x sect cc :: u32
  assumes "unat sect + unat cc \<le> 2 ^ 28"
  shows "x - sect < cc \<longleftrightarrow> unat sect \<le> unat x \<and> unat x < unat sect + unat cc"
    "x - sect < cc \<Longrightarrow> unat (x - sect) = unat x - unat sect"
proof -
  show iff: "x - sect < cc \<longleftrightarrow> unat sect \<le> unat x \<and> unat x < unat sect + unat cc"
  proof (cases "sect \<le> x")
    case True
    then show ?thesis by (auto simp: word_less_nat_alt unat_sub word_le_nat_alt)
  next
    case False
    then have "unat (x - sect) = 2 ^ 32 + unat x - unat sect" by (subst unat_sub_if') (simp add: word_le_nat_alt)
    then have "\<not> x - sect < cc" using assms unfolding word_less_nat_alt by simp
    then show ?thesis using False by (simp add: word_le_nat_alt)
  qed
  show "unat (x - sect) = unat x - unat sect" if "x - sect < cc" using that iff by (simp add: unat_sub word_le_nat_alt)
qed

lemma run_of_bytes:
  assumes p: "unat (fptr fp) mod 512 = 0" and run: "\<And>j. j < n \<Longrightarrow> file_sector fs ch (unat (fptr fp) div 512 + j) = l + j"
  shows "map (file_byte sector fs fp ch) [unat (fptr fp)..<unat (fptr fp) + 512 * n] =
    map (\<lambda>i. buffered sector fs fp (l + i div 512) ! (i mod 512)) [0..<512 * n]" (is "?l = ?r")
proof (rule nth_equalityI)
  fix i assume "i < length ?l"
  then have i: "i < 512 * n" by simp
  have "(unat (fptr fp) + i) div 512 = unat (fptr fp) div 512 + i div 512" "(unat (fptr fp) + i) mod 512 = i mod 512"
    using div_mod_aligned [OF p, of i] by simp_all
  moreover have "i div 512 < n" using i by (simp add: div_less_iff_less_mult mult.commute)
  ultimately show "?l ! i = ?r ! i" using i run by (simp add: file_byte_def)
qed simp

lemma within_cluster:
  fixes p n s :: nat
  assumes "p mod 512 = 0" "0 < n" "n \<le> 512 * (s - (p div 512) mod s)" "0 < s"
  shows "(p + n - 1) div (s * 512) = p div (s * 512)"
proof -
  let ?r = "p div 512 mod s"
  have lt: "?r < s" using assms(4) by simp
  have "p = 512 * (p div 512)" using assms(1) by auto
  also have "p div 512 = s * (p div 512 div s) + ?r" by simp
  finally have p: "p = s * 512 * (p div (s * 512)) + 512 * ?r" by (simp add: div_mult2_eq [symmetric] algebra_simps)
  have "512 * (s - ?r) = s * 512 - 512 * ?r" by (simp add: diff_mult_distrib2)
  then have "n + 512 * ?r \<le> s * 512" using assms(3) lt by linarith
  then have fit: "n + 512 * ?r \<le> s * 512" .
  show ?thesis
  proof (rule div_nat_eqI)
    show "s * 512 * (p div (s * 512)) \<le> p + n - 1" using p assms(2) by linarith
    show "p + n - 1 < s * 512 * Suc (p div (s * 512))" unfolding mult_Suc_right using p fit assms(2) by linarith
  qed
qed

text \<open>Inside a cluster the byte before the position lies in the same cluster.\<close>

lemma mid_cluster:
  fixes p s :: nat
  assumes "p mod 512 = 0" "0 < p div 512 mod s" "0 < s"
  shows "(p - 1) div (s * 512) = p div (s * 512)" "0 < p"
proof -
  show p0: "0 < p" using assms(2) by (cases "p = 0") auto
  define q m where "q = p div 512 div s" and "m = p div 512 mod s"
  have "p div 512 = s * q + m" by (simp add: q_def m_def)
  moreover have "p = 512 * (p div 512)" using assms(1) by auto
  ultimately have e: "p = 512 * (s * q) + 512 * m" by linarith
  have ms: "0 < m" "m < s" using assms by (simp_all add: m_def)
  have "(p - 1) div (s * 512) = q"
  proof (rule div_nat_eqI)
    have "s * 512 * q = 512 * (s * q)" by simp
    then show "s * 512 * q \<le> p - 1" "p - 1 < s * 512 * Suc q" using e ms unfolding mult_Suc_right by linarith+
  qed
  also have "q = p div (s * 512)" by (simp add: q_def div_mult2_eq [symmetric] mult.commute)
  finally show "(p - 1) div (s * 512) = p div (s * 512)" .
qed

text \<open>What a turn that starts on a sector boundary does: some bytes are returned, and the file and its position in the
  cluster stay in order.\<close>

definition read_part :: "('d \<Rightarrow> bool) \<Rightarrow> ('d \<Rightarrow> nat \<Rightarrow> u8 list) \<Rightarrow> nat list \<Rightarrow> u32 \<Rightarrow> 'd FATFS \<Rightarrow> FIL \<Rightarrow> (turn \<times> u8 list \<times> FIL \<times> 'd FATFS) option \<Rightarrow> bool" where
  "read_part ready sector ch btr fs fp res \<longleftrightarrow>
    (\<exists>rcnt fp' fs'. res = Some (Moved rcnt, map (file_byte sector fs fp ch) [unat (fptr fp)..<unat (fptr fp) + unat rcnt], fp', fs') \<and>
    0 < unat rcnt \<and> unat rcnt \<le> unat btr \<and> chain_ok ready sector ch fs' \<and> buffer_ok sector ch fs' fp' \<and> kept sector ch fs fp fs' fp' \<and>
    fptr fp' = fptr fp \<and> f_clust fp' = f_clust fp \<and>
    (unat (fptr fp) + unat rcnt - 1) div (unat (csize fs) * 512) = unat (fptr fp) div (unat (csize fs) * 512) \<and>
    ((unat (fptr fp) + unat rcnt) mod 512 \<noteq> 0 \<longrightarrow> unat (f_sect fp') = file_sector fs ch ((unat (fptr fp) + unat rcnt) div 512)))"

lemma inside_sector:
  fixes p r s :: nat
  assumes m: "p mod 512 \<noteq> 0" and r: "0 < r" "p mod 512 + r \<le> 512"
  shows "(p + r - 1) div (s * 512) = (p - 1) div (s * 512)" "(p + r) mod 512 \<noteq> 0 \<Longrightarrow> (p + r) div 512 = p div 512"
proof -
  have "(p + r - 1) div 512 = p div 512" using div_mod_inside [of p "r - 1"] r by simp
  moreover have "(p - 1) div 512 = p div 512" using m by (rule pred_div)
  ultimately show "(p + r - 1) div (s * 512) = (p - 1) div (s * 512)" unfolding mult.commute [of s 512] div_mult2_eq by simp
  show "(p + r) div 512 = p div 512" if n: "(p + r) mod 512 \<noteq> 0"
  proof -
    have "p mod 512 + r \<noteq> 512"
    proof
      assume "p mod 512 + r = 512"
      then have "p + r = 512 * (p div 512) + 512" using mult_div_mod_eq [of 512 p] by linarith
      then show False using n by simp
    qed
    then show ?thesis using div_mod_inside [of p r] r by simp
  qed
qed

text \<open>A whole turn of the loop of \<open>f_read\<close>.\<close>

definition read_step :: "('d \<Rightarrow> bool) \<Rightarrow> ('d \<Rightarrow> nat \<Rightarrow> u8 list) \<Rightarrow> nat list \<Rightarrow> u32 \<Rightarrow> 'd FATFS \<Rightarrow> FIL \<Rightarrow> (turn \<times> u8 list \<times> FIL \<times> 'd FATFS) option \<Rightarrow> bool" where
  "read_step ready sector ch btr fs fp res \<longleftrightarrow>
    (\<exists>rcnt fp' fs'. res = Some (Moved rcnt, map (file_byte sector fs fp ch) [unat (fptr fp)..<unat (fptr fp) + unat rcnt], fp', fs') \<and>
    0 < unat rcnt \<and> unat rcnt \<le> unat btr \<and> fptr fp' = fptr fp \<and>
    file_ok ready sector ch fs' (fp'\<lparr>fptr := fptr fp' + rcnt\<rparr>) \<and> kept sector ch fs fp fs' (fp'\<lparr>fptr := fptr fp' + rcnt\<rparr>))"

context multi_device
begin

lemma buffered_length:
  assumes "chain_ok ready sector ch fs" "buffer_ok sector ch fs fp"
  shows "length (buffered sector fs fp l) = 512"
  using sector_length [OF chain_ok_chain(6) [OF assms(1)]] assms(2) by (simp add: buffered_def buffer_ok_def)

lemma read_cluster_ok:
  assumes f: "file_ok ready sector ch fs fp" and p: "unat (fptr fp) < unat (objsize fp)" "unat (fptr fp) mod (unat (csize fs) * 512) = 0"
  shows "\<exists>fs'. read_cluster M fp fs = Some (None, fp\<lparr>f_clust := of_nat (ch ! (unat (fptr fp) div (unat (csize fs) * 512)))\<rparr>, fs') \<and>
    unchanged ready sector fs fs'"
proof -
  let ?b = "unat (csize fs) * 512" and ?p = "unat (fptr fp)"
  have c: "chain_ok ready sector ch fs" and pos: "position_ok ch fs fp" using f by (simp_all add: file_ok_def)
  note cc = chain_ok_chain [OF c]
  have b: "0 < ?b" using cc(2) by (auto simp: data_ok_def)
  have "?p < length ch * ?b" using pos p(1) by (simp add: position_ok_def)
  then have k: "?p div ?b < length ch" by (simp add: less_mult_imp_div_less)
  then have ne: "ch \<noteq> []" by auto
  have fc: "fat_chain (unat (n_fatent fs)) (fat_entry sector fs) ch" using c ne by (simp add: chain_ok_def)
  have small: "of_nat c \<ge> (2 :: u32) \<and> (of_nat c :: u32) \<noteq> 0xFFFFFFFF" if "c \<in> set ch" for c
  proof -
    have n: "2 \<le> c" "c < 0xFFFFFFF7" using cc(5) [OF that] cc(1) by (auto simp: fat_ok_def fat_geometry_def)
    then have "unat (of_nat c :: u32) = c" by (simp add: unsigned_of_nat take_bit_nat_eq_self)
    then show ?thesis using n by (auto simp: word_le_nat_alt)
  qed
  show ?thesis
  proof (cases "?p = 0")
    case True
    have "unchanged ready sector fs fs" using cc(1) by (simp add: unchanged_def)
    moreover have "fptr fp = 0" using True by (simp add: unat_eq_zero)
    moreover have "sclust fp = of_nat (ch ! 0)" using pos ne by (simp add: position_ok_def hd_conv_nth)
    ultimately show ?thesis using small [of "ch ! 0"] ne True by (auto simp: read_cluster_def)
  next
    case False
    define i where "i = ?p div ?b - 1"
    have "?p div ?b \<noteq> 0" using False p(2) b by (metis div_mult_mod_eq mult_is_0 add.right_neutral)
    then have i: "Suc i = ?p div ?b" by (simp add: i_def)
    then have "?p = ?b * Suc i" using p(2) by (metis add.right_neutral mult_div_mod_eq)
    then have "(?p - 1) div ?b = i" using b by (intro div_nat_eqI) (simp_all add: algebra_simps)
    then have cl: "f_clust fp = of_nat (ch ! i)" using pos False by (simp add: position_ok_def)
    have il: "i < length ch" "Suc i < length ch" using i k by simp_all
    have n: "2 \<le> ch ! i" "ch ! i < unat (n_fatent fs)" using cc(5) nth_mem [OF il(1)] by auto
    have u: "unat (f_clust fp) = ch ! i" using n(2) fatent_bound [of fs] cl by (simp add: unsigned_of_nat take_bit_nat_eq_self)
    obtain fs' where g: "get_fat (single_io M) (f_clust fp) fs = Some (fat_entry sector fs (ch ! i), fs')" "unchanged ready sector fs fs'"
      using one.get_fat_ok [OF cc(1), of "f_clust fp"] n unfolding u by blast
    have "fat_entry sector fs (ch ! i) = of_nat (ch ! Suc i)" by (rule fat_chain_step [OF fc il(2)])
    moreover have "fptr fp \<noteq> 0" using False by auto
    ultimately show ?thesis using g small [OF nth_mem [OF il(2)]] i by (auto simp: read_cluster_def)
  qed
qed

lemma write_back_ok:
  assumes "chain_ok ready sector ch fs" "buffer_ok sector ch fs fp"
  shows "\<exists>fs' g. write_back M fp fs = Some (True, fp\<lparr>f_flag := g\<rparr>, fs') \<and> chain_ok ready sector ch fs' \<and>
    buffer_ok sector ch fs' (fp\<lparr>f_flag := g\<rparr>) \<and> \<not> dirty (fp\<lparr>f_flag := g\<rparr>) \<and> kept sector ch fs fp fs' (fp\<lparr>f_flag := g\<rparr>)"
proof (cases "dirty fp")
  case False
  then show ?thesis using assms by (intro exI [of _ fs] exI [of _ "f_flag fp"]) (simp add: write_back_def)
next
  case True
  note c = chain_ok_chain [OF assms(1)]
  have b: "length (f_buf fp) = 512" "unat (f_sect fp) \<in> cluster_sectors fs (set ch)" using assms(2) True by (auto simp: buffer_ok_def)
  note sm = cluster_sectors_small [OF c(2) b(2) c(5)]
  have one: "unat (f_sect fp) + unat (1 :: u32) \<le> 2 ^ 28" "length (f_buf fp) = 512 * unat (1 :: u32)" using sm b(1) by simp_all
  obtain d where d: "dio_writes M (f_buf fp) (f_sect fp) 1 (dev fs) = Some (True, d)" "ready d"
      "sector d = (\<lambda>k. if unat (f_sect fp) \<le> k \<and> k < unat (f_sect fp) + unat (1 :: u32) then take 512 (drop (512 * (k - unat (f_sect fp))) (f_buf fp)) else sector (dev fs) k)"
    using write_sectors [OF c(6) one] by blast
  have sd: "sector d l = (if l = unat (f_sect fp) then f_buf fp else sector (dev fs) l)" for l using b(1) by (auto simp: d(3))
  have out: "sector d l = sector (dev fs) l" if "l \<notin> cluster_sectors fs (set ch)" for l using that b(2) by (auto simp: sd)
  note dc = device_changed [OF assms(1) d(2) out]
  define g where "g = f_flag fp AND NOT FA_DIRTY"
  have nd: "\<not> dirty (fp\<lparr>f_flag := g\<rparr>)" by (simp add: dirty_def g_def and.assoc)
  have "\<exists>q c x b h. fp\<lparr>f_flag := g\<rparr> = fp\<lparr>f_flag := h, fptr := q, f_clust := c, f_sect := x, f_buf := b\<rparr> \<and> h AND NOT FA_DIRTY = f_flag fp AND NOT FA_DIRTY"
    by (intro exI [of _ "fptr fp"] exI [of _ "f_clust fp"] exI [of _ "f_sect fp"] exI [of _ "f_buf fp"] exI [of _ g]) (simp add: g_def and.assoc)
  moreover have "f_sect fp \<noteq> 0" using sm(1) by auto
  ultimately have "kept sector ch fs fp (fs\<lparr>dev := d\<rparr>) (fp\<lparr>f_flag := g\<rparr>)"
    using dc by (auto simp: kept_def framed_def buffered_def sd)
  moreover have "buffer_ok sector ch (fs\<lparr>dev := d\<rparr>) (fp\<lparr>f_flag := g\<rparr>)"
    using b sd cluster_sectors_same [OF dc(2)] by (simp add: buffer_ok_def)
  moreover have "write_back M fp fs = Some (True, fp\<lparr>f_flag := g\<rparr>, fs\<lparr>dev := d\<rparr>)" using True d(1) by (simp add: write_back_def g_def)
  ultimately show ?thesis using dc(1) nd by blast
qed

lemma read_buf_ok:
  assumes c: "chain_ok ready sector ch fs" and b: "buffer_ok sector ch fs fp" and z: "f_sect fp \<noteq> 0"
    and sect: "unat (f_sect fp) = file_sector fs ch (unat (fptr fp) div 512)" and n: "0 < unat btr"
  shows "\<exists>rcnt. read_buf btr fp fs = Some (Moved rcnt, map (file_byte sector fs fp ch) [unat (fptr fp)..<unat (fptr fp) + unat rcnt], fp, fs) \<and>
    unat rcnt = min (unat btr) (512 - unat (fptr fp) mod 512)"
proof -
  let ?p = "unat (fptr fp)"
  have m: "unat (fptr fp mod 512) = ?p mod 512" by (simp add: unat_mod)
  have lt: "?p mod 512 < 512" by simp
  have s: "unat (512 - fptr fp mod 512) = 512 - ?p mod 512" using m lt by (subst unat_sub) (simp_all add: word_le_nat_alt)
  define rcnt where "rcnt = (if 512 - fptr fp mod 512 > btr then btr else 512 - fptr fp mod 512)"
  have r: "unat rcnt = min (unat btr) (512 - ?p mod 512)" using s by (auto simp: rcnt_def word_less_nat_alt)
  have len: "length (f_buf fp) = 512" using b by (simp add: buffer_ok_def)
  have le: "?p mod 512 + unat rcnt \<le> 512" using r lt by linarith
  have "take (unat rcnt) (drop (?p mod 512) (f_buf fp)) = map (file_byte sector fs fp ch) [?p..<?p + unat rcnt]"
  proof (rule nth_equalityI)
    show "length (take (unat rcnt) (drop (?p mod 512) (f_buf fp))) = length (map (file_byte sector fs fp ch) [?p..<?p + unat rcnt])"
      using len le by simp
    fix i assume "i < length (take (unat rcnt) (drop (?p mod 512) (f_buf fp)))"
    then have i: "i < unat rcnt" by simp
    have d: "(?p + i) div 512 = ?p div 512" "(?p + i) mod 512 = ?p mod 512 + i" using div_mod_inside [of ?p i] i le by simp_all
    have "buffered sector fs fp (file_sector fs ch (?p div 512)) = f_buf fp" using z sect by (simp add: buffered_def)
    then show "take (unat rcnt) (drop (?p mod 512) (f_buf fp)) ! i = map (file_byte sector fs fp ch) [?p..<?p + unat rcnt] ! i"
      using i len le d by (simp add: file_byte_def)
  qed
  then have "read_buf btr fp fs = Some (Moved rcnt, map (file_byte sector fs fp ch) [?p..<?p + unat rcnt], fp, fs)"
    unfolding read_buf_def Let_def rcnt_def [symmetric] m copy_from_def using len le by simp
  then show ?thesis using r by blast
qed

lemma read_direct_ok:
  assumes c: "chain_ok ready sector ch fs" and b: "buffer_ok sector ch fs fp"
    and sect: "unat sect = file_sector fs ch (unat (fptr fp) div 512)" "unat (fptr fp) mod 512 = 0"
    and run: "\<And>j. j < unat cc \<Longrightarrow> file_sector fs ch (unat (fptr fp) div 512 + j) = unat sect + j" "unat sect + unat cc \<le> 2 ^ 28"
  shows "\<exists>d. read_direct M sect cc fp fs =
      Some (Moved (512 * cc), map (file_byte sector fs fp ch) [unat (fptr fp)..<unat (fptr fp) + 512 * unat cc], fp, fs\<lparr>dev := d\<rparr>) \<and>
    ready d \<and> sector d = sector (dev fs)"
proof -
  let ?p = "unat (fptr fp)" and ?S = "sector (dev fs)" and ?k = "unat (f_sect fp) - unat sect"
  note cc = chain_ok_chain [OF c]
  define bs where "bs = concat (map ?S [unat sect..<unat sect + unat cc])"
  obtain d where d: "dio_reads M sect cc (dev fs) = Some (True, bs, d)" "ready d" "sector d = ?S"
    using read_sectors [OF cc(6) run(2)] unfolding bs_def by blast
  have raw: "bs = map (\<lambda>i. ?S (unat sect + i div 512) ! (i mod 512)) [0..<512 * unat cc]"
  proof -
    have "map ?S [unat sect..<unat sect + unat cc] = map (\<lambda>j. ?S (unat sect + j)) [0..<unat cc]" by (rule nth_equalityI) simp_all
    then show ?thesis unfolding bs_def using map_bytes [of "unat cc" "\<lambda>j. ?S (unat sect + j)"] sector_length [OF cc(6)] by simp
  qed
  have want: "map (file_byte sector fs fp ch) [?p..<?p + 512 * unat cc] =
      map (\<lambda>i. buffered sector fs fp (unat sect + i div 512) ! (i mod 512)) [0..<512 * unat cc]" by (rule run_of_bytes [OF sect(2) run(1)])
  have len: "length (f_buf fp) = 512" using b by (simp add: buffer_ok_def)
  show ?thesis
  proof (cases "dirty fp \<and> f_sect fp - sect < cc")
    case True
    then have z: "f_sect fp \<noteq> 0" using b by (auto simp: buffer_ok_def dest: cluster_sectors_small(1) [OF cc(2) _ cc(5)])
    have k: "unat (f_sect fp - sect) = ?k" "?k < unat cc" "unat (f_sect fp) = unat sect + ?k"
      using in_run [OF run(2), of "f_sect fp"] True by auto
    have "buffered sector fs fp (unat sect + j) = ((\<lambda>j. ?S (unat sect + j))(?k := f_buf fp)) j" for j using k(3) z by (auto simp: buffered_def)
    then have "copy_into (unat (f_sect fp - sect) * 512) (f_buf fp) bs = Some (map (file_byte sector fs fp ch) [?p..<?p + 512 * unat cc])"
      unfolding want k(1) raw using overlay_bytes [OF len k(2), of "\<lambda>j. ?S (unat sect + j)"] by simp
    then have "read_direct M sect cc fp fs = Some (Moved (512 * cc), map (file_byte sector fs fp ch) [?p..<?p + 512 * unat cc], fp, fs\<lparr>dev := d\<rparr>)"
      unfolding read_direct_def d(1) Let_def if_P [OF True] by simp
    then show ?thesis using d(2,3) by blast
  next
    case False
    have "buffered sector fs fp (unat sect + j) = ?S (unat sect + j)" if "j < unat cc" for j
    proof (cases "f_sect fp \<noteq> 0 \<and> unat sect + j = unat (f_sect fp)")
      case True
      then have "f_sect fp - sect < cc" using in_run(1) [OF run(2), of "f_sect fp"] that by auto
      then show ?thesis using False True b by (auto simp: buffered_def buffer_ok_def)
    qed (auto simp: buffered_def)
    then have "bs = map (file_byte sector fs fp ch) [?p..<?p + 512 * unat cc]"
      unfolding want raw by (intro map_cong) (simp_all add: div_less_iff_less_mult mult.commute)
    moreover have "read_direct M sect cc fp fs = Some (Moved (512 * cc), bs, fp, fs\<lparr>dev := d\<rparr>)"
      unfolding read_direct_def d(1) Let_def if_not_P [OF False] by simp
    ultimately show ?thesis using d(2,3) by blast
  qed
qed

lemma fill_buf_ok:
  assumes c: "chain_ok ready sector ch fs" and b: "buffer_ok sector ch fs fp" and nd: "\<not> dirty fp"
    and sect: "unat sect \<in> cluster_sectors fs (set ch)"
  shows "\<exists>b d. fill_buf M sect fp fs = Some (True, fp\<lparr>f_buf := b\<rparr>, fs\<lparr>dev := d\<rparr>) \<and> chain_ok ready sector ch (fs\<lparr>dev := d\<rparr>) \<and>
    buffer_ok sector ch (fs\<lparr>dev := d\<rparr>) (fp\<lparr>f_buf := b, f_sect := sect\<rparr>) \<and> kept sector ch fs fp (fs\<lparr>dev := d\<rparr>) (fp\<lparr>f_buf := b, f_sect := sect\<rparr>)"
proof -
  note cc = chain_ok_chain [OF c]
  note sm = cluster_sectors_small [OF cc(2) sect cc(5)]
  have one: "unat sect + unat (1 :: u32) \<le> 2 ^ 28" using sm by simp
  obtain d where d: "dio_reads M sect 1 (dev fs) = Some (True, sector (dev fs) (unat sect), d)" "ready d" "sector d = sector (dev fs)"
    using read_sectors [OF cc(6) one] by auto
  note dc = device_changed [OF c d(2), unfolded d(3), OF refl]
  let ?p = "fp\<lparr>f_buf := sector (dev fs) (unat sect), f_sect := sect\<rparr>"
  have same: "buffered sector (fs\<lparr>dev := d\<rparr>) ?p l = buffered sector fs fp l" for l
    using b nd by (auto simp: buffered_def d(3) buffer_ok_def)
  have "\<exists>q c x b g. ?p = fp\<lparr>f_flag := g, fptr := q, f_clust := c, f_sect := x, f_buf := b\<rparr> \<and> g AND NOT FA_DIRTY = f_flag fp AND NOT FA_DIRTY"
    by (rule exI [of _ "fptr fp"], rule exI [of _ "f_clust fp"], rule exI [of _ sect], rule exI [of _ "sector (dev fs) (unat sect)"], rule exI [of _ "f_flag fp"]) simp
  then have "kept sector ch fs fp (fs\<lparr>dev := d\<rparr>) ?p" using dc same by (simp add: kept_def framed_def)
  moreover have "buffer_ok sector ch (fs\<lparr>dev := d\<rparr>) ?p"
    using sect sector_length [OF cc(6)] d(3) cluster_sectors_same [OF dc(2)] by (simp add: buffer_ok_def)
  moreover have "fill_buf M sect fp fs = Some (True, fp\<lparr>f_buf := sector (dev fs) (unat sect)\<rparr>, fs\<lparr>dev := d\<rparr>)" using d(1) by (simp add: fill_buf_def)
  ultimately show ?thesis using dc(1) by blast
qed

lemma load_sector_ok:
  assumes c: "chain_ok ready sector ch fs" and b: "buffer_ok sector ch fs fp" and sect: "unat sect \<in> cluster_sectors fs (set ch)"
  shows "\<exists>fp' fs'. (if f_sect fp \<noteq> sect then do {
           (ok, fp, fs) \<leftarrow> write_back M fp fs;
           if ok then fill_buf M sect fp fs else Some (False, fp, fs)
         } else Some (True, fp, fs)) = Some (True, fp', fs') \<and> chain_ok ready sector ch fs' \<and> buffer_ok sector ch fs' (fp'\<lparr>f_sect := sect\<rparr>) \<and>
    kept sector ch fs fp fs' (fp'\<lparr>f_sect := sect\<rparr>) \<and> fptr fp' = fptr fp \<and> f_clust fp' = f_clust fp"
proof (cases "f_sect fp = sect")
  case True
  then have e: "fp\<lparr>f_sect := sect\<rparr> = fp" by simp
  show ?thesis by (rule exI [of _ fp], rule exI [of _ fs], unfold e) (use True c b in simp)
next
  case False
  obtain f1 g where w: "write_back M fp fs = Some (True, fp\<lparr>f_flag := g\<rparr>, f1)" "chain_ok ready sector ch f1"
      "buffer_ok sector ch f1 (fp\<lparr>f_flag := g\<rparr>)" "\<not> dirty (fp\<lparr>f_flag := g\<rparr>)" "kept sector ch fs fp f1 (fp\<lparr>f_flag := g\<rparr>)"
    using write_back_ok [OF c b] by blast
  have "unat sect \<in> cluster_sectors f1 (set ch)" using sect w(5) cluster_sectors_same [of fs f1] by (simp add: kept_def framed_def)
  from fill_buf_ok [OF w(2-4) this] obtain b d where f: "fill_buf M sect (fp\<lparr>f_flag := g\<rparr>) f1 = Some (True, fp\<lparr>f_flag := g\<rparr>\<lparr>f_buf := b\<rparr>, f1\<lparr>dev := d\<rparr>)"
      "chain_ok ready sector ch (f1\<lparr>dev := d\<rparr>)" "buffer_ok sector ch (f1\<lparr>dev := d\<rparr>) (fp\<lparr>f_flag := g\<rparr>\<lparr>f_buf := b, f_sect := sect\<rparr>)"
      "kept sector ch f1 (fp\<lparr>f_flag := g\<rparr>) (f1\<lparr>dev := d\<rparr>) (fp\<lparr>f_flag := g\<rparr>\<lparr>f_buf := b, f_sect := sect\<rparr>)" by blast
  show ?thesis
    by (rule exI [of _ "fp\<lparr>f_flag := g\<rparr>\<lparr>f_buf := b\<rparr>"], rule exI [of _ "f1\<lparr>dev := d\<rparr>"])
      (use False w(1) f kept_trans [OF w(5) f(4)] in simp)
qed

lemma read_sect_runs:
  assumes c: "chain_ok ready sector ch fs" and b: "buffer_ok sector ch fs fp"
    and p: "unat (fptr fp) mod 512 = 0" "unat (fptr fp) + unat btr \<le> length ch * (unat (csize fs) * 512)" "0 < unat btr"
    and cl: "f_clust fp = of_nat (ch ! (unat (fptr fp) div (unat (csize fs) * 512)))"
    and cs: "unat csect = (unat (fptr fp) div 512) mod unat (csize fs)"
    and True: "btr div 512 > 0"
  shows "read_part ready sector ch btr fs fp (read_sect M btr csect fp fs)"
proof -
  let ?p = "unat (fptr fp)" and ?s = "unat (csize fs)"
  note cc = chain_ok_chain [OF c]
  have s: "0 < ?s" "?s \<le> 128" using cc(2) by (auto simp: data_ok_def)
  have pl: "?p < length ch * (?s * 512)" using p(2,3) by linarith
  note ps = position_sector [OF c pl cl cs]
  define sect where "sect = clst2sect (f_clust fp) fs + csect"
  have us: "unat sect = file_sector fs ch (?p div 512)" using ps(2) by (simp add: sect_def)
  have q: "unat (btr div 512) = unat btr div 512" by (simp add: unat_div)
  define k where "k = clip_count csect (btr div 512) fs"
  have "unat (btr div 512) < 2 ^ 24" using unat_lt_u32 [of btr] unfolding q by (simp add: div_less_iff_less_mult)
  then have k: "unat k = min (unat btr div 512) (?s - unat csect)" using clip_count_min [OF cc(2) ps(4)] by (simp add: k_def q)
  have k0: "0 < unat k" using k True ps(4) q by (simp add: word_less_nat_alt)
  have kb: "512 * unat k \<le> unat btr" using k div_times_less_eq_dividend [of "unat btr" 512] by (simp add: min_def mult.commute split: if_splits)
  have u512: "unat (512 * k) = 512 * unat k" using kb unat_lt_u32 [of btr] by (subst unat_mult_u32) simp_all
  have run: "\<And>j. j < unat k \<Longrightarrow> file_sector fs ch (?p div 512 + j) = unat sect + j" using ps(7) k us by simp
  have fit: "unat sect + unat k \<le> 2 ^ 28" using ps(3) min.cobounded2 [of "unat btr div 512" "?s - unat csect"] k us by linarith
  obtain d where d: "read_direct M sect k fp fs = Some (Moved (512 * k), map (file_byte sector fs fp ch) [?p..<?p + 512 * unat k], fp, fs\<lparr>dev := d\<rparr>)"
      "ready d" "sector d = sector (dev fs)"
    using read_direct_ok [OF c b us p(1) run fit] by blast
  note dc = device_changed [OF c d(2), unfolded d(3), OF refl]
  have "read_sect M btr csect fp fs = Some (Moved (512 * k), map (file_byte sector fs fp ch) [?p..<?p + unat (512 * k)], fp, fs\<lparr>dev := d\<rparr>)"
    unfolding read_sect_def Let_def u512 using d(1) ps(1) True by (simp add: sect_def k_def)
  moreover have "buffer_ok sector ch (fs\<lparr>dev := d\<rparr>) fp" using b d(3) cluster_sectors_same [OF dc(2)] by (simp add: buffer_ok_def)
  moreover have "kept sector ch fs fp (fs\<lparr>dev := d\<rparr>) fp"
    using dc same_fil d(3) by (simp add: kept_def framed_def buffered_def)
  moreover have "(?p + 512 * unat k - 1) div (?s * 512) = ?p div (?s * 512)"
    by (rule within_cluster [OF p(1)]) (use k k0 cs s in simp_all)
  ultimately show ?thesis unfolding read_part_def using dc(1) k0 kb p(1) unfolding u512 [symmetric]
    by (intro exI [of _ "512 * k"] exI [of _ fp] exI [of _ "fs\<lparr>dev := d\<rparr>"]) (simp add: u512)
qed

lemma read_sect_partial:
  assumes c: "chain_ok ready sector ch fs" and b: "buffer_ok sector ch fs fp"
    and p: "unat (fptr fp) mod 512 = 0" "unat (fptr fp) + unat btr \<le> length ch * (unat (csize fs) * 512)" "0 < unat btr"
    and cl: "f_clust fp = of_nat (ch ! (unat (fptr fp) div (unat (csize fs) * 512)))"
    and cs: "unat csect = (unat (fptr fp) div 512) mod unat (csize fs)"
    and False: "\<not> btr div 512 > 0"
  shows "read_part ready sector ch btr fs fp (read_sect M btr csect fp fs)"
proof -
  let ?p = "unat (fptr fp)" and ?s = "unat (csize fs)"
  note cc = chain_ok_chain [OF c]
  have s: "0 < ?s" "?s \<le> 128" using cc(2) by (auto simp: data_ok_def)
  have pl: "?p < length ch * (?s * 512)" using p(2,3) by linarith
  note ps = position_sector [OF c pl cl cs]
  define sect where "sect = clst2sect (f_clust fp) fs + csect"
  have us: "unat sect = file_sector fs ch (?p div 512)" using ps(2) by (simp add: sect_def)
  have q: "unat (btr div 512) = unat btr div 512" by (simp add: unat_div)
  have lt: "unat btr < 512" using q False by (simp add: word_less_nat_alt div_eq_0_iff)
  have in_c: "unat sect \<in> cluster_sectors fs (set ch)" using ps(5) us by simp
  obtain fp1 f1 where l: "(if f_sect fp \<noteq> sect then do {
         (ok, fp, fs) \<leftarrow> write_back M fp fs;
         if ok then fill_buf M sect fp fs else Some (False, fp, fs)
       } else Some (True, fp, fs)) = Some (True, fp1, f1)" "chain_ok ready sector ch f1" "buffer_ok sector ch f1 (fp1\<lparr>f_sect := sect\<rparr>)"
      "kept sector ch fs fp f1 (fp1\<lparr>f_sect := sect\<rparr>)" "fptr fp1 = fptr fp" "f_clust fp1 = f_clust fp"
    using load_sector_ok [OF c b in_c] by blast
  have v: "same_volume fs f1" using l(4) by (simp add: kept_def framed_def)
  have z: "f_sect (fp1\<lparr>f_sect := sect\<rparr>) \<noteq> 0" using us ps(6) by auto
  have us1: "unat (f_sect (fp1\<lparr>f_sect := sect\<rparr>)) = file_sector f1 ch (unat (fptr (fp1\<lparr>f_sect := sect\<rparr>)) div 512)"
    using us l(5) file_sector_same [OF v] by simp
  obtain r where r: "read_buf btr (fp1\<lparr>f_sect := sect\<rparr>) f1 =
        Some (Moved r, map (file_byte sector f1 (fp1\<lparr>f_sect := sect\<rparr>) ch) [?p..<?p + unat r], fp1\<lparr>f_sect := sect\<rparr>, f1)"
      "unat r = min (unat btr) (512 - ?p mod 512)"
    using read_buf_ok [OF l(2,3) z us1 p(3)] l(5) by auto
  have rb: "unat r = unat btr" using r(2) lt p(1) by simp
  have by_eq: "map (file_byte sector f1 (fp1\<lparr>f_sect := sect\<rparr>) ch) [?p..<?p + unat r] = map (file_byte sector fs fp ch) [?p..<?p + unat r]"
    by (rule map_cong [OF refl]) (use kept_byte [OF l(4) cc(2)] p(2) rb in auto)
  have e: "(?p + unat r) div 512 = ?p div 512" using div_mod_inside [of ?p "unat r"] p(1) lt rb by simp
  have "read_sect M btr csect fp fs = Some (Moved r, map (file_byte sector fs fp ch) [?p..<?p + unat r], fp1\<lparr>f_sect := sect\<rparr>, f1)"
    unfolding read_sect_def Let_def sect_def [symmetric] l(1) by_eq [symmetric] using r(1) ps(1) False by simp
  moreover have "(?p + unat r - 1) div (?s * 512) = ?p div (?s * 512)"
  proof (rule within_cluster [OF p(1)])
    have "512 * 1 \<le> 512 * (?s - ?p div 512 mod ?s)" using ps(4) cs by (intro mult_le_mono2) simp
    then show "unat r \<le> 512 * (?s - ?p div 512 mod ?s)" using rb lt by linarith
  qed (use rb p(3) s in simp_all)
  ultimately show ?thesis unfolding read_part_def using l rb p(3) e us
    by (intro exI [of _ r] exI [of _ "fp1\<lparr>f_sect := sect\<rparr>"] exI [of _ f1]) simp
qed

lemma read_sect_ok:
  assumes c: "chain_ok ready sector ch fs" and b: "buffer_ok sector ch fs fp"
    and p: "unat (fptr fp) mod 512 = 0" "unat (fptr fp) + unat btr \<le> length ch * (unat (csize fs) * 512)" "0 < unat btr"
    and cl: "f_clust fp = of_nat (ch ! (unat (fptr fp) div (unat (csize fs) * 512)))"
    and cs: "unat csect = (unat (fptr fp) div 512) mod unat (csize fs)"
  shows "read_part ready sector ch btr fs fp (read_sect M btr csect fp fs)"
  using read_sect_runs [OF assms] read_sect_partial [OF assms] by blast

lemma read_located_ok:
  assumes f: "file_ok ready sector ch fs fp" and p: "unat (fptr fp) mod 512 = 0" "unat (fptr fp) < unat (objsize fp)"
  shows "\<exists>fs'. (if sector_in_cluster fp fs = 0 then read_cluster M fp fs else Some (None, fp, fs)) =
      Some (None, fp\<lparr>f_clust := of_nat (ch ! (unat (fptr fp) div (unat (csize fs) * 512)))\<rparr>, fs') \<and> unchanged ready sector fs fs'"
proof -
  let ?p = "unat (fptr fp)" and ?s = "unat (csize fs)"
  have c: "chain_ok ready sector ch fs" and pos: "position_ok ch fs fp" using f by (simp_all add: file_ok_def)
  note cc = chain_ok_chain [OF c]
  have s: "0 < ?s" using cc(2) by (auto simp: data_ok_def)
  have cm: "unat (sector_in_cluster fp fs) = ?p div 512 mod ?s" by (rule csect_mod [OF cc(2)])
  have al: "?p = 512 * (?p div 512)" using p(1) by auto
  show ?thesis
  proof (cases "sector_in_cluster fp fs = 0")
    case True
    then have "?s dvd ?p div 512" using cm by (simp add: mod_eq_0_iff_dvd)
    then have "512 * ?s dvd 512 * (?p div 512)" by (rule mult_dvd_mono [OF dvd_refl])
    then have "?p mod (?s * 512) = 0" unfolding al [symmetric] by (simp add: mult.commute mod_eq_0_iff_dvd)
    from read_cluster_ok [OF f p(2) this] show ?thesis using True by simp
  next
    case False
    then have r: "0 < ?p div 512 mod ?s" using cm unat_gt_0 by metis
    have "f_clust fp = of_nat (ch ! (?p div (?s * 512)))" using pos mid_cluster [OF p(1) r s] by (simp add: position_ok_def)
    then have "fp\<lparr>f_clust := of_nat (ch ! (?p div (?s * 512)))\<rparr> = fp" by simp
    moreover have "unchanged ready sector fs fs" using cc(1) by (simp add: unchanged_def)
    ultimately show ?thesis using False by simp
  qed
qed

lemma read_finish:
  assumes f: "file_ok ready sector ch fs fp" and n: "unat (fptr fp) + unat btr \<le> unat (objsize fp)"
    and r: "0 < unat r" "unat r \<le> unat btr"
    and k: "chain_ok ready sector ch fs'" "buffer_ok sector ch fs' fp'" "kept sector ch fs fp fs' fp'" "fptr fp' = fptr fp"
    and cl: "f_clust fp' = of_nat (ch ! ((unat (fptr fp) + unat r - 1) div (unat (csize fs) * 512)))"
    and se: "(unat (fptr fp) + unat r) mod 512 \<noteq> 0 \<longrightarrow> unat (f_sect fp') = file_sector fs ch ((unat (fptr fp) + unat r) div 512)"
  shows "file_ok ready sector ch fs' (fp'\<lparr>fptr := fptr fp' + r\<rparr>)" "kept sector ch fs fp fs' (fp'\<lparr>fptr := fptr fp' + r\<rparr>)"
proof -
  have pos: "position_ok ch fs fp" using f by (simp add: file_ok_def)
  have v: "same_volume fs fs'" using k(3) by (simp add: kept_def framed_def)
  have u: "unat (fptr fp + r) = unat (fptr fp) + unat r" using n r unat_lt_u32 [of "objsize fp"] by (intro unat_add_u32) simp
  have "position_ok ch fs' (fp'\<lparr>fptr := fptr fp' + r\<rparr>)"
    using pos cl se r n kept_fields [OF k(3)] unfolding position_ok_def
    by (simp add: k(4) u file_sector_same [OF v] same_volume_simps [OF v] word_le_nat_alt)
  moreover have "buffer_ok sector ch fs' (fp'\<lparr>fptr := fptr fp' + r\<rparr>)" using k(2) by (simp add: buffer_ok_def dirty_def)
  ultimately show "file_ok ready sector ch fs' (fp'\<lparr>fptr := fptr fp' + r\<rparr>)" using k(1) f kept_fields [OF k(3)] by (simp add: file_ok_def)
  obtain q c x b g where "fp' = fp\<lparr>f_flag := g, fptr := q, f_clust := c, f_sect := x, f_buf := b\<rparr>" "g AND NOT FA_DIRTY = f_flag fp AND NOT FA_DIRTY"
    using k(3) by (auto simp: kept_def framed_def)
  then have "\<exists>q c x b g. fp'\<lparr>fptr := fptr fp' + r\<rparr> = fp\<lparr>f_flag := g, fptr := q, f_clust := c, f_sect := x, f_buf := b\<rparr> \<and> g AND NOT FA_DIRTY = f_flag fp AND NOT FA_DIRTY"
    by (intro exI [of _ "fptr fp' + r"] exI [of _ c] exI [of _ x] exI [of _ b] exI [of _ g]) simp
  moreover have "buffered sector fs' (fp'\<lparr>fptr := fptr fp' + r\<rparr>) l = buffered sector fs' fp' l" for l by (simp add: buffered_def)
  ultimately show "kept sector ch fs fp fs' (fp'\<lparr>fptr := fptr fp' + r\<rparr>)" using k(3) by (simp add: kept_def framed_def)
qed

lemma read_turn_aligned:
  assumes f: "file_ok ready sector ch fs fp" and n: "0 < unat btr" "unat (fptr fp) + unat btr \<le> unat (objsize fp)"
    and True: "unat (fptr fp) mod 512 = 0"
  shows "read_step ready sector ch btr fs fp (read_turn M btr fp fs)"
proof -
  let ?p = "unat (fptr fp)" and ?s = "unat (csize fs)"
  have c: "chain_ok ready sector ch fs" and b: "buffer_ok sector ch fs fp" and pos: "position_ok ch fs fp" using f by (simp_all add: file_ok_def)
  note cc = chain_ok_chain [OF c]
  have s: "0 < ?s" using cc(2) by (auto simp: data_ok_def)
  have size: "unat (objsize fp) \<le> length ch * (?s * 512)" using pos by (simp add: position_ok_def)
  have m0: "fptr fp mod 512 = 0" using True by (simp add: word_unat_eq_iff unat_mod)
  let ?c = "of_nat (ch ! (?p div (?s * 512))) :: u32" and ?cs = "sector_in_cluster fp fs"
  have "?p < unat (objsize fp)" using n by linarith
  from read_located_ok [OF f True this] obtain f1 where l: "(if ?cs = 0 then read_cluster M fp fs else Some (None, fp, fs)) =
      Some (None, fp\<lparr>f_clust := ?c\<rparr>, f1)" "unchanged ready sector fs f1" by blast
  note kf = kept_fat(1,2) [OF l(2) c b] kept_fat(3) [OF l(2) c b, of ?c]
  have v: "same_volume fs f1" using l(2) by (simp add: unchanged_def)
  have cs1: "csize f1 = csize fs" using same_volume_simps [OF v] by simp
  have cm: "unat ?cs = ?p div 512 mod ?s" by (rule csect_mod [OF cc(2)])
  have b1: "buffer_ok sector ch f1 (fp\<lparr>f_clust := ?c\<rparr>)" using kf(2) by (simp add: buffer_ok_def dirty_def)
  have fc: "fptr (fp\<lparr>f_clust := ?c\<rparr>) = fptr fp" "f_clust (fp\<lparr>f_clust := ?c\<rparr>) = ?c" by simp_all
  have "?p + unat btr \<le> length ch * (?s * 512)" using n size by linarith
  then obtain r fp' fs' where t: "read_sect M btr ?cs (fp\<lparr>f_clust := ?c\<rparr>) f1 =
        Some (Moved r, map (file_byte sector f1 (fp\<lparr>f_clust := ?c\<rparr>) ch) [?p..<?p + unat r], fp', fs')"
      "0 < unat r" "unat r \<le> unat btr" "chain_ok ready sector ch fs'" "buffer_ok sector ch fs' fp'" "kept sector ch f1 (fp\<lparr>f_clust := ?c\<rparr>) fs' fp'"
      "fptr fp' = fptr fp" "f_clust fp' = ?c" "(?p + unat r - 1) div (?s * 512) = ?p div (?s * 512)"
      "(?p + unat r) mod 512 \<noteq> 0 \<longrightarrow> unat (f_sect fp') = file_sector f1 ch ((?p + unat r) div 512)"
    using read_sect_ok [OF kf(1) b1, of btr ?cs, unfolded cs1 fc, OF True _ n(1) refl cm] unfolding read_part_def cs1 fc by blast
  have "map (file_byte sector f1 (fp\<lparr>f_clust := ?c\<rparr>) ch) [?p..<?p + unat r] = map (file_byte sector fs fp ch) [?p..<?p + unat r]"
    by (rule map_cong [OF refl]) (use kept_byte [OF kf(3) cc(2)] n(2) size t(3) in auto)
  then have "read_turn M btr fp fs = Some (Moved r, map (file_byte sector fs fp ch) [?p..<?p + unat r], fp', fs')"
    unfolding read_turn_def Let_def using m0 l(1) t(1) by simp
  moreover have "f_clust fp' = of_nat (ch ! ((?p + unat r - 1) div (?s * 512)))" unfolding t(8,9) ..
  note read_finish [OF f n(2) t(2,3,4,5) kept_trans [OF kf(3) t(6)] t(7) this t(10) [unfolded file_sector_same [OF v]]]
  ultimately show ?thesis unfolding read_step_def using t(2,3,7) by blast
qed

lemma read_turn_inside:
  assumes f: "file_ok ready sector ch fs fp" and n: "0 < unat btr" "unat (fptr fp) + unat btr \<le> unat (objsize fp)"
    and False: "unat (fptr fp) mod 512 \<noteq> 0"
  shows "read_step ready sector ch btr fs fp (read_turn M btr fp fs)"
proof -
  let ?p = "unat (fptr fp)" and ?s = "unat (csize fs)"
  have c: "chain_ok ready sector ch fs" and b: "buffer_ok sector ch fs fp" and pos: "position_ok ch fs fp" using f by (simp_all add: file_ok_def)
  note cc = chain_ok_chain [OF c]
  have s: "0 < ?s" using cc(2) by (auto simp: data_ok_def)
  have size: "unat (objsize fp) \<le> length ch * (?s * 512)" using pos by (simp add: position_ok_def)
  have m0: "fptr fp mod 512 \<noteq> 0" using False by (simp add: word_unat_eq_iff unat_mod)
  have sec: "unat (f_sect fp) = file_sector fs ch (?p div 512)" using pos False by (simp add: position_ok_def)
  have "?p div 512 < length ch * ?s" using n size by (simp add: div_less_iff_less_mult)
  from file_sector_in [OF cc(2) this] have "0 < file_sector fs ch (?p div 512)" by (rule cluster_sectors_small(1) [OF cc(2) _ cc(5)])
  then have z: "f_sect fp \<noteq> 0" using sec by auto
  obtain r where r: "read_buf btr fp fs = Some (Moved r, map (file_byte sector fs fp ch) [?p..<?p + unat r], fp, fs)" "unat r = min (unat btr) (512 - ?p mod 512)"
    using read_buf_ok [OF c b z sec n(1)] by blast
  have lt: "?p mod 512 < 512" by simp
  have r0: "0 < unat r" "unat r \<le> unat btr" "?p mod 512 + unat r \<le> 512"
    using min.cobounded1 [of "unat btr" "512 - ?p mod 512"] min.cobounded2 [of "unat btr" "512 - ?p mod 512"] lt n(1) unfolding r(2) by auto
  have "(?p + unat r - 1) div (?s * 512) = (?p - 1) div (?s * 512)" by (rule inside_sector(1) [OF False r0(1,3)])
  moreover have "0 < ?p" using False by (cases "?p = 0") auto
  ultimately have cl: "f_clust fp = of_nat (ch ! ((?p + unat r - 1) div (?s * 512)))" using pos by (simp add: position_ok_def)
  have se: "(?p + unat r) mod 512 \<noteq> 0 \<longrightarrow> unat (f_sect fp) = file_sector fs ch ((?p + unat r) div 512)"
    using inside_sector(2) [OF False r0(1,3)] sec by simp
  note fin = read_finish [OF f n(2) r0(1,2) c b kept_refl refl cl se]
  have "read_turn M btr fp fs = Some (Moved r, map (file_byte sector fs fp ch) [?p..<?p + unat r], fp, fs)" using r(1) m0 by (simp add: read_turn_def)
  then show ?thesis unfolding read_step_def using r0 fin by blast
qed

lemma read_turn_ok:
  assumes f: "file_ok ready sector ch fs fp" and n: "0 < unat btr" "unat (fptr fp) + unat btr \<le> unat (objsize fp)"
  shows "read_step ready sector ch btr fs fp (read_turn M btr fp fs)"
  using read_turn_aligned [OF assms] read_turn_inside [OF assms] by blast

lemma read_loop_ok:
  assumes "file_ok ready sector ch fs fp" "unat (fptr fp) + unat btr \<le> unat (objsize fp)"
  shows "\<exists>fp' fs'. read_loop M btr out fp fs =
      Some (FR_OK, out @ map (file_byte sector fs fp ch) [unat (fptr fp)..<unat (fptr fp) + unat btr], fp', fs') \<and>
    file_ok ready sector ch fs' fp' \<and> kept sector ch fs fp fs' fp' \<and> unat (fptr fp') = unat (fptr fp) + unat btr"
  using assms
proof (induction "unat btr" arbitrary: btr out fp fs rule: less_induct)
  case less
  note f = less.prems(1) and n = less.prems(2)
  let ?p = "unat (fptr fp)"
  show ?case
  proof (cases "0 < unat btr")
    case False
    then show ?thesis using f by (subst read_loop.simps) (simp add: word_less_nat_alt)
  next
    case True
    obtain r fp1 f1 where t: "read_turn M btr fp fs = Some (Moved r, map (file_byte sector fs fp ch) [?p..<?p + unat r], fp1, f1)"
        "0 < unat r" "unat r \<le> unat btr" "fptr fp1 = fptr fp" "file_ok ready sector ch f1 (fp1\<lparr>fptr := fptr fp1 + r\<rparr>)"
        "kept sector ch fs fp f1 (fp1\<lparr>fptr := fptr fp1 + r\<rparr>)"
      using read_turn_ok [OF f True n] unfolding read_step_def by blast
    let ?q = "fp1\<lparr>fptr := fptr fp1 + r\<rparr>"
    have sub: "unat (btr - r) = unat btr - unat r" using t(3) by (simp add: unat_sub word_le_nat_alt)
    have u: "unat (fptr ?q) = ?p + unat r" using n t(3) unat_lt_u32 [of "objsize fp"] by (simp add: t(4) unat_add_u32)
    have o: "objsize ?q = objsize fp" using kept_fields(1) [OF t(6)] .
    have a: "unat (btr - r) < unat btr" "unat (fptr ?q) + unat (btr - r) \<le> unat (objsize ?q)" using t(2,3) n unfolding sub u o by simp_all
    obtain fp' fs' where g: "read_loop M (btr - r) (out @ map (file_byte sector fs fp ch) [?p..<?p + unat r]) ?q f1 =
          Some (FR_OK, (out @ map (file_byte sector fs fp ch) [?p..<?p + unat r]) @ map (file_byte sector f1 ?q ch) [unat (fptr ?q)..<unat (fptr ?q) + unat (btr - r)], fp', fs')"
        "file_ok ready sector ch fs' fp'" "kept sector ch f1 ?q fs' fp'" "unat (fptr fp') = unat (fptr ?q) + unat (btr - r)"
      using less.hyps [OF a(1) t(5) a(2)] by blast
    have size: "unat (objsize fp) \<le> length ch * (unat (csize fs) * 512)" "data_ok fs" using f by (simp_all add: file_ok_def position_ok_def chain_ok_def)
    have fin: "unat (fptr ?q) + unat (btr - r) = ?p + unat btr" using t(3) unfolding sub u by simp
    have "map (file_byte sector f1 ?q ch) [unat (fptr ?q)..<?p + unat btr] = map (file_byte sector fs fp ch) [unat (fptr ?q)..<?p + unat btr]"
      by (rule map_cong [OF refl]) (use kept_byte [OF t(6) size(2)] size(1) n in auto)
    moreover have "[?p..<?p + unat btr] = [?p..<?p + unat r] @ [?p + unat r..<?p + unat btr]" using t(3) upt_add_eq_append [of ?p "?p + unat r" "unat btr - unat r"] by simp
    ultimately have "(out @ map (file_byte sector fs fp ch) [?p..<?p + unat r]) @ map (file_byte sector f1 ?q ch) [unat (fptr ?q)..<unat (fptr ?q) + unat (btr - r)] =
        out @ map (file_byte sector fs fp ch) [?p..<?p + unat btr]" unfolding fin unfolding u by simp
    note whole = g(1) [unfolded this]
    have "read_loop M btr out fp fs = Some (FR_OK, out @ map (file_byte sector fs fp ch) [?p..<?p + unat btr], fp', fs')"
      using True whole t(1) by (subst read_loop.simps) (simp add: word_less_nat_alt)
    then show ?thesis using g(2) kept_trans [OF t(6) g(3)] g(4) fin by simp
  qed
qed

lemma f_read_ok:
  assumes f: "file_ok ready sector ch fs fp" and m: "f_flag fp AND FA_READ \<noteq> 0"
  shows "\<exists>fp' fs'. f_read M btr fp fs = Some (FR_OK, take (unat btr) (drop (unat (fptr fp)) (contents sector fs fp ch)), fp', fs') \<and>
    file_ok ready sector ch fs' fp' \<and> kept sector ch fs fp fs' fp' \<and> contents sector fs' fp' ch = contents sector fs fp ch \<and>
    unat (fptr fp') = min (unat (fptr fp) + unat btr) (unat (objsize fp))"
proof -
  let ?p = "unat (fptr fp)"
  have size: "unat (objsize fp) \<le> length ch * (unat (csize fs) * 512)" "fptr fp \<le> objsize fp" "data_ok fs"
    using f by (simp_all add: file_ok_def position_ok_def chain_ok_def)
  have "fs_type fs \<noteq> 0" using f by (auto simp: file_ok_def chain_ok_def fat_ok_def fat_geometry_def FS_FAT12_def FS_FAT16_def FS_FAT32_def)
  then have v: "validate fp fs = FR_OK" using f by (simp add: validate_def file_ok_def disk_status_def)
  define n where "n = (if btr > objsize fp - fptr fp then objsize fp - fptr fp else btr)"
  have sub: "unat (objsize fp - fptr fp) = unat (objsize fp) - ?p" using size(2) by (simp add: unat_sub)
  have n: "unat n = min (unat btr) (unat (objsize fp) - ?p)" using sub by (auto simp: n_def word_less_nat_alt)
  have le: "?p \<le> unat (objsize fp)" using size(2) by (simp add: word_le_nat_alt)
  have fit: "?p + unat n \<le> unat (objsize fp)" using n le by linarith
  obtain fp' fs' where g: "read_loop M n [] fp fs = Some (FR_OK, map (file_byte sector fs fp ch) [?p..<?p + unat n], fp', fs')"
      "file_ok ready sector ch fs' fp'" "kept sector ch fs fp fs' fp'" "unat (fptr fp') = ?p + unat n"
    using read_loop_ok [OF f fit, of "[]"] by auto
  have "f_read M btr fp fs = read_loop M n [] fp fs"
    using v m f by (simp add: f_read_def FR_OK_def n_def Let_def file_ok_def)
  moreover have "map (file_byte sector fs fp ch) [?p..<?p + unat n] = take (unat btr) (drop ?p (contents sector fs fp ch))"
    unfolding contents_def drop_map take_map drop_upt
    by (cases "unat btr \<le> unat (objsize fp) - ?p") (use n le in \<open>simp_all add: take_upt\<close>)
  moreover have "contents sector fs' fp' ch = contents sector fs fp ch"
    unfolding contents_def kept_fields(1) [OF g(3)] by (rule map_cong [OF refl]) (use kept_byte [OF g(3) size(3)] size(1) in auto)
  ultimately show ?thesis using g n le by (auto simp: min_def)
qed

end

section \<open>Main property\<close>

text \<open>A file of five bytes in the one allocated cluster of the small volume, open for reading and writing.\<close>

definition small_file :: FIL where
  "small_file = \<lparr>obj_fs = True, obj_id = 1, sclust = 2, objsize = 5, f_flag = 3, f_err = 0, fptr = 0, f_clust = 0, f_sect = 0,
     dir_sect = 3, dir_ptr = 0, f_buf = replicate 512 0\<rparr>"

lemma small_file_ok: "file_ok (drive_ready id) (drive_sector id) [2] small_volume small_file"
proof -
  have "unat (n_fatent small_volume) = 200" "unat (winsect small_volume) = 1" "unat (csize small_volume) = 1" "unat (database small_volume) = 4"
    by (simp_all add: small_volume_def)
  then have g: "data_ok small_volume" "1 \<notin> cluster_sectors small_volume C" for C
    by (auto simp: data_ok_def cluster_sectors_def cluster_base_def) (simp_all add: small_volume_def)
  have "fat_chain 200 (fat_entry (drive_sector id) small_volume) [2]" by (simp add: small_volume_entry)
  then have "chain_ok (drive_ready id) (drive_sector id) [2] small_volume" using small_volume_ok g by (simp add: chain_ok_def small_volume_def)
  then show ?thesis by (simp add: file_ok_def buffer_ok_def position_ok_def small_file_def dirty_def FA_DIRTY_def small_volume_def)
qed

lemma small_file_contents: "contents (drive_sector id) small_volume small_file [2] = [0, 0, 0, 0, 0xFF]"
proof -
  have "file_byte (drive_sector id) small_volume small_file [2] i = bytes_of (small_media 4) ! i" if "i < 512" for i
    using that by (simp add: file_byte_def buffered_def file_sector_def cluster_base_def small_file_def small_volume_def small_drive_def drive_sector_def)
  moreover have five: "[0..<5] = [0, 1, 2, 3, 4 :: nat]" by code_simp
  have low: "(65535 :: u8) = 255" by code_simp
  have "map (\<lambda>i. bytes_of (small_media 4) ! i) [0..<5] = [0, 0, 0, 0, 0xFF]"
    unfolding five using nth_bytes_of [of 0 "small_media 4"] nth_bytes_of [of 1 "small_media 4"] nth_bytes_of [of 2 "small_media 4"]
    by (simp add: small_media_def low)
  moreover have "contents (drive_sector id) small_volume small_file [2] = map (\<lambda>i. bytes_of (small_media 4) ! i) [0..<5]"
    unfolding contents_def by (rule map_cong) (use calculation(1) in \<open>simp_all add: small_file_def\<close>)
  ultimately show ?thesis by simp
qed

text \<open>C9. On a device that keeps its contract, \<open>f_read\<close> of a file in good order that is open for reading returns
  the bytes of the file from the file pointer on, as many as asked for or as there are left, whether they come from the
  buffer, a part of a sector or runs of whole sectors; the pointer moves behind them, the file stays in good
  order with the same contents, and no entry of the FAT and no sector outside the file's clusters and the second
  copy of the FAT changes.\<close>

theorem f_read_returns_bytes:
  assumes dev: "multi_device M ready sector" and f: "file_ok ready sector ch fs fp" and m: "f_flag fp AND FA_READ \<noteq> 0"
  shows "\<exists>fp' fs'. f_read M btr fp fs = Some (FR_OK, take (unat btr) (drop (unat (fptr fp)) (contents sector fs fp ch)), fp', fs') \<and>
    unat (fptr fp') = min (unat (fptr fp) + unat btr) (unat (objsize fp)) \<and>
    file_ok ready sector ch fs' fp' \<and> contents sector fs' fp' ch = contents sector fs fp ch \<and>
    (\<forall>c < unat (n_fatent fs). fat_entry sector fs' c = fat_entry sector fs c) \<and>
    (\<forall>l. l \<notin> cluster_sectors fs (set ch) \<union> mirror fs \<longrightarrow> volume sector fs' l = volume sector fs l)"
  using multi_device.f_read_ok [OF dev f m, of btr] unfolding kept_def framed_def by blast

theorem f_read_returns_bytes_witness:
  "\<exists>fp' fs'. f_read (driver_multi ref_ports ata_tick) 100 small_file small_volume = Some (FR_OK, [0, 0, 0, 0, 0xFF], fp', fs') \<and> unat (fptr fp') = 5"
proof -
  have "f_flag small_file AND FA_READ \<noteq> 0" by (simp add: small_file_def FA_READ_def)
  from f_read_returns_bytes [OF atam.multi_device_axioms small_file_ok this, of 100]
  show ?thesis unfolding small_file_contents by (auto simp: small_file_def)
qed

end
