(* ===== verification/Fat_Write.thy ===== *)
theory Fat_Write
  imports Fat_Read
begin

text \<open>
  What \<open>f_write\<close> of FatFs does: on a device that keeps its contract and a file in good order, the bytes replace those
  of the file from the file pointer on and the file grows, its chain stretched when it needs clusters; fewer bytes are
  written only when no cluster is free.
\<close>

section \<open>Allocation\<close>

text \<open>The count of free clusters is right or unknown, and no entry holds the reserved value 1.\<close>

definition alloc_ok :: "('d \<Rightarrow> nat \<Rightarrow> u8 list) \<Rightarrow> 'd FATFS \<Rightarrow> bool" where
  "alloc_ok sector fs \<longleftrightarrow> accurate (fat_entry sector fs) fs \<and>
     (\<forall>c. 2 \<le> c \<and> c < unat (n_fatent fs) \<longrightarrow> fat_entry sector fs c \<noteq> 1)"

lemma accurate_cong:
  assumes "accurate T fs" "free_clst fs' = free_clst fs" "n_fatent fs' = n_fatent fs"
    and "\<And>c. 2 \<le> c \<Longrightarrow> c < unat (n_fatent fs) \<Longrightarrow> T' c = T c"
  shows "accurate T' fs'"
proof -
  have "free_set (unat (n_fatent fs)) T' = free_set (unat (n_fatent fs)) T" using assms(4) by (auto simp: free_set_def)
  then show ?thesis using assms(1-3) by (simp add: accurate_def)
qed

lemma alloc_ok_same:
  assumes "alloc_ok sector fs" "same_volume fs fs'" "\<forall>c < unat (n_fatent fs). fat_entry sector fs' c = fat_entry sector fs c"
  shows "alloc_ok sector fs'"
  using assms(1,3) accurate_cong [of "fat_entry sector fs" fs fs' "fat_entry sector fs'"] same_volume_simps [OF assms(2)]
  by (simp add: alloc_ok_def)

text \<open>The table after \<open>k\<close> is linked behind a chain.\<close>

lemma stretched_chain:
  assumes fc: "ch \<noteq> [] \<Longrightarrow> fat_chain n T ch" and n: "n \<le> 2 ^ 32" and k: "k \<in> free_set n T" and m: "n \<le> unat m"
    and T': "\<And>x. 2 \<le> x \<Longrightarrow> x < n \<Longrightarrow> T' x = (if x = k then m else if ch \<noteq> [] \<and> x = last ch then of_nat k else T x)"
  shows "fat_chain n T' (ch @ [k])" "free_set n T' = free_set n T - {k}"
proof -
  have k': "2 \<le> k" "k < n" "T k = 0" using k by (auto simp: free_set_def)
  have used: "2 \<le> x \<and> x < n \<and> T x \<noteq> 0" if "x \<in> set ch" for x using fat_chain_used [OF fc n that] that by (cases "ch = []") auto
  have kch: "k \<notin> set ch" using used k'(3) by auto
  have ku: "unat (of_nat k :: u32) = k" using k' n by (intro unat_of_nat_u32) simp
  have kz: "(of_nat k :: u32) \<noteq> 0"
  proof
    assume "(of_nat k :: u32) = 0"
    then show False using ku k'(1) by simp
  qed
  have "m \<noteq> 0" using m k' by auto
  then show "free_set n T' = free_set n T - {k}"
    using T' kz used [of "last ch"] by (auto simp: free_set_def split: if_splits)
  show "fat_chain n T' (ch @ [k])"
  proof (cases "ch = []")
    case True
    then show ?thesis using k' m T' [OF k'(1,2)] by simp
  next
    case False
    have e: "ch = butlast ch @ [last ch]" "ch @ [k] = butlast ch @ [last ch, k]" using False by simp_all
    have lastn: "2 \<le> last ch" "last ch < n" using used [of "last ch"] False by simp_all
    show ?thesis unfolding e(2)
    proof (rule fat_chain_link [of _ "\<lambda>x. if 2 \<le> x \<and> x < n then T x else T' x"])
      show "fat_chain n (\<lambda>x. if 2 \<le> x \<and> x < n then T x else T' x) (butlast ch @ [last ch])"
        unfolding e(1) [symmetric] by (rule fat_chain_cong [OF fc [OF False]]) (use used in auto)
      show "distinct (butlast ch @ [last ch])" "k \<notin> set (butlast ch @ [last ch])"
        using fat_chain_distinct [OF fc [OF False] n] kch unfolding e(1) [symmetric] by auto
      show "T' (last ch) = of_nat k" using T' [OF lastn] kch False by auto
      show "n \<le> unat (T' k)" using T' [OF k'(1,2)] m by simp
      show "T' x = (if 2 \<le> x \<and> x < n then T x else T' x)" if "x \<noteq> last ch" "x \<noteq> k" for x using T' [of x] that by auto
    qed (use k' in auto)
  qed
qed

lemma linked_table:
  assumes "clst = (if ch = [] then 0 else of_nat (last ch))" "ch \<noteq> [] \<longrightarrow> 2 \<le> last ch \<and> last ch < 2 ^ 32 \<and> last ch \<noteq> unat ncl"
  shows "linked m clst ncl T x = (if x = unat ncl then m else if ch \<noteq> [] \<and> x = last ch then ncl else T x)"
proof (cases "ch = []")
  case False
  then have "unat clst = last ch" using assms by (simp add: unat_of_nat_u32)
  moreover from this have "clst \<noteq> 0" using False assms(2) by auto
  ultimately show ?thesis using False assms(2) by (auto simp: linked_def)
qed (use assms(1) in \<open>simp add: linked_def\<close>)

text \<open>The same clusters, now those of a chain and of the free set, are clear of the window.\<close>

lemma stretched_ok:
  assumes c: "chain_ok ready sector ch fs" and t: "tab ready sector fs T fs'"
    and new: "ch' \<noteq> [] \<Longrightarrow> fat_chain (unat (n_fatent fs)) T ch'"
      "set ch' \<union> free_set (unat (n_fatent fs)) T = set ch \<union> free_set (unat (n_fatent fs)) (fat_entry sector fs)"
  shows "chain_ok ready sector ch' fs'" "cluster_sectors fs' = cluster_sectors fs"
    "\<And>l. l \<in> cluster_sectors fs (set ch) \<Longrightarrow> sector (dev fs') l = sector (dev fs) l"
proof -
  let ?n = "unat (n_fatent fs)" and ?F = "set ch \<union> free_set (unat (n_fatent fs)) (fat_entry sector fs)"
  note cc = chain_ok_chain [OF c]
  have t': "fat_ok ready sector fs'" "same_disk fs fs'" "unat (winsect fs') \<in> insert (unat (winsect fs)) (in_fat fs)"
      "\<And>x. 2 \<le> x \<Longrightarrow> x < ?n \<Longrightarrow> fat_entry sector fs' x = T x"
      "\<And>l. l \<notin> in_fat fs \<union> mirror fs \<Longrightarrow> volume sector fs' l = volume sector fs l"
    using t by (simp_all add: tab_def)
  note sd = same_disk_simps [OF t'(2)]
  show cs: "cluster_sectors fs' = cluster_sectors fs" using sd by (simp add: cluster_sectors_def cluster_base_def fun_eq_iff)
  have "fatbase fs' = fatbase fs \<and> n_fats fs' = n_fats fs" using t'(2) by (auto simp: same_disk_def same_volume_def)
  then have data: "data_ok fs'" using cc(2) sd by (simp add: data_ok_def)
  have w: "unat (winsect fs) \<notin> cluster_sectors fs ?F" using c by (simp add: chain_ok_def)
  then have w': "unat (winsect fs') \<notin> cluster_sectors fs ?F" using t'(3) cluster_sectors_fat(1) [OF cc(2), of _ ?F] by auto
  have "free_set ?n (fat_entry sector fs') = free_set ?n T" using t'(4) by (auto simp: free_set_def)
  moreover have "fat_chain ?n (fat_entry sector fs') ch'" if "ch' \<noteq> []"
    by (rule fat_chain_cong [OF new(1) [OF that]]) (use t'(4) fat_chain_set [OF new(1) [OF that]] in auto)
  ultimately show "chain_ok ready sector ch' fs'" using t'(1) data w' sd new(2) by (simp add: chain_ok_def cs)
  show "sector (dev fs') l = sector (dev fs) l" if l: "l \<in> cluster_sectors fs (set ch)" for l
  proof -
    have "l \<in> cluster_sectors fs ?F" using l by (auto simp: cluster_sectors_def)
    then have "l \<noteq> unat (winsect fs)" "l \<noteq> unat (winsect fs')" using w w' by auto
    moreover have "volume sector fs' l = volume sector fs l" using t'(5) cluster_sectors_fat [OF cc(2) l] by simp
    ultimately show ?thesis by (simp add: volume_def)
  qed
qed

context multi_device
begin

text \<open>Following a chain that goes on.\<close>

lemma create_chain_follows:
  assumes "fat_ok ready sector fs" "2 \<le> unat clst" "unat clst < unat (n_fatent fs)"
    and "2 \<le> unat (fat_entry sector fs (unat clst))" "unat (fat_entry sector fs (unat clst)) < unat (n_fatent fs)"
  shows "\<exists>fs'. create_chain (single_io M) clst fs = Some (fat_entry sector fs (unat clst), fs') \<and> unchanged ready sector fs fs'"
proof -
  obtain fs' where g: "get_fat (single_io M) clst fs = Some (fat_entry sector fs (unat clst), fs')" "unchanged ready sector fs fs'"
    using one.get_fat_ok [OF assms(1-3)] by blast
  have "n_fatent fs' = n_fatent fs" using g(2) same_volume_simps [of fs fs'] by (simp add: unchanged_def)
  moreover have "clst \<noteq> 0" using assms(2) by auto
  ultimately have "chain_start (single_io M) clst fs = Some (Give_up (fat_entry sector fs (unat clst)), fs')"
    using g(1) assms(4,5) fat_entry_no_error [of sector fs "unat clst"] by (simp add: chain_start_def word_less_nat_alt)
  then show ?thesis using g(2) by (simp add: create_chain_def)
qed

text \<open>Stretching a chain: \<open>ch\<close> becomes \<open>ch @ [k]\<close> in the volume.\<close>

lemma create_chain_stretches:
  assumes c: "chain_ok ready sector ch fs" and b: "buffer_ok sector ch fs fp" and a: "alloc_ok sector fs"
    and clst: "clst = (if ch = [] then 0 else of_nat (last ch))"
  shows "\<exists>k fs'. create_chain (single_io M) clst fs = Some (of_nat k, fs') \<and> same_disk fs fs' \<and> alloc_ok sector fs' \<and>
    (\<forall>l \<in> cluster_sectors fs (set ch). sector (dev fs') l = sector (dev fs) l) \<and>
    (\<forall>l. l \<notin> in_fat fs \<union> mirror fs \<longrightarrow> volume sector fs' l = volume sector fs l) \<and>
    (\<forall>c. 2 \<le> c \<and> c < unat (n_fatent fs) \<and> c \<notin> set ch \<and> c \<noteq> k \<longrightarrow> fat_entry sector fs' c = fat_entry sector fs c) \<and>
    (if free_set (unat (n_fatent fs)) (fat_entry sector fs) = {}
     then k = 0 \<and> chain_ok ready sector ch fs' \<and> buffer_ok sector ch fs' fp \<and> free_set (unat (n_fatent fs)) (fat_entry sector fs') = {}
     else k \<in> free_set (unat (n_fatent fs)) (fat_entry sector fs) \<and> chain_ok ready sector (ch @ [k]) fs' \<and> buffer_ok sector (ch @ [k]) fs' fp)"
proof -
  let ?n = "unat (n_fatent fs)" and ?T = "fat_entry sector fs" and ?m = "fat_mask fs"
  note cc = chain_ok_chain [OF c]
  have n: "2 < ?n" using cc(2) by (simp add: data_ok_def)
  have fc: "ch \<noteq> [] \<Longrightarrow> fat_chain ?n ?T ch" using c by (simp add: chain_ok_def)
  have last: "last ch \<in> set ch \<and> 2 \<le> last ch \<and> last ch < ?n \<and> ?n \<le> unat (?T (last ch))" if "ch \<noteq> []"
    using fat_chain_last [of ?n ?T "butlast ch" "last ch"] fc [OF that] that cc(5) [of "last ch"] by simp
  have cl: "clst = 0 \<or> 2 \<le> unat clst \<and> unat clst < ?n \<and> ?n \<le> unat (?T (unat clst))"
    using last clst fatent_bound [of fs] by (cases "ch = []") (simp_all add: unsigned_of_nat take_bit_nat_eq_self)
  have acc: "accurate ?T fs" "\<forall>c. 2 \<le> c \<and> c < ?n \<longrightarrow> ?T c \<noteq> 1" using a by (simp_all add: alloc_ok_def)
  obtain ncl fs' T' where r: "create_chain (single_io M) clst fs = Some (ncl, fs')" "tab ready sector fs T' fs'" "accurate T' fs'"
      "if free_set ?n ?T = {} then ncl = 0 \<and> T' = ?T else unat ncl \<in> free_set ?n ?T \<and> T' = linked ?m clst ncl ?T"
    using one.create_chain_ok [OF tab_refl [OF cc(1)] acc(1) n acc(2) cl] by blast
  have t: "same_disk fs fs'" "\<And>x. 2 \<le> x \<Longrightarrow> x < ?n \<Longrightarrow> fat_entry sector fs' x = T' x"
      "\<forall>l. l \<notin> in_fat fs \<union> mirror fs \<longrightarrow> volume sector fs' l = volume sector fs l" using r(2) by (simp_all add: tab_def)
  note sd = same_disk_simps [OF t(1)]
  have acc': "accurate (fat_entry sector fs') fs'" by (rule accurate_cong [OF r(3)]) (use t(2) sd in simp_all)
  have fr: "free_set ?n (fat_entry sector fs') = free_set ?n T'" using t(2) by (auto simp: free_set_def)
  have kn: "ncl = of_nat (unat ncl)" by simp
  have len: "length (f_buf fp) = 512" using b by (simp add: buffer_ok_def)
  show ?thesis
  proof (cases "free_set ?n ?T = {}")
    case True
    then have z: "unat ncl = 0" "T' = ?T" "ncl = 0" using r(4) by simp_all
    note st = stretched_ok [OF c r(2) [unfolded z(2)] fc refl]
    have "buffer_ok sector ch fs' fp" using b st(2,3) by (auto simp: buffer_ok_def)
    moreover have "alloc_ok sector fs'" using acc' acc(2) t(2) z(2) sd by (simp add: alloc_ok_def)
    ultimately show ?thesis using r(1) st(1,3) t z True fr
      by (intro exI [of _ "unat ncl"] exI [of _ fs']) simp
  next
    case False
    then have k: "unat ncl \<in> free_set ?n ?T" "T' = linked ?m clst ncl ?T" using r(4) by simp_all
    have kf: "2 \<le> unat ncl" "unat ncl < ?n" "?T (unat ncl) = 0" using k(1) by (simp_all add: free_set_def)
    have m: "?n \<le> unat ?m" using one.mask_fits(1) [OF cc(1)] .
    have ln: "ch \<noteq> [] \<longrightarrow> 2 \<le> last ch \<and> last ch < 2 ^ 32 \<and> last ch \<noteq> unat ncl" using last kf fatent_bound [of fs] n by auto
    have lk: "T' x = (if x = unat ncl then ?m else if ch \<noteq> [] \<and> x = last ch then of_nat (unat ncl) else ?T x)" for x
      unfolding k(2) linked_table [OF clst ln] by simp
    note sc = stretched_chain [OF fc fatent_bound k(1) m lk]
    have un: "set (ch @ [unat ncl]) \<union> free_set ?n T' = set ch \<union> free_set ?n ?T" using sc(2) k(1) by auto
    note st = stretched_ok [OF c r(2) sc(1) un]
    have sub: "cluster_sectors fs (set ch) \<subseteq> cluster_sectors fs (set (ch @ [unat ncl]))" by (auto simp: cluster_sectors_def)
    have "buffer_ok sector (ch @ [unat ncl]) fs' fp" using b st(2,3) sub by (auto simp: buffer_ok_def)
    moreover have "fat_entry sector fs' x \<noteq> 1" if "2 \<le> x" "x < ?n" for x
      using lk [of x] t(2) [OF that] acc(2) that m n kf by auto
    then have "alloc_ok sector fs'" using acc' sd by (simp add: alloc_ok_def)
    moreover have "\<forall>x. 2 \<le> x \<and> x < ?n \<and> x \<notin> set ch \<and> x \<noteq> unat ncl \<longrightarrow> fat_entry sector fs' x = ?T x" using lk t(2) last by auto
    ultimately show ?thesis using r(1) st(1,3) t(1,3) k(1) False
      by (intro exI [of _ "unat ncl"] exI [of _ fs']) simp
  qed
qed

end

section \<open>Bytes written\<close>

text \<open>From position \<open>p\<close> on the bytes are those of \<open>bs\<close>; the others of the file are as they were.\<close>

definition wrote :: "('d \<Rightarrow> nat \<Rightarrow> u8 list) \<Rightarrow> nat \<Rightarrow> u8 list \<Rightarrow> nat list \<Rightarrow> 'd FATFS \<Rightarrow> FIL \<Rightarrow> nat list \<Rightarrow> 'd FATFS \<Rightarrow> FIL \<Rightarrow> bool" where
  "wrote sector p bs ch fs fp ch' fs' fp' \<longleftrightarrow>
     (\<forall>i. i < unat (objsize fp) \<or> p \<le> i \<and> i < p + length bs \<longrightarrow>
        file_byte sector fs' fp' ch' i = (if p \<le> i \<and> i < p + length bs then bs ! (i - p) else file_byte sector fs fp ch i))"

lemma dirty_or [simp]: "dirty (fp\<lparr>f_buf := b, f_flag := f OR FA_DIRTY\<rparr>)"
proof -
  have "(f OR FA_DIRTY) AND FA_DIRTY = FA_DIRTY" by (rule bit_word_eqI) (auto simp: bit_and_iff bit_or_iff)
  then show ?thesis by (simp add: dirty_def FA_DIRTY_def)
qed

lemma copy_into_nth:
  assumes "copy_into n src dst = Some b" "i < length dst"
  shows "b ! i = (if n \<le> i \<and> i < n + length src then src ! (i - n) else dst ! i)" "length b = length dst"
  using assms by (auto simp: copy_into_def nth_append min_def split: if_splits)

lemma write_buf_ok:
  assumes d: "data_ok fs" "distinct ch" "\<And>c. c \<in> set ch \<Longrightarrow> 2 \<le> c"
    and len: "length (f_buf fp) = 512" and z: "f_sect fp \<noteq> 0" and sect: "unat (f_sect fp) = file_sector fs ch (unat (fptr fp) div 512)"
    and n: "0 < unat btw" "unat btw \<le> length wbuff" and p: "unat (fptr fp) < length ch * (unat (csize fs) * 512)"
  shows "\<exists>w b. write_buf btw wbuff fp fs = Some (Moved w, fp\<lparr>f_buf := b, f_flag := f_flag fp OR FA_DIRTY\<rparr>, fs) \<and> length b = 512 \<and>
    unat w = min (unat btw) (512 - unat (fptr fp) mod 512) \<and>
    (\<forall>i < length ch * (unat (csize fs) * 512). file_byte sector fs (fp\<lparr>f_buf := b, f_flag := f_flag fp OR FA_DIRTY\<rparr>) ch i =
       (if unat (fptr fp) \<le> i \<and> i < unat (fptr fp) + unat w then wbuff ! (i - unat (fptr fp)) else file_byte sector fs fp ch i))"
proof -
  let ?p = "unat (fptr fp)" and ?s = "unat (csize fs)"
  have m: "unat (fptr fp mod 512) = ?p mod 512" by (simp add: unat_mod)
  have lt: "?p mod 512 < 512" by simp
  have sb: "unat (512 - fptr fp mod 512) = 512 - ?p mod 512" using m lt by (subst unat_sub) (simp_all add: word_le_nat_alt)
  define w where "w = (if 512 - fptr fp mod 512 > btw then btw else 512 - fptr fp mod 512)"
  have w: "unat w = min (unat btw) (512 - ?p mod 512)" using sb by (auto simp: w_def word_less_nat_alt)
  have le: "?p mod 512 + unat w \<le> 512" "unat w \<le> length wbuff" using w lt n by auto
  define b where "b = take (?p mod 512) (f_buf fp) @ take (unat w) wbuff @ drop (?p mod 512 + unat w) (f_buf fp)"
  have cp: "copy_into (?p mod 512) (take (unat w) wbuff) (f_buf fp) = Some b" using len le by (simp add: copy_into_def b_def min_absorb2)
  have blen: "length b = 512" using copy_into_nth(2) [OF cp, of 0] len by simp
  let ?f = "fp\<lparr>f_buf := b, f_flag := f_flag fp OR FA_DIRTY\<rparr>"
  have run: "write_buf btw wbuff fp fs = Some (Moved w, ?f, fs)"
    unfolding write_buf_def Let_def w_def [symmetric] m using le cp by (simp add: copy_from_def)
  have "file_byte sector fs ?f ch i = (if ?p \<le> i \<and> i < ?p + unat w then wbuff ! (i - ?p) else file_byte sector fs fp ch i)"
    if i: "i < length ch * (?s * 512)" for i
  proof (cases "i div 512 = ?p div 512")
    case True
    then have im: "i mod 512 + ?p = i + ?p mod 512" using mult_div_mod_eq [of 512 i] mult_div_mod_eq [of 512 ?p] by linarith
    then have rng: "?p mod 512 \<le> i mod 512 \<and> i mod 512 < ?p mod 512 + unat w \<longleftrightarrow> ?p \<le> i \<and> i < ?p + unat w"
      "?p \<le> i \<Longrightarrow> i mod 512 - ?p mod 512 = i - ?p" by linarith+
    have "b ! (i mod 512) = (if ?p \<le> i \<and> i < ?p + unat w then wbuff ! (i - ?p) else f_buf fp ! (i mod 512))"
    proof (cases "?p \<le> i \<and> i < ?p + unat w")
      case True
      then have "i - ?p < unat w" by linarith
      then show ?thesis using copy_into_nth(1) [OF cp, of "i mod 512"] len le rng True by (simp add: min_absorb2)
    next
      case False
      then have "\<not> (?p mod 512 \<le> i mod 512 \<and> i mod 512 < ?p mod 512 + length (take (unat w) wbuff))" using rng(1) le by (simp add: min_absorb2)
      then show ?thesis using copy_into_nth(1) [OF cp, of "i mod 512"] len False by auto
    qed
    then show ?thesis using True z sect by (simp add: file_byte_def buffered_def)
  next
    case False
    have out: "\<not> (?p \<le> i \<and> i < ?p + unat w)"
    proof
      assume a: "?p \<le> i \<and> i < ?p + unat w"
      then have "?p mod 512 + (i - ?p) < 512" "?p + (i - ?p) = i" using le by linarith+
      then have "i div 512 = ?p div 512" using div_mod_inside [of ?p "i - ?p"] by simp
      then show False using False by simp
    qed
    have "i div 512 < length ch * ?s" "?p div 512 < length ch * ?s" using i p by (simp_all add: div_less_iff_less_mult algebra_simps)
    then have "file_sector fs ch (i div 512) \<noteq> unat (f_sect fp)" using file_sector_inj [OF d] False unfolding sect by blast
    then show ?thesis unfolding if_not_P [OF out] by (simp add: file_byte_def buffered_def)
  qed
  then show ?thesis using run blen w by blast
qed

text \<open>Bytes of the file after whole sectors changed.\<close>

lemma run_bytes:
  assumes d: "data_ok fs" "distinct ch" "\<And>c. c \<in> set ch \<Longrightarrow> 2 \<le> c"
    and p: "p mod 512 = 0" "p + 512 * k \<le> length ch * (unat (csize fs) * 512)"
    and run: "\<And>j. j < k \<Longrightarrow> file_sector fs ch (p div 512 + j) = s0 + j" and bs: "512 * k \<le> length bs"
    and i: "i < length ch * (unat (csize fs) * 512)"
    and B: "\<And>l. B l = (if s0 \<le> l \<and> l < s0 + k then take 512 (drop (512 * (l - s0)) bs) else C l)"
  shows "B (file_sector fs ch (i div 512)) ! (i mod 512) =
    (if p \<le> i \<and> i < p + 512 * k then bs ! (i - p) else C (file_sector fs ch (i div 512)) ! (i mod 512))"
proof (cases "p \<le> i \<and> i < p + 512 * k")
  case True
  define j where "j = (i - p) div 512"
  have e: "i div 512 = p div 512 + j" "i mod 512 = (i - p) mod 512" using div_mod_aligned [OF p(1), of "i - p"] True by (simp_all add: j_def)
  have "i - p < 512 * k" using True by linarith
  then have j: "j < k" by (simp add: j_def div_less_iff_less_mult mult.commute)
  have fs: "file_sector fs ch (i div 512) = s0 + j" using run [OF j] e(1) by simp
  have "512 * j + i mod 512 = i - p" using e(2) by (simp add: j_def)
  moreover have "512 * j + 512 \<le> length bs" using j bs by linarith
  ultimately show ?thesis using True j by (simp add: fs B)
next
  case False
  have "\<not> (s0 \<le> file_sector fs ch (i div 512) \<and> file_sector fs ch (i div 512) < s0 + k)"
  proof
    assume a: "s0 \<le> file_sector fs ch (i div 512) \<and> file_sector fs ch (i div 512) < s0 + k"
    define j where "j = file_sector fs ch (i div 512) - s0"
    have j: "j < k" "file_sector fs ch (i div 512) = s0 + j" using a by (auto simp: j_def)
    have "p div 512 + j < length ch * unat (csize fs)"
    proof -
      have "512 * (p div 512) = p" using p(1) by auto
      then have "512 * (p div 512 + j) = p + 512 * j" by (simp only: distrib_left)
      then have "512 * (p div 512 + j) < length ch * (unat (csize fs) * 512)" using p(2) j(1) by simp
      then show ?thesis by (simp add: algebra_simps)
    qed
    moreover have "i div 512 < length ch * unat (csize fs)" using i by (simp add: div_less_iff_less_mult algebra_simps)
    ultimately have "i div 512 = p div 512 + j" using file_sector_inj [OF d] run [OF j(1)] j(2) by metis
    moreover have "512 * (p div 512) = p" using p(1) by auto
    ultimately have "512 * (i div 512) = p + 512 * j" by linarith
    then have "p \<le> i" "i < p + 512 * j + 512" using mult_div_mod_eq [of 512 i] mod_less_divisor [of 512 i] by linarith+
    then show False using False j(1) by linarith
  qed
  then show ?thesis using False by (auto simp: B)
qed

text \<open>The buffer of the file after a run that overlaps it was written from the caller's buffer.\<close>

definition rebuffer :: "u32 \<Rightarrow> u32 \<Rightarrow> u8 list \<Rightarrow> FIL \<Rightarrow> FIL" where
  "rebuffer sect cc wbuff fp = (if f_sect fp - sect < cc
     then fp\<lparr>f_buf := take 512 (drop (unat (f_sect fp - sect) * 512) wbuff), f_flag := f_flag fp AND NOT FA_DIRTY\<rparr> else fp)"

lemma rebuffer_fits:
  fixes x sect cc :: u32
  assumes "unat sect + unat cc \<le> 2 ^ 28" "512 * unat cc \<le> length wbuff" "x - sect < cc"
  shows "(unat x - unat sect) * 512 + 512 \<le> 512 * unat cc" "unat (x - sect) * 512 + 512 \<le> length wbuff"
proof -
  show a: "(unat x - unat sect) * 512 + 512 \<le> 512 * unat cc" using assms(3) in_run(1) [OF assms(1), of x] by auto
  then show "unat (x - sect) * 512 + 512 \<le> length wbuff" using in_run(2) [OF assms(1,3)] assms(2) by simp
qed

lemma rebuffer_ok:
  assumes run: "unat sect + unat cc \<le> 2 ^ 28" and n: "512 * unat cc \<le> length wbuff" and b: "length (f_buf fp) = 512"
    and old: "f_sect fp \<noteq> 0 \<Longrightarrow> f_buf fp = S (unat (f_sect fp))"
  shows "length (f_buf (rebuffer sect cc wbuff fp)) = 512"
    "f_sect fp \<noteq> 0 \<Longrightarrow> f_buf (rebuffer sect cc wbuff fp) = (if unat sect \<le> unat (f_sect fp) \<and> unat (f_sect fp) < unat sect + unat cc
       then take 512 (drop (512 * (unat (f_sect fp) - unat sect)) (take (512 * unat cc) wbuff)) else S (unat (f_sect fp)))"
proof -
  note ir = in_run [OF run, of "f_sect fp"] and fit = rebuffer_fits [OF run n, of "f_sect fp"]
  show "length (f_buf (rebuffer sect cc wbuff fp)) = 512" using fit b by (auto simp: rebuffer_def)
  show "f_buf (rebuffer sect cc wbuff fp) = (if unat sect \<le> unat (f_sect fp) \<and> unat (f_sect fp) < unat sect + unat cc
       then take 512 (drop (512 * (unat (f_sect fp) - unat sect)) (take (512 * unat cc) wbuff)) else S (unat (f_sect fp)))" if "f_sect fp \<noteq> 0"
  proof (cases "f_sect fp - sect < cc")
    case True
    then have "take 512 (drop (512 * (unat (f_sect fp) - unat sect)) (take (512 * unat cc) wbuff)) = take 512 (drop (512 * (unat (f_sect fp) - unat sect)) wbuff)"
      unfolding drop_take take_take using fit by (simp add: min_absorb1)
    then show ?thesis using True ir by (simp add: rebuffer_def mult.commute)
  next
    case False
    then show ?thesis using ir(1) old [OF that] by (auto simp: rebuffer_def)
  qed
qed

context multi_device
begin

lemma write_direct_ok:
  assumes c: "chain_ok ready sector ch fs" and b: "buffer_ok sector ch fs fp" and nd: "\<not> dirty fp"
    and p: "unat (fptr fp) mod 512 = 0" "unat (fptr fp) + 512 * unat cc \<le> length ch * (unat (csize fs) * 512)"
    and sect: "\<And>j. j < unat cc \<Longrightarrow> file_sector fs ch (unat (fptr fp) div 512 + j) = unat sect + j" "unat sect + unat cc \<le> 2 ^ 28" "0 < unat sect"
      "\<And>j. j < unat cc \<Longrightarrow> unat sect + j \<in> cluster_sectors fs (set ch)"
    and n: "512 * unat cc \<le> length wbuff"
  shows "\<exists>fp' fs'. write_direct M sect cc wbuff fp fs = Some (Moved (512 * cc), fp', fs') \<and> chain_ok ready sector ch fs' \<and>
    buffer_ok sector ch fs' fp' \<and> framed sector ch fs fp fs' fp' \<and> fptr fp' = fptr fp \<and> f_clust fp' = f_clust fp \<and>
    (\<forall>i < length ch * (unat (csize fs) * 512). file_byte sector fs' fp' ch i =
       (if unat (fptr fp) \<le> i \<and> i < unat (fptr fp) + 512 * unat cc then wbuff ! (i - unat (fptr fp)) else file_byte sector fs fp ch i))"
proof -
  let ?S = "sector (dev fs)" and ?p = "unat (fptr fp)"
  note c0 = chain_ok_chain [OF c]
  define bs where "bs = take (512 * unat cc) wbuff"
  have bl: "length bs = 512 * unat cc" using n by (simp add: bs_def min_absorb2)
  define W where "W = (\<lambda>k. if unat sect \<le> k \<and> k < unat sect + unat cc then take 512 (drop (512 * (k - unat sect)) bs) else ?S k)"
  obtain d where d: "dio_writes M bs sect cc (dev fs) = Some (True, d)" "ready d" "sector d = W"
    using write_sectors [OF c0(6) sect(2) bl] by (auto simp: W_def)
  have out: "sector d l = ?S l" if "l \<notin> cluster_sectors fs (set ch)" for l
  proof -
    have "\<not> (unat sect \<le> l \<and> l < unat sect + unat cc)"
    proof
      assume a: "unat sect \<le> l \<and> l < unat sect + unat cc"
      then have "l - unat sect < unat cc" "unat sect + (l - unat sect) = l" by linarith+
      then show False using sect(4) [of "l - unat sect"] that by simp
    qed
    then show ?thesis by (auto simp: d(3) W_def)
  qed
  note dc = device_changed [OF c d(2) out]
  define fp' where "fp' = rebuffer sect cc wbuff fp"
  have nd': "\<not> dirty fp'" using nd by (auto simp: fp'_def rebuffer_def dirty_def and.assoc)
  have fields: "fptr fp' = fptr fp" "f_clust fp' = f_clust fp" "f_sect fp' = f_sect fp" by (simp_all add: fp'_def rebuffer_def)
  have run: "write_direct M sect cc wbuff fp fs = Some (Moved (512 * cc), fp', fs\<lparr>dev := d\<rparr>)"
    using d(1) n rebuffer_fits [OF sect(2) n, of "f_sect fp"] by (auto simp: write_direct_def copy_from_def bs_def fp'_def rebuffer_def)
  have old: "f_sect fp \<noteq> 0 \<Longrightarrow> f_buf fp = ?S (unat (f_sect fp)) \<and> unat (f_sect fp) \<in> cluster_sectors fs (set ch)" using b nd by (auto simp: buffer_ok_def)
  have blen: "length (f_buf fp) = 512" using b by (simp add: buffer_ok_def)
  have buf: "length (f_buf fp') = 512" "f_sect fp \<noteq> 0 \<Longrightarrow> f_buf fp' = W (unat (f_sect fp))"
    using rebuffer_ok [OF sect(2) n blen, of ?S] old unfolding fp'_def W_def bs_def by blast+
  have b': "buffer_ok sector ch (fs\<lparr>dev := d\<rparr>) fp'"
    using buf nd' fields old cluster_sectors_same [OF dc(2)] d(3) by (auto simp: buffer_ok_def)
  have "\<exists>q c x b g. fp' = fp\<lparr>f_flag := g, fptr := q, f_clust := c, f_sect := x, f_buf := b\<rparr> \<and> g AND NOT FA_DIRTY = f_flag fp AND NOT FA_DIRTY"
    by (rule exI [of _ "fptr fp"], rule exI [of _ "f_clust fp"], rule exI [of _ "f_sect fp"], rule exI [of _ "f_buf fp'"], rule exI [of _ "f_flag fp'"])
      (simp add: fp'_def rebuffer_def and.assoc)
  then have fr: "framed sector ch fs fp (fs\<lparr>dev := d\<rparr>) fp'" using dc by (simp add: framed_def)
  have B: "buffered sector (fs\<lparr>dev := d\<rparr>) fp' l = (if unat sect \<le> l \<and> l < unat sect + unat cc then take 512 (drop (512 * (l - unat sect)) bs)
      else buffered sector fs fp l)" for l
    using buf(2) old fields(3) d(3) by (auto simp: buffered_def W_def)
  have "file_byte sector (fs\<lparr>dev := d\<rparr>) fp' ch i = (if ?p \<le> i \<and> i < ?p + 512 * unat cc then wbuff ! (i - ?p) else file_byte sector fs fp ch i)"
    if "i < length ch * (unat (csize fs) * 512)" for i
  proof -
    have "2 \<le> x" if "x \<in> set ch" for x using c0(5) that by simp
    from run_bytes [OF c0(2,4) this p sect(1) _ that B] have "file_byte sector (fs\<lparr>dev := d\<rparr>) fp' ch i =
        (if ?p \<le> i \<and> i < ?p + 512 * unat cc then bs ! (i - ?p) else file_byte sector fs fp ch i)"
      using bl file_sector_same [OF dc(2)] by (simp add: file_byte_def)
    then show ?thesis by (auto simp: bs_def)
  qed
  then show ?thesis using run dc(1) b' fr fields by blast
qed

text \<open>The buffer made ready for a part of a sector: what it shows of the file so far is right.\<close>

lemma write_fill_ok:
  assumes c: "chain_ok ready sector ch fs" and b: "buffer_ok sector ch fs fp" and nd: "\<not> dirty fp"
    and sect: "unat sect = file_sector fs ch (unat (fptr fp) div 512)" "unat sect \<in> cluster_sectors fs (set ch)" "unat (fptr fp) mod 512 = 0"
    and p: "fptr fp \<le> objsize fp" "unat (fptr fp) < length ch * (unat (csize fs) * 512)" "unat (objsize fp) \<le> length ch * (unat (csize fs) * 512)"
  shows "\<exists>fp' fs'. (if f_sect fp \<noteq> sect \<and> fptr fp < objsize fp then fill_buf M sect fp fs else Some (True, fp, fs)) = Some (True, fp', fs') \<and>
    chain_ok ready sector ch fs' \<and> length (f_buf fp') = 512 \<and> framed sector ch fs fp fs' (fp'\<lparr>f_sect := sect\<rparr>) \<and> fptr fp' = fptr fp \<and>
    f_clust fp' = f_clust fp \<and> (\<forall>i < unat (objsize fp). file_byte sector fs' (fp'\<lparr>f_sect := sect\<rparr>) ch i = file_byte sector fs fp ch i)"
proof (cases "f_sect fp \<noteq> sect \<and> fptr fp < objsize fp")
  case True
  obtain x d where f: "fill_buf M sect fp fs = Some (True, fp\<lparr>f_buf := x\<rparr>, fs\<lparr>dev := d\<rparr>)" "chain_ok ready sector ch (fs\<lparr>dev := d\<rparr>)"
      "buffer_ok sector ch (fs\<lparr>dev := d\<rparr>) (fp\<lparr>f_buf := x, f_sect := sect\<rparr>)" "kept sector ch fs fp (fs\<lparr>dev := d\<rparr>) (fp\<lparr>f_buf := x, f_sect := sect\<rparr>)"
    using fill_buf_ok [OF c b nd sect(2)] by blast
  have "\<forall>i < unat (objsize fp). file_byte sector (fs\<lparr>dev := d\<rparr>) (fp\<lparr>f_buf := x, f_sect := sect\<rparr>) ch i = file_byte sector fs fp ch i"
    using kept_byte [OF f(4) chain_ok_chain(2) [OF c]] p(3) by auto
  then show ?thesis using True f kept_framed [OF f(4)]
    by (intro exI [of _ "fp\<lparr>f_buf := x\<rparr>"] exI [of _ "fs\<lparr>dev := d\<rparr>"]) (simp add: buffer_ok_def)
next
  case False
  note cc = chain_ok_chain [OF c]
  have len: "length (f_buf fp) = 512" using b by (simp add: buffer_ok_def)
  have "\<exists>q c x b g. fp\<lparr>f_sect := sect\<rparr> = fp\<lparr>f_flag := g, fptr := q, f_clust := c, f_sect := x, f_buf := b\<rparr> \<and> g AND NOT FA_DIRTY = f_flag fp AND NOT FA_DIRTY"
    by (rule exI [of _ "fptr fp"], rule exI [of _ "f_clust fp"], rule exI [of _ sect], rule exI [of _ "f_buf fp"], rule exI [of _ "f_flag fp"]) simp
  then have fr: "framed sector ch fs fp fs (fp\<lparr>f_sect := sect\<rparr>)" by (simp add: framed_def)
  have "file_byte sector fs (fp\<lparr>f_sect := sect\<rparr>) ch i = file_byte sector fs fp ch i" if i: "i < unat (objsize fp)" for i
  proof (cases "f_sect fp = sect")
    case True
    then have "fp\<lparr>f_sect := sect\<rparr> = fp" by simp
    then show ?thesis by (rule arg_cong)
  next
    case ne: False
    then have "unat (fptr fp) = unat (objsize fp)" using False p(1) by (simp add: word_less_nat_alt word_le_nat_alt)
    then have "i < unat (fptr fp)" using i by simp
    then have lt: "i div 512 < unat (fptr fp) div 512" using sect(3) by (auto simp: div_less_iff_less_mult)
    moreover have "unat (fptr fp) div 512 < length ch * unat (csize fs)" using p(2) by (simp add: div_less_iff_less_mult algebra_simps)
    ultimately have "file_sector fs ch (i div 512) \<noteq> unat sect"
      using file_sector_inj [OF cc(2,4), of "i div 512" "unat (fptr fp) div 512"] cc(5) sect(1) by auto
    moreover have "f_sect fp \<noteq> 0 \<Longrightarrow> f_buf fp = sector (dev fs) (unat (f_sect fp))" using b nd by (auto simp: buffer_ok_def)
    ultimately show ?thesis by (auto simp: file_byte_def buffered_def)
  qed
  then show ?thesis unfolding if_not_P [OF False] using c len fr
    by (intro exI [of _ fp] exI [of _ fs]) simp
qed

end

text \<open>What a turn of the loop that writes in the sector of the file pointer achieves.\<close>

definition wrote_turn ::
  "('d \<Rightarrow> bool) \<Rightarrow> ('d \<Rightarrow> nat \<Rightarrow> u8 list) \<Rightarrow> nat list \<Rightarrow> u32 \<Rightarrow> u8 list \<Rightarrow> 'd FATFS \<Rightarrow> FIL \<Rightarrow> (turn \<times> FIL \<times> 'd FATFS) option \<Rightarrow> bool" where
  "wrote_turn ready sector ch btw wbuff fs fp r \<longleftrightarrow> (\<exists>w fp' fs'. r = Some (Moved w, fp', fs') \<and> 0 < unat w \<and> unat w \<le> unat btw \<and>
     chain_ok ready sector ch fs' \<and> buffer_ok sector ch fs' fp' \<and> framed sector ch fs fp fs' fp' \<and> fptr fp' = fptr fp \<and> f_clust fp' = f_clust fp \<and>
     f_clust fp = of_nat (ch ! ((unat (fptr fp) + unat w - 1) div (unat (csize fs) * 512))) \<and>
     unat (fptr fp) + unat w \<le> length ch * (unat (csize fs) * 512) \<and>
     ((unat (fptr fp) + unat w) mod 512 \<noteq> 0 \<longrightarrow> unat (f_sect fp') = file_sector fs ch ((unat (fptr fp) + unat w) div 512)) \<and>
     wrote sector (unat (fptr fp)) (take (unat w) wbuff) ch fs fp ch fs' fp')"

lemma wrote_turn_kept:
  assumes k: "kept sector ch fs fp f1 p1" and d: "data_ok fs" "unat (objsize fp) \<le> length ch * (unat (csize fs) * 512)"
    and e: "fptr p1 = fptr fp" "f_clust p1 = f_clust fp" and t: "wrote_turn ready sector ch btw wbuff f1 p1 r"
  shows "wrote_turn ready sector ch btw wbuff fs fp r"
proof -
  have v: "same_volume fs f1" using k by (simp add: kept_def framed_def)
  note s1 = same_volume_simps(4) [OF v] file_sector_same [OF v] kept_fields(1) [OF k]
  obtain w fp' fs' where w: "r = Some (Moved w, fp', fs')" "0 < unat w" "unat w \<le> unat btw"
      "chain_ok ready sector ch fs'" "buffer_ok sector ch fs' fp'" "framed sector ch f1 p1 fs' fp'" "fptr fp' = fptr fp" "f_clust fp' = f_clust fp"
      "f_clust fp = of_nat (ch ! ((unat (fptr fp) + unat w - 1) div (unat (csize fs) * 512)))"
      "unat (fptr fp) + unat w \<le> length ch * (unat (csize fs) * 512)"
      "(unat (fptr fp) + unat w) mod 512 \<noteq> 0 \<longrightarrow> unat (f_sect fp') = file_sector fs ch ((unat (fptr fp) + unat w) div 512)"
      "wrote sector (unat (fptr fp)) (take (unat w) wbuff) ch f1 p1 ch fs' fp'"
    using t unfolding wrote_turn_def e s1 by blast
  have "wrote sector (unat (fptr fp)) (take (unat w) wbuff) ch fs fp ch fs' fp'"
    using w(12) kept_byte [OF k d(1)] d(2) unfolding wrote_def s1 by simp
  then show ?thesis unfolding wrote_turn_def using w framed_trans [OF kept_framed [OF k] w(6)] by blast
qed

context multi_device
begin

lemma write_runs_ok:
  assumes c: "chain_ok ready sector ch fs" and b: "buffer_ok sector ch fs fp" and nd: "\<not> dirty fp"
    and p: "unat (fptr fp) mod 512 = 0" "unat (fptr fp) < length ch * (unat (csize fs) * 512)" "unat (objsize fp) \<le> length ch * (unat (csize fs) * 512)"
    and n: "unat btw \<le> length wbuff" "btw div 512 > 0"
    and cl: "f_clust fp = of_nat (ch ! (unat (fptr fp) div (unat (csize fs) * 512)))"
    and cs: "unat csect = (unat (fptr fp) div 512) mod unat (csize fs)"
  shows "wrote_turn ready sector ch btw wbuff fs fp (write_direct M (clst2sect (f_clust fp) fs + csect) (clip_count csect (btw div 512) fs) wbuff fp fs)"
proof -
  let ?p = "unat (fptr fp)" and ?s = "unat (csize fs)"
  note cc = chain_ok_chain [OF c]
  have s: "0 < ?s" using cc(2) by (auto simp: data_ok_def)
  note ps = position_sector [OF c p(2) cl cs]
  define sect where "sect = clst2sect (f_clust fp) fs + csect"
  have us: "unat sect = file_sector fs ch (?p div 512)" using ps(2) by (simp add: sect_def)
  have q: "unat (btw div 512) = unat btw div 512" by (simp add: unat_div)
  define k where "k = clip_count csect (btw div 512) fs"
  have "unat (btw div 512) < 2 ^ 24" using unat_lt_u32 [of btw] unfolding q by (simp add: div_less_iff_less_mult)
  then have k: "unat k = min (unat btw div 512) (?s - unat csect)" using clip_count_min [OF cc(2) ps(4)] by (simp add: k_def q)
  have k0: "0 < unat k" "unat k \<le> ?s - unat csect" "unat k \<le> unat btw div 512" using k n(2) ps(4) q by (simp_all add: word_less_nat_alt)
  have "512 * (unat btw div 512) \<le> unat btw" by simp
  then have kb: "512 * unat k \<le> unat btw" using k0(3) by linarith
  have u512: "unat (512 * k) = 512 * unat k" using kb unat_lt_u32 [of btw] by (subst unat_mult_u32) simp_all
  have wc: "(?p + 512 * unat k - 1) div (?s * 512) = ?p div (?s * 512)" by (rule within_cluster [OF p(1)]) (use k0 cs s in simp_all)
  have inl: "?p + 512 * unat k \<le> length ch * (?s * 512)"
  proof -
    have "(?p + 512 * unat k - 1) div (?s * 512) < length ch" unfolding wc using p(2) by (simp add: less_mult_imp_div_less)
    then have "?p + 512 * unat k - 1 < length ch * (?s * 512)" using s by (simp add: div_less_iff_less_mult)
    then show ?thesis by linarith
  qed
  have run: "file_sector fs ch (?p div 512 + j) = unat sect + j" if "j < unat k" for j using ps(7) [of j] that k0(2) us by simp
  have mem: "unat sect + j \<in> cluster_sectors fs (set ch)" if "j < unat k" for j
  proof -
    have "512 * (?p div 512) = ?p" using p(1) by auto
    then have "512 * (?p div 512 + j) < length ch * (?s * 512)" using inl that unfolding distrib_left by simp
    then have "?p div 512 + j < length ch * ?s" by (simp add: algebra_simps)
    from file_sector_in [OF cc(2) this] show ?thesis using run [OF that] by simp
  qed
  have fit: "unat sect + unat k \<le> 2 ^ 28" "0 < unat sect" "512 * unat k \<le> length wbuff" using ps(3,6) k0(2) us kb n(1) by linarith+
  obtain fp' fs' where w: "write_direct M sect k wbuff fp fs = Some (Moved (512 * k), fp', fs')" "chain_ok ready sector ch fs'" "buffer_ok sector ch fs' fp'"
      "framed sector ch fs fp fs' fp'" "fptr fp' = fptr fp" "f_clust fp' = f_clust fp"
      "\<forall>i < length ch * (?s * 512). file_byte sector fs' fp' ch i = (if ?p \<le> i \<and> i < ?p + 512 * unat k then wbuff ! (i - ?p) else file_byte sector fs fp ch i)"
    using write_direct_ok [OF c b nd p(1) inl run fit(1,2) mem fit(3)] by blast
  have "wrote sector ?p (take (unat (512 * k)) wbuff) ch fs fp ch fs' fp'"
    unfolding wrote_def u512 using w(7) p(3) inl fit(3) by (auto simp: min_absorb2)
  then show ?thesis unfolding wrote_turn_def sect_def [symmetric] k_def [symmetric]
    using w(1-6) k0(1) kb inl p(1) wc cl by (intro exI [of _ "512 * k"] exI [of _ fp'] exI [of _ fs']) (simp add: u512)
qed

text \<open>Writing through the buffer once it shows the sector of the file pointer.\<close>

lemma write_part_ok:
  assumes c: "chain_ok ready sector ch fs" and len: "length (f_buf fp) = 512"
    and sect: "unat (f_sect fp) = file_sector fs ch (unat (fptr fp) div 512)"
    and p: "unat (fptr fp) < length ch * (unat (csize fs) * 512)" "unat (objsize fp) \<le> length ch * (unat (csize fs) * 512)"
    and n: "0 < unat btw" "unat btw \<le> length wbuff"
    and cl: "f_clust fp = of_nat (ch ! (unat (fptr fp) div (unat (csize fs) * 512)))"
  shows "wrote_turn ready sector ch btw wbuff fs fp (write_buf btw wbuff fp fs)"
proof -
  let ?p = "unat (fptr fp)" and ?s = "unat (csize fs)"
  note cc = chain_ok_chain [OF c]
  have s: "0 < ?s" using cc(2) by (auto simp: data_ok_def)
  have "?p div 512 < length ch * ?s" using p(1) by (simp add: div_less_iff_less_mult algebra_simps)
  from file_sector_in [OF cc(2) this] have mem: "unat (f_sect fp) \<in> cluster_sectors fs (set ch)" using sect by simp
  have z: "f_sect fp \<noteq> 0" using cluster_sectors_small(1) [OF cc(2) mem cc(5)] by auto
  obtain w b where w: "write_buf btw wbuff fp fs = Some (Moved w, fp\<lparr>f_buf := b, f_flag := f_flag fp OR FA_DIRTY\<rparr>, fs)" "length b = 512"
      "unat w = min (unat btw) (512 - ?p mod 512)"
      "\<forall>i < length ch * (?s * 512). file_byte sector fs (fp\<lparr>f_buf := b, f_flag := f_flag fp OR FA_DIRTY\<rparr>) ch i =
         (if ?p \<le> i \<and> i < ?p + unat w then wbuff ! (i - ?p) else file_byte sector fs fp ch i)"
    using write_buf_ok [OF cc(2,4) _ len z sect n p(1)] cc(5) by blast
  let ?f = "fp\<lparr>f_buf := b, f_flag := f_flag fp OR FA_DIRTY\<rparr>"
  have lt: "?p mod 512 < 512" by simp
  have w0: "0 < unat w" "unat w \<le> unat btw" "unat w \<le> length wbuff" "?p mod 512 + unat w \<le> 512" using w(3) n lt by auto
  have "(?p + unat w - 1) div 512 = ?p div 512" using div_mod_inside [of ?p "unat w - 1"] w0 by simp
  then have dv: "(?p + unat w - 1) div (?s * 512) = ?p div (?s * 512)" unfolding mult.commute [of ?s 512] div_mult2_eq by simp
  have inl: "?p + unat w \<le> length ch * (?s * 512)"
  proof -
    have "(?p + unat w - 1) div (?s * 512) < length ch" unfolding dv using p(1) by (simp add: less_mult_imp_div_less)
    then have "?p + unat w - 1 < length ch * (?s * 512)" using s by (simp add: div_less_iff_less_mult)
    then show ?thesis by linarith
  qed
  have se: "unat (f_sect fp) = file_sector fs ch ((?p + unat w) div 512)" if m: "(?p + unat w) mod 512 \<noteq> 0"
  proof -
    have "?p mod 512 + unat w \<noteq> 512"
    proof
      assume "?p mod 512 + unat w = 512"
      then have "?p + unat w = 512 * (?p div 512) + 512" using mult_div_mod_eq [of 512 ?p] by linarith
      then show False using m by simp
    qed
    then have "(?p + unat w) div 512 = ?p div 512" using div_mod_inside [of ?p "unat w"] w0 by simp
    then show ?thesis using sect by simp
  qed
  have "(f_flag fp OR FA_DIRTY) AND NOT FA_DIRTY = f_flag fp AND NOT FA_DIRTY"
    by (rule bit_word_eqI) (auto simp: bit_and_iff bit_or_iff bit_not_iff)
  then have "\<exists>q c x b' g. ?f = fp\<lparr>f_flag := g, fptr := q, f_clust := c, f_sect := x, f_buf := b'\<rparr> \<and> g AND NOT FA_DIRTY = f_flag fp AND NOT FA_DIRTY"
    by (intro exI [of _ "fptr fp"] exI [of _ "f_clust fp"] exI [of _ "f_sect fp"] exI [of _ b] exI [of _ "f_flag fp OR FA_DIRTY"]) simp
  then have fr: "framed sector ch fs fp fs ?f" by (simp add: framed_def)
  have "buffer_ok sector ch fs ?f" using w(2) mem dirty_or by (simp add: buffer_ok_def)
  moreover have "wrote sector ?p (take (unat w) wbuff) ch fs fp ch fs ?f"
    unfolding wrote_def using w(4) p(2) inl w0(3) by (auto simp: min_absorb2)
  ultimately show ?thesis unfolding wrote_turn_def w(1)
    using w0 c fr dv cl inl se by (intro exI [of _ w] exI [of _ ?f] exI [of _ fs]) simp
qed

lemma write_sect_ok:
  assumes c: "chain_ok ready sector ch fs" and b: "buffer_ok sector ch fs fp"
    and p: "unat (fptr fp) mod 512 = 0" "unat (fptr fp) < length ch * (unat (csize fs) * 512)" "fptr fp \<le> objsize fp"
      "unat (objsize fp) \<le> length ch * (unat (csize fs) * 512)"
    and n: "0 < unat btw" "unat btw \<le> length wbuff"
    and cl: "f_clust fp = of_nat (ch ! (unat (fptr fp) div (unat (csize fs) * 512)))"
    and cs: "unat csect = (unat (fptr fp) div 512) mod unat (csize fs)"
  shows "wrote_turn ready sector ch btw wbuff fs fp (write_sect M btw wbuff csect fp fs)"
proof -
  let ?p = "unat (fptr fp)" and ?s = "unat (csize fs)"
  obtain f1 g where wb: "write_back M fp fs = Some (True, fp\<lparr>f_flag := g\<rparr>, f1)" "chain_ok ready sector ch f1"
      "buffer_ok sector ch f1 (fp\<lparr>f_flag := g\<rparr>)" "\<not> dirty (fp\<lparr>f_flag := g\<rparr>)" "kept sector ch fs fp f1 (fp\<lparr>f_flag := g\<rparr>)"
    using write_back_ok [OF c b] by blast
  let ?f = "fp\<lparr>f_flag := g\<rparr>"
  have v: "same_volume fs f1" using wb(5) by (simp add: kept_def framed_def)
  have s1: "csize f1 = csize fs" "file_sector f1 = file_sector fs" using same_volume_simps [OF v] file_sector_same [OF v] by simp_all
  have q: "fptr ?f = fptr fp" "f_clust ?f = f_clust fp" "objsize ?f = objsize fp" by simp_all
  note p1 = p [folded s1(1) q] and cl1 = cl [folded s1(1) q] and cs1 = cs [folded s1(1) q]
  note ps = position_sector [OF wb(2) p1(2) cl1 cs1]
  define sect where "sect = clst2sect (f_clust fp) f1 + csect"
  have "wrote_turn ready sector ch btw wbuff f1 ?f (write_sect M btw wbuff csect fp fs)"
  proof (cases "btw div 512 > 0")
    case True
    have "write_sect M btw wbuff csect fp fs = write_direct M (clst2sect (f_clust ?f) f1 + csect) (clip_count csect (btw div 512) f1) wbuff ?f f1"
      unfolding write_sect_def Let_def using wb(1) ps(1) True by simp
    then show ?thesis using write_runs_ok [OF wb(2-4) p1(1,2,4) n(2) True cl1 cs1] by simp
  next
    case False
    have us: "unat sect = file_sector f1 ch (unat (fptr ?f) div 512)" "unat sect \<in> cluster_sectors f1 (set ch)" using ps(2,5) by (simp_all add: sect_def)
    obtain p2 f2 where fl: "(if f_sect ?f \<noteq> sect \<and> fptr ?f < objsize ?f then fill_buf M sect ?f f1 else Some (True, ?f, f1)) = Some (True, p2, f2)"
        "chain_ok ready sector ch f2" "length (f_buf p2) = 512" "framed sector ch f1 ?f f2 (p2\<lparr>f_sect := sect\<rparr>)" "fptr p2 = fptr ?f" "f_clust p2 = f_clust ?f"
        "\<forall>i < unat (objsize ?f). file_byte sector f2 (p2\<lparr>f_sect := sect\<rparr>) ch i = file_byte sector f1 ?f ch i"
      using write_fill_ok [OF wb(2-4) us p1(1,3,2,4)] by blast
    let ?g = "p2\<lparr>f_sect := sect\<rparr>"
    have v2: "same_volume f1 f2" using fl(4) by (simp add: framed_def)
    have s2: "csize f2 = csize f1" "file_sector f2 = file_sector f1" "objsize ?g = objsize ?f" "fptr ?g = fptr ?f" "f_clust ?g = f_clust ?f"
      using same_volume_simps [OF v2] file_sector_same [OF v2] framed_fields(1) [OF fl(4)] fl(5,6) by simp_all
    have "write_sect M btw wbuff csect fp fs =
        (if f_sect ?f \<noteq> sect \<and> fptr ?f < objsize ?f then fill_buf M sect ?f f1 else Some (True, ?f, f1)) \<bind>
        (\<lambda>(ok, fp, fs). if ok then write_buf btw wbuff (fp\<lparr>f_sect := sect\<rparr>) fs else Some (Abort FR_DISK_ERR, fp, fs))"
      unfolding sect_def using wb(1) ps(1) False by (simp add: write_sect_def Let_def)
    then have "write_sect M btw wbuff csect fp fs = write_buf btw wbuff ?g f2" unfolding fl(1) by simp
    moreover have "wrote_turn ready sector ch btw wbuff f2 ?g (write_buf btw wbuff ?g f2)"
      by (rule write_part_ok [OF fl(2)]) (use fl(3) us p1 cl1 n s2 in simp_all)
    ultimately obtain w fp' fs' where w: "write_sect M btw wbuff csect fp fs = Some (Moved w, fp', fs')" "0 < unat w" "unat w \<le> unat btw"
        "chain_ok ready sector ch fs'" "buffer_ok sector ch fs' fp'" "framed sector ch f2 ?g fs' fp'" "fptr fp' = fptr ?f" "f_clust fp' = f_clust ?f"
        "f_clust ?f = of_nat (ch ! ((unat (fptr ?f) + unat w - 1) div (unat (csize f1) * 512)))"
        "unat (fptr ?f) + unat w \<le> length ch * (unat (csize f1) * 512)"
        "(unat (fptr ?f) + unat w) mod 512 \<noteq> 0 \<longrightarrow> unat (f_sect fp') = file_sector f1 ch ((unat (fptr ?f) + unat w) div 512)"
        "wrote sector (unat (fptr ?f)) (take (unat w) wbuff) ch f2 ?g ch fs' fp'"
      unfolding wrote_turn_def s2 by metis
    have "wrote sector (unat (fptr ?f)) (take (unat w) wbuff) ch f1 ?f ch fs' fp'"
      using w(12) fl(7) unfolding wrote_def s2 by simp
    then show ?thesis unfolding wrote_turn_def using w framed_trans [OF fl(4) w(6)] by blast
  qed
  then show ?thesis by (rule wrote_turn_kept [OF wb(5) chain_ok_chain(2) [OF c] p(4) q(1,2)])
qed

end

section \<open>The whole transfer\<close>

text \<open>How the volume grows with a file: only clusters that were free join the chain, and nothing else changes
  outside the chain and the FAT.\<close>

definition grown :: "('d \<Rightarrow> nat \<Rightarrow> u8 list) \<Rightarrow> nat list \<Rightarrow> 'd FATFS \<Rightarrow> nat list \<Rightarrow> 'd FATFS \<Rightarrow> bool" where
  "grown sector ch fs ch' fs' \<longleftrightarrow> same_disk fs fs' \<and>
     (\<exists>ks. ch' = ch @ ks \<and> set ks \<subseteq> free_set (unat (n_fatent fs)) (fat_entry sector fs)) \<and>
     free_set (unat (n_fatent fs)) (fat_entry sector fs') \<subseteq> free_set (unat (n_fatent fs)) (fat_entry sector fs) \<and>
     (\<forall>c. 2 \<le> c \<and> c < unat (n_fatent fs) \<and> c \<notin> set ch' \<longrightarrow> fat_entry sector fs' c = fat_entry sector fs c) \<and>
     (\<forall>l. l \<notin> in_fat fs \<union> mirror fs \<union> cluster_sectors fs (set ch') \<longrightarrow> volume sector fs' l = volume sector fs l)"

lemma same_disk_trans: "same_disk f0 f1 \<Longrightarrow> same_disk f1 f2 \<Longrightarrow> same_disk f0 f2"
proof -
  assume a: "same_disk f0 f1" "same_disk f1 f2"
  obtain l f i where v: "same_volume (f1\<lparr>last_clst := l, free_clst := f, fsi_flag := i\<rparr>) f2" using a(2) by (auto simp: same_disk_def)
  show "same_disk f0 f2" by (rule same_disk_volume [OF same_disk_info [OF a(1)] v])
qed

lemma cluster_sectors_disk: "same_disk fs fs' \<Longrightarrow> cluster_sectors fs' = cluster_sectors fs"
  by (simp add: cluster_sectors_def cluster_base_def fun_eq_iff same_disk_simps)

lemma file_sector_disk: "same_disk fs fs' \<Longrightarrow> file_sector fs' = file_sector fs"
  by (simp add: file_sector_def cluster_base_def fun_eq_iff same_disk_simps)

lemma grown_trans:
  assumes "grown sector ch fs ch1 f1" "grown sector ch1 f1 ch2 f2"
  shows "grown sector ch fs ch2 f2"
proof -
  have d: "same_disk fs f1" "same_disk f1 f2" using assms by (simp_all add: grown_def)
  note s = same_disk_simps [OF d(1)] cluster_sectors_disk [OF d(1)]
  obtain ks where ks: "ch1 = ch @ ks" "set ks \<subseteq> free_set (unat (n_fatent fs)) (fat_entry sector fs)" using assms(1) by (auto simp: grown_def)
  obtain ks' where ks': "ch2 = ch1 @ ks'" "set ks' \<subseteq> free_set (unat (n_fatent fs)) (fat_entry sector f1)" using assms(2) by (auto simp: grown_def s)
  have f: "free_set (unat (n_fatent fs)) (fat_entry sector f2) \<subseteq> free_set (unat (n_fatent fs)) (fat_entry sector f1)"
      "free_set (unat (n_fatent fs)) (fat_entry sector f1) \<subseteq> free_set (unat (n_fatent fs)) (fat_entry sector fs)"
    using assms by (simp_all add: grown_def s)
  have "\<exists>ks. ch2 = ch @ ks \<and> set ks \<subseteq> free_set (unat (n_fatent fs)) (fat_entry sector fs)"
    using ks ks' f(2) by (intro exI [of _ "ks @ ks'"]) auto
  moreover have "fat_entry sector f2 c = fat_entry sector fs c" if "2 \<le> c" "c < unat (n_fatent fs)" "c \<notin> set ch2" for c
    using assms that ks'(1) by (simp add: grown_def s)
  moreover have "volume sector f2 l = volume sector fs l" if l: "l \<notin> in_fat fs \<union> mirror fs \<union> cluster_sectors fs (set ch2)" for l
  proof -
    have "cluster_sectors fs (set ch1) \<subseteq> cluster_sectors fs (set ch2)" using ks'(1) by (auto simp: cluster_sectors_def)
    then show ?thesis using assms l unfolding grown_def s by (metis Un_iff subsetD)
  qed
  ultimately show ?thesis using same_disk_trans [OF d] f by (auto simp: grown_def)
qed

lemma framed_grown:
  assumes "framed sector ch fs fp fs' fp'"
  shows "grown sector ch fs ch fs'"
proof -
  have v: "same_volume fs fs'" using assms by (simp add: framed_def)
  have "free_set (unat (n_fatent fs)) (fat_entry sector fs') \<subseteq> free_set (unat (n_fatent fs)) (fat_entry sector fs)"
    using assms by (auto simp: framed_def free_set_def)
  then show ?thesis using assms same_disk_volume [OF same_disk_refl v] by (simp add: framed_def grown_def)
qed

lemma grown_refl [simp]: "grown sector ch fs ch fs"
  by (rule framed_grown [OF kept_framed [OF kept_refl]])

lemma cluster_word:
  assumes "fat_ok ready sector fs" "2 \<le> c" "c < unat (n_fatent fs)"
  shows "unat (of_nat c :: u32) = c" "(of_nat c :: u32) \<noteq> 0" "(of_nat c :: u32) \<noteq> 1" "(of_nat c :: u32) \<noteq> 0xFFFFFFFF"
proof -
  have "c < 0xFFFFFFF7" using assms by (auto simp: fat_ok_def fat_geometry_def)
  then show u: "unat (of_nat c :: u32) = c" by (intro unat_of_nat_u32) simp
  show "(of_nat c :: u32) \<noteq> 0" "(of_nat c :: u32) \<noteq> 1" "(of_nat c :: u32) \<noteq> 0xFFFFFFFF"
    using u assms(2) \<open>c < 0xFFFFFFF7\<close> by auto
qed

lemma grown_intro:
  assumes "chain_ok ready sector ch' fs'" "same_disk fs fs'" "ch' = ch @ ks" "set ks \<subseteq> free_set (unat (n_fatent fs)) (fat_entry sector fs)"
    and e: "\<And>c. 2 \<le> c \<Longrightarrow> c < unat (n_fatent fs) \<Longrightarrow> c \<notin> set ch' \<Longrightarrow> fat_entry sector fs' c = fat_entry sector fs c"
    and "\<And>l. l \<notin> in_fat fs \<union> mirror fs \<Longrightarrow> volume sector fs' l = volume sector fs l"
  shows "grown sector ch fs ch' fs'"
proof -
  have nz: "fat_entry sector fs' c \<noteq> 0" if "c \<in> set ch'" for c
    using assms(1) fat_chain_used [OF _ fatent_bound that] that by (auto simp: chain_ok_def)
  have "free_set (unat (n_fatent fs)) (fat_entry sector fs') \<subseteq> free_set (unat (n_fatent fs)) (fat_entry sector fs)"
  proof
    fix x assume "x \<in> free_set (unat (n_fatent fs)) (fat_entry sector fs')"
    then have x: "2 \<le> x" "x < unat (n_fatent fs)" "fat_entry sector fs' x = 0" by (simp_all add: free_set_def)
    then have "x \<notin> set ch'" using nz by auto
    then show "x \<in> free_set (unat (n_fatent fs)) (fat_entry sector fs)" using e x by (simp add: free_set_def)
  qed
  then show ?thesis using assms unfolding grown_def by simp
qed

text \<open>The cluster of a file pointer on a sector boundary: one of the chain, a new one, or none.\<close>

definition located :: "('d \<Rightarrow> bool) \<Rightarrow> ('d \<Rightarrow> nat \<Rightarrow> u8 list) \<Rightarrow> nat list \<Rightarrow> 'd FATFS \<Rightarrow> FIL \<Rightarrow> (turn option \<times> FIL \<times> 'd FATFS) option \<Rightarrow> bool" where
  "located ready sector ch fs fp res \<longleftrightarrow> (\<exists>t fp' fs' ch'. res = Some (t, fp', fs') \<and>
    chain_ok ready sector ch' fs' \<and> buffer_ok sector ch' fs' fp' \<and> alloc_ok sector fs' \<and> grown sector ch fs ch' fs' \<and>
    (\<forall>l \<in> cluster_sectors fs (set ch). sector (dev fs') l = sector (dev fs) l) \<and>
    (t = Some Full \<and> fp' = fp \<and> ch' = ch \<and> free_set (unat (n_fatent fs)) (fat_entry sector fs') = {} \<and> unat (fptr fp) = length ch * (unat (csize fs) * 512) \<or>
     t = None \<and> unat (fptr fp) < length ch' * (unat (csize fs) * 512) \<and>
       fp' = fp\<lparr>sclust := of_nat (hd ch'), f_clust := of_nat (ch' ! (unat (fptr fp) div (unat (csize fs) * 512)))\<rparr>))"

context multi_device
begin

text \<open>The cluster of the file pointer inside the chain.\<close>

lemma write_cluster_inside:
  assumes f: "file_ok ready sector ch fs fp" and p: "unat (fptr fp) mod (unat (csize fs) * 512) = 0" "unat (fptr fp) < length ch * (unat (csize fs) * 512)"
  shows "\<exists>fs'. write_cluster M fp fs = Some (None, fp\<lparr>f_clust := of_nat (ch ! (unat (fptr fp) div (unat (csize fs) * 512)))\<rparr>, fs') \<and>
    unchanged ready sector fs fs'"
proof -
  let ?b = "unat (csize fs) * 512" and ?p = "unat (fptr fp)"
  have c: "chain_ok ready sector ch fs" and pos: "position_ok ch fs fp" using f by (simp_all add: file_ok_def)
  note cc = chain_ok_chain [OF c]
  have b: "0 < ?b" using cc(2) by (auto simp: data_ok_def)
  have k: "?p div ?b < length ch" using p(2) by (simp add: less_mult_imp_div_less)
  then have ne: "ch \<noteq> []" by auto
  have fc: "fat_chain (unat (n_fatent fs)) (fat_entry sector fs) ch" using c ne by (simp add: chain_ok_def)
  have cw: "unat (of_nat x :: u32) = x" "(of_nat x :: u32) \<noteq> 0" "(of_nat x :: u32) \<noteq> 1" "(of_nat x :: u32) \<noteq> 0xFFFFFFFF" if "x \<in> set ch" for x
    using cluster_word [OF cc(1)] cc(5) [OF that] by simp_all
  have sc: "sclust fp = of_nat (ch ! 0)" using pos ne by (simp add: position_ok_def hd_conv_nth)
  have s0: "sclust fp \<noteq> 0" using cw(2) [of "ch ! 0"] ne sc by simp
  show ?thesis
  proof (cases "?p = 0")
    case True
    have "unchanged ready sector fs fs" using cc(1) by (simp add: unchanged_def)
    moreover have "fptr fp = 0" using True by (simp add: unat_eq_zero)
    ultimately show ?thesis using cw [of "ch ! 0"] ne True s0 sc by (auto simp: write_cluster_def)
  next
    case False
    define i where "i = ?p div ?b - 1"
    have "?p div ?b \<noteq> 0" using False p(1) b by (metis div_mult_mod_eq mult_is_0 add.right_neutral)
    then have i: "Suc i = ?p div ?b" by (simp add: i_def)
    then have "?p = ?b * Suc i" using p(1) by (metis add.right_neutral mult_div_mod_eq)
    then have "(?p - 1) div ?b = i" using b by (intro div_nat_eqI) (simp_all add: algebra_simps)
    then have cl: "f_clust fp = of_nat (ch ! i)" using pos False by (simp add: position_ok_def)
    have il: "i < length ch" "Suc i < length ch" using i k by simp_all
    have m: "ch ! i \<in> set ch" "ch ! Suc i \<in> set ch" using il by simp_all
    have u: "unat (f_clust fp) = ch ! i" using cw(1) [OF m(1)] cl by simp
    have e: "fat_entry sector fs (ch ! i) = of_nat (ch ! Suc i)" by (rule fat_chain_step [OF fc il(2)])
    obtain fs' where g: "create_chain (single_io M) (f_clust fp) fs = Some (of_nat (ch ! Suc i), fs')" "unchanged ready sector fs fs'"
      using create_chain_follows [OF cc(1), of "f_clust fp"] cc(5) [OF m(1)] cc(5) [OF m(2)] cw(1) [OF m(2)] unfolding u e by auto
    moreover have "fptr fp \<noteq> 0" using False by auto
    ultimately show ?thesis using cw(2-4) [OF m(2)] i s0 by (auto simp: write_cluster_def)
  qed
qed

text \<open>A new cluster at the end of the chain, or the volume is full.\<close>

lemma chain_stretches:
  assumes c: "chain_ok ready sector ch fs" and b: "buffer_ok sector ch fs fp" and a: "alloc_ok sector fs"
  shows "\<exists>k fs' ch'. create_chain (single_io M) (if ch = [] then 0 else of_nat (last ch)) fs = Some (of_nat k, fs') \<and> chain_ok ready sector ch' fs' \<and>
    buffer_ok sector ch' fs' fp \<and> alloc_ok sector fs' \<and> grown sector ch fs ch' fs' \<and> (\<forall>l \<in> cluster_sectors fs (set ch). sector (dev fs') l = sector (dev fs) l) \<and>
    (k = 0 \<and> ch' = ch \<and> free_set (unat (n_fatent fs)) (fat_entry sector fs') = {} \<or> 2 \<le> k \<and> k < unat (n_fatent fs) \<and> ch' = ch @ [k])"
proof -
  let ?n = "unat (n_fatent fs)"
  obtain k fs' where g: "create_chain (single_io M) (if ch = [] then 0 else of_nat (last ch)) fs = Some (of_nat k, fs')" "same_disk fs fs'" "alloc_ok sector fs'"
      "\<forall>l \<in> cluster_sectors fs (set ch). sector (dev fs') l = sector (dev fs) l"
      "\<forall>l. l \<notin> in_fat fs \<union> mirror fs \<longrightarrow> volume sector fs' l = volume sector fs l"
      "\<forall>c. 2 \<le> c \<and> c < ?n \<and> c \<notin> set ch \<and> c \<noteq> k \<longrightarrow> fat_entry sector fs' c = fat_entry sector fs c"
      "if free_set ?n (fat_entry sector fs) = {}
       then k = 0 \<and> chain_ok ready sector ch fs' \<and> buffer_ok sector ch fs' fp \<and> free_set ?n (fat_entry sector fs') = {}
       else k \<in> free_set ?n (fat_entry sector fs) \<and> chain_ok ready sector (ch @ [k]) fs' \<and> buffer_ok sector (ch @ [k]) fs' fp"
    using create_chain_stretches [OF c b a refl] by blast
  show ?thesis
  proof (cases "free_set ?n (fat_entry sector fs) = {}")
    case True
    then have h: "k = 0" "chain_ok ready sector ch fs'" "buffer_ok sector ch fs' fp" "free_set ?n (fat_entry sector fs') = {}" using g(7) by simp_all
    have "grown sector ch fs ch fs'" by (rule grown_intro [OF h(2) g(2), of _ "[]"]) (use g(5,6) h(1) in auto)
    then show ?thesis using g(1,3,4) h by (intro exI [of _ k] exI [of _ fs'] exI [of _ ch]) simp
  next
    case False
    then have h: "k \<in> free_set ?n (fat_entry sector fs)" "chain_ok ready sector (ch @ [k]) fs'" "buffer_ok sector (ch @ [k]) fs' fp" using g(7) by simp_all
    have "grown sector ch fs (ch @ [k]) fs'" by (rule grown_intro [OF h(2) g(2), of _ "[k]"]) (use g(5,6) h(1) in auto)
    moreover have "2 \<le> k" "k < ?n" using h(1) by (simp_all add: free_set_def)
    ultimately show ?thesis using g(1,3,4) h by (intro exI [of _ k] exI [of _ fs'] exI [of _ "ch @ [k]"]) simp
  qed
qed

text \<open>The end of the chain: a new cluster, or the volume is full.\<close>

lemma write_cluster_behind:
  assumes f: "file_ok ready sector ch fs fp" and a: "alloc_ok sector fs" and p: "unat (fptr fp) = length ch * (unat (csize fs) * 512)"
  shows "\<exists>t fp' fs' ch'. write_cluster M fp fs = Some (t, fp', fs') \<and> chain_ok ready sector ch' fs' \<and> buffer_ok sector ch' fs' fp \<and> alloc_ok sector fs' \<and>
    grown sector ch fs ch' fs' \<and> (\<forall>l \<in> cluster_sectors fs (set ch). sector (dev fs') l = sector (dev fs) l) \<and>
    (t = Some Full \<and> fp' = fp \<and> ch' = ch \<and> free_set (unat (n_fatent fs)) (fat_entry sector fs') = {} \<or>
     t = None \<and> length ch' = Suc (length ch) \<and> fp' = fp\<lparr>sclust := of_nat (hd ch'), f_clust := of_nat (last ch')\<rparr>)"
proof -
  let ?b = "unat (csize fs) * 512" and ?p = "unat (fptr fp)" and ?n = "unat (n_fatent fs)"
  have c: "chain_ok ready sector ch fs" and bo: "buffer_ok sector ch fs fp" and pos: "position_ok ch fs fp" using f by (simp_all add: file_ok_def)
  note cc = chain_ok_chain [OF c]
  have b: "0 < ?b" using cc(2) by (auto simp: data_ok_def)
  define clst where "clst = (if ch = [] then 0 else of_nat (last ch) :: u32)"
  have start: "(if fptr fp = 0 then (if sclust fp = 0 then create_chain (single_io M) 0 fs else Some (sclust fp, fs)) else create_chain (single_io M) (f_clust fp) fs) =
      create_chain (single_io M) clst fs"
  proof (cases "ch = []")
    case True
    then have "fptr fp = 0" "sclust fp = 0" using p pos by (simp_all add: position_ok_def unat_eq_zero)
    then show ?thesis using True by (simp add: clst_def)
  next
    case False
    have l: "0 < length ch" using False by simp
    then have p0: "0 < ?p" using p b by simp
    have "?p = ?b * Suc (length ch - 1)" using p l by (simp add: mult.commute)
    then have "(?p - 1) div ?b = length ch - 1" using b by (intro div_nat_eqI) (simp_all add: algebra_simps)
    then have "f_clust fp = clst" using pos p0 False by (simp add: position_ok_def clst_def last_conv_nth)
    moreover have "fptr fp \<noteq> 0" using p0 by auto
    ultimately show ?thesis by simp
  qed
  obtain k fs' ch' where g: "create_chain (single_io M) clst fs = Some (of_nat k, fs')" "chain_ok ready sector ch' fs'" "buffer_ok sector ch' fs' fp" "alloc_ok sector fs'"
      "grown sector ch fs ch' fs'" "\<forall>l \<in> cluster_sectors fs (set ch). sector (dev fs') l = sector (dev fs) l"
      "k = 0 \<and> ch' = ch \<and> free_set ?n (fat_entry sector fs') = {} \<or> 2 \<le> k \<and> k < ?n \<and> ch' = ch @ [k]"
    using chain_stretches [OF c bo a] unfolding clst_def by blast
  show ?thesis
  proof (cases "k = 0")
    case True
    then have h: "ch' = ch" "free_set ?n (fat_entry sector fs') = {}" using g(7) by simp_all
    have "write_cluster M fp fs = Some (Some Full, fp, fs')" unfolding write_cluster_def start g(1) True by simp
    then show ?thesis using g(2-6) h by blast
  next
    case False
    then have h: "2 \<le> k" "k < ?n" "ch' = ch @ [k]" using g(7) by simp_all
    note cw = cluster_word [OF cc(1) h(1,2)]
    have sc: "sclust fp = 0 \<longleftrightarrow> ch = []" using pos cluster_word(2) [OF cc(1)] cc(5) [of "hd ch"] by (auto simp: position_ok_def)
    have "write_cluster M fp fs = Some (None, fp\<lparr>sclust := of_nat (hd ch'), f_clust := of_nat (last ch')\<rparr>, fs')"
    proof (cases "ch = []")
      case True
      then show ?thesis unfolding write_cluster_def start g(1) h(3) using cw sc by simp
    next
      case False
      then have "sclust fp = of_nat (hd (ch @ [k]))" using pos by (simp add: position_ok_def)
      then show ?thesis unfolding write_cluster_def start g(1) h(3) using cw sc False by simp
    qed
    then show ?thesis using g(2-6) h(3) by (intro exI [of _ None] exI [of _ "fp\<lparr>sclust := of_nat (hd ch'), f_clust := of_nat (last ch')\<rparr>"] exI [of _ fs'] exI [of _ ch']) simp
  qed
qed

lemma located_inside:
  assumes f: "file_ok ready sector ch fs fp" and a: "alloc_ok sector fs" and m: "unat (fptr fp) mod (unat (csize fs) * 512) = 0"
    and in_chain: "unat (fptr fp) < length ch * (unat (csize fs) * 512)"
  shows "located ready sector ch fs fp (write_cluster M fp fs)"
proof -
  let ?p = "unat (fptr fp)" and ?s = "unat (csize fs)"
  have c: "chain_ok ready sector ch fs" and bo: "buffer_ok sector ch fs fp" and pos: "position_ok ch fs fp" using f by (simp_all add: file_ok_def)
  have sc: "sclust fp = of_nat (hd ch)" if "ch \<noteq> []" using pos that by (simp add: position_ok_def)
  obtain f1 where w: "write_cluster M fp fs = Some (None, fp\<lparr>f_clust := of_nat (ch ! (?p div (?s * 512)))\<rparr>, f1)" "unchanged ready sector fs f1"
    using write_cluster_inside [OF f m in_chain] by blast
  note kf = kept_fat(1,2) [OF w(2) c bo] kept_fat(3) [OF w(2) c bo, of "f_clust fp"]
  have v: "same_volume fs f1" using w(2) by (simp add: unchanged_def)
  have e: "\<forall>c < unat (n_fatent fs). fat_entry sector f1 c = fat_entry sector fs c" using kf(3) by (simp add: kept_def framed_def)
  note sec = unchanged_sectors [OF w(2) c kf(1)]
  have "ch \<noteq> []" using in_chain by auto
  then have "fp\<lparr>f_clust := of_nat (ch ! (?p div (?s * 512)))\<rparr> = fp\<lparr>sclust := of_nat (hd ch), f_clust := of_nat (ch ! (?p div (?s * 512)))\<rparr>" using sc by simp
  moreover have "buffer_ok sector ch f1 (fp\<lparr>f_clust := of_nat (ch ! (?p div (?s * 512)))\<rparr>)" using kf(2) by (simp add: buffer_ok_def dirty_def)
  ultimately show ?thesis unfolding located_def w(1)
    using kf(1) alloc_ok_same [OF a v e] framed_grown [OF kept_framed [OF kf(3)]] sec in_chain
    by (intro exI [of _ None] exI [of _ "fp\<lparr>f_clust := of_nat (ch ! (?p div (?s * 512)))\<rparr>"] exI [of _ f1] exI [of _ ch]) simp
qed

lemma located_behind:
  assumes f: "file_ok ready sector ch fs fp" and a: "alloc_ok sector fs" and e: "unat (fptr fp) = length ch * (unat (csize fs) * 512)"
  shows "located ready sector ch fs fp (write_cluster M fp fs)"
proof -
  let ?p = "unat (fptr fp)" and ?s = "unat (csize fs)"
  have "data_ok fs" using f by (simp add: file_ok_def chain_ok_def)
  then have s: "0 < ?s" by (auto simp: data_ok_def)
  obtain t fp' f1 ch' where w: "write_cluster M fp fs = Some (t, fp', f1)" "chain_ok ready sector ch' f1" "buffer_ok sector ch' f1 fp" "alloc_ok sector f1"
      "grown sector ch fs ch' f1" "\<forall>l \<in> cluster_sectors fs (set ch). sector (dev f1) l = sector (dev fs) l"
      "t = Some Full \<and> fp' = fp \<and> ch' = ch \<and> free_set (unat (n_fatent fs)) (fat_entry sector f1) = {} \<or>
       t = None \<and> length ch' = Suc (length ch) \<and> fp' = fp\<lparr>sclust := of_nat (hd ch'), f_clust := of_nat (last ch')\<rparr>"
    using write_cluster_behind [OF f a e] by blast
  have "ch' ! (?p div (?s * 512)) = last ch'" "?p < length ch' * (?s * 512)" if "length ch' = Suc (length ch)"
  proof -
    have "?p div (?s * 512) = length ch" using e s by simp
    moreover have "ch' \<noteq> []" using that by auto
    ultimately show "ch' ! (?p div (?s * 512)) = last ch'" using that by (simp add: last_conv_nth)
    show "?p < length ch' * (?s * 512)" using that e s by simp
  qed
  moreover have "buffer_ok sector ch' f1 fp'" using w(3,7) by (auto simp: buffer_ok_def dirty_def)
  ultimately show ?thesis unfolding located_def w(1) using w(2,4-7) e
    by (intro exI [of _ t] exI [of _ fp'] exI [of _ f1] exI [of _ ch']) auto
qed

lemma write_located_ok:
  assumes f: "file_ok ready sector ch fs fp" and a: "alloc_ok sector fs" and p: "unat (fptr fp) mod 512 = 0"
  shows "located ready sector ch fs fp (if sector_in_cluster fp fs = 0 then write_cluster M fp fs else Some (None, fp, fs))"
proof -
  let ?p = "unat (fptr fp)" and ?s = "unat (csize fs)"
  have c: "chain_ok ready sector ch fs" and bo: "buffer_ok sector ch fs fp" and pos: "position_ok ch fs fp" using f by (simp_all add: file_ok_def)
  note cc = chain_ok_chain [OF c]
  have s: "0 < ?s" using cc(2) by (auto simp: data_ok_def)
  have cm: "unat (sector_in_cluster fp fs) = ?p div 512 mod ?s" by (rule csect_mod [OF cc(2)])
  have al: "?p = 512 * (?p div 512)" using p by auto
  have size: "?p \<le> length ch * (?s * 512)" using pos by (simp add: position_ok_def word_le_nat_alt)
  have sc: "sclust fp = of_nat (hd ch)" if "ch \<noteq> []" using pos that by (simp add: position_ok_def)
  show ?thesis
  proof (cases "sector_in_cluster fp fs = 0")
    case True
    then have "?s dvd ?p div 512" using cm by (simp add: mod_eq_0_iff_dvd)
    then have "512 * ?s dvd 512 * (?p div 512)" by (rule mult_dvd_mono [OF dvd_refl])
    then have m: "?p mod (?s * 512) = 0" unfolding al [symmetric] by (simp add: mult.commute mod_eq_0_iff_dvd)
    show ?thesis unfolding if_P [OF True] using located_inside [OF f a m] located_behind [OF f a] size by (cases "?p < length ch * (?s * 512)") auto
  next
    case False
    then have r: "0 < ?p div 512 mod ?s" using cm unat_gt_0 by metis
    note mid = mid_cluster [OF p r s]
    have "?p \<noteq> length ch * (?s * 512)"
    proof
      assume "?p = length ch * (?s * 512)"
      then have "?p div 512 = length ch * ?s" by simp
      then show False using r by simp
    qed
    then have lt: "?p < length ch * (?s * 512)" using size by simp
    then have ne: "ch \<noteq> []" by auto
    have "f_clust fp = of_nat (ch ! (?p div (?s * 512)))" using pos mid by (simp add: position_ok_def)
    then have e: "fp\<lparr>sclust := of_nat (hd ch), f_clust := of_nat (ch ! (?p div (?s * 512)))\<rparr> = fp" using sc [OF ne] by simp
    show ?thesis unfolding if_not_P [OF False] located_def
      by (intro exI [of _ None] exI [of _ fp] exI [of _ fs] exI [of _ ch]) (use c bo a lt e in simp)
  qed
qed

end

text \<open>The bytes of a file whose chain has grown.\<close>

lemma grown_byte:
  assumes g: "grown sector ch fs ch' fs'" and d: "data_ok fs" and sec: "\<forall>l \<in> cluster_sectors fs (set ch). sector (dev fs') l = sector (dev fs) l"
    and e: "f_sect fp' = f_sect fp" "f_buf fp' = f_buf fp" and i: "i < length ch * (unat (csize fs) * 512)"
  shows "file_byte sector fs' fp' ch' i = file_byte sector fs fp ch i"
proof -
  obtain ks where ks: "ch' = ch @ ks" "same_disk fs fs'" using g by (auto simp: grown_def)
  have lt: "i div 512 < length ch * unat (csize fs)" using i by (simp add: div_less_iff_less_mult algebra_simps)
  then have "i div 512 div unat (csize fs) < length ch" by (simp add: less_mult_imp_div_less)
  then have "file_sector fs' ch' (i div 512) = file_sector fs ch (i div 512)"
    unfolding file_sector_disk [OF ks(2)] by (simp add: file_sector_def ks(1) nth_append)
  then show ?thesis using sec file_sector_in [OF d lt] e by (simp add: file_byte_def buffered_def)
qed

text \<open>What stays of the file object besides its position, size, chain and buffer.\<close>

definition meta :: "FIL \<Rightarrow> bool \<times> u16 \<times> u8 \<times> u32 \<times> nat \<times> u8" where
  "meta fp = (obj_fs fp, obj_id fp, f_err fp, dir_sect fp, dir_ptr fp, f_flag fp AND NOT FA_DIRTY)"

lemma framed_meta: "framed sector ch fs fp fs' fp' \<Longrightarrow> meta fp' = meta fp"
  using framed_fields [of sector ch fs fp fs' fp'] by (simp add: meta_def)

lemma advance_fields:
  assumes "unat (fptr fp) + unat w < 2 ^ 32"
  shows "unat (fptr (advance w fp)) = unat (fptr fp) + unat w" "unat (objsize (advance w fp)) = max (unat (objsize fp)) (unat (fptr fp) + unat w)"
    "meta (advance w fp) = meta fp" "f_sect (advance w fp) = f_sect fp" "f_buf (advance w fp) = f_buf fp" "f_clust (advance w fp) = f_clust fp"
    "sclust (advance w fp) = sclust fp" "dirty (advance w fp) = dirty fp"
  using assms by (simp_all add: advance_def Let_def meta_def dirty_def unat_add_u32 word_less_nat_alt)

lemma file_byte_cong: "f_sect p = f_sect q \<Longrightarrow> f_buf p = f_buf q \<Longrightarrow> file_byte sector fs p ch i = file_byte sector fs q ch i"
  by (simp add: file_byte_def buffered_def)

lemma write_finish:
  assumes t: "wrote_turn ready sector ch' btw wbuff f1 p1 r"
    and w: "grown sector ch fs ch' f1" "\<forall>l \<in> cluster_sectors fs (set ch). sector (dev f1) l = sector (dev fs) l" "alloc_ok sector f1"
    and p1: "f_sect p1 = f_sect fp" "f_buf p1 = f_buf fp" "fptr p1 = fptr fp" "objsize p1 = objsize fp" "meta p1 = meta fp" "sclust p1 = of_nat (hd ch')"
    and f: "file_ok ready sector ch fs fp" and n: "unat (fptr fp) + unat btw < 2 ^ 32"
  shows "\<exists>k fp' fs'. r = Some (Moved k, fp', fs') \<and> 0 < unat k \<and> unat k \<le> unat btw \<and> file_ok ready sector ch' fs' (advance k fp') \<and>
    alloc_ok sector fs' \<and> grown sector ch fs ch' fs' \<and> wrote sector (unat (fptr fp)) (take (unat k) wbuff) ch fs fp ch' fs' (advance k fp') \<and>
    unat (fptr (advance k fp')) = unat (fptr fp) + unat k \<and> unat (objsize (advance k fp')) = max (unat (objsize fp)) (unat (fptr fp) + unat k) \<and>
    meta (advance k fp') = meta fp"
proof -
  have d1: "same_disk fs f1" using w(1) by (simp add: grown_def)
  note sd = same_disk_simps [OF d1]
  obtain k fp' fs' where k: "r = Some (Moved k, fp', fs')" "0 < unat k" "unat k \<le> unat btw"
      "chain_ok ready sector ch' fs'" "buffer_ok sector ch' fs' fp'" "framed sector ch' f1 p1 fs' fp'" "fptr fp' = fptr fp" "f_clust fp' = f_clust p1"
      "f_clust p1 = of_nat (ch' ! ((unat (fptr fp) + unat k - 1) div (unat (csize fs) * 512)))"
      "unat (fptr fp) + unat k \<le> length ch' * (unat (csize fs) * 512)"
      "(unat (fptr fp) + unat k) mod 512 \<noteq> 0 \<longrightarrow> unat (f_sect fp') = file_sector f1 ch' ((unat (fptr fp) + unat k) div 512)"
      "wrote sector (unat (fptr fp)) (take (unat k) wbuff) ch' f1 p1 ch' fs' fp'"
    using t unfolding wrote_turn_def p1 sd by blast
  note ff = framed_fields [OF k(6)]
  have lt: "unat (fptr fp') + unat k < 2 ^ 32" using n k(3,7) by simp
  note af = advance_fields [OF lt]
  have pos: "position_ok ch fs fp" and dk: "data_ok fs" using f by (simp_all add: file_ok_def chain_ok_def)
  have size: "unat (objsize fp) \<le> length ch * (unat (csize fs) * 512)" "unat (fptr fp) \<le> unat (objsize fp)"
    using pos by (simp_all add: position_ok_def word_le_nat_alt)
  obtain ks where "ch' = ch @ ks" using w(1) by (auto simp: grown_def)
  then have "length ch * (unat (csize fs) * 512) \<le> length ch' * (unat (csize fs) * 512)" by (intro mult_le_mono1) simp
  then have size': "unat (objsize fp) \<le> length ch' * (unat (csize fs) * 512)" using size(1) by linarith
  have v: "same_volume f1 fs'" using k(6) by (simp add: framed_def)
  have cs: "csize fs' = csize fs" "file_sector fs' = file_sector f1" using same_volume_simps [OF v] sd file_sector_same [OF v] by simp_all
  have ne: "ch' \<noteq> []" using k(2,10) by auto
  have "position_ok ch' fs' (advance k fp')"
    unfolding position_ok_def word_le_nat_alt af cs k(7,8) ff(1,2) p1 using k(2,9-11) ne size' by simp
  moreover have "buffer_ok sector ch' fs' (advance k fp')" using k(5) by (simp add: buffer_ok_def af)
  moreover have m: "meta (advance k fp') = meta fp" using af(3) framed_meta [OF k(6)] p1(5) by simp
  moreover have "fs_id f1 = fs_id fs" using d1 by (auto simp: same_disk_def same_volume_def)
  then have "obj_fs (advance k fp') \<and> obj_id (advance k fp') = fs_id fs' \<and> f_err (advance k fp') = 0"
    using m f ff(7) by (simp add: meta_def file_ok_def)
  ultimately have fo: "file_ok ready sector ch' fs' (advance k fp')" using k(4) by (simp add: file_ok_def)
  have "wrote sector (unat (fptr fp)) (take (unat k) wbuff) ch fs fp ch' fs' (advance k fp')"
    using k(12) grown_byte [OF w(1) dk w(2) p1(1,2)] size(1) unfolding wrote_def p1
    by (simp add: file_byte_cong [of "advance k fp'" fp'] af)
  moreover have "\<forall>c < unat (n_fatent f1). fat_entry sector fs' c = fat_entry sector f1 c" using k(6) by (simp add: framed_def)
  ultimately show ?thesis
    using k(1-3) fo alloc_ok_same [OF w(3) v] grown_trans [OF w(1) framed_grown [OF k(6)]] af(1,2) m k(7) ff(1) p1(4)
    by (intro exI [of _ k] exI [of _ fp'] exI [of _ fs']) simp
qed

text \<open>The outcome of a turn and of the whole loop: \<open>n\<close> bytes of \<open>wbuff\<close> are in the file.\<close>

definition moved :: "('d \<Rightarrow> bool) \<Rightarrow> ('d \<Rightarrow> nat \<Rightarrow> u8 list) \<Rightarrow> u8 list \<Rightarrow> nat \<Rightarrow> nat list \<Rightarrow> 'd FATFS \<Rightarrow> FIL \<Rightarrow> nat list \<Rightarrow> 'd FATFS \<Rightarrow> FIL \<Rightarrow> bool" where
  "moved ready sector wbuff n ch fs fp ch' fs' fp' \<longleftrightarrow> file_ok ready sector ch' fs' fp' \<and> alloc_ok sector fs' \<and> grown sector ch fs ch' fs' \<and>
     wrote sector (unat (fptr fp)) (take n wbuff) ch fs fp ch' fs' fp' \<and> unat (fptr fp') = unat (fptr fp) + n \<and>
     unat (objsize fp') = max (unat (objsize fp)) (unat (fptr fp) + n) \<and> meta fp' = meta fp"

lemma moved_trans:
  assumes a: "moved ready sector wbuff n ch fs fp c1 f1 p1" and b: "moved ready sector (drop n wbuff) m c1 f1 p1 c2 f2 p2"
    and len: "n + m \<le> length wbuff" and p: "unat (fptr fp) \<le> unat (objsize fp)"
  shows "moved ready sector wbuff (n + m) ch fs fp c2 f2 p2"
proof -
  have e: "unat (fptr p1) = unat (fptr fp) + n" "unat (objsize p1) = max (unat (objsize fp)) (unat (fptr fp) + n)" using a by (simp_all add: moved_def)
  have "wrote sector (unat (fptr fp)) (take (n + m) wbuff) ch fs fp c2 f2 p2"
    unfolding wrote_def
  proof (intro allI impI)
    fix i assume i: "i < unat (objsize fp) \<or> unat (fptr fp) \<le> i \<and> i < unat (fptr fp) + length (take (n + m) wbuff)"
    have l: "length (take n wbuff) = n" "length (take m (drop n wbuff)) = m" "length (take (n + m) wbuff) = n + m" using len by simp_all
    have wa: "i < unat (objsize fp) \<or> unat (fptr fp) \<le> i \<and> i < unat (fptr fp) + n \<Longrightarrow> file_byte sector f1 p1 c1 i =
        (if unat (fptr fp) \<le> i \<and> i < unat (fptr fp) + n then take n wbuff ! (i - unat (fptr fp)) else file_byte sector fs fp ch i)"
      using a unfolding moved_def wrote_def l by blast
    have wb: "i < unat (objsize p1) \<or> unat (fptr p1) \<le> i \<and> i < unat (fptr p1) + m \<Longrightarrow> file_byte sector f2 p2 c2 i =
        (if unat (fptr p1) \<le> i \<and> i < unat (fptr p1) + m then take m (drop n wbuff) ! (i - unat (fptr p1)) else file_byte sector f1 p1 c1 i)"
      using b unfolding moved_def wrote_def l by blast
    consider "unat (fptr fp) + n \<le> i" "i < unat (fptr fp) + n + m" | "unat (fptr fp) \<le> i" "i < unat (fptr fp) + n"
      | "i < unat (fptr fp) \<or> unat (fptr fp) + n + m \<le> i" "i < unat (objsize fp)" using i l(3) by linarith
    then show "file_byte sector f2 p2 c2 i = (if unat (fptr fp) \<le> i \<and> i < unat (fptr fp) + length (take (n + m) wbuff)
        then take (n + m) wbuff ! (i - unat (fptr fp)) else file_byte sector fs fp ch i)"
    proof cases
      case 1
      then have "n + (i - (unat (fptr fp) + n)) = i - unat (fptr fp)" "i - (unat (fptr fp) + n) < m" "i - unat (fptr fp) < n + m" by linarith+
      then show ?thesis using 1 wb e l(3) len by simp
    next
      case 2
      then have "i - unat (fptr fp) < n" by linarith
      then show ?thesis using 2 wa wb e l(3) by auto
    next
      case 3
      then show ?thesis using wa wb e l(3) by auto
    qed
  qed
  then show ?thesis using a b e grown_trans [of sector ch fs c1 f1 c2 f2] unfolding moved_def by auto
qed

context multi_device
begin

lemma moved_nothing:
  assumes f: "file_ok ready sector ch fs fp" and l: "chain_ok ready sector ch f1" "buffer_ok sector ch f1 fp" "alloc_ok sector f1" "grown sector ch fs ch f1"
    "\<forall>l \<in> cluster_sectors fs (set ch). sector (dev f1) l = sector (dev fs) l"
  shows "moved ready sector wbuff 0 ch fs fp ch f1 fp"
proof -
  have pos: "position_ok ch fs fp" and d: "data_ok fs" using f by (simp_all add: file_ok_def chain_ok_def)
  have d1: "same_disk fs f1" using l(4) by (simp add: grown_def)
  have "fs_id f1 = fs_id fs" using d1 by (auto simp: same_disk_def same_volume_def)
  moreover have "position_ok ch f1 fp" using pos by (simp add: position_ok_def same_disk_simps [OF d1] file_sector_disk [OF d1])
  ultimately have "file_ok ready sector ch f1 fp" using f l(1,2) by (simp add: file_ok_def)
  moreover have "wrote sector (unat (fptr fp)) (take 0 wbuff) ch fs fp ch f1 fp"
    using grown_byte [OF l(4) d l(5) refl refl] pos by (auto simp: wrote_def position_ok_def)
  ultimately show ?thesis using l(3,4) pos by (simp add: moved_def position_ok_def word_le_nat_alt)
qed

lemma write_turn_inside:
  assumes f: "file_ok ready sector ch fs fp" and a: "alloc_ok sector fs" and n: "0 < unat btw" "unat btw \<le> length wbuff" "unat (fptr fp) + unat btw < 2 ^ 32"
    and False: "unat (fptr fp) mod 512 \<noteq> 0"
  shows "\<exists>w fp' fs'. write_turn M btw wbuff fp fs = Some (Moved w, fp', fs') \<and> 0 < unat w \<and> unat w \<le> unat btw \<and> moved ready sector wbuff (unat w) ch fs fp ch fs' (advance w fp')"
proof -
  let ?p = "unat (fptr fp)" and ?s = "unat (csize fs)"
  have c: "chain_ok ready sector ch fs" and bo: "buffer_ok sector ch fs fp" and pos: "position_ok ch fs fp" using f by (simp_all add: file_ok_def)
  note cc = chain_ok_chain [OF c]
  have size: "unat (objsize fp) \<le> length ch * (?s * 512)" "fptr fp \<le> objsize fp" using pos by (simp_all add: position_ok_def)
  have m0: "fptr fp mod 512 \<noteq> 0" using False by (simp add: word_unat_eq_iff unat_mod)
  have p0: "0 < ?p" using False by (cases "?p = 0") auto
  have "?p \<le> length ch * (?s * 512)" using size by (simp add: word_le_nat_alt)
  moreover have "?p \<noteq> length ch * (?s * 512)" using False by auto
  ultimately have lt: "?p < length ch * (?s * 512)" by simp
  have sec: "unat (f_sect fp) = file_sector fs ch (?p div 512)" using pos False by (simp add: position_ok_def)
  have "(?p - 1) div (?s * 512) = ?p div (?s * 512)"
    using pred_div [OF False] unfolding mult.commute [of ?s 512] div_mult2_eq by simp
  then have cl: "f_clust fp = of_nat (ch ! (?p div (?s * 512)))" using pos p0 by (simp add: position_ok_def)
  have "ch \<noteq> []" using lt by auto
  then have sc: "sclust fp = of_nat (hd ch)" using pos by (simp add: position_ok_def)
  have "length (f_buf fp) = 512" using bo by (simp add: buffer_ok_def)
  from write_part_ok [OF c this sec lt size(1) n(1,2) cl]
  have "wrote_turn ready sector ch btw wbuff fs fp (write_buf btw wbuff fp fs)" .
  from write_finish [OF this grown_refl _ a refl refl refl refl refl sc f n(3)]
  obtain k fp' fs' where k: "write_buf btw wbuff fp fs = Some (Moved k, fp', fs')" "0 < unat k" "unat k \<le> unat btw"
      "moved ready sector wbuff (unat k) ch fs fp ch fs' (advance k fp')"
    by (auto simp: moved_def)
  moreover have "write_turn M btw wbuff fp fs = Some (Moved k, fp', fs')" using m0 k(1) by (simp add: write_turn_def)
  ultimately show ?thesis by blast
qed

lemma write_turn_ok:
  assumes f: "file_ok ready sector ch fs fp" and a: "alloc_ok sector fs" and n: "0 < unat btw" "unat btw \<le> length wbuff" "unat (fptr fp) + unat btw < 2 ^ 32"
  shows "\<exists>t fp' fs' ch'. write_turn M btw wbuff fp fs = Some (t, fp', fs') \<and>
    (t = Full \<and> moved ready sector wbuff 0 ch fs fp ch' fs' fp' \<and> free_set (unat (n_fatent fs)) (fat_entry sector fs') = {} \<and>
       unat (fptr fp') = length ch' * (unat (csize fs) * 512) \<or>
     (\<exists>w. t = Moved w \<and> 0 < unat w \<and> unat w \<le> unat btw \<and> moved ready sector wbuff (unat w) ch fs fp ch' fs' (advance w fp')))"
proof -
  let ?p = "unat (fptr fp)" and ?s = "unat (csize fs)"
  have c: "chain_ok ready sector ch fs" and bo: "buffer_ok sector ch fs fp" and pos: "position_ok ch fs fp" using f by (simp_all add: file_ok_def)
  note cc = chain_ok_chain [OF c]
  have size: "unat (objsize fp) \<le> length ch * (?s * 512)" "fptr fp \<le> objsize fp" using pos by (simp_all add: position_ok_def)
  show ?thesis
  proof (cases "?p mod 512 = 0")
    case True
    have m0: "fptr fp mod 512 = 0" using True by (simp add: word_unat_eq_iff unat_mod)
    let ?cs = "sector_in_cluster fp fs"
    obtain t p1 f1 c1 where l: "(if ?cs = 0 then write_cluster M fp fs else Some (None, fp, fs)) = Some (t, p1, f1)"
        "chain_ok ready sector c1 f1" "buffer_ok sector c1 f1 p1" "alloc_ok sector f1" "grown sector ch fs c1 f1"
        "\<forall>l \<in> cluster_sectors fs (set ch). sector (dev f1) l = sector (dev fs) l"
        "t = Some Full \<and> p1 = fp \<and> c1 = ch \<and> free_set (unat (n_fatent fs)) (fat_entry sector f1) = {} \<and> ?p = length ch * (?s * 512) \<or>
         t = None \<and> ?p < length c1 * (?s * 512) \<and> p1 = fp\<lparr>sclust := of_nat (hd c1), f_clust := of_nat (c1 ! (?p div (?s * 512)))\<rparr>"
      using write_located_ok [OF f a True] unfolding located_def by blast
    have d1: "same_disk fs f1" using l(5) by (simp add: grown_def)
    note sd = same_disk_simps [OF d1]
    show ?thesis
    proof (cases t)
      case (Some t')
      then have h: "t' = Full" "p1 = fp" "c1 = ch" "free_set (unat (n_fatent fs)) (fat_entry sector f1) = {}"
          "?p = length ch * (?s * 512)" using l(7) by simp_all
      have "moved ready sector wbuff 0 ch fs fp ch f1 fp" by (rule moved_nothing [OF f]) (use l(2-6) h(2,3) in simp_all)
      moreover have "write_turn M btw wbuff fp fs = Some (Full, fp, f1)" unfolding write_turn_def Let_def using m0 l(1) Some h by simp
      ultimately show ?thesis using h(4,5) by blast
    next
      case None
      let ?f = "fp\<lparr>sclust := of_nat (hd c1), f_clust := of_nat (c1 ! (?p div (?s * 512)))\<rparr>"
      have h: "?p < length c1 * (?s * 512)" "p1 = ?f" using l(7) None by simp_all
      have cm: "unat ?cs = ?p div 512 mod ?s" by (rule csect_mod [OF cc(2)])
      obtain ks where "c1 = ch @ ks" using l(5) by (auto simp: grown_def)
      then have "length ch * (?s * 512) \<le> length c1 * (?s * 512)" by (intro mult_le_mono1) simp
      then have size': "unat (objsize fp) \<le> length c1 * (?s * 512)" using size(1) by linarith
      have "wrote_turn ready sector c1 btw wbuff f1 ?f (write_sect M btw wbuff ?cs ?f f1)"
        by (rule write_sect_ok [OF l(2) l(3) [unfolded h(2)]]) (use True h(1) size(2) size' n cm sd in simp_all)
      from write_finish [OF this l(5,6,4) _ _ _ _ _ _ f n(3)]
      obtain k fp' fs' where k: "write_sect M btw wbuff ?cs ?f f1 = Some (Moved k, fp', fs')" "0 < unat k" "unat k \<le> unat btw"
          "moved ready sector wbuff (unat k) ch fs fp c1 fs' (advance k fp')"
        by (auto simp: moved_def meta_def)
      moreover have "write_turn M btw wbuff fp fs = Some (Moved k, fp', fs')" unfolding write_turn_def Let_def using m0 l(1) None h(2) k(1) by simp
      ultimately show ?thesis by blast
    qed
  next
    case False
    then show ?thesis using write_turn_inside [OF f a n] by blast
  qed
qed

lemma write_loop_ok:
  assumes "file_ok ready sector ch fs fp" "alloc_ok sector fs" "unat btw \<le> length wbuff" "unat (fptr fp) + unat btw < 2 ^ 32"
  shows "\<exists>n fp' fs' ch'. write_loop M btw wbuff bw fp fs = Some (FR_OK, bw + of_nat n, fp'\<lparr>f_flag := f_flag fp' OR FA_MODIFIED\<rparr>, fs') \<and> n \<le> unat btw \<and>
    moved ready sector wbuff n ch fs fp ch' fs' fp' \<and> (n < unat btw \<longrightarrow> free_set (unat (n_fatent fs)) (fat_entry sector fs') = {} \<and>
      unat (fptr fp') = length ch' * (unat (csize fs) * 512))"
  using assms
proof (induction "unat btw" arbitrary: btw wbuff bw fp fs ch rule: less_induct)
  case less
  note f = less.prems(1) and a = less.prems(2) and n = less.prems(3,4)
  let ?p = "unat (fptr fp)"
  have le: "?p \<le> unat (objsize fp)" using f by (simp add: file_ok_def position_ok_def word_le_nat_alt)
  show ?case
  proof (cases "0 < unat btw")
    case False
    have "moved ready sector wbuff 0 ch fs fp ch fs fp"
      using f a le by (auto simp: moved_def wrote_def)
    moreover have "write_loop M btw wbuff bw fp fs = Some (FR_OK, bw + of_nat 0, fp\<lparr>f_flag := f_flag fp OR FA_MODIFIED\<rparr>, fs)"
      using False by (subst write_loop.simps) (simp add: word_less_nat_alt)
    ultimately show ?thesis using False by (intro exI [of _ 0] exI [of _ fp] exI [of _ fs] exI [of _ ch]) simp
  next
    case True
    then have b: "btw > 0" by (simp add: word_less_nat_alt)
    obtain t p1 f1 c1 where t: "write_turn M btw wbuff fp fs = Some (t, p1, f1)"
      "t = Full \<and> moved ready sector wbuff 0 ch fs fp c1 f1 p1 \<and> free_set (unat (n_fatent fs)) (fat_entry sector f1) = {} \<and>
         unat (fptr p1) = length c1 * (unat (csize fs) * 512) \<or>
       (\<exists>w. t = Moved w \<and> 0 < unat w \<and> unat w \<le> unat btw \<and> moved ready sector wbuff (unat w) ch fs fp c1 f1 (advance w p1))"
      using write_turn_ok [OF f a True n] by blast
    from t(2) show ?thesis
    proof
      assume h: "t = Full \<and> moved ready sector wbuff 0 ch fs fp c1 f1 p1 \<and> free_set (unat (n_fatent fs)) (fat_entry sector f1) = {} \<and>
          unat (fptr p1) = length c1 * (unat (csize fs) * 512)"
      then have "write_loop M btw wbuff bw fp fs = Some (FR_OK, bw + of_nat 0, p1\<lparr>f_flag := f_flag p1 OR FA_MODIFIED\<rparr>, f1)"
        using b t(1) by (subst write_loop.simps) simp
      then show ?thesis using h by blast
    next
      assume "\<exists>w. t = Moved w \<and> 0 < unat w \<and> unat w \<le> unat btw \<and> moved ready sector wbuff (unat w) ch fs fp c1 f1 (advance w p1)"
      then obtain w where w: "t = Moved w" "0 < unat w" "unat w \<le> unat btw" "moved ready sector wbuff (unat w) ch fs fp c1 f1 (advance w p1)" by blast
      let ?q = "advance w p1"
      have sub: "unat (btw - w) = unat btw - unat w" using w(3) by (simp add: unat_sub word_le_nat_alt)
      have m: "file_ok ready sector c1 f1 ?q" "alloc_ok sector f1" "unat (fptr ?q) = ?p + unat w" "grown sector ch fs c1 f1" using w(4) by (simp_all add: moved_def)
      have pre: "unat (btw - w) < unat btw" "unat (btw - w) \<le> length (drop (unat w) wbuff)" "unat (fptr ?q) + unat (btw - w) < 2 ^ 32"
        using w(2,3) n unfolding sub m(3) by simp_all
      obtain k fp' fs' ch' where g: "write_loop M (btw - w) (drop (unat w) wbuff) (bw + w) ?q f1 =
            Some (FR_OK, bw + w + of_nat k, fp'\<lparr>f_flag := f_flag fp' OR FA_MODIFIED\<rparr>, fs')" "k \<le> unat (btw - w)"
          "moved ready sector (drop (unat w) wbuff) k c1 f1 ?q ch' fs' fp'"
          "k < unat (btw - w) \<longrightarrow> free_set (unat (n_fatent f1)) (fat_entry sector fs') = {} \<and> unat (fptr fp') = length ch' * (unat (csize f1) * 512)"
        using less.hyps [OF pre(1) m(1,2) pre(2,3)] by blast
      have "n_fatent f1 = n_fatent fs" "csize f1 = csize fs" using m(4) same_disk_simps by (auto simp: grown_def)
      moreover have "moved ready sector wbuff (unat w + k) ch fs fp ch' fs' fp'"
        by (rule moved_trans [OF w(4) g(3) _ le]) (use g(2) n(1) w(3) sub in simp)
      moreover have "write_loop M btw wbuff bw fp fs = Some (FR_OK, bw + of_nat (unat w + k), fp'\<lparr>f_flag := f_flag fp' OR FA_MODIFIED\<rparr>, fs')"
        using b t(1) w(1) g(1) by (subst write_loop.simps) (simp add: add.assoc)
      ultimately show ?thesis using g(2,4) sub w(3) by (intro exI [of _ "unat w + k"] exI [of _ fp'] exI [of _ fs'] exI [of _ ch']) simp
    qed
  qed
qed

end

lemma dirty_modified [simp]: "dirty (fp\<lparr>f_flag := f_flag fp OR FA_MODIFIED\<rparr>) = dirty fp"
proof -
  have "FA_MODIFIED AND FA_DIRTY = 0" by (simp add: FA_MODIFIED_def FA_DIRTY_def)
  then have "(f_flag fp OR FA_MODIFIED) AND FA_DIRTY = f_flag fp AND FA_DIRTY" by (simp add: bit.conj_disj_distrib2)
  then show ?thesis by (simp add: dirty_def)
qed

lemma file_ok_modified: "file_ok ready sector ch fs fp \<Longrightarrow> file_ok ready sector ch fs (fp\<lparr>f_flag := f_flag fp OR FA_MODIFIED\<rparr>)"
  by (simp add: file_ok_def buffer_ok_def position_ok_def)

lemma contents_length [simp]: "length (contents sector fs fp ch) = unat (objsize fp)"
  by (simp add: contents_def)

lemma contents_wrote:
  assumes "wrote sector p (take n bs) ch fs fp ch' fs' fp'" "unat (objsize fp') = max (unat (objsize fp)) (p + n)" "n \<le> length bs" "p \<le> unat (objsize fp)"
  shows "contents sector fs' fp' ch' = take p (contents sector fs fp ch) @ take n bs @ drop (p + n) (contents sector fs fp ch)"
proof (rule nth_equalityI)
  show l: "length (contents sector fs' fp' ch') = length (take p (contents sector fs fp ch) @ take n bs @ drop (p + n) (contents sector fs fp ch))"
    using assms(2-4) by simp
  fix i assume "i < length (contents sector fs' fp' ch')"
  then have i: "i < max (unat (objsize fp)) (p + n)" using assms(2) by simp
  have b: "contents sector fs' fp' ch' ! i = file_byte sector fs' fp' ch' i" using i assms(2) by (simp add: contents_def)
  have tl: "length (take n bs) = n" using assms(3) by simp
  consider "i < p" | "p \<le> i" "i < p + n" | "p + n \<le> i" "i < unat (objsize fp)" using i by linarith
  then show "contents sector fs' fp' ch' ! i = (take p (contents sector fs fp ch) @ take n bs @ drop (p + n) (contents sector fs fp ch)) ! i"
  proof cases
    case 1
    then show ?thesis using assms(1,4) b tl by (simp add: wrote_def nth_append contents_def)
  next
    case 2
    then have "i - p < n" by linarith
    then show ?thesis using 2 assms(1,4) b tl by (simp add: wrote_def nth_append min_absorb2)
  next
    case 3
    then have "\<not> i - p < n" "p + n + (i - p - n) = i" by linarith+
    then show ?thesis using 3 assms(1,4) b tl by (simp add: wrote_def nth_append min_absorb2 contents_def)
  qed
qed

context multi_device
begin

lemma f_write_ok:
  assumes f: "file_ok ready sector ch fs fp" and a: "alloc_ok sector fs" and m: "f_flag fp AND FA_WRITE \<noteq> 0" and len: "length buff = unat btw"
  shows "\<exists>n fp' fs' ch'. f_write M buff btw fp fs = Some (FR_OK, of_nat n, fp', fs') \<and>
    n \<le> min (unat btw) (2 ^ 32 - 1 - unat (fptr fp)) \<and>
    (n < min (unat btw) (2 ^ 32 - 1 - unat (fptr fp)) \<longrightarrow>
      free_set (unat (n_fatent fs)) (fat_entry sector fs') = {} \<and> unat (fptr fp') = length ch' * (unat (csize fs) * 512)) \<and>
    contents sector fs' fp' ch' = take (unat (fptr fp)) (contents sector fs fp ch) @ take n buff @ drop (unat (fptr fp) + n) (contents sector fs fp ch) \<and>
    unat (fptr fp') = unat (fptr fp) + n \<and> file_ok ready sector ch' fs' fp' \<and> alloc_ok sector fs' \<and> grown sector ch fs ch' fs' \<and>
    f_flag fp' AND NOT FA_DIRTY = (f_flag fp OR FA_MODIFIED) AND NOT FA_DIRTY \<and> dir_sect fp' = dir_sect fp \<and> dir_ptr fp' = dir_ptr fp"
proof -
  let ?p = "unat (fptr fp)"
  have le: "?p \<le> unat (objsize fp)" using f by (simp add: file_ok_def position_ok_def word_le_nat_alt)
  have "fs_type fs \<noteq> 0" using f by (auto simp: file_ok_def chain_ok_def fat_ok_def fat_geometry_def FS_FAT12_def FS_FAT16_def FS_FAT32_def)
  then have v: "validate fp fs = FR_OK" using f by (simp add: validate_def file_ok_def disk_status_def)
  define k where "k = (if fptr fp + btw < fptr fp then 0xFFFFFFFF - fptr fp else btw)"
  have k: "unat k = min (unat btw) (2 ^ 32 - 1 - ?p)"
  proof (cases "?p + unat btw < 2 ^ 32")
    case True
    then have "unat (fptr fp + btw) = ?p + unat btw" by (simp add: unat_add_u32)
    then show ?thesis using True by (simp add: k_def word_less_nat_alt)
  next
    case False
    then have w: "fptr fp + btw < fptr fp" using unat_lt_u32 [of btw] by (auto simp: word_less_nat_alt unat_plus_if')
    have "unat (0xFFFFFFFF - fptr fp) = 2 ^ 32 - 1 - ?p" using unat_lt_u32 [of "fptr fp"] by (subst unat_sub) (simp_all add: word_le_nat_alt)
    then show ?thesis using w False by (simp add: k_def)
  qed
  have pre: "unat k \<le> length buff" "?p + unat k < 2 ^ 32" using k len unat_lt_u32 [of "fptr fp"] by auto
  obtain n fp' fs' ch' where g: "write_loop M k buff 0 fp fs = Some (FR_OK, 0 + of_nat n, fp'\<lparr>f_flag := f_flag fp' OR FA_MODIFIED\<rparr>, fs')" "n \<le> unat k"
      "moved ready sector buff n ch fs fp ch' fs' fp'" "n < unat k \<longrightarrow> free_set (unat (n_fatent fs)) (fat_entry sector fs') = {} \<and> unat (fptr fp') = length ch' * (unat (csize fs) * 512)"
    using write_loop_ok [OF f a pre] by blast
  let ?f = "fp'\<lparr>f_flag := f_flag fp' OR FA_MODIFIED\<rparr>"
  have mv: "file_ok ready sector ch' fs' fp'" "alloc_ok sector fs'" "grown sector ch fs ch' fs'" "wrote sector ?p (take n buff) ch fs fp ch' fs' fp'"
      "unat (fptr fp') = ?p + n" "unat (objsize fp') = max (unat (objsize fp)) (?p + n)" "meta fp' = meta fp" using g(3) by (simp_all add: moved_def)
  have "f_write M buff btw fp fs = Some (FR_OK, of_nat n, ?f, fs')"
    using v m f g(1) by (simp add: f_write_def FR_OK_def Let_def file_ok_def k_def [symmetric])
  moreover have "contents sector fs' ?f ch' = contents sector fs' fp' ch'" by (simp add: contents_def file_byte_def buffered_def)
  moreover have "f_flag ?f AND NOT FA_DIRTY = (f_flag fp OR FA_MODIFIED) AND NOT FA_DIRTY" using mv(7) by (simp add: meta_def bit.conj_disj_distrib2)
  moreover have "dir_sect ?f = dir_sect fp" "dir_ptr ?f = dir_ptr fp" using mv(7) by (simp_all add: meta_def)
  ultimately show ?thesis
    using contents_wrote [OF mv(4,6) _ le] file_ok_modified [OF mv(1)] mv(2,3,5) g(2,4) k len
    by (intro exI [of _ n] exI [of _ ?f] exI [of _ fs'] exI [of _ ch']) simp
qed

end

section \<open>Main property\<close>

lemma small_volume_alloc: "alloc_ok (drive_sector id) small_volume"
proof -
  have "fat_entry (drive_sector id) small_volume c \<noteq> 1" if "c < 200" for c using small_volume_entry [OF that] by simp
  moreover have "accurate T small_volume" for T by (simp add: accurate_def small_volume_def)
  ultimately show ?thesis by (simp add: alloc_ok_def small_volume_def)
qed

text \<open>C10. On a device that keeps its contract, \<open>f_write\<close> of a file in good order that is open for writing, on a volume
  whose allocation table is in good order, replaces the bytes of the file from the file pointer on by those given and
  lets the file grow; all of them are written, except that a file ends at 4 GiB minus 1 and that the
  transfer stops at the end of the chain when no cluster is free.  The file stays in good order with a chain that was stretched by clusters that
  were free, the allocation table stays in good order, no other entry of the FAT and no sector outside the FAT
  and the file's clusters changes.\<close>

theorem f_write_replaces_bytes:
  assumes dev: "multi_device M ready sector" and f: "file_ok ready sector ch fs fp" and a: "alloc_ok sector fs"
    and m: "f_flag fp AND FA_WRITE \<noteq> 0" and len: "length buff = unat btw"
  shows "\<exists>n fp' fs' ks. f_write M buff btw fp fs = Some (FR_OK, of_nat n, fp', fs') \<and>
    n \<le> min (unat btw) (2 ^ 32 - 1 - unat (fptr fp)) \<and>
    (n < min (unat btw) (2 ^ 32 - 1 - unat (fptr fp)) \<longrightarrow>
      free_set (unat (n_fatent fs)) (fat_entry sector fs') = {} \<and> unat (fptr fp) + n = length (ch @ ks) * (unat (csize fs) * 512)) \<and>
    contents sector fs' fp' (ch @ ks) =
      take (unat (fptr fp)) (contents sector fs fp ch) @ take n buff @ drop (unat (fptr fp) + n) (contents sector fs fp ch) \<and>
    unat (fptr fp') = unat (fptr fp) + n \<and> file_ok ready sector (ch @ ks) fs' fp' \<and> alloc_ok sector fs' \<and>
    set ks \<subseteq> free_set (unat (n_fatent fs)) (fat_entry sector fs) \<and>
    (\<forall>c. 2 \<le> c \<and> c < unat (n_fatent fs) \<and> c \<notin> set (ch @ ks) \<longrightarrow> fat_entry sector fs' c = fat_entry sector fs c) \<and>
    (\<forall>l. l \<notin> in_fat fs \<union> mirror fs \<union> cluster_sectors fs (set (ch @ ks)) \<longrightarrow> volume sector fs' l = volume sector fs l)"
proof -
  obtain n fp' fs' ch' where w: "f_write M buff btw fp fs = Some (FR_OK, of_nat n, fp', fs')" "n \<le> min (unat btw) (2 ^ 32 - 1 - unat (fptr fp))"
      "n < min (unat btw) (2 ^ 32 - 1 - unat (fptr fp)) \<longrightarrow>
        free_set (unat (n_fatent fs)) (fat_entry sector fs') = {} \<and> unat (fptr fp') = length ch' * (unat (csize fs) * 512)"
      "contents sector fs' fp' ch' = take (unat (fptr fp)) (contents sector fs fp ch) @ take n buff @ drop (unat (fptr fp) + n) (contents sector fs fp ch)"
      "unat (fptr fp') = unat (fptr fp) + n" "file_ok ready sector ch' fs' fp'" "alloc_ok sector fs'" "grown sector ch fs ch' fs'"
    using multi_device.f_write_ok [OF dev f a m len] by blast
  obtain ks where ks: "ch' = ch @ ks" "set ks \<subseteq> free_set (unat (n_fatent fs)) (fat_entry sector fs)" using w(8) by (auto simp: grown_def)
  show ?thesis
    by (rule exI [of _ n], rule exI [of _ fp'], rule exI [of _ fs'], rule exI [of _ ks]) (use w ks(2) in \<open>simp add: ks(1) grown_def\<close>)
qed

theorem f_write_replaces_bytes_witness:
  "\<exists>fp' fs' ks. f_write (driver_multi ref_ports ata_tick) [0x48, 0x69] 2 small_file small_volume = Some (FR_OK, 2, fp', fs') \<and>
     contents (drive_sector id) fs' fp' ([2] @ ks) = [0x48, 0x69, 0, 0, 0xFF]"
proof -
  have "f_flag small_file AND FA_WRITE \<noteq> 0" by (simp add: small_file_def FA_WRITE_def)
  moreover have "length [0x48, 0x69 :: u8] = unat (2 :: u32)" by simp
  ultimately obtain n fp' fs' ks where w: "f_write (driver_multi ref_ports ata_tick) [0x48, 0x69] 2 small_file small_volume = Some (FR_OK, of_nat n, fp', fs')"
      "n \<le> min (unat (2 :: u32)) (2 ^ 32 - 1 - unat (fptr small_file))"
      "n < min (unat (2 :: u32)) (2 ^ 32 - 1 - unat (fptr small_file)) \<longrightarrow> unat (fptr small_file) + n = length ([2] @ ks) * (unat (csize small_volume) * 512)"
      "contents (drive_sector id) fs' fp' ([2] @ ks) = take (unat (fptr small_file)) (contents (drive_sector id) small_volume small_file [2]) @
         take n [0x48, 0x69] @ drop (unat (fptr small_file) + n) (contents (drive_sector id) small_volume small_file [2])"
    using f_write_replaces_bytes [OF atam.multi_device_axioms small_file_ok small_volume_alloc] by blast
  have "fptr small_file = 0" "csize small_volume = 1" by (simp_all add: small_file_def small_volume_def)
  then have "n = 2" using w(2,3) by auto
  then show ?thesis using w(1,4) unfolding small_file_contents by (auto simp: small_file_def)
qed

end
