(* ===== verification/Fat_Seek.thy ===== *)
theory Fat_Seek
  imports Fat_Write
begin

text \<open>
  Moving the file pointer of an open file in FatFs (\<open>f_lseek\<close> of \<open>src/ff.c\<close>), and the round trip of writing, moving back
  and reading.
\<close>

section \<open>Seeking\<close>

text \<open>Following the chain; a cluster of 0 in write mode is a full volume.\<close>

partial_function (option) seek_loop ::
  "'d multiio \<Rightarrow> u32 \<Rightarrow> u32 \<Rightarrow> u32 \<Rightarrow> FIL \<Rightarrow> 'd FATFS \<Rightarrow> (fresult \<times> u32 \<times> u32 \<times> FIL \<times> 'd FATFS) option" where
  "seek_loop M bcs ofs clst fp fs =
     (if ofs > bcs then do {
        let ofs = ofs - bcs;
        let fp = fp\<lparr>fptr := fptr fp + bcs\<rparr>;
        (clst, fs) \<leftarrow> (if f_flag fp AND FA_WRITE \<noteq> 0 then create_chain (single_io M) clst fs else get_fat (single_io M) clst fs);
        if f_flag fp AND FA_WRITE \<noteq> 0 \<and> clst = 0 then Some (FR_OK, 0, clst, fp, fs)
        else if clst = 0xFFFFFFFF then Some (FR_DISK_ERR, ofs, clst, fp, fs)
        else if clst \<le> 1 \<or> clst \<ge> n_fatent fs then Some (FR_INT_ERR, ofs, clst, fp, fs)
        else seek_loop M bcs ofs clst (fp\<lparr>f_clust := clst\<rparr>) fs
      } else Some (FR_OK, ofs, clst, fp, fs))"

text \<open>Where the search starts: the current cluster, or the first one, which is allocated when there is none.
  The division by a cluster size of 0 is \<^const>\<open>None\<close>.\<close>

definition seek_start :: "'d multiio \<Rightarrow> u32 \<Rightarrow> u32 \<Rightarrow> u32 \<Rightarrow> FIL \<Rightarrow> 'd FATFS \<Rightarrow> (fresult \<times> u32 \<times> u32 \<times> FIL \<times> 'd FATFS) option" where
  "seek_start M bcs ifptr ofs fp fs =
     (if ifptr > 0 \<and> bcs = 0 then None
      else if ifptr > 0 \<and> (ofs - 1) div bcs \<ge> (ifptr - 1) div bcs then
        let p = (ifptr - 1) AND NOT (bcs - 1) in Some (FR_OK, ofs - p, f_clust fp, fp\<lparr>fptr := p\<rparr>, fs)
      else if sclust fp = 0 then do {
        (clst, fs) \<leftarrow> create_chain (single_io M) 0 fs;
        Some (if clst = 1 then (FR_INT_ERR, ofs, clst, fp, fs)
              else if clst = 0xFFFFFFFF then (FR_DISK_ERR, ofs, clst, fp, fs)
              else (FR_OK, ofs, clst, fp\<lparr>sclust := clst, f_clust := clst\<rparr>, fs))
      } else Some (FR_OK, ofs, sclust fp, fp\<lparr>f_clust := sclust fp\<rparr>, fs))"

text \<open>The new pointer and the sector it lies in (0 on a sector boundary).\<close>

definition seek_follow :: "'d multiio \<Rightarrow> u32 \<Rightarrow> u32 \<Rightarrow> u32 \<Rightarrow> FIL \<Rightarrow> 'd FATFS \<Rightarrow> (fresult \<times> u32 \<times> FIL \<times> 'd FATFS) option" where
  "seek_follow M bcs ofs clst fp fs = do {
     (res, ofs, clst, fp, fs) \<leftarrow> seek_loop M bcs ofs clst fp fs;
     if res \<noteq> FR_OK then Some (res, 0, fp, fs)
     else do {
       let fp = fp\<lparr>fptr := fptr fp + ofs\<rparr>;
       if ofs mod 512 \<noteq> 0 then
         let nsect = clst2sect clst fs
         in Some (if nsect = 0 then (FR_INT_ERR, 0, fp, fs) else (FR_OK, nsect + ofs div 512, fp, fs))
       else Some (FR_OK, 0, fp, fs)
     }
   }"

definition seek_cluster :: "'d multiio \<Rightarrow> u32 \<Rightarrow> u32 \<Rightarrow> FIL \<Rightarrow> 'd FATFS \<Rightarrow> (fresult \<times> u32 \<times> FIL \<times> 'd FATFS) option" where
  "seek_cluster M ifptr ofs fp fs =
     (if ofs > 0 then do {
        let bcs = ucast (csize fs) * 512;
        (res, ofs, clst, fp, fs) \<leftarrow> seek_start M bcs ifptr ofs fp fs;
        if res \<noteq> FR_OK then Some (res, 0, fp, fs)
        else if clst = 0 then Some (FR_OK, 0, fp, fs)
        else seek_follow M bcs ofs clst fp fs
      } else Some (FR_OK, 0, fp, fs))"

text \<open>A pointer behind the end extends the file.\<close>

definition seek_extend :: "FIL \<Rightarrow> FIL" where
  "seek_extend fp = (if fptr fp > objsize fp then fp\<lparr>objsize := fptr fp, f_flag := f_flag fp OR FA_MODIFIED\<rparr> else fp)"

definition seek_fill :: "'d multiio \<Rightarrow> u32 \<Rightarrow> FIL \<Rightarrow> 'd FATFS \<Rightarrow> (bool \<times> FIL \<times> 'd FATFS) option" where
  "seek_fill M nsect fp fs =
     (if fptr fp mod 512 \<noteq> 0 \<and> nsect \<noteq> f_sect fp then do {
        (ok, fp, fs) \<leftarrow> write_back M fp fs;
        if ok then do {
          (ok, fp, fs) \<leftarrow> fill_buf M nsect fp fs;
          Some (ok, if ok then fp\<lparr>f_sect := nsect\<rparr> else fp, fs)
        } else Some (False, fp, fs)
      } else Some (True, fp, fs))"

definition f_lseek :: "'d multiio \<Rightarrow> u32 \<Rightarrow> FIL \<Rightarrow> 'd FATFS \<Rightarrow> (fresult \<times> FIL \<times> 'd FATFS) option" where
  "f_lseek M ofs fp fs =
     (let res = validate fp fs; res = (if res = FR_OK then unat (f_err fp) else res)
      in if res \<noteq> FR_OK then Some (res, fp, fs)
         else do {
           let ofs = (if ofs > objsize fp \<and> f_flag fp AND FA_WRITE = 0 then objsize fp else ofs);
           let ifptr = fptr fp;
           let fp = fp\<lparr>fptr := 0\<rparr>;
           (res, nsect, fp, fs) \<leftarrow> seek_cluster M ifptr ofs fp fs;
           if res \<noteq> FR_OK then Some (res, fp\<lparr>f_err := of_nat res\<rparr>, fs)
           else do {
             let fp = seek_extend fp;
             (ok, fp, fs) \<leftarrow> seek_fill M nsect fp fs;
             Some (if ok then (FR_OK, fp, fs) else (FR_DISK_ERR, fp\<lparr>f_err := of_nat FR_DISK_ERR\<rparr>, fs))
           }
         })"

section \<open>Seeking inside the file\<close>

lemma cluster_size_word:
  assumes "data_ok fs"
  shows "unat (ucast (csize fs) * 512 :: u32) = unat (csize fs) * 512" "0 < unat (csize fs) * 512" "unat (csize fs) * 512 \<le> 65536"
    "\<exists>k. unat (csize fs) * 512 = 2 ^ k \<and> k < 32"
proof -
  have c: "unat (csize fs) \<in> {1, 2, 4, 8, 16, 32, 64, 128}" using assms by (simp add: data_ok_def)
  then show "0 < unat (csize fs) * 512" "unat (csize fs) * 512 \<le> 65536" by auto
  have "unat (ucast (csize fs) :: u32) = unat (csize fs)" using unat_lt_u16 [of "csize fs"] by (simp add: unsigned_ucast_eq take_bit_nat_eq_self)
  then show "unat (ucast (csize fs) * 512 :: u32) = unat (csize fs) * 512" using c by (subst unat_mult_u32) auto
  show "\<exists>k. unat (csize fs) * 512 = 2 ^ k \<and> k < 32"
    using c exI [of "\<lambda>k. unat (csize fs) * 512 = 2 ^ k \<and> k < 32" 9] exI [of "\<lambda>k. unat (csize fs) * 512 = 2 ^ k \<and> k < 32" 10]
      exI [of "\<lambda>k. unat (csize fs) * 512 = 2 ^ k \<and> k < 32" 11] exI [of "\<lambda>k. unat (csize fs) * 512 = 2 ^ k \<and> k < 32" 12]
      exI [of "\<lambda>k. unat (csize fs) * 512 = 2 ^ k \<and> k < 32" 13] exI [of "\<lambda>k. unat (csize fs) * 512 = 2 ^ k \<and> k < 32" 14]
      exI [of "\<lambda>k. unat (csize fs) * 512 = 2 ^ k \<and> k < 32" 15] exI [of "\<lambda>k. unat (csize fs) * 512 = 2 ^ k \<and> k < 32" 16] by auto
qed

text \<open>Clearing the low bits rounds down to a multiple of the cluster size.\<close>

lemma round_down:
  fixes x b :: u32
  assumes "unat b = 2 ^ k"
  shows "unat (x AND NOT (b - 1)) = 2 ^ k * (unat x div 2 ^ k)"
proof -
  have "b = of_nat (2 ^ k)" using assms(1) by (metis of_nat_unat ucast_id)
  then have "b - 1 = mask k" by (simp add: mask_eq_exp_minus_1)
  then show ?thesis using unat_and_not_mask [of x k] by (simp add: mult.commute)
qed

text \<open>Moving only the pointer and the current cluster keeps the contents.\<close>

lemma kept_moved:
  assumes "kept sector ch fs fp fs' fp'"
  shows "kept sector ch fs fp fs' (fp'\<lparr>fptr := q, f_clust := c\<rparr>)"
proof -
  obtain q0 c0 x b g where "fp' = fp\<lparr>f_flag := g, fptr := q0, f_clust := c0, f_sect := x, f_buf := b\<rparr>" "g AND NOT FA_DIRTY = f_flag fp AND NOT FA_DIRTY"
    using assms by (auto simp: kept_def framed_def)
  then have "\<exists>q1 c1 x b g. fp'\<lparr>fptr := q, f_clust := c\<rparr> = fp\<lparr>f_flag := g, fptr := q1, f_clust := c1, f_sect := x, f_buf := b\<rparr> \<and> g AND NOT FA_DIRTY = f_flag fp AND NOT FA_DIRTY"
    by (intro exI [of _ q] exI [of _ c] exI [of _ x] exI [of _ b] exI [of _ g]) simp
  moreover have "buffered sector fs' (fp'\<lparr>fptr := q, f_clust := c\<rparr>) l = buffered sector fs' fp' l" for l by (simp add: buffered_def)
  ultimately show ?thesis using assms by (simp add: kept_def framed_def)
qed

lemma kept_pointer: "kept sector ch fs fp fs' fp' \<Longrightarrow> kept sector ch fs fp fs' (fp'\<lparr>fptr := q\<rparr>)"
  using kept_moved [where q = q and c = "f_clust fp'"] by fastforce

lemma buffer_ok_moved [simp]: "buffer_ok sector ch fs (fp\<lparr>fptr := q, f_clust := c\<rparr>) = buffer_ok sector ch fs fp" "buffer_ok sector ch fs (fp\<lparr>fptr := q\<rparr>) = buffer_ok sector ch fs fp"
  by (simp_all add: buffer_ok_def dirty_def)

lemma file_ok_valid: "file_ok ready sector ch fs fp \<Longrightarrow> validate fp fs = FR_OK"
  by (auto simp: validate_def file_ok_def disk_status_def chain_ok_def fat_ok_def fat_geometry_def FS_FAT12_def FS_FAT16_def FS_FAT32_def)

text \<open>One step along the chain, in either mode.\<close>

context multi_device
begin

lemma next_cluster_ok:
  assumes c: "chain_ok ready sector ch fs" and i: "Suc i < length ch"
  shows "\<exists>fs'. (if w then create_chain (single_io M) (of_nat (ch ! i)) fs else get_fat (single_io M) (of_nat (ch ! i)) fs) = Some (of_nat (ch ! Suc i), fs') \<and>
    unchanged ready sector fs fs'"
proof -
  note cc = chain_ok_chain [OF c]
  have fc: "fat_chain (unat (n_fatent fs)) (fat_entry sector fs) ch" using c i by (auto simp: chain_ok_def)
  have m: "ch ! i \<in> set ch" "ch ! Suc i \<in> set ch" using i by simp_all
  have u: "unat (of_nat (ch ! i) :: u32) = ch ! i" "unat (of_nat (ch ! Suc i) :: u32) = ch ! Suc i"
    using cluster_word(1) [OF cc(1)] cc(5) [OF m(1)] cc(5) [OF m(2)] by simp_all
  have e: "fat_entry sector fs (ch ! i) = of_nat (ch ! Suc i)" by (rule fat_chain_step [OF fc i])
  show ?thesis
    using create_chain_follows [OF cc(1), of "of_nat (ch ! i)"] one.get_fat_ok [OF cc(1), of "of_nat (ch ! i)"] cc(5) [OF m(1)] cc(5) [OF m(2)]
    unfolding u e by (cases w) auto
qed

lemma seek_loop_ok:
  assumes "chain_ok ready sector ch fs" "buffer_ok sector ch fs fp" "unat bcs = unat (csize fs) * 512" "0 < unat ofs"
    "i * unat bcs + unat ofs \<le> length ch * unat bcs" "i * unat bcs + unat ofs < 2 ^ 32" "unat (fptr fp) = i * unat bcs" "f_clust fp = of_nat (ch ! i)"
  shows "\<exists>fp' fs' j r. seek_loop M bcs ofs (of_nat (ch ! i)) fp fs = Some (FR_OK, r, of_nat (ch ! j), fp', fs') \<and> j < length ch \<and>
    chain_ok ready sector ch fs' \<and> buffer_ok sector ch fs' fp' \<and> kept sector ch fs fp fs' fp' \<and> f_clust fp' = of_nat (ch ! j) \<and>
    0 < unat r \<and> unat r \<le> unat bcs \<and> unat (fptr fp') = j * unat bcs \<and> j * unat bcs + unat r = i * unat bcs + unat ofs"
  using assms
proof (induction "unat ofs" arbitrary: ofs i fp fs rule: less_induct)
  case less
  note c = less.prems(1) and b = less.prems(2) and bc = less.prems(3) and n = less.prems(4-6) and p = less.prems(7,8)
  note cc = chain_ok_chain [OF c]
  have b0: "0 < unat bcs" using bc cluster_size_word(2) [OF cc(2)] by simp
  show ?case
  proof (cases "ofs > bcs")
    case False
    have "i * unat bcs < length ch * unat bcs" using n by linarith
    then have "i < length ch" by simp
    moreover have "seek_loop M bcs ofs (of_nat (ch ! i)) fp fs = Some (FR_OK, ofs, of_nat (ch ! i), fp, fs)" using False by (subst seek_loop.simps) simp
    ultimately show ?thesis using False c b n p by (auto simp: word_less_nat_alt)
  next
    case True
    then have gt: "unat bcs < unat ofs" by (simp add: word_less_nat_alt)
    have sub: "unat (ofs - bcs) = unat ofs - unat bcs" using gt by (simp add: unat_sub word_le_nat_alt)
    have "Suc i * unat bcs < length ch * unat bcs" using n gt by simp
    then have i: "Suc i < length ch" by (simp only: mult_less_cancel2)
    let ?f = "fp\<lparr>fptr := fptr fp + bcs\<rparr>" and ?c = "of_nat (ch ! Suc i) :: u32"
    have up: "unat (fptr fp + bcs) = Suc i * unat bcs" using n gt p(1) by (subst unat_add_u32) simp_all
    obtain f1 where g: "(if f_flag fp AND FA_WRITE \<noteq> 0 then create_chain (single_io M) (of_nat (ch ! i)) fs else get_fat (single_io M) (of_nat (ch ! i)) fs) =
        Some (?c, f1)" "unchanged ready sector fs f1"
      using next_cluster_ok [OF c i] by blast
    note kf = kept_fat(1,2) [OF g(2) c b]
    have v: "same_volume fs f1" using g(2) by (simp add: unchanged_def)
    have m: "2 \<le> ch ! Suc i" "ch ! Suc i < unat (n_fatent fs)" using cc(5) [of "ch ! Suc i"] i by simp_all
    note cw = cluster_word [OF cc(1) m]
    have n1: "n_fatent f1 = n_fatent fs" "csize f1 = csize fs" using same_volume_simps [OF v] by simp_all
    have inside: "\<not> (?c \<le> 1 \<or> ?c \<ge> n_fatent f1)" using cw(1) m by (simp add: n1 word_le_nat_alt)
    let ?g = "fp\<lparr>fptr := fptr fp + bcs, f_clust := ?c\<rparr>"
    have run: "seek_loop M bcs ofs (of_nat (ch ! i)) fp fs = seek_loop M bcs (ofs - bcs) ?c ?g f1"
      using True g(1) cw(2,4) inside by (subst seek_loop.simps) (simp add: Let_def)
    have bg: "buffer_ok sector ch f1 ?g" using kf(2) by simp
    have kg: "kept sector ch fs fp f1 ?g" using kept_moved [OF kept_fat(3) [OF g(2) c b, of ?c], where q = "fptr fp + bcs" and c = ?c] by simp
    have pre: "unat (ofs - bcs) < unat ofs" "0 < unat (ofs - bcs)" "Suc i * unat bcs + unat (ofs - bcs) = i * unat bcs + unat ofs" using gt b0 sub by simp_all
    obtain fp' fs' j r where h: "seek_loop M bcs (ofs - bcs) ?c ?g f1 = Some (FR_OK, r, of_nat (ch ! j), fp', fs')" "j < length ch"
        "chain_ok ready sector ch fs'" "buffer_ok sector ch fs' fp'" "kept sector ch f1 ?g fs' fp'" "f_clust fp' = of_nat (ch ! j)"
        "0 < unat r" "unat r \<le> unat bcs" "unat (fptr fp') = j * unat bcs" "j * unat bcs + unat r = Suc i * unat bcs + unat (ofs - bcs)"
      using less.hyps [OF pre(1) kf(1) bg _ pre(2), of "Suc i"] n up bc unfolding pre(3) n1 by auto
    show ?thesis using h kept_trans [OF kg h(5)] unfolding run pre(3) by blast
  qed
qed

lemma seek_start_ok:
  assumes f: "file_ok ready sector ch fs fp" and o: "0 < unat ofs" and ne: "ch \<noteq> []" and bc: "unat bcs = unat (csize fs) * 512"
  shows "\<exists>i r q. seek_start M bcs (fptr fp) ofs (fp\<lparr>fptr := 0\<rparr>) fs = Some (FR_OK, r, of_nat (ch ! i), fp\<lparr>fptr := q, f_clust := of_nat (ch ! i)\<rparr>, fs) \<and>
    i < length ch \<and> 0 < unat r \<and> i * unat bcs + unat r = unat ofs \<and> unat q = i * unat bcs"
proof -
  have c: "chain_ok ready sector ch fs" and pos: "position_ok ch fs fp" using f by (simp_all add: file_ok_def)
  note cc = chain_ok_chain [OF c]
  have b0: "0 < unat bcs" "bcs \<noteq> 0" using bc cluster_size_word(2) [OF cc(2)] by auto
  obtain k where k: "unat bcs = 2 ^ k" using cluster_size_word(4) [OF cc(2)] bc by auto
  have size: "unat (objsize fp) \<le> length ch * unat bcs" "unat (fptr fp) \<le> unat (objsize fp)" using pos bc by (simp_all add: position_ok_def word_le_nat_alt)
  have o1: "unat (ofs - 1) = unat ofs - 1" using o by (intro unat_minus_one) auto
  show ?thesis
  proof (cases "fptr fp > 0 \<and> (ofs - 1) div bcs \<ge> (fptr fp - 1) div bcs")
    case True
    then have p0: "0 < unat (fptr fp)" "fptr fp \<noteq> 0" by (auto simp: word_less_nat_alt)
    have p1: "unat (fptr fp - 1) = unat (fptr fp) - 1" using p0(2) by (rule unat_minus_one)
    define i where "i = (unat (fptr fp) - 1) div unat bcs"
    define q where "q = (fptr fp - 1) AND NOT (bcs - 1)"
    have q: "unat q = i * unat bcs" using round_down [OF k, of "fptr fp - 1"] p1 k by (simp add: q_def i_def mult.commute)
    have "i \<le> (unat ofs - 1) div unat bcs" using True o1 p1 by (simp add: word_le_nat_alt unat_div i_def)
    then have "i * unat bcs \<le> (unat ofs - 1) div unat bcs * unat bcs" by (rule mult_le_mono1)
    also have "\<dots> \<le> unat ofs - 1" by simp
    finally have le: "i * unat bcs < unat ofs" using o by linarith
    have r: "unat (ofs - q) = unat ofs - i * unat bcs" using le q by (simp add: unat_sub word_le_nat_alt)
    have cl: "f_clust fp = of_nat (ch ! i)" using pos p0(1) bc by (simp add: position_ok_def i_def)
    have "i * unat bcs \<le> unat (fptr fp) - 1" by (simp add: i_def)
    then have "i * unat bcs < length ch * unat bcs" using p0(1) size by linarith
    then have "i < length ch" by simp
    moreover have "fp\<lparr>fptr := q\<rparr> = fp\<lparr>fptr := q, f_clust := of_nat (ch ! i)\<rparr>" using cl by simp
    ultimately show ?thesis using True b0 cl r le q
      by (intro exI [of _ i] exI [of _ "ofs - q"] exI [of _ q]) (simp add: seek_start_def Let_def q_def)
  next
    case False
    have sc: "sclust fp = of_nat (ch ! 0)" using pos ne by (simp add: position_ok_def hd_conv_nth)
    have m: "ch ! 0 \<in> set ch" using ne by simp
    have "sclust fp \<noteq> 0" using cluster_word(2) [OF cc(1)] cc(5) [OF m] sc by simp
    then show ?thesis using False b0 sc ne o
      by (intro exI [of _ 0] exI [of _ ofs] exI [of _ 0]) (auto simp: seek_start_def)
  qed
qed

text \<open>The sector of a position that is not on a sector boundary, from the cluster and the rest.\<close>

lemma rest_sector:
  assumes c: "chain_ok ready sector ch fs" and j: "j < length ch" and r: "0 < r" "r \<le> unat (csize fs) * 512" "r mod 512 \<noteq> 0"
  shows "file_sector fs ch ((j * (unat (csize fs) * 512) + r) div 512) = cluster_base fs (ch ! j) + r div 512" "r div 512 < unat (csize fs)"
proof -
  let ?s = "unat (csize fs)"
  have "r \<noteq> ?s * 512" using r(3) by auto
  then show lt: "r div 512 < ?s" using r(2) by (simp add: div_less_iff_less_mult)
  have e: "j * (?s * 512) + r = r + 512 * (?s * j)" by simp
  have "(j * (?s * 512) + r) div 512 = ?s * j + r div 512" unfolding e by simp
  moreover have "(?s * j + r div 512) div ?s = j" "(?s * j + r div 512) mod ?s = r div 512" using lt by simp_all
  ultimately show "file_sector fs ch ((j * (?s * 512) + r) div 512) = cluster_base fs (ch ! j) + r div 512" by (simp add: file_sector_def)
qed

lemma rest_sector_word:
  assumes c: "chain_ok ready sector ch fs" and j: "j < length ch" and t: "0 < unat t" "unat t \<le> unat (csize fs) * 512" "t mod 512 \<noteq> 0"
  shows "clst2sect (of_nat (ch ! j)) fs \<noteq> 0"
    "unat (clst2sect (of_nat (ch ! j)) fs + t div 512) = file_sector fs ch ((j * (unat (csize fs) * 512) + unat t) div 512)"
proof -
  note cc = chain_ok_chain [OF c]
  have mj: "2 \<le> ch ! j" "ch ! j < unat (n_fatent fs)" using cc(5) [of "ch ! j"] j by simp_all
  note cb = clst2sect_base [OF cc(2) mj]
  show "clst2sect (of_nat (ch ! j)) fs \<noteq> 0" using cb(1,2) by auto
  have "unat t mod 512 \<noteq> 0" using t(3) by (simp add: word_unat_eq_iff unat_mod)
  note rs = rest_sector [OF c j t(1,2) this]
  have "unat (clst2sect (of_nat (ch ! j)) fs + t div 512) = cluster_base fs (ch ! j) + unat t div 512"
    using cb rs(2) by (subst unat_add_u32) (simp_all add: unat_div)
  then show "unat (clst2sect (of_nat (ch ! j)) fs + t div 512) = file_sector fs ch ((j * (unat (csize fs) * 512) + unat t) div 512)" using rs(1) by simp
qed

lemma seek_reached:
  fixes t bcs q ofs :: u32
  assumes t: "0 < unat t" "unat t \<le> unat bcs" "unat q = j * unat bcs" "j * unat bcs + unat t = unat ofs" and bc: "unat bcs = s * 512"
  shows "q + t = ofs" "(unat ofs - 1) div unat bcs = j" "t mod 512 = 0 \<longleftrightarrow> unat ofs mod 512 = 0"
proof -
  have "unat (q + t) = unat ofs" using t unat_lt_u32 [of ofs] by (subst unat_add_u32) simp_all
  then show "q + t = ofs" by (simp add: word_unat_eq_iff)
  show "(unat ofs - 1) div unat bcs = j" using t by (intro div_nat_eqI) (simp_all add: mult.commute [of _ j])
  have "unat ofs = unat t + 512 * (j * s)" using t(4) bc by simp
  then have "unat ofs mod 512 = unat t mod 512" by simp
  then show "t mod 512 = 0 \<longleftrightarrow> unat ofs mod 512 = 0" by (simp add: word_unat_eq_iff unat_mod)
qed

lemma seek_follow_ok:
  assumes c: "chain_ok ready sector ch fs" and b: "buffer_ok sector ch fs fp" and bc: "unat bcs = unat (csize fs) * 512" and r: "0 < unat r"
    and lim: "unat ofs \<le> length ch * unat bcs" "i * unat bcs + unat r = unat ofs" and p: "unat (fptr fp) = i * unat bcs" "f_clust fp = of_nat (ch ! i)"
  shows "\<exists>fp' fs' ns. seek_follow M bcs r (of_nat (ch ! i)) fp fs = Some (FR_OK, ns, fp', fs') \<and> chain_ok ready sector ch fs' \<and>
    buffer_ok sector ch fs' fp' \<and> kept sector ch fs fp fs' fp' \<and> fptr fp' = ofs \<and> f_clust fp' = of_nat (ch ! ((unat ofs - 1) div unat bcs)) \<and>
    (unat ofs mod 512 \<noteq> 0 \<longrightarrow> unat ns = file_sector fs ch (unat ofs div 512))"
proof -
  have lim': "i * unat bcs + unat r \<le> length ch * unat bcs" "i * unat bcs + unat r < 2 ^ 32" using lim unat_lt_u32 [of ofs] by simp_all
  obtain fp1 f1 j t where lp: "seek_loop M bcs r (of_nat (ch ! i)) fp fs = Some (FR_OK, t, of_nat (ch ! j), fp1, f1)" "j < length ch"
      "chain_ok ready sector ch f1" "buffer_ok sector ch f1 fp1" "kept sector ch fs fp f1 fp1" "f_clust fp1 = of_nat (ch ! j)"
      "0 < unat t" "unat t \<le> unat bcs" "unat (fptr fp1) = j * unat bcs" "j * unat bcs + unat t = unat ofs"
    using seek_loop_ok [OF c b bc r lim' p] lim(2) by auto
  have v: "same_volume fs f1" using lp(5) by (simp add: kept_def framed_def)
  note sv = same_volume_simps [OF v]
  let ?h = "fp1\<lparr>fptr := fptr fp1 + t\<rparr>"
  note re = seek_reached [OF lp(7-10) bc]
  define ns where "ns = (if t mod 512 \<noteq> 0 then clst2sect (of_nat (ch ! j)) f1 + t div 512 else 0)"
  have ok: "t mod 512 \<noteq> 0 \<longrightarrow> clst2sect (of_nat (ch ! j)) f1 \<noteq> 0 \<and> unat ns = file_sector fs ch (unat ofs div 512)"
  proof (cases "t mod 512 = 0")
    case odd: False
    show ?thesis using rest_sector_word [OF lp(3,2,7) lp(8) [unfolded bc sv(4) [symmetric]] odd] lp(10) bc odd by (simp add: ns_def sv file_sector_same [OF v])
  qed simp
  have "seek_follow M bcs r (of_nat (ch ! i)) fp fs = Some (FR_OK, ns, ?h, f1)" using lp(1) ok by (simp add: seek_follow_def ns_def Let_def)
  then show ?thesis using lp(3,4,6) kept_pointer [OF lp(5), of "fptr fp1 + t"] re ok by (intro exI [of _ ?h] exI [of _ f1] exI [of _ ns]) simp
qed

lemma seek_cluster_ok:
  assumes f: "file_ok ready sector ch fs fp" and o: "unat ofs \<le> unat (objsize fp)"
  shows "\<exists>fp' fs' nsect. seek_cluster M (fptr fp) ofs (fp\<lparr>fptr := 0\<rparr>) fs = Some (FR_OK, nsect, fp', fs') \<and> chain_ok ready sector ch fs' \<and>
    buffer_ok sector ch fs' fp' \<and> kept sector ch fs fp fs' fp' \<and> fptr fp' = ofs \<and>
    (0 < unat ofs \<longrightarrow> f_clust fp' = of_nat (ch ! ((unat ofs - 1) div (unat (csize fs) * 512)))) \<and>
    (unat ofs mod 512 \<noteq> 0 \<longrightarrow> unat nsect = file_sector fs ch (unat ofs div 512))"
proof (cases "0 < unat ofs")
  case False
  then have z: "ofs = 0" by (simp add: unat_eq_zero)
  have "kept sector ch fs fp fs (fp\<lparr>fptr := 0\<rparr>)" by (rule kept_pointer) simp
  then show ?thesis using f z by (intro exI [of _ "fp\<lparr>fptr := 0\<rparr>"] exI [of _ fs] exI [of _ 0]) (simp add: seek_cluster_def file_ok_def)
next
  case True
  have c: "chain_ok ready sector ch fs" and b: "buffer_ok sector ch fs fp" and pos: "position_ok ch fs fp" using f by (simp_all add: file_ok_def)
  note cc = chain_ok_chain [OF c]
  define bcs where "bcs = (ucast (csize fs) * 512 :: u32)"
  have bc: "unat bcs = unat (csize fs) * 512" using cluster_size_word(1) [OF cc(2)] by (simp add: bcs_def)
  have size: "unat ofs \<le> length ch * unat bcs" using pos bc o by (simp add: position_ok_def)
  have ne: "ch \<noteq> []" using True size by auto
  obtain i r q where st: "seek_start M bcs (fptr fp) ofs (fp\<lparr>fptr := 0\<rparr>) fs = Some (FR_OK, r, of_nat (ch ! i), fp\<lparr>fptr := q, f_clust := of_nat (ch ! i)\<rparr>, fs)"
      "i < length ch" "0 < unat r" "i * unat bcs + unat r = unat ofs" "unat q = i * unat bcs"
    using seek_start_ok [OF f True ne bc] by blast
  let ?g = "fp\<lparr>fptr := q, f_clust := of_nat (ch ! i)\<rparr>"
  have bg: "buffer_ok sector ch fs ?g" "unat (fptr ?g) = i * unat bcs" "f_clust ?g = of_nat (ch ! i)" using b st(5) by simp_all
  obtain fp1 f1 ns where fo: "seek_follow M bcs r (of_nat (ch ! i)) ?g fs = Some (FR_OK, ns, fp1, f1)" "chain_ok ready sector ch f1" "buffer_ok sector ch f1 fp1"
      "kept sector ch fs ?g f1 fp1" "fptr fp1 = ofs" "f_clust fp1 = of_nat (ch ! ((unat ofs - 1) div unat bcs))" "unat ofs mod 512 \<noteq> 0 \<longrightarrow> unat ns = file_sector fs ch (unat ofs div 512)"
    using seek_follow_ok [OF c bg(1) bc st(3) size st(4) bg(2,3)] by (elim exE conjE) (rule that)
  have "kept sector ch fs fp fs ?g" by (rule kept_moved) simp
  then have "kept sector ch fs fp f1 fp1" using kept_trans fo(4) by blast
  moreover have "of_nat (ch ! i) \<noteq> (0 :: u32)" using cluster_word(2) [OF cc(1)] cc(5) [of "ch ! i"] st(2) by simp
  then have "seek_cluster M (fptr fp) ofs (fp\<lparr>fptr := 0\<rparr>) fs = Some (FR_OK, ns, fp1, f1)"
    unfolding seek_cluster_def Let_def bcs_def [symmetric] using True st(1) fo(1) by (simp add: word_less_nat_alt)
  ultimately show ?thesis using fo(2,3,5-7) bc by (intro exI [of _ fp1] exI [of _ f1] exI [of _ ns]) simp
qed

lemma seek_fill_ok:
  assumes c: "chain_ok ready sector ch fs" and b: "buffer_ok sector ch fs fp" and p: "unat (fptr fp) \<le> length ch * (unat (csize fs) * 512)"
    and ns: "unat (fptr fp) mod 512 \<noteq> 0 \<longrightarrow> unat ns = file_sector fs ch (unat (fptr fp) div 512)"
  shows "\<exists>fp' fs'. seek_fill M ns fp fs = Some (True, fp', fs') \<and> chain_ok ready sector ch fs' \<and> buffer_ok sector ch fs' fp' \<and>
    kept sector ch fs fp fs' fp' \<and> fptr fp' = fptr fp \<and> f_clust fp' = f_clust fp \<and> (unat (fptr fp) mod 512 \<noteq> 0 \<longrightarrow> f_sect fp' = ns)"
proof (cases "unat (fptr fp) mod 512 = 0")
  case True
  then have "fptr fp mod 512 = 0" by (simp add: word_unat_eq_iff unat_mod)
  then show ?thesis using c b True by (intro exI [of _ fp] exI [of _ fs]) (simp add: seek_fill_def)
next
  case False
  then have m: "fptr fp mod 512 \<noteq> 0" by (simp add: word_unat_eq_iff unat_mod)
  have "unat (fptr fp) \<noteq> length ch * (unat (csize fs) * 512)" using False by auto
  then have "unat (fptr fp) < length ch * (unat (csize fs) * 512)" using p by linarith
  then have "unat (fptr fp) div 512 < length ch * unat (csize fs)" by (simp add: div_less_iff_less_mult algebra_simps)
  then have "unat ns \<in> cluster_sectors fs (set ch)" using file_sector_in [OF chain_ok_chain(2) [OF c]] ns False by simp
  from load_sector_ok [OF c b this] obtain p2 f2 where ld: "(if f_sect fp \<noteq> ns then do {
         (ok, fp, fs) \<leftarrow> write_back M fp fs;
         if ok then fill_buf M ns fp fs else Some (False, fp, fs)
       } else Some (True, fp, fs)) = Some (True, p2, f2)" "chain_ok ready sector ch f2" "buffer_ok sector ch f2 (p2\<lparr>f_sect := ns\<rparr>)"
      "kept sector ch fs fp f2 (p2\<lparr>f_sect := ns\<rparr>)" "fptr p2 = fptr fp" "f_clust p2 = f_clust fp" by blast
  have "seek_fill M ns fp fs = Some (True, p2\<lparr>f_sect := ns\<rparr>, f2)"
  proof (cases "f_sect fp = ns")
    case True
    then have "p2\<lparr>f_sect := ns\<rparr> = p2" "p2 = fp" "f2 = fs" using ld(1) by auto
    then show ?thesis using True by (simp add: seek_fill_def)
  next
    case ne: False
    obtain a1 a2 a3 where wb: "write_back M fp fs = Some (a1, a2, a3)" using ld(1) ne by (cases "write_back M fp fs") auto
    then show ?thesis using ld(1) ne m by (cases a1) (auto simp: seek_fill_def)
  qed
  then show ?thesis using ld by (intro exI [of _ "p2\<lparr>f_sect := ns\<rparr>"] exI [of _ f2]) simp
qed

lemma f_lseek_ok:
  assumes f: "file_ok ready sector ch fs fp" and o: "f_flag fp AND FA_WRITE \<noteq> 0 \<longrightarrow> ofs \<le> objsize fp"
  shows "\<exists>fp' fs'. f_lseek M ofs fp fs = Some (FR_OK, fp', fs') \<and> file_ok ready sector ch fs' fp' \<and> kept sector ch fs fp fs' fp' \<and>
    contents sector fs' fp' ch = contents sector fs fp ch \<and> unat (fptr fp') = min (unat ofs) (unat (objsize fp))"
proof -
  have c: "chain_ok ready sector ch fs" and pos: "position_ok ch fs fp" using f by (simp_all add: file_ok_def)
  note cc = chain_ok_chain [OF c]
  have v: "validate fp fs = FR_OK" by (rule file_ok_valid [OF f])
  have e0: "unat (f_err fp) = FR_OK" using f by (simp add: file_ok_def FR_OK_def)
  define p where "p = (if ofs > objsize fp \<and> f_flag fp AND FA_WRITE = 0 then objsize fp else ofs)"
  have p: "unat p = min (unat ofs) (unat (objsize fp))" using o by (auto simp: p_def word_less_nat_alt word_le_nat_alt)
  then have le: "unat p \<le> unat (objsize fp)" by simp
  obtain p1 f1 ns where s: "seek_cluster M (fptr fp) p (fp\<lparr>fptr := 0\<rparr>) fs = Some (FR_OK, ns, p1, f1)" "chain_ok ready sector ch f1"
      "buffer_ok sector ch f1 p1" "kept sector ch fs fp f1 p1" "fptr p1 = p" "0 < unat p \<longrightarrow> f_clust p1 = of_nat (ch ! ((unat p - 1) div (unat (csize fs) * 512)))"
      "unat p mod 512 \<noteq> 0 \<longrightarrow> unat ns = file_sector fs ch (unat p div 512)"
    using seek_cluster_ok [OF f le] by (elim exE conjE) (rule that)
  note kf = kept_fields [OF s(4)]
  have ext: "seek_extend p1 = p1" using le s(5) kf(1) by (simp add: seek_extend_def word_less_nat_alt)
  have v1: "same_volume fs f1" using s(4) by (simp add: kept_def framed_def)
  have size: "unat (objsize fp) \<le> length ch * (unat (csize fs) * 512)" using pos by (simp add: position_ok_def)
  have fit: "unat (fptr p1) \<le> length ch * (unat (csize f1) * 512)" "unat (fptr p1) mod 512 \<noteq> 0 \<longrightarrow> unat ns = file_sector f1 ch (unat (fptr p1) div 512)"
    using le size s(5,7) by (simp_all add: same_volume_simps [OF v1] file_sector_same [OF v1])
  obtain p2 f2 where fl: "seek_fill M ns p1 f1 = Some (True, p2, f2)" "chain_ok ready sector ch f2" "buffer_ok sector ch f2 p2"
      "kept sector ch f1 p1 f2 p2" "fptr p2 = p" "f_clust p2 = f_clust p1" "unat p mod 512 \<noteq> 0 \<longrightarrow> f_sect p2 = ns"
    using seek_fill_ok [OF s(2,3) fit] s(5) by auto
  note kk = kept_trans [OF s(4) fl(4)]
  have v2: "same_volume fs f2" using kk by (simp add: kept_def framed_def)
  have "position_ok ch f2 p2"
    using pos s(5-7) fl(5-7) le kept_fields [OF kk] size unfolding position_ok_def word_le_nat_alt
    by (simp add: file_sector_same [OF v2] same_volume_simps [OF v2])
  then have "file_ok ready sector ch f2 p2" using fl(2,3) f kept_fields [OF kk] by (simp add: file_ok_def)
  moreover have "contents sector f2 p2 ch = contents sector fs fp ch"
    unfolding contents_def kept_fields(1) [OF kk] by (rule map_cong [OF refl]) (use kept_byte [OF kk cc(2)] size in auto)
  moreover have "f_lseek M ofs fp fs = Some (FR_OK, p2, f2)"
    unfolding f_lseek_def Let_def v p_def [symmetric] using e0 s(1) ext fl(1) by simp
  ultimately show ?thesis using kk fl(5) p by simp
qed

end

section \<open>Main property\<close>

lemma mode_bits:
  fixes f g :: u8
  assumes "g AND NOT FA_DIRTY = f AND NOT FA_DIRTY"
  shows "g AND FA_READ = f AND FA_READ" "g AND FA_WRITE = f AND FA_WRITE"
proof -
  have c: "x AND FA_READ = (x AND NOT FA_DIRTY) AND FA_READ" "x AND FA_WRITE = (x AND NOT FA_DIRTY) AND FA_WRITE" for x :: u8
    by (simp_all add: FA_DIRTY_def FA_READ_def FA_WRITE_def and.assoc)
  show "g AND FA_READ = f AND FA_READ" unfolding c(1) [of g] c(1) [of f] assms ..
  show "g AND FA_WRITE = f AND FA_WRITE" unfolding c(2) [of g] c(2) [of f] assms ..
qed

lemma modified_bits: "(f OR FA_MODIFIED) AND FA_READ = f AND FA_READ" "(f OR FA_MODIFIED) AND FA_WRITE = f AND FA_WRITE" for f :: u8
  by (simp_all add: bit.conj_disj_distrib2 FA_MODIFIED_def FA_READ_def FA_WRITE_def)

lemma kept_mode: "kept sector ch fs fp fs' fp' \<Longrightarrow> f_flag fp' AND NOT FA_DIRTY = f_flag fp AND NOT FA_DIRTY"
  by (auto simp: kept_def framed_def)

text \<open>C11. On a device that keeps its contract, for a file in good order that is open for reading and writing on a volume
  whose allocation table is in good order: when \<open>f_write\<close> has stored a buffer at the file pointer, \<open>f_lseek\<close> back to
  where the pointer was succeeds and \<open>f_read\<close> of as many bytes as were written returns exactly those bytes, the
  file being in good order all the time; the whole buffer was written unless the volume is full or the file at its largest size.\<close>

theorem f_write_lseek_read_roundtrip:
  assumes dev: "multi_device M ready sector" and f: "file_ok ready sector ch fs fp" and a: "alloc_ok sector fs"
    and m: "f_flag fp AND FA_READ \<noteq> 0" "f_flag fp AND FA_WRITE \<noteq> 0" and len: "length buff = unat btw"
  shows "\<exists>n p1 f1 p2 f2 p3 f3 ks. f_write M buff btw fp fs = Some (FR_OK, of_nat n, p1, f1) \<and> f_lseek M (fptr fp) p1 f1 = Some (FR_OK, p2, f2) \<and>
    fptr p2 = fptr fp \<and> f_read M (of_nat n) p2 f2 = Some (FR_OK, take n buff, p3, f3) \<and> fptr p3 = fptr p1 \<and>
    n \<le> unat btw \<and> (n < min (unat btw) (2 ^ 32 - 1 - unat (fptr fp)) \<longrightarrow> free_set (unat (n_fatent fs)) (fat_entry sector f1) = {} \<and> unat (fptr fp) + n = length (ch @ ks) * (unat (csize fs) * 512)) \<and>
    file_ok ready sector (ch @ ks) f1 p1 \<and> file_ok ready sector (ch @ ks) f2 p2 \<and> file_ok ready sector (ch @ ks) f3 p3 \<and>
    contents sector f3 p3 (ch @ ks) = take (unat (fptr fp)) (contents sector fs fp ch) @ take n buff @ drop (unat (fptr fp) + n) (contents sector fs fp ch)"
proof -
  let ?p = "unat (fptr fp)"
  obtain n p1 f1 ch' where w: "f_write M buff btw fp fs = Some (FR_OK, of_nat n, p1, f1)" "n \<le> min (unat btw) (2 ^ 32 - 1 - ?p)"
      "n < min (unat btw) (2 ^ 32 - 1 - ?p) \<longrightarrow> free_set (unat (n_fatent fs)) (fat_entry sector f1) = {} \<and> unat (fptr p1) = length ch' * (unat (csize fs) * 512)"
      "contents sector f1 p1 ch' = take ?p (contents sector fs fp ch) @ take n buff @ drop (?p + n) (contents sector fs fp ch)"
      "unat (fptr p1) = ?p + n" "file_ok ready sector ch' f1 p1" "f_flag p1 AND NOT FA_DIRTY = (f_flag fp OR FA_MODIFIED) AND NOT FA_DIRTY"
      "grown sector ch fs ch' f1"
    using multi_device.f_write_ok [OF dev f a m(2) len] by blast
  obtain ks where ks: "ch' = ch @ ks" using w(8) by (auto simp: grown_def)
  have p1: "unat (fptr p1) \<le> unat (objsize p1)" using w(6) by (simp add: file_ok_def position_ok_def word_le_nat_alt)
  have "fptr fp \<le> objsize p1" using p1 w(5) by (simp add: word_le_nat_alt)
  then obtain p2 f2 where s: "f_lseek M (fptr fp) p1 f1 = Some (FR_OK, p2, f2)" "file_ok ready sector ch' f2 p2" "kept sector ch' f1 p1 f2 p2"
      "contents sector f2 p2 ch' = contents sector f1 p1 ch'" "unat (fptr p2) = min ?p (unat (objsize p1))"
    using multi_device.f_lseek_ok [OF dev w(6)] by blast
  have p2: "unat (fptr p2) = ?p" using s(5) p1 w(5) by simp
  have "f_flag p2 AND FA_READ \<noteq> 0" using mode_bits(1) [OF kept_mode [OF s(3)]] mode_bits(1) [OF w(7)] modified_bits(1) m(1) by simp
  then obtain p3 f3 where r: "f_read M (of_nat n) p2 f2 = Some (FR_OK, take (unat (of_nat n :: u32)) (drop ?p (contents sector f2 p2 ch')), p3, f3)" "file_ok ready sector ch' f3 p3"
      "contents sector f3 p3 ch' = contents sector f2 p2 ch'" "unat (fptr p3) = min (?p + unat (of_nat n :: u32)) (unat (objsize p2))"
    using multi_device.f_read_ok [OF dev s(2), of "of_nat n"] p2 by auto
  have n: "unat (of_nat n :: u32) = n" using w(2) unat_lt_u32 [of btw] by (intro unat_of_nat_u32) simp
  have "?p \<le> length (contents sector fs fp ch)" using f by (simp add: file_ok_def position_ok_def word_le_nat_alt)
  then have got: "take n (drop ?p (contents sector f2 p2 ch')) = take n buff" using w(2) len by (simp add: s(4) w(4) min_absorb2)
  have "fptr p3 = fptr p1" using r(4) n p1 w(5) kept_fields(1) [OF s(3)] by (simp add: word_unat_eq_iff)
  moreover have "fptr p2 = fptr fp" using p2 by (simp add: word_unat_eq_iff)
  moreover have "n \<le> unat btw" using w(2) by simp
  moreover have "contents sector f3 p3 ch' = take ?p (contents sector fs fp ch) @ take n buff @ drop (?p + n) (contents sector fs fp ch)" by (simp only: r(3) s(4) w(4))
  moreover note r(1) [unfolded n got] w(3) [unfolded w(5)]
  ultimately show ?thesis using w(1,6) s(1,2) r(2) unfolding ks
    by (intro exI [of _ n] exI [of _ p1] exI [of _ f1] exI [of _ p2] exI [of _ f2] exI [of _ p3] exI [of _ f3] exI [of _ ks] conjI) assumption+
qed

theorem f_write_lseek_read_roundtrip_witness:
  "\<exists>p1 f1 p2 f2 p3 f3. f_write (driver_multi ref_ports ata_tick) [0x48, 0x69] 2 small_file small_volume = Some (FR_OK, 2, p1, f1) \<and>
     f_lseek (driver_multi ref_ports ata_tick) 0 p1 f1 = Some (FR_OK, p2, f2) \<and>
     f_read (driver_multi ref_ports ata_tick) 2 p2 f2 = Some (FR_OK, [0x48, 0x69], p3, f3)"
proof -
  have m: "f_flag small_file AND FA_READ \<noteq> 0" "f_flag small_file AND FA_WRITE \<noteq> 0" "length [0x48, 0x69 :: u8] = unat (2 :: u32)"
    by (simp_all add: small_file_def FA_READ_def FA_WRITE_def)
  have z: "fptr small_file = 0" "csize small_volume = 1" by (simp_all add: small_file_def small_volume_def)
  from f_write_lseek_read_roundtrip [OF atam.multi_device_axioms small_file_ok small_volume_alloc m] show ?thesis
  proof (elim exE conjE)
    fix n p1 f1 p2 f2 p3 f3 ks
    assume w: "f_write (driver_multi ref_ports ata_tick) [0x48, 0x69] 2 small_file small_volume = Some (FR_OK, of_nat n, p1, f1)"
        "f_lseek (driver_multi ref_ports ata_tick) (fptr small_file) p1 f1 = Some (FR_OK, p2, f2)"
        "f_read (driver_multi ref_ports ata_tick) (of_nat n) p2 f2 = Some (FR_OK, take n [0x48, 0x69], p3, f3)" "n \<le> unat (2 :: u32)"
        "n < min (unat (2 :: u32)) (2 ^ 32 - 1 - unat (fptr small_file)) \<longrightarrow> free_set (unat (n_fatent small_volume)) (fat_entry (drive_sector id) f1) = {} \<and>
          unat (fptr small_file) + n = length ([2] @ ks) * (unat (csize small_volume) * 512)"
    have "n = 2" using w(4,5) by (auto simp: z)
    then show ?thesis using w(1-3) z by auto
  qed
qed

end
