(* ===== verification/Fat_Sync.thy ===== *)
theory Fat_Sync
  imports Fat_Seek
begin

text \<open>
  Flushing and closing an open file in FatFs (\<open>f_sync\<close>, \<open>f_close\<close> and the directory entry they store, \<open>src/ff.c\<close>):
  after them the device alone holds the file.
\<close>

section \<open>Definitions\<close>

definition ld_clust :: "'d FATFS \<Rightarrow> u8 list \<Rightarrow> nat \<Rightarrow> u32 option" where
  "ld_clust fs buf dir = do {
     cl \<leftarrow> ld_word buf (dir + 26);
     if fs_type fs = FS_FAT32 then do {
       hi \<leftarrow> ld_word buf (dir + 20);
       Some (ucast cl OR push_bit 16 (ucast hi))
     } else Some (ucast cl)
   }"

definition st_clust :: "'d FATFS \<Rightarrow> nat \<Rightarrow> u32 \<Rightarrow> u8 list \<Rightarrow> u8 list option" where
  "st_clust fs dir cl buf = do {
     buf \<leftarrow> st_word (dir + 26) (ucast cl) buf;
     if fs_type fs = FS_FAT32 then st_word (dir + 20) (ucast (drop_bit 16 cl)) buf else Some buf
   }"

definition AM_ARC :: u8 where "AM_ARC = 0x20"

text \<open>The directory entry of the file in the window: attribute, first cluster, size, times.\<close>

definition sync_entry :: "'d FATFS \<Rightarrow> FIL \<Rightarrow> u32 \<Rightarrow> u8 list \<Rightarrow> u8 list option" where
  "sync_entry fs fp tm w = do {
     let dir = dir_ptr fp;
     a \<leftarrow> get_at w (dir + 11);
     w \<leftarrow> put_at (dir + 11) (a OR AM_ARC) w;
     w \<leftarrow> st_clust fs dir (sclust fp) w;
     w \<leftarrow> st_dword (dir + 28) (objsize fp) w;
     w \<leftarrow> st_dword (dir + 22) tm w;
     st_word (dir + 18) 0 w
   }"

definition f_sync :: "'d multiio \<Rightarrow> FIL \<Rightarrow> 'd FATFS \<Rightarrow> (fresult \<times> FIL \<times> 'd FATFS) option" where
  "f_sync M fp fs =
     (let res = validate fp fs
      in if res = FR_OK \<and> f_flag fp AND FA_MODIFIED \<noteq> 0 then do {
           (ok, fp, fs) \<leftarrow> write_back M fp fs;
           if ok then do {
             (res, fs) \<leftarrow> move_window (single_io M) (dir_sect fp) fs;
             if res = FR_OK then do {
               w \<leftarrow> sync_entry fs fp get_fattime (win fs);
               (res, fs) \<leftarrow> sync_fs (single_io M) (fs\<lparr>win := w, wflag := 1\<rparr>);
               Some (res, fp\<lparr>f_flag := f_flag fp AND NOT FA_MODIFIED\<rparr>, fs)
             } else Some (res, fp, fs)
           } else Some (FR_DISK_ERR, fp, fs)
         } else Some (res, fp, fs))"

definition f_close :: "'d multiio \<Rightarrow> FIL \<Rightarrow> 'd FATFS \<Rightarrow> (fresult \<times> FIL \<times> 'd FATFS) option" where
  "f_close M fp fs = do {
     (res, fp, fs) \<leftarrow> f_sync M fp fs;
     if res = FR_OK then
       let res = validate fp fs in Some (res, if res = FR_OK then fp\<lparr>obj_fs := False\<rparr> else fp, fs)
     else Some (res, fp, fs)
   }"

section \<open>The directory entry\<close>

text \<open>Storing a value changes its bytes only, and loading gives it back.\<close>

lemma st_word_ok:
  assumes "p + 2 \<le> length buf"
  shows "\<exists>buf'. st_word p v buf = Some buf' \<and> length buf' = length buf \<and> ld_word buf' p = Some v \<and> (\<forall>i. i \<noteq> p \<and> i \<noteq> p + 1 \<longrightarrow> get_at buf' i = get_at buf i)"
proof -
  have "push_bit 8 (ucast (ucast (drop_bit 8 v) :: u8)) OR ucast (ucast v :: u8) = v"
  proof (rule bit_word_eqI)
    fix n assume "n < LENGTH(16)"
    then have "n < 8 \<or> 8 \<le> n \<and> n < 16" by auto
    then show "bit (push_bit 8 (ucast (ucast (drop_bit 8 v) :: u8)) OR (ucast (ucast v :: u8) :: u16)) n = bit v n"
      by (elim disjE) (auto simp: bit_simps)
  qed
  then show ?thesis using assms
    by (intro exI [of _ "buf[p := ucast v, p + 1 := ucast (drop_bit 8 v)]"]) (simp add: st_word_def ld_word_def get_at_def del: push_bit_or)
qed

lemma st_dword_ok:
  assumes "p + 4 \<le> length buf"
  shows "\<exists>buf'. st_dword p v buf = Some buf' \<and> length buf' = length buf \<and> ld_dword buf' p = Some v \<and> (\<forall>i. i < p \<or> p + 4 \<le> i \<longrightarrow> get_at buf' i = get_at buf i)"
proof -
  let ?b = "buf[p := ucast v, p + 1 := ucast (drop_bit 8 v), p + 2 := ucast (drop_bit 16 v), p + 3 := ucast (drop_bit 24 v)]"
  have "st_dword p v buf = Some ?b" unfolding st_dword_def Let_def using assms by simp
  moreover have "ld_dword ?b p = Some (push_bit 24 (ucast (ucast (drop_bit 24 v) :: u8)) OR push_bit 16 (ucast (ucast (drop_bit 16 v) :: u8)) OR
      push_bit 8 (ucast (ucast (drop_bit 8 v) :: u8)) OR ucast (ucast v :: u8))" by (rule ld_dword_Some) (use assms in simp_all)
  then have "ld_dword ?b p = Some v" by (simp only: join_bytes32)
  moreover have "\<forall>i. i < p \<or> p + 4 \<le> i \<longrightarrow> get_at ?b i = get_at buf i" by (simp add: get_at_def)
  ultimately show ?thesis by (intro exI [of _ ?b]) simp
qed

lemma ld_word_cong: "get_at b p = get_at a p \<Longrightarrow> get_at b (p + 1) = get_at a (p + 1) \<Longrightarrow> ld_word b p = ld_word a p"
  by (simp add: ld_word_def)

lemma ld_dword_cong: "(\<And>i. p \<le> i \<Longrightarrow> i < p + 4 \<Longrightarrow> get_at b i = get_at a i) \<Longrightarrow> ld_dword b p = ld_dword a p"
  by (simp add: ld_dword_def)

lemma st_clust_ok:
  assumes "p + 32 \<le> length buf" "fs_type fs = FS_FAT32 \<or> unat cl < 2 ^ 16"
  shows "\<exists>buf'. st_clust fs p cl buf = Some buf' \<and> length buf' = length buf \<and> ld_clust fs buf' p = Some cl \<and>
    (\<forall>i. i \<notin> {p + 20, p + 21, p + 26, p + 27} \<longrightarrow> get_at buf' i = get_at buf i)"
proof -
  obtain b1 where b1: "st_word (p + 26) (ucast cl) buf = Some b1" "length b1 = length buf" "ld_word b1 (p + 26) = Some (ucast cl)"
      "\<forall>i. i \<noteq> p + 26 \<and> i \<noteq> p + 26 + 1 \<longrightarrow> get_at b1 i = get_at buf i"
    using st_word_ok [of "p + 26" buf "ucast cl"] assms(1) by auto
  show ?thesis
  proof (cases "fs_type fs = FS_FAT32")
    case True
    obtain b2 where b2: "st_word (p + 20) (ucast (drop_bit 16 cl)) b1 = Some b2" "length b2 = length b1" "ld_word b2 (p + 20) = Some (ucast (drop_bit 16 cl))"
        "\<forall>i. i \<noteq> p + 20 \<and> i \<noteq> p + 20 + 1 \<longrightarrow> get_at b2 i = get_at b1 i"
      using st_word_ok [of "p + 20" b1 "ucast (drop_bit 16 cl)"] assms(1) b1(2) by auto
    have lo: "ld_word b2 (p + 26) = Some (ucast cl)" using ld_word_cong [of b2 "p + 26" b1] b2(4) b1(3) by simp
    have "(ucast (ucast cl :: u16) :: u32) OR push_bit 16 (ucast (ucast (drop_bit 16 cl) :: u16)) = cl"
    proof (rule bit_word_eqI)
      fix n assume "n < LENGTH(32)"
      then have "n < 16 \<or> 16 \<le> n \<and> n < 32" by auto
      then show "bit ((ucast (ucast cl :: u16) :: u32) OR push_bit 16 (ucast (ucast (drop_bit 16 cl) :: u16))) n = bit cl n"
        by (elim disjE) (auto simp: bit_simps)
    qed
    then show ?thesis using True b1 b2 lo by (intro exI [of _ b2]) (simp add: st_clust_def ld_clust_def)
  next
    case False
    then have "(ucast (ucast cl :: u16) :: u32) = cl"
      using assms(2) by (simp add: word_unat_eq_iff unsigned_ucast_eq unsigned_take_bit_eq take_bit_nat_eq_self)
    then show ?thesis using False b1 by (intro exI [of _ b1]) (simp add: st_clust_def ld_clust_def)
  qed
qed

lemma sync_entry_ok:
  assumes len: "length w = 512" "dir_ptr fp + 32 \<le> 512" and cl: "fs_type fs = FS_FAT32 \<or> unat (sclust fp) < 2 ^ 16"
  shows "\<exists>w'. sync_entry fs fp tm w = Some w' \<and> length w' = 512 \<and> ld_clust fs w' (dir_ptr fp) = Some (sclust fp) \<and>
    ld_dword w' (dir_ptr fp + 28) = Some (objsize fp) \<and> (\<forall>i < 512. i < dir_ptr fp + 11 \<or> dir_ptr fp + 32 \<le> i \<longrightarrow> w' ! i = w ! i)"
proof -
  let ?p = "dir_ptr fp"
  define w0 where "w0 = w[?p + 11 := w ! (?p + 11) OR AM_ARC]"
  have l0: "length w0 = 512" using len by (simp add: w0_def)
  obtain w1 where w1: "st_clust fs ?p (sclust fp) w0 = Some w1" "length w1 = 512" "ld_clust fs w1 ?p = Some (sclust fp)"
      "\<forall>i. i \<notin> {?p + 20, ?p + 21, ?p + 26, ?p + 27} \<longrightarrow> get_at w1 i = get_at w0 i"
    using st_clust_ok [of ?p w0 fs "sclust fp"] l0 len cl by auto
  obtain w2 where w2: "st_dword (?p + 28) (objsize fp) w1 = Some w2" "length w2 = 512" "ld_dword w2 (?p + 28) = Some (objsize fp)"
      "\<forall>i. i < ?p + 28 \<or> ?p + 28 + 4 \<le> i \<longrightarrow> get_at w2 i = get_at w1 i"
    using st_dword_ok [of "?p + 28" w1 "objsize fp"] w1(2) len by auto
  obtain w3 where w3: "st_dword (?p + 22) tm w2 = Some w3" "length w3 = 512" "\<forall>i. i < ?p + 22 \<or> ?p + 22 + 4 \<le> i \<longrightarrow> get_at w3 i = get_at w2 i"
    using st_dword_ok [of "?p + 22" w2 tm] w2(2) len by auto
  obtain w4 where w4: "st_word (?p + 18) 0 w3 = Some w4" "length w4 = 512" "\<forall>i. i \<noteq> ?p + 18 \<and> i \<noteq> ?p + 18 + 1 \<longrightarrow> get_at w4 i = get_at w3 i"
    using st_word_ok [of "?p + 18" w3 0] w3(2) len by auto
  have g: "get_at w4 i = get_at w1 i" if "i \<in> {?p + 20, ?p + 21, ?p + 26, ?p + 27}" for i using that w2(4) w3(3) w4(3) by auto
  have "ld_word w4 (?p + 26) = ld_word w1 (?p + 26)" "ld_word w4 (?p + 20) = ld_word w1 (?p + 20)" by (rule ld_word_cong; simp add: g)+
  then have "ld_clust fs w4 ?p = ld_clust fs w1 ?p" by (simp only: ld_clust_def)
  moreover have "ld_dword w4 (?p + 28) = ld_dword w2 (?p + 28)" by (rule ld_dword_cong) (use w3(3) w4(3) in simp)
  moreover have "get_at w4 i = get_at w i" if i: "i < ?p + 11 \<or> ?p + 32 \<le> i" for i
  proof -
    have "get_at w0 i = get_at w i" using i by (auto simp: w0_def get_at_def)
    then show ?thesis using i w1(4) w2(4) w3(3) w4(3) by auto
  qed
  then have "w4 ! i = w ! i" if "i < 512" "i < ?p + 11 \<or> ?p + 32 \<le> i" for i using that len(1) w4(2) by (metis get_at_Some option.inject)
  moreover have "sync_entry fs fp tm w = Some w4" using len w1(1) w2(1) w3(1) w4(1) by (simp add: sync_entry_def w0_def)
  ultimately show ?thesis using w1(3) w2(3) w4(2) by (intro exI [of _ w4]) simp
qed

section \<open>Flushing the volume\<close>

text \<open>The FSInfo sector of a FAT32 volume, which the flush rewrites.\<close>

definition fsinfo :: "'d FATFS \<Rightarrow> nat set" where
  "fsinfo fs = (if fs_type fs = FS_FAT32 then {unat (volbase fs) + 1} else {})"

lemma volume_clean: "window_ok ready sector fs \<Longrightarrow> wflag fs = 0 \<Longrightarrow> volume sector fs = sector (dev fs)"
  by (auto simp: window_ok_def volume_def)

lemma fsinfo_same: "same_volume fs fs' \<Longrightarrow> fsinfo fs' = fsinfo fs"
  by (auto simp: same_volume_def fsinfo_def)

context block_device
begin

lemma flush_info:
  assumes w: "window_ok ready sector fs" "wflag fs = 0" and t: "fs_type fs = FS_FAT32" and i: "unat (volbase fs) + 1 < unat (fatbase fs)" and len: "length b = 512"
  shows "\<exists>d. dio_write M b (volbase fs + 1) (dev fs) = Some (True, d) \<and> window_ok ready sector (fs\<lparr>fsi_flag := 0, win := b, winsect := volbase fs + 1, dev := d\<rparr>) \<and>
    (\<forall>l. l \<noteq> unat (volbase fs) + 1 \<longrightarrow> volume sector (fs\<lparr>fsi_flag := 0, win := b, winsect := volbase fs + 1, dev := d\<rparr>) l = volume sector fs l)"
proof -
  have u: "unat (volbase fs + 1) = unat (volbase fs) + 1" using i unat_lt_u32 [of "fatbase fs"] by (subst unat_add_u32) simp_all
  have ok: "ready (dev fs)" "unat (fatbase fs) + 2 * unat (fs_fsize fs) \<le> 2 ^ 28" using w(1) by (simp_all add: window_ok_def)
  have lt: "unat (volbase fs + 1) < 2 ^ 28" using i ok(2) u by simp
  obtain d where d: "dio_write M b (volbase fs + 1) (dev fs) = Some (True, d)" "ready d" "sector d = (sector (dev fs))(unat (volbase fs) + 1 := b)"
    using write_sector [OF ok(1) lt len] unfolding u by blast
  let ?f = "fs\<lparr>fsi_flag := 0, win := b, winsect := volbase fs + 1, dev := d\<rparr>"
  have m: "mirror ?f = mirror fs" "in_fat ?f = in_fat fs" by (simp_all add: mirror_def in_fat_def)
  have out: "unat (volbase fs) + 1 \<notin> mirror fs" "unat (volbase fs) + 1 \<notin> in_fat fs" using i by (auto simp: mirror_def in_fat_def)
  have "sector d (l + unat (fs_fsize fs)) = sector d l" if "l \<in> in_fat fs" "n_fats fs = 2" for l
    using that w i by (auto simp: d(3) window_ok_def in_fat_def)
  then have "window_ok ready sector ?f" using w d(2) lt len out unfolding window_ok_def m by (auto simp: u d(3))
  then show ?thesis using d(1) volume_clean [OF w] by (intro exI [of _ d]) (simp add: volume_def u d(3))
qed

lemma info_sector:
  "\<exists>a1 a2 a3 a4 a5. st_dword 0 0x41615252 (replicate 512 0) = Some a1 \<and> st_dword 484 0x61417272 a1 = Some a2 \<and> st_dword 488 fc a2 = Some a3 \<and>
     st_dword 492 lc a3 = Some a4 \<and> st_dword 498 0xAA550000 a4 = Some a5 \<and> length a5 = 512"
proof -
  have st: "\<exists>b. st_dword p v a = Some b \<and> length b = 512" if "length a = 512" "p + 4 \<le> 512" for p v a using st_dword_ok [of p a v] that by auto
  show ?thesis using st [of "replicate 512 0" 0 "0x41615252"] st [of _ 484 "0x61417272"] st [of _ 488 fc] st [of _ 492 lc] st [of _ 498 "0xAA550000"] by fastforce
qed

lemma flush_device:
  assumes "window_ok ready sector fs"
  shows "\<exists>fs'. (do { (ok, d) \<leftarrow> dio_sync M (dev fs); Some (if ok then FR_OK else FR_DISK_ERR, fs\<lparr>dev := d\<rparr>) }) = Some (FR_OK, fs') \<and>
    window_ok ready sector fs' \<and> same_volume fs fs' \<and> wflag fs' = wflag fs \<and> winsect fs' = winsect fs \<and> volume sector fs' = volume sector fs"
proof -
  obtain d where d: "dio_sync M (dev fs) = Some (True, d)" "ready d" "sector d = sector (dev fs)" using sync_device [of "dev fs"] assms by (auto simp: window_ok_def)
  have m: "mirror (fs\<lparr>dev := d\<rparr>) = mirror fs" "in_fat (fs\<lparr>dev := d\<rparr>) = in_fat fs" by (simp_all add: mirror_def in_fat_def)
  have "window_ok ready sector (fs\<lparr>dev := d\<rparr>)" using assms d(2,3) unfolding window_ok_def m by simp
  moreover have "same_volume fs (fs\<lparr>dev := d\<rparr>)"
    unfolding same_volume_def by (intro exI [of _ "wflag fs"] exI [of _ "winsect fs"] exI [of _ "win fs"] exI [of _ d]) simp
  ultimately show ?thesis using d by (intro exI [of _ "fs\<lparr>dev := d\<rparr>"]) (simp add: volume_def)
qed

lemma sync_fs_ok:
  assumes w: "window_ok ready sector fs" and i: "\<forall>l \<in> fsinfo fs. l < unat (fatbase fs)"
  shows "\<exists>fs'. sync_fs M fs = Some (FR_OK, fs') \<and> window_ok ready sector fs' \<and> wflag fs' = 0 \<and> same_disk fs fs' \<and> free_clst fs' = free_clst fs \<and>
    unat (winsect fs') \<in> insert (unat (winsect fs)) (fsinfo fs) \<and> (\<forall>l. l \<notin> mirror fs \<union> fsinfo fs \<longrightarrow> volume sector fs' l = volume sector fs l)"
proof -
  obtain f1 where f1: "sync_window M fs = Some (FR_OK, f1)" "window_ok ready sector f1" "same_volume fs f1" "wflag f1 = 0"
      "winsect f1 = winsect fs" "\<forall>l. l \<notin> mirror fs \<longrightarrow> volume sector f1 l = volume sector fs l"
    using sync_window_ok [OF w] by blast
  have fi: "fsinfo f1 = fsinfo fs" "fatbase f1 = fatbase fs" using fsinfo_same [OF f1(3)] same_volume_simps [OF f1(3)] by simp_all
  have sd: "same_disk fs (f1\<lparr>fsi_flag := 0\<rparr>)" using same_disk_info [OF same_disk_volume [OF same_disk_refl f1(3)], where l = "last_clst f1" and f = "free_clst f1" and i = 0] by simp
  show ?thesis
  proof (cases "fsi_flag f1 = 1 \<and> fs_type f1 = FS_FAT32")
    case True
    obtain a1 a2 a3 a4 a5 where a: "st_dword 0 0x41615252 (replicate 512 0) = Some a1" "st_dword 484 0x61417272 a1 = Some a2" "st_dword 488 (free_clst f1) a2 = Some a3"
        "st_dword 492 (last_clst f1) a3 = Some a4" "st_dword 498 0xAA550000 a4 = Some a5" "length a5 = 512"
      using info_sector by blast
    have v: "unat (volbase f1) + 1 < unat (fatbase f1)" "fsinfo f1 = {unat (volbase f1) + 1}" using i True unfolding fi(1) [symmetric] fi(2) [symmetric] by (simp_all add: fsinfo_def)
    obtain d where d: "dio_write M a5 (volbase f1 + 1) (dev f1) = Some (True, d)" "window_ok ready sector (f1\<lparr>fsi_flag := 0, win := a5, winsect := volbase f1 + 1, dev := d\<rparr>)"
        "\<forall>l. l \<noteq> unat (volbase f1) + 1 \<longrightarrow> volume sector (f1\<lparr>fsi_flag := 0, win := a5, winsect := volbase f1 + 1, dev := d\<rparr>) l = volume sector f1 l"
      using flush_info [OF f1(2,4) conjunct2 [OF True] v(1) a(6)] by blast
    let ?f = "f1\<lparr>fsi_flag := 0, win := a5, winsect := volbase f1 + 1, dev := d\<rparr>"
    obtain fs' where fs': "(do { (ok, d) \<leftarrow> dio_sync M (dev ?f); Some (if ok then FR_OK else FR_DISK_ERR, ?f\<lparr>dev := d\<rparr>) }) = Some (FR_OK, fs')"
        "window_ok ready sector fs'" "same_volume ?f fs'" "wflag fs' = wflag ?f" "winsect fs' = winsect ?f" "volume sector fs' = volume sector ?f"
      using flush_device [OF d(2)] by blast
    have "same_volume (f1\<lparr>fsi_flag := 0\<rparr>) ?f"
      unfolding same_volume_def by (intro exI [of _ "wflag f1"] exI [of _ "volbase f1 + 1"] exI [of _ a5] exI [of _ d]) simp
    then have "same_disk fs fs'" using same_disk_volume [OF sd] same_volume_trans fs'(3) by blast
    moreover have "free_clst fs' = free_clst fs" using same_volume_simps(6) [OF fs'(3)] same_volume_simps(6) [OF f1(3)] by simp
    moreover have "unat (volbase f1 + 1) = unat (volbase f1) + 1" using v(1) unat_lt_u32 [of "fatbase f1"] by (subst unat_add_u32) simp_all
    moreover have "sync_fs M fs = Some (FR_OK, fs')"
      unfolding sync_fs_def Let_def f1(1) using True a(1-5) d(1) fs'(1) by simp
    ultimately show ?thesis using fs' f1(4,6) d(3) v(2) fi(1) by (intro exI [of _ fs']) auto
  next
    case False
    define q where "q = (if fsi_flag f1 = 1 then 0 else fsi_flag f1)"
    let ?f = "f1\<lparr>fsi_flag := q\<rparr>"
    have m: "mirror ?f = mirror f1" "in_fat ?f = in_fat f1" by (simp_all add: mirror_def in_fat_def)
    have "window_ok ready sector ?f" using f1(2) unfolding window_ok_def m by simp
    from flush_device [OF this] obtain fs' where fs': "(do { (ok, d) \<leftarrow> dio_sync M (dev ?f); Some (if ok then FR_OK else FR_DISK_ERR, ?f\<lparr>dev := d\<rparr>) }) = Some (FR_OK, fs')"
        "window_ok ready sector fs'" "same_volume ?f fs'" "wflag fs' = wflag ?f" "winsect fs' = winsect ?f" "volume sector fs' = volume sector ?f" by blast
    have "same_disk fs ?f" using same_disk_info [OF same_disk_volume [OF same_disk_refl f1(3)], where l = "last_clst f1" and f = "free_clst f1" and i = q] by simp
    then have "same_disk fs fs'" using same_disk_volume fs'(3) by blast
    moreover have "free_clst fs' = free_clst fs" using same_volume_simps(6) [OF fs'(3)] same_volume_simps(6) [OF f1(3)] by simp
    moreover have "sync_fs M fs = Some (FR_OK, fs')"
      unfolding sync_fs_def Let_def f1(1) using False fs'(1) by (auto simp: q_def)
    ultimately show ?thesis using fs' f1(4-6) by (intro exI [of _ fs']) (simp add: volume_def)
  qed
qed

end

section \<open>Flushing a file\<close>

text \<open>Changes of the volume outside the FAT and the clusters of the file do not concern the file.\<close>

lemma elsewhere_ok:
  assumes c: "chain_ok ready sector ch fs" and b: "buffer_ok sector ch fs fp" and w: "window_ok ready sector fs'" and d: "same_disk fs fs'"
    and x: "unat (winsect fs') \<notin> cluster_sectors fs (set ch \<union> free_set (unat (n_fatent fs)) (fat_entry sector fs))"
    and vol: "\<And>l. l \<in> in_fat fs \<union> cluster_sectors fs (set ch) \<Longrightarrow> volume sector fs' l = volume sector fs l"
  shows "chain_ok ready sector ch fs'" "buffer_ok sector ch fs' fp" "\<And>c. c < unat (n_fatent fs) \<Longrightarrow> fat_entry sector fs' c = fat_entry sector fs c"
    "\<And>l. l \<in> cluster_sectors fs (set ch) \<Longrightarrow> buffered sector fs' fp l = buffered sector fs fp l"
proof -
  note cc = chain_ok_chain [OF c]
  obtain u v i where sv: "same_volume (fs\<lparr>last_clst := u, free_clst := v, fsi_flag := i\<rparr>) fs'" using d by (auto simp: same_disk_def)
  note s = same_disk_simps [OF d] same_volume_simps(2,9) [OF sv]
  have geo: "fat_ok ready sector fs'" "data_ok fs'" using cc(1,2) w s by (simp_all add: fat_ok_def fat_geometry_def data_ok_def)
  have "fat_byte sector fs' k = fat_byte sector fs k" if "k < 512 * unat (fs_fsize fs)" for k
  proof -
    have "unat (fatbase fs) + k div 512 \<in> in_fat fs" using that by (simp add: in_fat_def div_less_iff_less_mult mult.commute)
    then show ?thesis using vol s by (simp add: fat_byte_def)
  qed
  then show e: "fat_entry sector fs' c = fat_entry sector fs c" if "c < unat (n_fatent fs)" for c
    using cc(1) that s(1)
    by (auto simp: fat_ok_def fat_geometry_def fat_entry_def entry12_def entry16_def entry32_def FS_FAT12_def FS_FAT16_def FS_FAT32_def)
  have cs: "cluster_sectors fs' = cluster_sectors fs" by (rule cluster_sectors_disk [OF d])
  have fr: "free_set (unat (n_fatent fs)) (fat_entry sector fs') = free_set (unat (n_fatent fs)) (fat_entry sector fs)" using e by (auto simp: free_set_def)
  moreover have "ch \<noteq> [] \<Longrightarrow> fat_chain (unat (n_fatent fs)) (fat_entry sector fs') ch"
    by (rule fat_chain_cong [of _ "fat_entry sector fs"]) (use c cc(5) e in \<open>auto simp: chain_ok_def\<close>)
  ultimately show "chain_ok ready sector ch fs'" using geo x s by (simp add: chain_ok_def cs)
  have dv: "sector (dev fs') l = sector (dev fs) l" if l: "l \<in> cluster_sectors fs (set ch)" for l
  proof -
    have "cluster_sectors fs (set ch) \<subseteq> cluster_sectors fs (set ch \<union> X)" for X by (auto simp: cluster_sectors_def)
    then have "l \<noteq> unat (winsect fs)" "l \<noteq> unat (winsect fs')" using l c x unfolding chain_ok_def by blast+
    then show ?thesis using vol [of l] l by (simp add: volume_def)
  qed
  show "buffer_ok sector ch fs' fp" using b dv by (auto simp: buffer_ok_def cs)
  show "buffered sector fs' fp l = buffered sector fs fp l" if "l \<in> cluster_sectors fs (set ch)" for l using dv [OF that] by (simp add: buffered_def)
qed

lemma contents_cong:
  assumes "data_ok fs" "unat (objsize fp) \<le> length ch * (unat (csize fs) * 512)" "file_sector fs' = file_sector fs" "objsize fp' = objsize fp"
    and "\<And>l. l \<in> cluster_sectors fs (set ch) \<Longrightarrow> buffered sector fs' fp' l = buffered sector fs fp l"
  shows "contents sector fs' fp' ch = contents sector fs fp ch"
proof -
  have "file_byte sector fs' fp' ch i = file_byte sector fs fp ch i" if "i < unat (objsize fp)" for i
  proof -
    have "i < length ch * unat (csize fs) * 512" using that assms(2) by (simp add: mult.assoc)
    then have "i div 512 < length ch * unat (csize fs)" by (simp add: div_less_iff_less_mult)
    then show ?thesis using assms(3,5) file_sector_in [OF assms(1)] by (simp add: file_byte_def)
  qed
  then show ?thesis using assms(4) by (simp add: contents_def)
qed

text \<open>The place of the directory entry: outside the FAT, the FSInfo sector and every cluster of the file or free.\<close>

definition entry_ok :: "('d \<Rightarrow> nat \<Rightarrow> u8 list) \<Rightarrow> nat list \<Rightarrow> 'd FATFS \<Rightarrow> FIL \<Rightarrow> bool" where
  "entry_ok sector ch fs fp \<longleftrightarrow> unat (dir_sect fp) < 2 ^ 28 \<and> dir_ptr fp + 32 \<le> 512 \<and> (\<forall>l \<in> fsinfo fs. l < unat (fatbase fs)) \<and>
     unat (dir_sect fp) \<notin> in_fat fs \<union> mirror fs \<union> fsinfo fs \<union> cluster_sectors fs (set ch \<union> free_set (unat (n_fatent fs)) (fat_entry sector fs))"

text \<open>The file is on the device: no sector waits in the window or the buffer, and the directory entry describes the file.\<close>

definition on_device :: "('d \<Rightarrow> nat \<Rightarrow> u8 list) \<Rightarrow> 'd FATFS \<Rightarrow> FIL \<Rightarrow> bool" where
  "on_device sector fs fp \<longleftrightarrow> volume sector fs = sector (dev fs) \<and> \<not> dirty fp \<and>
     ld_clust fs (sector (dev fs) (unat (dir_sect fp))) (dir_ptr fp) = Some (sclust fp) \<and>
     ld_dword (sector (dev fs) (unat (dir_sect fp))) (dir_ptr fp + 28) = Some (objsize fp)"

lemma same_disk_fsinfo: "same_disk fs fs' \<Longrightarrow> fsinfo fs' = fsinfo fs \<and> fatbase fs' = fatbase fs"
  by (auto simp: same_disk_def same_volume_def fsinfo_def)

lemma entry_moved:
  assumes "entry_ok sector ch fs fp" "same_disk fs fs'" "\<And>c. c < unat (n_fatent fs) \<Longrightarrow> fat_entry sector fs' c = fat_entry sector fs c"
    "dir_sect fp' = dir_sect fp" "dir_ptr fp' = dir_ptr fp"
  shows "entry_ok sector ch fs' fp'"
proof -
  have "free_set (unat (n_fatent fs)) (fat_entry sector fs') = free_set (unat (n_fatent fs)) (fat_entry sector fs)" using assms(3) by (auto simp: free_set_def)
  then show ?thesis using assms same_disk_fsinfo [OF assms(2)] by (simp add: entry_ok_def same_disk_simps [OF assms(2)] cluster_sectors_disk [OF assms(2)])
qed

lemma sync_places:
  assumes c: "chain_ok ready sector ch fs" and e: "entry_ok sector ch fs fp" and w: "unat (winsect fs') \<in> insert (unat (dir_sect fp)) (fsinfo fs)"
    and v: "\<forall>l. l \<notin> mirror fs \<union> fsinfo fs \<union> {unat (dir_sect fp)} \<longrightarrow> volume sector fs' l = volume sector fs l"
  shows "unat (winsect fs') \<notin> cluster_sectors fs (set ch \<union> free_set (unat (n_fatent fs)) (fat_entry sector fs))"
    "\<And>l. l \<in> in_fat fs \<union> cluster_sectors fs (set ch) \<Longrightarrow> volume sector fs' l = volume sector fs l"
proof -
  note cc = chain_ok_chain [OF c]
  have "unat (database fs) \<ge> unat (fatbase fs)" using cc(2) by (simp add: data_ok_def split: if_splits)
  then have off: "l \<notin> cluster_sectors fs C" "l \<notin> in_fat fs" if "l \<in> fsinfo fs" for l C
    using that e by (auto simp: entry_ok_def cluster_sectors_def cluster_base_def in_fat_def)
  have ds: "unat (dir_sect fp) \<notin> in_fat fs" "unat (dir_sect fp) \<notin> cluster_sectors fs (set ch \<union> free_set (unat (n_fatent fs)) (fat_entry sector fs))"
    using e by (simp_all add: entry_ok_def)
  then show "unat (winsect fs') \<notin> cluster_sectors fs (set ch \<union> free_set (unat (n_fatent fs)) (fat_entry sector fs))" using w off(1) by auto
  fix l assume l: "l \<in> in_fat fs \<union> cluster_sectors fs (set ch)"
  have "cluster_sectors fs (set ch) \<subseteq> cluster_sectors fs (set ch \<union> X)" for X by (auto simp: cluster_sectors_def)
  then have "l \<noteq> unat (dir_sect fp)" using l ds by blast
  moreover have "l \<notin> mirror fs" using l cluster_sectors_fat(2) [OF cc(2), of l "set ch"] by (auto simp: in_fat_def mirror_def split: if_splits)
  ultimately show "volume sector fs' l = volume sector fs l" using v l off by auto
qed

lemma start_fits:
  assumes "chain_ok ready sector ch fs" "position_ok ch fs fp"
  shows "fs_type fs = FS_FAT32 \<or> unat (sclust fp) < 2 ^ 16"
proof (cases "ch = []")
  case True
  then show ?thesis using assms(2) by (simp add: position_ok_def)
next
  case False
  note cc = chain_ok_chain [OF assms(1)]
  have "hd ch < unat (n_fatent fs)" "sclust fp = of_nat (hd ch)" using False cc(5) assms(2) by (simp_all add: position_ok_def)
  moreover have "unat (of_nat (hd ch) :: u32) \<le> hd ch" by (simp add: unsigned_of_nat take_bit_nat_less_eq_self)
  ultimately show ?thesis using cc(1) by (auto simp: fat_ok_def fat_geometry_def)
qed

context multi_device
begin

text \<open>Writing the directory entry through the window.\<close>

lemma store_entry_ok:
  assumes c: "chain_ok ready sector ch fs" and b: "buffer_ok sector ch fs fp" and e: "entry_ok sector ch fs fp" and cl: "fs_type fs = FS_FAT32 \<or> unat (sclust fp) < 2 ^ 16"
  shows "\<exists>f1 w f2. move_window (single_io M) (dir_sect fp) fs = Some (FR_OK, f1) \<and> sync_entry f1 fp tm (win f1) = Some w \<and>
    sync_fs (single_io M) (f1\<lparr>win := w, wflag := 1\<rparr>) = Some (FR_OK, f2) \<and> window_ok ready sector f2 \<and> wflag f2 = 0 \<and> same_disk fs f2 \<and> free_clst f2 = free_clst fs \<and>
    unat (winsect f2) \<in> insert (unat (dir_sect fp)) (fsinfo fs) \<and>
    ld_clust fs (volume sector f2 (unat (dir_sect fp))) (dir_ptr fp) = Some (sclust fp) \<and>
    ld_dword (volume sector f2 (unat (dir_sect fp))) (dir_ptr fp + 28) = Some (objsize fp) \<and>
    (\<forall>i < 512. i < dir_ptr fp + 11 \<or> dir_ptr fp + 32 \<le> i \<longrightarrow> volume sector f2 (unat (dir_sect fp)) ! i = volume sector fs (unat (dir_sect fp)) ! i) \<and>
    (\<forall>l. l \<notin> mirror fs \<union> fsinfo fs \<union> {unat (dir_sect fp)} \<longrightarrow> volume sector f2 l = volume sector fs l)"
proof -
  note cc = chain_ok_chain [OF c]
  have ds: "unat (dir_sect fp) < 2 ^ 28" "unat (dir_sect fp) \<notin> mirror fs" "unat (dir_sect fp) \<notin> in_fat fs" "unat (dir_sect fp) \<notin> fsinfo fs"
    using e by (simp_all add: entry_ok_def)
  obtain f1 where f1: "move_window (single_io M) (dir_sect fp) fs = Some (FR_OK, f1)" "window_ok ready sector f1" "same_volume fs f1" "winsect f1 = dir_sect fp"
      "win f1 = volume sector fs (unat (dir_sect fp))" "\<forall>l. l \<notin> mirror fs \<longrightarrow> volume sector f1 l = volume sector fs l"
    using one.move_window_ok [OF cc(3) ds(1,2)] by blast
  note s = same_volume_simps [OF f1(3)]
  have len: "length (win f1) = 512" using f1(2) by (simp add: window_ok_def)
  obtain w where w: "sync_entry f1 fp tm (win f1) = Some w" "length w = 512" "ld_clust f1 w (dir_ptr fp) = Some (sclust fp)"
      "ld_dword w (dir_ptr fp + 28) = Some (objsize fp)" "\<forall>i < 512. i < dir_ptr fp + 11 \<or> dir_ptr fp + 32 \<le> i \<longrightarrow> w ! i = win f1 ! i"
    using sync_entry_ok [OF len, of fp f1 tm] cl e s(1) by (auto simp: entry_ok_def)
  let ?g = "f1\<lparr>win := w, wflag := 1\<rparr>"
  have m: "mirror ?g = mirror f1" "in_fat ?g = in_fat f1" "fsinfo ?g = fsinfo f1" by (simp_all add: mirror_def in_fat_def fsinfo_def)
  have fi: "fsinfo f1 = fsinfo fs" by (rule fsinfo_same [OF f1(3)])
  have "unat (winsect f1) \<notin> in_fat f1" using ds(3) f1(4) s by simp
  then have "window_ok ready sector ?g" using f1(2) w(2) unfolding window_ok_def m by auto
  moreover have "\<forall>l \<in> fsinfo ?g. l < unat (fatbase ?g)" using e s(9) by (simp add: entry_ok_def m fi)
  ultimately obtain f2 where f2: "sync_fs (single_io M) ?g = Some (FR_OK, f2)" "window_ok ready sector f2" "wflag f2 = 0" "same_disk ?g f2" "free_clst f2 = free_clst f1"
      "unat (winsect f2) \<in> insert (unat (dir_sect fp)) (fsinfo fs)" "\<forall>l. l \<notin> mirror fs \<union> fsinfo fs \<longrightarrow> volume sector f2 l = volume sector ?g l"
    using one.sync_fs_ok [of ?g] f1(4) s(11) unfolding m fi by auto
  have g: "volume sector ?g = (volume sector f1)(unat (dir_sect fp) := w)" using f1(4) by (simp add: volume_def)
  have "same_volume f1 ?g" unfolding same_volume_def by (intro exI [of _ 1] exI [of _ "winsect f1"] exI [of _ w] exI [of _ "dev f1"]) simp
  then have "same_disk fs f2" using same_disk_trans [OF same_disk_volume [OF same_disk_volume [OF same_disk_refl f1(3)]] f2(4)] by blast
  moreover have at: "volume sector f2 (unat (dir_sect fp)) = w" using f2(7) ds by (simp add: g)
  moreover have "ld_clust fs w (dir_ptr fp) = Some (sclust fp)" using w(3) s(1) by (simp add: ld_clust_def)
  ultimately show ?thesis using f1(1,5,6) w(1,4,5) f2(1-3,5-7) g s(6)
    by (intro exI [of _ f1] exI [of _ w] exI [of _ f2]) simp
qed

lemma f_sync_ok:
  assumes f: "file_ok ready sector ch fs fp" and e: "entry_ok sector ch fs fp" and m: "f_flag fp AND FA_MODIFIED \<noteq> 0"
  shows "\<exists>fp' fs'. f_sync M fp fs = Some (FR_OK, fp', fs') \<and> file_ok ready sector ch fs' fp' \<and> on_device sector fs' fp' \<and>
    contents sector fs' fp' ch = contents sector fs fp ch \<and> objsize fp' = objsize fp \<and> f_flag fp' AND FA_MODIFIED = 0 \<and> same_disk fs fs' \<and> free_clst fs' = free_clst fs \<and>
    fptr fp' = fptr fp \<and> f_flag fp' AND FA_READ = f_flag fp AND FA_READ \<and> f_flag fp' AND FA_WRITE = f_flag fp AND FA_WRITE \<and>
    dir_sect fp' = dir_sect fp \<and> dir_ptr fp' = dir_ptr fp \<and> sclust fp' = sclust fp \<and>
    (\<forall>c < unat (n_fatent fs). fat_entry sector fs' c = fat_entry sector fs c) \<and>
    (\<forall>i < 512. i < dir_ptr fp + 11 \<or> dir_ptr fp + 32 \<le> i \<longrightarrow> volume sector fs' (unat (dir_sect fp)) ! i = volume sector fs (unat (dir_sect fp)) ! i) \<and>
    (\<forall>l. l \<notin> mirror fs \<union> fsinfo fs \<union> {unat (dir_sect fp)} \<union> cluster_sectors fs (set ch) \<longrightarrow> volume sector fs' l = volume sector fs l)"
proof -
  have c: "chain_ok ready sector ch fs" and b: "buffer_ok sector ch fs fp" and pos: "position_ok ch fs fp" using f by (simp_all add: file_ok_def)
  note cc = chain_ok_chain [OF c]
  have v: "validate fp fs = FR_OK" by (rule file_ok_valid [OF f])
  obtain f1 g where wb: "write_back M fp fs = Some (True, fp\<lparr>f_flag := g\<rparr>, f1)" "chain_ok ready sector ch f1" "buffer_ok sector ch f1 (fp\<lparr>f_flag := g\<rparr>)"
      "\<not> dirty (fp\<lparr>f_flag := g\<rparr>)" "kept sector ch fs fp f1 (fp\<lparr>f_flag := g\<rparr>)"
    using write_back_ok [OF c b] by blast
  let ?p = "fp\<lparr>f_flag := g\<rparr>" and ?q = "fp\<lparr>f_flag := g AND NOT FA_MODIFIED\<rparr>"
  have k: "same_volume fs f1" "\<forall>l. l \<notin> cluster_sectors fs (set ch) \<union> mirror fs \<longrightarrow> volume sector f1 l = volume sector fs l"
      "\<forall>c < unat (n_fatent fs). fat_entry sector f1 c = fat_entry sector fs c" using wb(5) by (simp_all add: kept_def framed_def)
  note s = same_volume_simps [OF k(1)] cluster_sectors_same [OF k(1)] fsinfo_same [OF k(1)]
  have e1: "entry_ok sector ch f1 ?p" by (rule entry_moved [OF e same_disk_volume [OF same_disk_refl k(1)]]) (use k(3) in simp_all)
  have "fs_type f1 = FS_FAT32 \<or> unat (sclust ?p) < 2 ^ 16" using start_fits [OF c pos] s(1) by simp
  then obtain f2 w f3 where st: "move_window (single_io M) (dir_sect ?p) f1 = Some (FR_OK, f2)" "sync_entry f2 ?p get_fattime (win f2) = Some w"
      "sync_fs (single_io M) (f2\<lparr>win := w, wflag := 1\<rparr>) = Some (FR_OK, f3)" "window_ok ready sector f3" "wflag f3 = 0" "same_disk f1 f3" "free_clst f3 = free_clst f1"
      "unat (winsect f3) \<in> insert (unat (dir_sect fp)) (fsinfo fs)"
      "ld_clust f1 (volume sector f3 (unat (dir_sect fp))) (dir_ptr fp) = Some (sclust fp)"
      "ld_dword (volume sector f3 (unat (dir_sect fp))) (dir_ptr fp + 28) = Some (objsize fp)"
      "\<forall>i < 512. i < dir_ptr fp + 11 \<or> dir_ptr fp + 32 \<le> i \<longrightarrow> volume sector f3 (unat (dir_sect fp)) ! i = volume sector f1 (unat (dir_sect fp)) ! i"
      "\<forall>l. l \<notin> mirror fs \<union> fsinfo fs \<union> {unat (dir_sect fp)} \<longrightarrow> volume sector f3 l = volume sector f1 l"
    using store_entry_ok [OF wb(2,3) e1, of get_fattime] s(11,14) by auto
  have ds: "unat (dir_sect fp) \<notin> cluster_sectors fs (set ch) \<union> mirror fs" using e by (auto simp: entry_ok_def cluster_sectors_def)
  have pl: "unat (winsect f3) \<in> insert (unat (dir_sect ?p)) (fsinfo f1)" "\<forall>l. l \<notin> mirror f1 \<union> fsinfo f1 \<union> {unat (dir_sect ?p)} \<longrightarrow> volume sector f3 l = volume sector f1 l"
    using st(8,12) by (simp_all add: s)
  note el = elsewhere_ok [OF wb(2,3) st(4,6) sync_places [OF wb(2) e1 pl]]
  have sd: "same_disk fs f3" using same_disk_trans [OF same_disk_volume [OF same_disk_refl k(1)] st(6)] .
  note s3 = same_disk_simps [OF sd]
  have nd: "\<not> dirty ?q" "f_flag ?q AND FA_MODIFIED = 0" using wb(4) by (simp_all add: dirty_def and.assoc FA_MODIFIED_def FA_DIRTY_def)
  have "buffer_ok sector ch f3 ?q" using el(2) nd(1) wb(4) by (simp add: buffer_ok_def)
  moreover have "position_ok ch f3 ?q" using pos by (simp add: position_ok_def file_sector_disk [OF sd] s3)
  moreover have "fs_id f3 = fs_id fs" using sd by (auto simp: same_disk_def same_volume_def)
  ultimately have fo: "file_ok ready sector ch f3 ?q" using el(1) f by (simp add: file_ok_def)
  have bf: "buffered sector f3 ?q l = buffered sector fs fp l" if l: "l \<in> cluster_sectors fs (set ch)" for l
  proof -
    have "buffered sector f3 ?q l = buffered sector f3 ?p l" by (simp add: buffered_def)
    also have "\<dots> = buffered sector fs fp l" using el(4) [of l] l wb(5) by (simp add: s kept_def)
    finally show ?thesis .
  qed
  have "contents sector f3 ?q ch = contents sector fs fp ch"
    by (rule contents_cong [OF cc(2) _ file_sector_disk [OF sd] _ bf]) (use pos in \<open>simp_all add: position_ok_def\<close>)
  moreover have "on_device sector f3 ?q"
    using st(9,10) nd(1) volume_clean [OF st(4,5)] s(1) s3(1) by (simp add: on_device_def ld_clust_def)
  moreover have "(g AND NOT FA_MODIFIED) AND FA_READ = f_flag fp AND FA_READ" "(g AND NOT FA_MODIFIED) AND FA_WRITE = f_flag fp AND FA_WRITE"
    using mode_bits [OF kept_mode [OF wb(5)]] by (simp_all add: and.assoc FA_MODIFIED_def FA_READ_def FA_WRITE_def)
  moreover have "free_clst f3 = free_clst fs" using st(7) s(6) by simp
  moreover have "f_sync M fp fs = Some (FR_OK, ?q, f3)" using v m wb(1) st(1-3) by (simp add: f_sync_def Let_def)
  moreover have "volume sector f1 (unat (dir_sect fp)) = volume sector fs (unat (dir_sect fp))" using k(2) ds by blast
  moreover have "\<forall>l. l \<notin> mirror fs \<union> fsinfo fs \<union> {unat (dir_sect fp)} \<union> cluster_sectors fs (set ch) \<longrightarrow> volume sector f3 l = volume sector fs l"
    using st(12) k(2) by simp
  moreover have "\<forall>c < unat (n_fatent fs). fat_entry sector f3 c = fat_entry sector fs c" using el(3) k(3) by (simp add: s)
  ultimately show ?thesis using fo nd(2) sd st(11) by (intro exI [of _ ?q] exI [of _ f3]) simp
qed

end

section \<open>Main property\<close>

lemma modified_set:
  fixes g f :: u8
  assumes "g AND NOT FA_DIRTY = (f OR FA_MODIFIED) AND NOT FA_DIRTY"
  shows "g AND FA_MODIFIED \<noteq> 0"
proof -
  have c: "x AND FA_MODIFIED = (x AND NOT FA_DIRTY) AND FA_MODIFIED" for x :: u8 by (simp add: FA_DIRTY_def FA_MODIFIED_def and.assoc)
  have "g AND FA_MODIFIED = (f OR FA_MODIFIED) AND FA_MODIFIED" unfolding c [of g] c [of "f OR FA_MODIFIED"] assms ..
  then have "bit (g AND FA_MODIFIED) 6" by (simp add: bit_simps FA_MODIFIED_def)
  then show ?thesis by auto
qed

lemma entry_grown:
  assumes e: "entry_ok sector ch fs fp" and g: "grown sector ch fs ch' fs'" and d: "dir_sect fp' = dir_sect fp" "dir_ptr fp' = dir_ptr fp"
  shows "entry_ok sector ch' fs' fp'"
proof -
  have sd: "same_disk fs fs'" using g by (simp add: grown_def)
  have "set ch' \<union> free_set (unat (n_fatent fs)) (fat_entry sector fs') \<subseteq> set ch \<union> free_set (unat (n_fatent fs)) (fat_entry sector fs)" using g by (auto simp: grown_def)
  then have "cluster_sectors fs (set ch' \<union> free_set (unat (n_fatent fs)) (fat_entry sector fs')) \<subseteq> cluster_sectors fs (set ch \<union> free_set (unat (n_fatent fs)) (fat_entry sector fs))"
    by (auto simp: cluster_sectors_def)
  then show ?thesis using e d same_disk_fsinfo [OF sd] unfolding entry_ok_def same_disk_simps [OF sd] cluster_sectors_disk [OF sd] by auto
qed

text \<open>The bytes of a file as the device alone has them.\<close>

definition device_bytes :: "('d \<Rightarrow> nat \<Rightarrow> u8 list) \<Rightarrow> 'd FATFS \<Rightarrow> nat list \<Rightarrow> nat \<Rightarrow> u8 list" where
  "device_bytes sector fs ch n = map (\<lambda>i. sector (dev fs) (file_sector fs ch (i div 512)) ! (i mod 512)) [0..<n]"

lemma device_bytes_contents:
  assumes "buffer_ok sector ch fs fp" "\<not> dirty fp"
  shows "contents sector fs fp ch = device_bytes sector fs ch (unat (objsize fp))"
proof -
  have "buffered sector fs fp l = sector (dev fs) l" for l using assms by (auto simp: buffered_def buffer_ok_def)
  then show ?thesis by (simp add: contents_def file_byte_def device_bytes_def)
qed

lemma small_file_entry: "entry_ok (drive_sector id) [2] small_volume small_file"
  by (auto simp: entry_ok_def small_file_def small_volume_def fsinfo_def FS_FAT16_def FS_FAT32_def in_fat_def mirror_def cluster_sectors_def cluster_base_def)

text \<open>C12. On a device that keeps its contract, for a file in good order that is open for writing, whose directory entry lies
  outside the FAT, the FSInfo sector and the clusters of the file and free ones, on a volume whose allocation table is in good order: after \<open>f_write\<close> and
  \<open>f_close\<close>, both of which succeed, the file object is invalid and the device alone holds the file.  Its directory
  entry has the first cluster and the new size, the FAT on the device has the chain, and the sectors of the chain
  have the new bytes.  The other entries in the sector of the directory entry, the FAT outside the chain and all sectors outside the FAT, the FSInfo
  sector and the clusters of the file stay as they were.\<close>

theorem f_write_close_durable:
  assumes dev: "multi_device M ready sector" and f: "file_ok ready sector ch fs fp" and a: "alloc_ok sector fs" and e: "entry_ok sector ch fs fp"
    and m: "f_flag fp AND FA_WRITE \<noteq> 0" and len: "length buff = unat btw"
  shows "\<exists>n p1 f1 p2 f2 ks. f_write M buff btw fp fs = Some (FR_OK, of_nat n, p1, f1) \<and> f_close M p1 f1 = Some (FR_OK, p2, f2) \<and> validate p2 f2 = FR_INVALID_OBJECT \<and>
    n \<le> unat btw \<and> (n < min (unat btw) (2 ^ 32 - 1 - unat (fptr fp)) \<longrightarrow>
      free_set (unat (n_fatent fs)) (fat_entry sector f1) = {} \<and> unat (fptr fp) + n = length (ch @ ks) * (unat (csize fs) * 512)) \<and>
    volume sector f2 = sector (dev f2) \<and> chain_ok ready sector (ch @ ks) f2 \<and>
    ld_clust f2 (sector (dev f2) (unat (dir_sect fp))) (dir_ptr fp) = Some (if ch @ ks = [] then 0 else of_nat (hd (ch @ ks))) \<and>
    ld_dword (sector (dev f2) (unat (dir_sect fp))) (dir_ptr fp + 28) = Some (of_nat (max (unat (objsize fp)) (unat (fptr fp) + n))) \<and>
    device_bytes sector f2 (ch @ ks) (max (unat (objsize fp)) (unat (fptr fp) + n)) =
      take (unat (fptr fp)) (contents sector fs fp ch) @ take n buff @ drop (unat (fptr fp) + n) (contents sector fs fp ch) \<and>
    (\<forall>i < 512. i < dir_ptr fp + 11 \<or> dir_ptr fp + 32 \<le> i \<longrightarrow> sector (dev f2) (unat (dir_sect fp)) ! i = volume sector fs (unat (dir_sect fp)) ! i) \<and>
    (\<forall>c. 2 \<le> c \<and> c < unat (n_fatent fs) \<and> c \<notin> set (ch @ ks) \<longrightarrow> fat_entry sector f2 c = fat_entry sector fs c) \<and>
    (\<forall>l. l \<notin> in_fat fs \<union> mirror fs \<union> fsinfo fs \<union> {unat (dir_sect fp)} \<union> cluster_sectors fs (set (ch @ ks)) \<longrightarrow> sector (dev f2) l = volume sector fs l)"
proof -
  let ?p = "unat (fptr fp)" and ?C = "contents sector fs fp ch"
  obtain n p1 f1 ch' where w: "f_write M buff btw fp fs = Some (FR_OK, of_nat n, p1, f1)" "n \<le> min (unat btw) (2 ^ 32 - 1 - ?p)"
      "n < min (unat btw) (2 ^ 32 - 1 - ?p) \<longrightarrow> free_set (unat (n_fatent fs)) (fat_entry sector f1) = {} \<and> unat (fptr p1) = length ch' * (unat (csize fs) * 512)"
      "contents sector f1 p1 ch' = take ?p ?C @ take n buff @ drop (?p + n) ?C" "unat (fptr p1) = ?p + n" "file_ok ready sector ch' f1 p1"
      "f_flag p1 AND NOT FA_DIRTY = (f_flag fp OR FA_MODIFIED) AND NOT FA_DIRTY" "grown sector ch fs ch' f1" "dir_sect p1 = dir_sect fp" "dir_ptr p1 = dir_ptr fp"
    using multi_device.f_write_ok [OF dev f a m len] by blast
  obtain ks where ks: "ch' = ch @ ks" using w(8) by (auto simp: grown_def)
  have sd: "same_disk fs f1" using w(8) by (simp add: grown_def)
  note s = same_disk_simps [OF sd] cluster_sectors_disk [OF sd]
  have "?p \<le> length ?C" using f by (simp add: file_ok_def position_ok_def word_le_nat_alt)
  then have size: "unat (objsize p1) = max (unat (objsize fp)) (?p + n)"
    using arg_cong [OF w(4), of length] w(2) len by simp
  note e1 = entry_grown [OF e w(8-10)]
  have "f_flag p1 AND FA_MODIFIED \<noteq> 0" using modified_set [OF w(7)] .
  then obtain p2 f2 where y: "f_sync M p1 f1 = Some (FR_OK, p2, f2)" "file_ok ready sector ch' f2 p2" "on_device sector f2 p2"
      "contents sector f2 p2 ch' = contents sector f1 p1 ch'" "objsize p2 = objsize p1" "dir_sect p2 = dir_sect p1" "dir_ptr p2 = dir_ptr p1"
      "\<forall>c < unat (n_fatent f1). fat_entry sector f2 c = fat_entry sector f1 c"
      "\<forall>i < 512. i < dir_ptr p1 + 11 \<or> dir_ptr p1 + 32 \<le> i \<longrightarrow> volume sector f2 (unat (dir_sect p1)) ! i = volume sector f1 (unat (dir_sect p1)) ! i"
      "\<forall>l. l \<notin> mirror f1 \<union> fsinfo f1 \<union> {unat (dir_sect p1)} \<union> cluster_sectors f1 (set ch') \<longrightarrow> volume sector f2 l = volume sector f1 l"
    using multi_device.f_sync_ok [OF dev w(6) e1] by blast
  let ?q = "p2\<lparr>obj_fs := False\<rparr>"
  have od: "volume sector f2 = sector (dev f2)" "ld_clust f2 (sector (dev f2) (unat (dir_sect fp))) (dir_ptr fp) = Some (sclust p2)"
      "ld_dword (sector (dev f2) (unat (dir_sect fp))) (dir_ptr fp + 28) = Some (objsize p1)" "\<not> dirty p2"
    using y(3,5-7) w(9,10) by (simp_all add: on_device_def)
  have ok2: "chain_ok ready sector ch' f2" "buffer_ok sector ch' f2 p2" "sclust p2 = (if ch' = [] then 0 else of_nat (hd ch'))" using y(2) by (simp_all add: file_ok_def position_ok_def)
  have "objsize p1 = of_nat (max (unat (objsize fp)) (?p + n))" unfolding size [symmetric] by simp
  moreover have "f_close M p1 f1 = Some (FR_OK, ?q, f2)" using y(1) file_ok_valid [OF y(2)] by (simp add: f_close_def Let_def)
  moreover have "validate ?q f2 = FR_INVALID_OBJECT" by (simp add: validate_def)
  moreover have "device_bytes sector f2 ch' (max (unat (objsize fp)) (?p + n)) = take ?p ?C @ take n buff @ drop (?p + n) ?C"
    using device_bytes_contents [OF ok2(2) od(4)] y(4,5) w(4) size by simp
  moreover have "\<forall>c. 2 \<le> c \<and> c < unat (n_fatent fs) \<and> c \<notin> set ch' \<longrightarrow> fat_entry sector f2 c = fat_entry sector fs c" using y(8) w(8) s by (simp add: grown_def)
  moreover have out: "volume sector f1 l = volume sector fs l" if "l \<notin> in_fat fs \<union> mirror fs \<union> cluster_sectors fs (set ch')" for l using w(8) that by (simp add: grown_def)
  then have "\<forall>l. l \<notin> in_fat fs \<union> mirror fs \<union> fsinfo fs \<union> {unat (dir_sect fp)} \<union> cluster_sectors fs (set ch') \<longrightarrow> sector (dev f2) l = volume sector fs l"
    using y(10) s w(9) same_disk_fsinfo [OF sd] od(1) by simp
  moreover have "unat (dir_sect fp) \<notin> in_fat fs \<union> mirror fs \<union> cluster_sectors fs (set ch')" using e1 w(9) unfolding entry_ok_def s by (auto simp: cluster_sectors_def)
  then have "\<forall>i < 512. i < dir_ptr fp + 11 \<or> dir_ptr fp + 32 \<le> i \<longrightarrow> sector (dev f2) (unat (dir_sect fp)) ! i = volume sector fs (unat (dir_sect fp)) ! i"
    using y(9) out w(9,10) od(1) by simp
  moreover have "n \<le> unat btw" using w(2) by simp
  moreover note w(3) [unfolded w(5)] od(1-3) ok2(1) w(1)
  ultimately show ?thesis unfolding ok2(3) ks
    by (intro exI [of _ n] exI [of _ p1] exI [of _ f1] exI [of _ ?q] exI [of _ f2] exI [of _ ks] conjI) simp_all
qed

theorem f_write_close_durable_witness:
  "\<exists>p1 f1 p2 f2 ks. f_write (driver_multi ref_ports ata_tick) [0x48, 0x69] 2 small_file small_volume = Some (FR_OK, 2, p1, f1) \<and>
     f_close (driver_multi ref_ports ata_tick) p1 f1 = Some (FR_OK, p2, f2) \<and>
     ld_dword (drive_sector id (dev f2) 3) 28 = Some 5 \<and> device_bytes (drive_sector id) f2 ([2] @ ks) 5 = [0x48, 0x69, 0, 0, 0xFF]"
proof -
  have m: "f_flag small_file AND FA_WRITE \<noteq> 0" "length [0x48, 0x69 :: u8] = unat (2 :: u32)"
    by (simp_all add: small_file_def FA_WRITE_def)
  have z: "fptr small_file = 0" "csize small_volume = 1" "objsize small_file = 5" "dir_sect small_file = 3" "dir_ptr small_file = 0" by (simp_all add: small_file_def small_volume_def)
  have e: "entry_ok (drive_sector id) [2] small_volume small_file" by (rule small_file_entry)
  from f_write_close_durable [OF atam.multi_device_axioms small_file_ok small_volume_alloc e m] show ?thesis
  proof (elim exE conjE)
    fix n p1 f1 p2 f2 ks
    assume w: "f_write (driver_multi ref_ports ata_tick) [0x48, 0x69] 2 small_file small_volume = Some (FR_OK, of_nat n, p1, f1)"
        "f_close (driver_multi ref_ports ata_tick) p1 f1 = Some (FR_OK, p2, f2)" "n \<le> unat (2 :: u32)"
        "n < min (unat (2 :: u32)) (2 ^ 32 - 1 - unat (fptr small_file)) \<longrightarrow> free_set (unat (n_fatent small_volume)) (fat_entry (drive_sector id) f1) = {} \<and>
          unat (fptr small_file) + n = length ([2] @ ks) * (unat (csize small_volume) * 512)"
        "ld_dword (drive_sector id (dev f2) (unat (dir_sect small_file))) (dir_ptr small_file + 28) = Some (of_nat (max (unat (objsize small_file)) (unat (fptr small_file) + n)))"
        "device_bytes (drive_sector id) f2 ([2] @ ks) (max (unat (objsize small_file)) (unat (fptr small_file) + n)) =
          take (unat (fptr small_file)) (contents (drive_sector id) small_volume small_file [2]) @ take n [0x48, 0x69] @
          drop (unat (fptr small_file) + n) (contents (drive_sector id) small_volume small_file [2])"
    have n: "n = 2" using w(3,4) by (auto simp: z)
    then show ?thesis using w(1,2,5,6) unfolding small_file_contents by (intro exI [of _ p1] exI [of _ f1] exI [of _ p2] exI [of _ f2] exI [of _ ks]) (simp add: z)
  qed
qed

end
