(* ===== verification/Fat_Extend.thy ===== *)
theory Fat_Extend
  imports Fat_Sync
begin

text \<open>
  \<open>f_lseek\<close> of FatFs in write mode to any position: behind the end of the file it allocates clusters and
  extends the file, as far as the volume has room.
\<close>

section \<open>A chain that is stretched\<close>

definition stretch :: "('d \<Rightarrow> bool) \<Rightarrow> ('d \<Rightarrow> nat \<Rightarrow> u8 list) \<Rightarrow> FIL \<Rightarrow> nat list \<Rightarrow> 'd FATFS \<Rightarrow> nat list \<Rightarrow> 'd FATFS \<Rightarrow> bool" where
  "stretch ready sector fp ch fs ch' fs' \<longleftrightarrow> chain_ok ready sector ch' fs' \<and> buffer_ok sector ch' fs' fp \<and> alloc_ok sector fs' \<and>
     grown sector ch fs ch' fs' \<and> (\<forall>l \<in> cluster_sectors fs (set ch). buffered sector fs' fp l = buffered sector fs fp l)"

lemma stretch_moved [simp]:
  "stretch ready sector (fp\<lparr>fptr := q, f_clust := c\<rparr>) = stretch ready sector fp"
  "stretch ready sector (fp\<lparr>sclust := s\<rparr>) = stretch ready sector fp"
  by (simp_all add: stretch_def buffered_def buffer_ok_def dirty_def fun_eq_iff)

lemma stretch_trans:
  assumes a: "stretch ready sector fp ch fs ch1 f1" and b: "stretch ready sector fp ch1 f1 ch2 f2"
  shows "stretch ready sector fp ch fs ch2 f2"
proof -
  have g: "grown sector ch fs ch1 f1" "grown sector ch1 f1 ch2 f2" using a b by (simp_all add: stretch_def)
  have sd: "same_disk fs f1" using g(1) by (simp add: grown_def)
  have "cluster_sectors fs (set ch) \<subseteq> cluster_sectors f1 (set ch1)" using g(1) cluster_sectors_disk [OF sd] by (auto simp: grown_def cluster_sectors_def)
  then show ?thesis using a b grown_trans [OF g] by (auto simp: stretch_def)
qed

lemma stretch_refl: "chain_ok ready sector ch fs \<Longrightarrow> buffer_ok sector ch fs fp \<Longrightarrow> alloc_ok sector fs \<Longrightarrow> stretch ready sector fp ch fs ch fs"
  by (simp add: stretch_def)

lemma stretch_simps:
  assumes "stretch ready sector fp ch fs ch' fs'"
  shows "chain_ok ready sector ch' fs'" "buffer_ok sector ch' fs' fp" "alloc_ok sector fs'" "same_disk fs fs'" "\<exists>ks. ch' = ch @ ks"
  using assms by (auto simp: stretch_def grown_def)

lemma stretch_byte:
  assumes t: "stretch ready sector fp ch fs ch' fs'" and d: "data_ok fs" and i: "i < length ch * (unat (csize fs) * 512)"
  shows "file_byte sector fs' fp ch' i = file_byte sector fs fp ch i"
proof -
  note st = stretch_simps [OF t]
  have lt: "i div 512 < length ch * unat (csize fs)" using i by (simp add: div_less_iff_less_mult algebra_simps)
  then have "i div 512 div unat (csize fs) < length ch" by (simp add: less_mult_imp_div_less)
  then have "file_sector fs' ch' (i div 512) = file_sector fs ch (i div 512)"
    using st(5) unfolding file_sector_disk [OF st(4)] by (auto simp: file_sector_def nth_append)
  then show ?thesis using t file_sector_in [OF d lt] by (simp add: file_byte_def stretch_def)
qed

context multi_device
begin

lemma stretch_new:
  assumes c: "chain_ok ready sector ch fs" and b: "buffer_ok sector ch fs fp" and a: "alloc_ok sector fs"
  shows "\<exists>k fs' ch'. create_chain (single_io M) (if ch = [] then 0 else of_nat (last ch)) fs = Some (of_nat k, fs') \<and> stretch ready sector fp ch fs ch' fs' \<and>
    (k = 0 \<and> ch' = ch \<and> free_set (unat (n_fatent fs)) (fat_entry sector fs') = {} \<or> 2 \<le> k \<and> k < unat (n_fatent fs) \<and> ch' = ch @ [k])"
proof -
  obtain k fs' ch' where g: "create_chain (single_io M) (if ch = [] then 0 else of_nat (last ch)) fs = Some (of_nat k, fs')" "chain_ok ready sector ch' fs'"
      "buffer_ok sector ch' fs' fp" "alloc_ok sector fs'" "grown sector ch fs ch' fs'" "\<forall>l \<in> cluster_sectors fs (set ch). sector (dev fs') l = sector (dev fs) l"
      "k = 0 \<and> ch' = ch \<and> free_set (unat (n_fatent fs)) (fat_entry sector fs') = {} \<or> 2 \<le> k \<and> k < unat (n_fatent fs) \<and> ch' = ch @ [k]"
    using chain_stretches [OF c b a] by (elim exE conjE) (rule that)
  have "stretch ready sector fp ch fs ch' fs'" using g(2-6) by (simp add: stretch_def buffered_def)
  then show ?thesis using g(1,7) by blast
qed

text \<open>One step of the search in write mode: the next cluster, a new one, or none.\<close>

lemma next_stretch:
  assumes c: "chain_ok ready sector ch fs" and b: "buffer_ok sector ch fs fp" and a: "alloc_ok sector fs" and i: "i < length ch"
  shows "\<exists>cl fs' ch'. create_chain (single_io M) (of_nat (ch ! i)) fs = Some (cl, fs') \<and> stretch ready sector fp ch fs ch' fs' \<and>
    (Suc i < length ch' \<and> cl = of_nat (ch' ! Suc i) \<or> cl = 0 \<and> Suc i = length ch' \<and> free_set (unat (n_fatent fs)) (fat_entry sector fs') = {})"
proof (cases "Suc i < length ch")
  case True
  obtain fs' where g: "create_chain (single_io M) (of_nat (ch ! i)) fs = Some (of_nat (ch ! Suc i), fs')" "unchanged ready sector fs fs'"
    using next_cluster_ok [OF c True, of True] by auto
  note kf = kept_fat(1,2) [OF g(2) c b] kept_fat(3) [OF g(2) c b, of "f_clust fp"]
  have k: "kept sector ch fs fp fs' fp" using kf(3) by simp
  have "alloc_ok sector fs'" using alloc_ok_same [OF a] k g(2) by (simp add: kept_def framed_def)
  then have "stretch ready sector fp ch fs ch fs'" using kf(1,2) k framed_grown [OF kept_framed [OF k]] by (simp add: stretch_def kept_def)
  then show ?thesis using g(1) True by blast
next
  case False
  then have l: "ch \<noteq> []" "Suc i = length ch" using i by auto
  have "ch ! i = last ch" using l(1) by (simp add: last_conv_nth l(2) [symmetric])
  with l show ?thesis using stretch_new [OF c b a] by (fastforce simp: nth_append)
qed

lemma stretch_loop_ok:
  assumes "chain_ok ready sector ch fs" "buffer_ok sector ch fs fp" "alloc_ok sector fs" "f_flag fp AND FA_WRITE \<noteq> 0" "unat bcs = unat (csize fs) * 512"
    "0 < unat ofs" "i < length ch" "i * unat bcs + unat ofs < 2 ^ 32" "unat (fptr fp) = i * unat bcs" "f_clust fp = of_nat (ch ! i)"
  shows "\<exists>q r cl j fs' ch'. seek_loop M bcs ofs (of_nat (ch ! i)) fp fs = Some (FR_OK, r, cl, fp\<lparr>fptr := q, f_clust := of_nat (ch' ! j)\<rparr>, fs') \<and>
    stretch ready sector fp ch fs ch' fs' \<and> j < length ch' \<and>
    (cl = of_nat (ch' ! j) \<and> 0 < unat r \<and> unat r \<le> unat bcs \<and> unat q = j * unat bcs \<and> j * unat bcs + unat r = i * unat bcs + unat ofs \<or>
     cl = 0 \<and> r = 0 \<and> unat q = Suc j * unat bcs \<and> Suc j = length ch' \<and> free_set (unat (n_fatent fs)) (fat_entry sector fs') = {} \<and>
       Suc j * unat bcs < i * unat bcs + unat ofs)"
  using assms
proof (induction "unat ofs" arbitrary: ofs i fp fs ch rule: less_induct)
  case less
  note c = less.prems(1) and b = less.prems(2) and a = less.prems(3) and wm = less.prems(4) and bc = less.prems(5) and n = less.prems(6-8) and p = less.prems(9,10)
  note cc = chain_ok_chain [OF c]
  have b0: "0 < unat bcs" using bc cluster_size_word(2) [OF cc(2)] by simp
  show ?case
  proof (cases "ofs > bcs")
    case False
    then have "seek_loop M bcs ofs (of_nat (ch ! i)) fp fs = Some (FR_OK, ofs, of_nat (ch ! i), fp\<lparr>fptr := fptr fp, f_clust := of_nat (ch ! i)\<rparr>, fs)"
      using p(2) by (subst seek_loop.simps) simp
    then show ?thesis using False stretch_refl [OF c b a] n p
      by - (rule exI [of _ "fptr fp"], rule exI [of _ ofs], rule exI [of _ "of_nat (ch ! i)"], rule exI [of _ i], rule exI [of _ fs], rule exI [of _ ch], simp add: word_less_nat_alt)
  next
    case True
    then have gt: "unat bcs < unat ofs" by (simp add: word_less_nat_alt)
    have sub: "unat (ofs - bcs) = unat ofs - unat bcs" using gt by (simp add: unat_sub word_le_nat_alt)
    have up: "unat (fptr fp + bcs) = Suc i * unat bcs" using n gt p(1) by (subst unat_add_u32) simp_all
    obtain cl f1 ch1 where g: "create_chain (single_io M) (of_nat (ch ! i)) fs = Some (cl, f1)" "stretch ready sector fp ch fs ch1 f1"
        "Suc i < length ch1 \<and> cl = of_nat (ch1 ! Suc i) \<or> cl = 0 \<and> Suc i = length ch1 \<and> free_set (unat (n_fatent fs)) (fat_entry sector f1) = {}"
      using next_stretch [OF c b a n(2)] by blast
    note st = stretch_simps [OF g(2)]
    note s = same_disk_simps [OF st(4)]
    show ?thesis
    proof (cases "Suc i < length ch1")
      case False
      then have z: "cl = 0" "Suc i = length ch1" "free_set (unat (n_fatent fs)) (fat_entry sector f1) = {}" using g(3) by simp_all
      have "ch1 ! i = ch ! i" using st(5) n(2) by (auto simp: nth_append)
      then have "seek_loop M bcs ofs (of_nat (ch ! i)) fp fs = Some (FR_OK, 0, 0, fp\<lparr>fptr := fptr fp + bcs, f_clust := of_nat (ch1 ! i)\<rparr>, f1)"
        using True g(1) z(1) wm p(2) by (subst seek_loop.simps) (simp add: Let_def)
      moreover have "Suc i * unat bcs < i * unat bcs + unat ofs" using gt by simp
      ultimately show ?thesis using g(2) z(2,3) up n(2)
        by - (rule exI [of _ "fptr fp + bcs"], rule exI [of _ 0], rule exI [of _ 0], rule exI [of _ i], rule exI [of _ f1], rule exI [of _ ch1], simp)
    next
      case next_cl: True
      then have cl: "cl = of_nat (ch1 ! Suc i)" using g(3) by simp
      have m: "2 \<le> ch1 ! Suc i" "ch1 ! Suc i < unat (n_fatent f1)" using chain_ok_chain(5) [OF st(1), of "ch1 ! Suc i"] next_cl by simp_all
      note cw = cluster_word [OF chain_ok_chain(1) [OF st(1)] m]
      have inside: "\<not> (cl \<le> 1 \<or> cl \<ge> n_fatent f1)" using cw(1) m by (simp add: cl word_le_nat_alt)
      let ?g = "fp\<lparr>fptr := fptr fp + bcs, f_clust := cl\<rparr>"
      have run: "seek_loop M bcs ofs (of_nat (ch ! i)) fp fs = seek_loop M bcs (ofs - bcs) (of_nat (ch1 ! Suc i)) ?g f1"
        using True g(1) cw(2,4) inside wm unfolding cl by (subst seek_loop.simps) (simp add: Let_def)
      have pre: "unat (ofs - bcs) < unat ofs" "0 < unat (ofs - bcs)" "Suc i * unat bcs + unat (ofs - bcs) = i * unat bcs + unat ofs" using gt b0 sub by simp_all
      have pre2: "buffer_ok sector ch1 f1 ?g" "f_flag ?g AND FA_WRITE \<noteq> 0" "unat bcs = unat (csize f1) * 512" "Suc i * unat bcs + unat (ofs - bcs) < 2 ^ 32"
          "unat (fptr ?g) = Suc i * unat bcs" "f_clust ?g = of_nat (ch1 ! Suc i)"
        using st(2) wm bc s n(3) pre(3) up cl by simp_all
      from less.hyps [OF pre(1) st(1) pre2(1) st(3) pre2(2,3) pre(2) next_cl pre2(4-6)]
      obtain q r cl' j fs' ch' where h: "seek_loop M bcs (ofs - bcs) (of_nat (ch1 ! Suc i)) ?g f1 = Some (FR_OK, r, cl', ?g\<lparr>fptr := q, f_clust := of_nat (ch' ! j)\<rparr>, fs')"
          "stretch ready sector ?g ch1 f1 ch' fs'" "j < length ch'"
          "cl' = of_nat (ch' ! j) \<and> 0 < unat r \<and> unat r \<le> unat bcs \<and> unat q = j * unat bcs \<and> j * unat bcs + unat r = Suc i * unat bcs + unat (ofs - bcs) \<or>
           cl' = 0 \<and> r = 0 \<and> unat q = Suc j * unat bcs \<and> Suc j = length ch' \<and> free_set (unat (n_fatent f1)) (fat_entry sector fs') = {} \<and>
             Suc j * unat bcs < Suc i * unat bcs + unat (ofs - bcs)" by blast
      have "stretch ready sector fp ch fs ch' fs'" using stretch_trans [OF g(2)] h(2) by simp
      then show ?thesis using h(1,3,4) unfolding run pre(3) s
        by - (rule exI [of _ q], rule exI [of _ r], rule exI [of _ cl'], rule exI [of _ j], rule exI [of _ fs'], rule exI [of _ ch'], simp)
    qed
  qed
qed

lemma seek_start_any:
  assumes f: "file_ok ready sector ch fs fp" and a: "alloc_ok sector fs" and o: "0 < unat ofs" and bc: "unat bcs = unat (csize fs) * 512"
  shows "\<exists>s q r cl i fs' ch'. seek_start M bcs (fptr fp) ofs (fp\<lparr>fptr := 0\<rparr>) fs = Some (FR_OK, r, cl, fp\<lparr>sclust := s, fptr := q, f_clust := cl\<rparr>, fs') \<and>
    stretch ready sector fp ch fs ch' fs' \<and> s = (if ch' = [] then 0 else of_nat (hd ch')) \<and>
    (cl = 0 \<and> ch' = [] \<and> q = 0 \<and> free_set (unat (n_fatent fs)) (fat_entry sector fs') = {} \<or>
     cl = of_nat (ch' ! i) \<and> i < length ch' \<and> 0 < unat r \<and> i * unat bcs + unat r = unat ofs \<and> unat q = i * unat bcs)"
proof -
  have c: "chain_ok ready sector ch fs" and b: "buffer_ok sector ch fs fp" and pos: "position_ok ch fs fp" using f by (simp_all add: file_ok_def)
  note cc = chain_ok_chain [OF c]
  show ?thesis
  proof (cases "ch = []")
    case True
    then have z: "sclust fp = 0" "fptr fp = 0" using pos by (auto simp: position_ok_def word_le_nat_alt unat_eq_zero)
    obtain k fs' ch' where g: "create_chain (single_io M) 0 fs = Some (of_nat k, fs')" "stretch ready sector fp ch fs ch' fs'"
        "k = 0 \<and> ch' = ch \<and> free_set (unat (n_fatent fs)) (fat_entry sector fs') = {} \<or> 2 \<le> k \<and> k < unat (n_fatent fs) \<and> ch' = ch @ [k]"
      using stretch_new [OF c b a] True by auto
    have "of_nat k \<noteq> (1 :: u32)" "of_nat k \<noteq> (0xFFFFFFFF :: u32)" using g(3) cluster_word(3,4) [OF cc(1), of k] by auto
    then have "seek_start M bcs (fptr fp) ofs (fp\<lparr>fptr := 0\<rparr>) fs = Some (FR_OK, ofs, of_nat k, fp\<lparr>sclust := of_nat k, fptr := 0, f_clust := of_nat k\<rparr>, fs')"
      using z g(1) by (simp add: seek_start_def)
    then show ?thesis using g(2,3) True o
      by - (rule exI [of _ "of_nat k"], rule exI [of _ 0], rule exI [of _ ofs], rule exI [of _ "of_nat k"], rule exI [of _ 0], rule exI [of _ fs'], rule exI [of _ ch'], auto)
  next
    case False
    obtain i r q where st: "seek_start M bcs (fptr fp) ofs (fp\<lparr>fptr := 0\<rparr>) fs = Some (FR_OK, r, of_nat (ch ! i), fp\<lparr>fptr := q, f_clust := of_nat (ch ! i)\<rparr>, fs)"
        "i < length ch" "0 < unat r" "i * unat bcs + unat r = unat ofs" "unat q = i * unat bcs"
      using seek_start_ok [OF f o False bc] by blast
    have "fp\<lparr>fptr := q, f_clust := of_nat (ch ! i)\<rparr> = fp\<lparr>sclust := sclust fp, fptr := q, f_clust := of_nat (ch ! i)\<rparr>" by simp
    then show ?thesis using st stretch_refl [OF c b a] pos False
      by - (rule exI [of _ "sclust fp"], rule exI [of _ q], rule exI [of _ r], rule exI [of _ "of_nat (ch ! i)"], rule exI [of _ i], rule exI [of _ fs], rule exI [of _ ch], simp add: position_ok_def)
  qed
qed

lemma seek_follow_any:
  assumes c: "chain_ok ready sector ch fs" and b: "buffer_ok sector ch fs fp" and a: "alloc_ok sector fs" and wm: "f_flag fp AND FA_WRITE \<noteq> 0"
    and bc: "unat bcs = unat (csize fs) * 512" and r: "0 < unat r" and i: "i < length ch" "i * unat bcs + unat r = unat ofs"
    and p: "unat (fptr fp) = i * unat bcs" "f_clust fp = of_nat (ch ! i)"
  shows "\<exists>q j ns fs' ch'. seek_follow M bcs r (of_nat (ch ! i)) fp fs = Some (FR_OK, ns, fp\<lparr>fptr := q, f_clust := of_nat (ch' ! j)\<rparr>, fs') \<and>
    stretch ready sector fp ch fs ch' fs' \<and> unat q \<le> length ch' * unat bcs \<and> (unat q - 1) div unat bcs = j \<and>
    (unat q mod 512 \<noteq> 0 \<longrightarrow> unat ns = file_sector fs ch' (unat q div 512)) \<and>
    (q = ofs \<or> unat q < unat ofs \<and> unat q = length ch' * unat bcs \<and> free_set (unat (n_fatent fs)) (fat_entry sector fs') = {})"
proof -
  have lim: "i * unat bcs + unat r < 2 ^ 32" using i(2) unat_lt_u32 [of ofs] by simp
  have b0: "0 < unat bcs" using bc cluster_size_word(2) [OF chain_ok_chain(2) [OF c]] by simp
  from stretch_loop_ok [OF c b a wm bc r i(1) lim p]
  obtain q t cl j f2 ch2 where lp: "seek_loop M bcs r (of_nat (ch ! i)) fp fs = Some (FR_OK, t, cl, fp\<lparr>fptr := q, f_clust := of_nat (ch2 ! j)\<rparr>, f2)"
      "stretch ready sector fp ch fs ch2 f2" "j < length ch2"
      "cl = of_nat (ch2 ! j) \<and> 0 < unat t \<and> unat t \<le> unat bcs \<and> unat q = j * unat bcs \<and> j * unat bcs + unat t = unat ofs \<or>
       cl = 0 \<and> t = 0 \<and> unat q = Suc j * unat bcs \<and> Suc j = length ch2 \<and> free_set (unat (n_fatent fs)) (fat_entry sector f2) = {} \<and>
         Suc j * unat bcs < unat ofs" unfolding i(2) by blast
  note s2 = stretch_simps [OF lp(2)]
  note d2 = same_disk_simps [OF s2(4)] file_sector_disk [OF s2(4)]
  define ns where "ns = (if t mod 512 \<noteq> 0 then clst2sect cl f2 + t div 512 else 0)"
  have ok: "t mod 512 \<noteq> 0 \<longrightarrow> clst2sect cl f2 \<noteq> 0 \<and> unat ns = file_sector fs ch2 ((j * unat bcs + unat t) div 512)"
  proof (cases "t mod 512 = 0")
    case odd: False
    then have t: "cl = of_nat (ch2 ! j)" "0 < unat t" "unat t \<le> unat (csize f2) * 512" using lp(4) bc d2 by auto
    show ?thesis using rest_sector_word [OF s2(1) lp(3) t(2,3) odd] odd t(1) bc by (simp add: ns_def d2)
  qed simp
  have run: "seek_follow M bcs r (of_nat (ch ! i)) fp fs = Some (FR_OK, ns, fp\<lparr>fptr := q + t, f_clust := of_nat (ch2 ! j)\<rparr>, f2)"
    using lp(1) ok by (simp add: seek_follow_def ns_def Let_def)
  from lp(4) show ?thesis
  proof (elim disjE conjE)
    assume e: "t = 0" "unat q = Suc j * unat bcs" "Suc j = length ch2" "free_set (unat (n_fatent fs)) (fat_entry sector f2) = {}" "Suc j * unat bcs < unat ofs"
    have m: "unat q = length ch2 * unat bcs" using e(2,3) by (simp only:)
    then have m0: "unat q mod 512 = 0" using bc by simp
    have "(unat q - 1) div unat bcs = j" using e(2) b0 by (intro div_nat_eqI) (simp_all add: algebra_simps)
    moreover have "unat q < unat ofs" using e(2,5) by (simp only:)
    ultimately show ?thesis using run lp(2) e(1,4) m m0
      by - (rule exI [of _ q], rule exI [of _ j], rule exI [of _ ns], rule exI [of _ f2], rule exI [of _ ch2], simp)
  next
    assume t: "0 < unat t" "unat t \<le> unat bcs" "unat q = j * unat bcs" "j * unat bcs + unat t = unat ofs"
    note re = seek_reached [OF t bc]
    have "Suc j * unat bcs \<le> length ch2 * unat bcs" using lp(3) by (intro mult_le_mono1) simp
    then have "unat ofs \<le> length ch2 * unat bcs" using t(2,4) by simp
    then show ?thesis using run lp(2) re ok t(4)
      by - (rule exI [of _ ofs], rule exI [of _ j], rule exI [of _ ns], rule exI [of _ f2], rule exI [of _ ch2], simp)
  qed
qed

lemma seek_cluster_any:
  assumes f: "file_ok ready sector ch fs fp" and a: "alloc_ok sector fs" and wm: "f_flag fp AND FA_WRITE \<noteq> 0"
  shows "\<exists>s q c ns fs' ch'. seek_cluster M (fptr fp) ofs (fp\<lparr>fptr := 0\<rparr>) fs = Some (FR_OK, ns, fp\<lparr>sclust := s, fptr := q, f_clust := c\<rparr>, fs') \<and>
    stretch ready sector fp ch fs ch' fs' \<and> s = (if ch' = [] then 0 else of_nat (hd ch')) \<and> unat q \<le> length ch' * (unat (csize fs) * 512) \<and>
    (0 < unat q \<longrightarrow> c = of_nat (ch' ! ((unat q - 1) div (unat (csize fs) * 512)))) \<and> (unat q mod 512 \<noteq> 0 \<longrightarrow> unat ns = file_sector fs ch' (unat q div 512)) \<and>
    (q = ofs \<or> unat q < unat ofs \<and> unat q = length ch' * (unat (csize fs) * 512) \<and> free_set (unat (n_fatent fs)) (fat_entry sector fs') = {})"
proof (cases "0 < unat ofs")
  case False
  then have z: "ofs = 0" by (simp add: unat_eq_zero)
  have "chain_ok ready sector ch fs" "buffer_ok sector ch fs fp" and pos: "position_ok ch fs fp" using f by (simp_all add: file_ok_def)
  moreover have "fp\<lparr>fptr := 0\<rparr> = fp\<lparr>sclust := sclust fp, fptr := 0, f_clust := f_clust fp\<rparr>" by simp
  ultimately show ?thesis using stretch_refl a z
    by - (rule exI [of _ "sclust fp"], rule exI [of _ 0], rule exI [of _ "f_clust fp"], rule exI [of _ 0], rule exI [of _ fs], rule exI [of _ ch], simp add: seek_cluster_def position_ok_def)
next
  case True
  have cc: "chain_ok ready sector ch fs" using f by (simp add: file_ok_def)
  define bcs where "bcs = (ucast (csize fs) * 512 :: u32)"
  have bc: "unat bcs = unat (csize fs) * 512" using cluster_size_word(1) [OF chain_ok_chain(2) [OF cc]] by (simp add: bcs_def)
  have b0: "0 < unat bcs" using bc cluster_size_word(2) [OF chain_ok_chain(2) [OF cc]] by simp
  have gt: "ofs > 0" using True by (simp add: word_less_nat_alt)
  obtain s q r cl i f1 ch1 where st: "seek_start M bcs (fptr fp) ofs (fp\<lparr>fptr := 0\<rparr>) fs = Some (FR_OK, r, cl, fp\<lparr>sclust := s, fptr := q, f_clust := cl\<rparr>, f1)"
      "stretch ready sector fp ch fs ch1 f1" "s = (if ch1 = [] then 0 else of_nat (hd ch1))"
      "cl = 0 \<and> ch1 = [] \<and> q = 0 \<and> free_set (unat (n_fatent fs)) (fat_entry sector f1) = {} \<or>
       cl = of_nat (ch1 ! i) \<and> i < length ch1 \<and> 0 < unat r \<and> i * unat bcs + unat r = unat ofs \<and> unat q = i * unat bcs"
    using seek_start_any [OF f a True bc] by blast
  note s1 = stretch_simps [OF st(2)]
  note d1 = same_disk_simps [OF s1(4)]
  show ?thesis
  proof (cases "cl = 0")
    case zero: True
    have "i < length ch1 \<Longrightarrow> of_nat (ch1 ! i) \<noteq> (0 :: u32)" using cluster_word(2) [OF chain_ok_chain(1) [OF s1(1)]] chain_ok_chain(5) [OF s1(1), of "ch1 ! i"] by simp
    then have z: "ch1 = []" "q = 0" "free_set (unat (n_fatent fs)) (fat_entry sector f1) = {}" using st(4) zero by auto
    have "seek_cluster M (fptr fp) ofs (fp\<lparr>fptr := 0\<rparr>) fs = Some (FR_OK, 0, fp\<lparr>sclust := s, fptr := 0, f_clust := 0\<rparr>, f1)"
      unfolding seek_cluster_def Let_def bcs_def [symmetric] using gt st(1) zero z(2) by simp
    then show ?thesis using st(2,3) z True
      by - (rule exI [of _ s], rule exI [of _ 0], rule exI [of _ 0], rule exI [of _ 0], rule exI [of _ f1], rule exI [of _ ch1], simp)
  next
    case nz: False
    then have i: "cl = of_nat (ch1 ! i)" "i < length ch1" "0 < unat r" "i * unat bcs + unat r = unat ofs" "unat q = i * unat bcs" using st(4) by auto
    let ?g = "fp\<lparr>sclust := s, fptr := q, f_clust := cl\<rparr>"
    have pre: "buffer_ok sector ch1 f1 ?g" "f_flag ?g AND FA_WRITE \<noteq> 0" "unat bcs = unat (csize f1) * 512" "unat (fptr ?g) = i * unat bcs" "f_clust ?g = of_nat (ch1 ! i)"
      using s1(2) wm bc d1 i by (simp_all add: buffer_ok_def dirty_def)
    obtain q' j ns f2 ch2 where fo: "seek_follow M bcs r (of_nat (ch1 ! i)) ?g f1 = Some (FR_OK, ns, ?g\<lparr>fptr := q', f_clust := of_nat (ch2 ! j)\<rparr>, f2)"
        "stretch ready sector ?g ch1 f1 ch2 f2" "unat q' \<le> length ch2 * unat bcs" "(unat q' - 1) div unat bcs = j"
        "unat q' mod 512 \<noteq> 0 \<longrightarrow> unat ns = file_sector f1 ch2 (unat q' div 512)"
        "q' = ofs \<or> unat q' < unat ofs \<and> unat q' = length ch2 * unat bcs \<and> free_set (unat (n_fatent f1)) (fat_entry sector f2) = {}"
      using seek_follow_any [OF s1(1) pre(1) s1(3) pre(2,3) i(3,2,4) pre(4,5)] by (elim exE conjE) (rule that)
    have st2: "stretch ready sector fp ch fs ch2 f2" using stretch_trans [OF st(2)] fo(2) by simp
    have hd2: "s = (if ch2 = [] then 0 else of_nat (hd ch2))" using st(3) i(2) stretch_simps(5) [OF fo(2)] by (cases ch1) auto
    have "seek_cluster M (fptr fp) ofs (fp\<lparr>fptr := 0\<rparr>) fs = Some (FR_OK, ns, fp\<lparr>sclust := s, fptr := q', f_clust := of_nat (ch2 ! j)\<rparr>, f2)"
      unfolding seek_cluster_def Let_def bcs_def [symmetric] using gt st(1) nz fo(1) i(1) by simp
    then show ?thesis using st2 hd2 fo(3-6) bc d1 file_sector_disk [OF s1(4)]
      by - (rule exI [of _ s], rule exI [of _ q'], rule exI [of _ "of_nat (ch2 ! j)"], rule exI [of _ ns], rule exI [of _ f2], rule exI [of _ ch2], simp)
  qed
qed

end

section \<open>The whole call\<close>

lemma and_or_dirty: "(f OR FA_MODIFIED) AND FA_DIRTY = f AND FA_DIRTY" for f :: u8
  by (simp add: bit.conj_disj_distrib2 FA_MODIFIED_def FA_DIRTY_def)

lemma seek_extend_fields:
  "fptr (seek_extend fp) = fptr fp" "f_clust (seek_extend fp) = f_clust fp" "f_sect (seek_extend fp) = f_sect fp" "f_buf (seek_extend fp) = f_buf fp"
  "sclust (seek_extend fp) = sclust fp" "obj_fs (seek_extend fp) = obj_fs fp" "obj_id (seek_extend fp) = obj_id fp" "f_err (seek_extend fp) = f_err fp"
  "dir_sect (seek_extend fp) = dir_sect fp" "dir_ptr (seek_extend fp) = dir_ptr fp" "dirty (seek_extend fp) = dirty fp"
  "f_flag (seek_extend fp) AND FA_READ = f_flag fp AND FA_READ" "f_flag (seek_extend fp) AND FA_WRITE = f_flag fp AND FA_WRITE"
  "unat (objsize (seek_extend fp)) = max (unat (objsize fp)) (unat (fptr fp))"
  by (simp_all add: seek_extend_def modified_bits word_less_nat_alt dirty_def and_or_dirty)

context multi_device
begin

lemma f_lseek_any:
  assumes f: "file_ok ready sector ch fs fp" and a: "alloc_ok sector fs" and wm: "f_flag fp AND FA_WRITE \<noteq> 0"
  shows "\<exists>fp' fs' ch' xs. f_lseek M ofs fp fs = Some (FR_OK, fp', fs') \<and> file_ok ready sector ch' fs' fp' \<and> alloc_ok sector fs' \<and> grown sector ch fs ch' fs' \<and>
    contents sector fs' fp' ch' = contents sector fs fp ch @ xs \<and> unat (objsize fp') = max (unat (objsize fp)) (unat (fptr fp')) \<and>
    (fptr fp' = ofs \<or> unat (fptr fp') < unat ofs \<and> unat (fptr fp') = length ch' * (unat (csize fs) * 512) \<and> free_set (unat (n_fatent fs)) (fat_entry sector fs') = {}) \<and>
    dir_sect fp' = dir_sect fp \<and> dir_ptr fp' = dir_ptr fp \<and> f_flag fp' AND FA_READ = f_flag fp AND FA_READ \<and> f_flag fp' AND FA_WRITE = f_flag fp AND FA_WRITE"
proof -
  let ?B = "unat (csize fs) * 512"
  have c: "chain_ok ready sector ch fs" and pos: "position_ok ch fs fp" using f by (simp_all add: file_ok_def)
  note cc = chain_ok_chain [OF c]
  have size: "unat (objsize fp) \<le> length ch * ?B" using pos by (simp add: position_ok_def)
  obtain s q k ns f1 ch' where sk: "seek_cluster M (fptr fp) ofs (fp\<lparr>fptr := 0\<rparr>) fs = Some (FR_OK, ns, fp\<lparr>sclust := s, fptr := q, f_clust := k\<rparr>, f1)"
      "stretch ready sector fp ch fs ch' f1" "s = (if ch' = [] then 0 else of_nat (hd ch'))" "unat q \<le> length ch' * ?B"
      "0 < unat q \<longrightarrow> k = of_nat (ch' ! ((unat q - 1) div ?B))" "unat q mod 512 \<noteq> 0 \<longrightarrow> unat ns = file_sector fs ch' (unat q div 512)"
      "q = ofs \<or> unat q < unat ofs \<and> unat q = length ch' * ?B \<and> free_set (unat (n_fatent fs)) (fat_entry sector f1) = {}"
    using seek_cluster_any [OF f a wm, of ofs] by (elim exE conjE) (rule that)
  note st = stretch_simps [OF sk(2)]
  note d1 = same_disk_simps [OF st(4)] file_sector_disk [OF st(4)]
  define p2 where "p2 = seek_extend (fp\<lparr>sclust := s, fptr := q, f_clust := k\<rparr>)"
  have p2: "fptr p2 = q" "f_clust p2 = k" "f_sect p2 = f_sect fp" "f_buf p2 = f_buf fp" "sclust p2 = s" "obj_fs p2 = obj_fs fp" "obj_id p2 = obj_id fp" "f_err p2 = f_err fp"
      "dir_sect p2 = dir_sect fp" "dir_ptr p2 = dir_ptr fp" "dirty p2 = dirty fp" "f_flag p2 AND FA_READ = f_flag fp AND FA_READ" "f_flag p2 AND FA_WRITE = f_flag fp AND FA_WRITE"
      "unat (objsize p2) = max (unat (objsize fp)) (unat q)"
    unfolding p2_def seek_extend_fields by (simp_all add: dirty_def)
  have pre: "buffer_ok sector ch' f1 p2" "unat (fptr p2) \<le> length ch' * (unat (csize f1) * 512)" "unat (fptr p2) mod 512 \<noteq> 0 \<longrightarrow> unat ns = file_sector f1 ch' (unat (fptr p2) div 512)"
    using st(2) sk(4,6) by (simp_all add: buffer_ok_def p2 d1)
  obtain p3 f3 where fl: "seek_fill M ns p2 f1 = Some (True, p3, f3)" "chain_ok ready sector ch' f3" "buffer_ok sector ch' f3 p3" "kept sector ch' f1 p2 f3 p3"
      "fptr p3 = q" "f_clust p3 = k" "unat q mod 512 \<noteq> 0 \<longrightarrow> f_sect p3 = ns"
    using seek_fill_ok [OF st(1) pre] by (auto simp: p2)
  note kf = kept_fields [OF fl(4)]
  have v: "same_volume f1 f3" "\<forall>c < unat (n_fatent f1). fat_entry sector f3 c = fat_entry sector f1 c" using fl(4) by (simp_all add: kept_def framed_def)
  have sd: "same_disk fs f3" by (rule same_disk_volume [OF st(4) v(1)])
  have gr: "grown sector ch fs ch' f3" using grown_trans [OF _ framed_grown [OF kept_framed [OF fl(4)]]] sk(2) by (simp add: stretch_def)
  have "length ch * ?B \<le> length ch' * ?B" using st(5) by auto
  then have long: "unat (objsize fp) \<le> length ch' * ?B" using size by linarith
  then have "unat (objsize p3) \<le> length ch' * ?B" "unat (fptr p3) \<le> unat (objsize p3)" using sk(4) fl(5) by (simp_all add: kf p2)
  then have "position_ok ch' f3 p3"
    using sk(3,5,6) fl(5-7) unfolding position_ok_def word_le_nat_alt by (simp add: kf p2 same_disk_simps [OF sd] file_sector_disk [OF sd])
  moreover have "fs_id f3 = fs_id fs" using sd by (auto simp: same_disk_def same_volume_def)
  ultimately have ok: "file_ok ready sector ch' f3 p3" using fl(2,3) f kf p2 by (simp add: file_ok_def)
  have byte: "file_byte sector f3 p3 ch' i = file_byte sector fs fp ch i" if i: "i < unat (objsize fp)" for i
  proof -
    have "file_byte sector f3 p3 ch' i = file_byte sector f1 p2 ch' i"
      by (rule kept_byte [OF fl(4) chain_ok_chain(2) [OF st(1)]]) (use i size long in \<open>simp add: d1\<close>)
    also have "\<dots> = file_byte sector f1 fp ch' i" by (rule file_byte_cong) (simp_all add: p2)
    also have "\<dots> = file_byte sector fs fp ch i" by (rule stretch_byte [OF sk(2) cc(2)]) (use i size in simp)
    finally show ?thesis .
  qed
  obtain d where d: "unat (objsize p3) = unat (objsize fp) + d" using le_Suc_ex [of "unat (objsize fp)" "unat (objsize p3)"] kf(1) p2(14) by auto
  have "contents sector f3 p3 ch' = contents sector fs fp ch @ map (file_byte sector f3 p3 ch') [unat (objsize fp)..<unat (objsize p3)]"
    unfolding contents_def d upt_add_eq_append [OF le0] map_append using byte by simp
  moreover have "f_lseek M ofs fp fs = Some (FR_OK, p3, f3)"
    unfolding f_lseek_def file_ok_valid [OF f] using f wm sk(1) fl(1) by (simp add: Let_def file_ok_def FR_OK_def p2_def)
  moreover have "alloc_ok sector f3" by (rule alloc_ok_same [OF st(3) v])
  moreover have "free_set (unat (n_fatent fs)) (fat_entry sector f3) = free_set (unat (n_fatent fs)) (fat_entry sector f1)" using v(2) d1 by (auto simp: free_set_def)
  moreover have "dir_sect p3 = dir_sect fp" "dir_ptr p3 = dir_ptr fp" using framed_meta [OF kept_framed [OF fl(4)]] p2 by (simp_all add: meta_def)
  moreover have "f_flag p3 AND FA_READ = f_flag fp AND FA_READ" "f_flag p3 AND FA_WRITE = f_flag fp AND FA_WRITE" using mode_bits [OF kept_mode [OF fl(4)]] p2 by simp_all
  ultimately show ?thesis using ok gr sk(7) fl(5) kf(1) p2(14)
    by - (rule exI [of _ p3], rule exI [of _ f3], rule exI [of _ ch'], rule exI [of _ "map (file_byte sector f3 p3 ch') [unat (objsize fp)..<unat (objsize p3)]"], simp)
qed

end

end
