(* ===== verification/Fat_Session.thy ===== *)
theory Fat_Session
  imports Fat_Extend
begin

text \<open>
  Sessions on one open file: any sequence of \<open>f_read\<close>, \<open>f_write\<close>, \<open>f_lseek\<close> and \<open>f_sync\<close> (\<open>src/ff.c\<close>)
  against a specification that knows only a list of bytes, a position and a capacity.
\<close>

section \<open>The calls\<close>

datatype file_op = Read u32 | Write "u8 list" | Seek u32 | Sync

fun file_call :: "'d multiio \<Rightarrow> file_op \<Rightarrow> FIL \<Rightarrow> 'd FATFS \<Rightarrow> (fresult \<times> u8 list \<times> FIL \<times> 'd FATFS) option" where
  "file_call M (Read btr) fp fs = f_read M btr fp fs"
| "file_call M (Write buff) fp fs = do { (res, bw, fp, fs) \<leftarrow> f_write M buff (of_nat (length buff)) fp fs; Some (res, [], fp, fs) }"
| "file_call M (Seek ofs) fp fs = do { (res, fp, fs) \<leftarrow> f_lseek M ofs fp fs; Some (res, [], fp, fs) }"
| "file_call M Sync fp fs = do { (res, fp, fs) \<leftarrow> f_sync M fp fs; Some (res, [], fp, fs) }"

text \<open>A session ends with \<^const>\<open>None\<close> when a call does not return or does not succeed.\<close>

fun file_run :: "'d multiio \<Rightarrow> file_op list \<Rightarrow> FIL \<Rightarrow> 'd FATFS \<Rightarrow> (u8 list list \<times> FIL \<times> 'd FATFS) option" where
  "file_run M [] fp fs = Some ([], fp, fs)"
| "file_run M (op # ops) fp fs = do {
     (res, out, fp, fs) \<leftarrow> file_call M op fp fs;
     if res = FR_OK then do {
       (outs, fp, fs) \<leftarrow> file_run M ops fp fs;
       Some (out # outs, fp, fs)
     } else None
   }"

section \<open>The specification\<close>

text \<open>A file is a list of bytes with a position; it can hold \<open>cap\<close> bytes, at most 4 GiB minus 1.  A seek behind the end
  adds bytes of any value.\<close>

inductive file_spec :: "nat \<Rightarrow> file_op \<Rightarrow> u8 list \<times> nat \<Rightarrow> u8 list \<Rightarrow> u8 list \<times> nat \<Rightarrow> bool" for cap where
  spec_read: "file_spec cap (Read n) (C, p) (take (unat n) (drop p C)) (C, min (p + unat n) (length C))"
| spec_write: "k = min (length b) (min cap (2 ^ 32 - 1) - p) \<Longrightarrow> file_spec cap (Write b) (C, p) [] (take p C @ take k b @ drop (p + k) C, p + k)"
| spec_seek: "q = min (unat ofs) cap \<Longrightarrow> length (C @ xs) = max (length C) q \<Longrightarrow> file_spec cap (Seek ofs) (C, p) [] (C @ xs, q)"
| spec_sync: "file_spec cap Sync (C, p) [] (C, p)"

inductive file_specs :: "nat \<Rightarrow> file_op list \<Rightarrow> u8 list \<times> nat \<Rightarrow> u8 list list \<Rightarrow> u8 list \<times> nat \<Rightarrow> bool" for cap where
  specs_nil: "file_specs cap [] s [] s"
| specs_cons: "file_spec cap op s out s' \<Longrightarrow> file_specs cap ops s' outs s'' \<Longrightarrow> file_specs cap (op # ops) s (out # outs) s''"

inductive_cases file_spec_readE: "file_spec cap (Read n) s out s'"
inductive_cases file_spec_writeE: "file_spec cap (Write b) s out s'"
inductive_cases file_spec_seekE: "file_spec cap (Seek ofs) s out s'"
inductive_cases file_spec_syncE: "file_spec cap Sync s out s'"
inductive_cases file_specs_nilE: "file_specs cap [] s outs s'"
inductive_cases file_specs_consE: "file_specs cap (op # ops) s outs s'"

text \<open>The bytes the clusters of the file and the free ones hold.\<close>

definition capacity :: "('d \<Rightarrow> nat \<Rightarrow> u8 list) \<Rightarrow> nat list \<Rightarrow> 'd FATFS \<Rightarrow> nat" where
  "capacity sector ch fs = (length ch + card (free_set (unat (n_fatent fs)) (fat_entry sector fs))) * (unat (csize fs) * 512)"

definition session_ok :: "('d \<Rightarrow> bool) \<Rightarrow> ('d \<Rightarrow> nat \<Rightarrow> u8 list) \<Rightarrow> nat list \<Rightarrow> 'd FATFS \<Rightarrow> FIL \<Rightarrow> bool" where
  "session_ok ready sector ch fs fp \<longleftrightarrow> file_ok ready sector ch fs fp \<and> alloc_ok sector fs \<and> entry_ok sector ch fs fp \<and>
     f_flag fp AND FA_READ \<noteq> 0 \<and> f_flag fp AND FA_WRITE \<noteq> 0"

section \<open>The capacity stays\<close>

lemma chain_not_free: "chain_ok ready sector ch fs \<Longrightarrow> c \<in> set ch \<Longrightarrow> fat_entry sector fs c \<noteq> 0"
  using fat_chain_used [OF _ fatent_bound] by (auto simp: chain_ok_def)

lemma file_ok_chain: "file_ok ready sector ch fs fp \<Longrightarrow> chain_ok ready sector ch fs"
  by (simp add: file_ok_def)

lemma finite_free [simp]: "finite (free_set n T)"
  by (rule finite_subset [of _ "{..<n}"]) (auto simp: free_set_def)

lemma capacity_grown:
  assumes g: "grown sector ch fs ch' fs'" and c: "chain_ok ready sector ch fs" "chain_ok ready sector ch' fs'"
  shows "capacity sector ch' fs' = capacity sector ch fs"
proof -
  let ?n = "unat (n_fatent fs)"
  have sd: "same_disk fs fs'" using g by (simp add: grown_def)
  note s = same_disk_simps [OF sd]
  obtain ks where ks: "ch' = ch @ ks" "set ks \<subseteq> free_set ?n (fat_entry sector fs)" using g by (auto simp: grown_def)
  have "distinct ks" using chain_ok_chain(4) [OF c(2)] ks(1) by simp
  have "free_set ?n (fat_entry sector fs') = free_set ?n (fat_entry sector fs) - set ks"
  proof
    show "free_set ?n (fat_entry sector fs') \<subseteq> free_set ?n (fat_entry sector fs) - set ks"
      using g chain_not_free [OF c(2)] ks(1) by (auto simp: grown_def free_set_def)
    show "free_set ?n (fat_entry sector fs) - set ks \<subseteq> free_set ?n (fat_entry sector fs')"
      using g chain_not_free [OF c(1)] ks(1) by (auto simp: grown_def free_set_def)
  qed
  then have "card (free_set ?n (fat_entry sector fs')) = card (free_set ?n (fat_entry sector fs)) - length ks"
    using ks(2) distinct_card [OF \<open>distinct ks\<close>] by (simp add: card_Diff_subset)
  moreover have "length ks \<le> card (free_set ?n (fat_entry sector fs))"
    using card_mono [OF finite_free ks(2)] distinct_card [OF \<open>distinct ks\<close>] by simp
  ultimately show ?thesis using ks(1) s by (simp add: capacity_def)
qed

lemma capacity_same:
  assumes "same_disk fs fs'" "\<forall>c < unat (n_fatent fs). fat_entry sector fs' c = fat_entry sector fs c"
  shows "capacity sector ch fs' = capacity sector ch fs"
proof -
  have "free_set (unat (n_fatent fs)) (fat_entry sector fs') = free_set (unat (n_fatent fs)) (fat_entry sector fs)" using assms(2) by (auto simp: free_set_def)
  then show ?thesis using same_disk_simps [OF assms(1)] by (simp add: capacity_def)
qed

lemma capacity_bounds:
  assumes "file_ok ready sector ch fs fp"
  shows "unat (fptr fp) \<le> unat (objsize fp)" "unat (objsize fp) \<le> capacity sector ch fs"
    "free_set (unat (n_fatent fs)) (fat_entry sector fs) = {} \<Longrightarrow> capacity sector ch fs = length ch * (unat (csize fs) * 512)"
proof -
  have p: "unat (objsize fp) \<le> length ch * (unat (csize fs) * 512)" "unat (fptr fp) \<le> unat (objsize fp)" using assms by (simp_all add: file_ok_def position_ok_def word_le_nat_alt)
  have "length ch * (unat (csize fs) * 512) \<le> capacity sector ch fs" unfolding capacity_def by (intro mult_le_mono1) simp
  then show "unat (objsize fp) \<le> capacity sector ch fs" "unat (fptr fp) \<le> unat (objsize fp)" using p by simp_all
qed (simp add: capacity_def)

section \<open>One call\<close>

context multi_device
begin

lemma read_call:
  assumes s: "session_ok ready sector ch fs fp"
  shows "\<exists>out fp' fs'. file_call M (Read n) fp fs = Some (FR_OK, out, fp', fs') \<and> session_ok ready sector ch fs' fp' \<and> capacity sector ch fs' = capacity sector ch fs \<and>
    file_spec cap (Read n) (contents sector fs fp ch, unat (fptr fp)) out (contents sector fs' fp' ch, unat (fptr fp'))"
proof -
  have f: "file_ok ready sector ch fs fp" and m: "f_flag fp AND FA_READ \<noteq> 0" using s by (simp_all add: session_ok_def)
  obtain fp' fs' where r: "f_read M n fp fs = Some (FR_OK, take (unat n) (drop (unat (fptr fp)) (contents sector fs fp ch)), fp', fs')" "file_ok ready sector ch fs' fp'"
      "kept sector ch fs fp fs' fp'" "contents sector fs' fp' ch = contents sector fs fp ch" "unat (fptr fp') = min (unat (fptr fp) + unat n) (unat (objsize fp))"
    using f_read_ok [OF f m, of n] by blast
  have v: "same_volume fs fs'" "\<forall>c < unat (n_fatent fs). fat_entry sector fs' c = fat_entry sector fs c" using r(3) by (simp_all add: kept_def framed_def)
  note sd = same_disk_volume [OF same_disk_refl v(1)]
  have d: "dir_sect fp' = dir_sect fp" "dir_ptr fp' = dir_ptr fp" using framed_meta [OF kept_framed [OF r(3)]] by (simp_all add: meta_def)
  have "entry_ok sector ch fs' fp'" by (rule entry_moved [OF _ sd _ d]) (use s v(2) in \<open>simp_all add: session_ok_def\<close>)
  moreover have "alloc_ok sector fs'" by (rule alloc_ok_same [OF _ v]) (use s in \<open>simp add: session_ok_def\<close>)
  ultimately have "session_ok ready sector ch fs' fp'" using s r(2) mode_bits [OF kept_mode [OF r(3)]] by (simp add: session_ok_def)
  moreover have "file_spec cap (Read n) (contents sector fs fp ch, unat (fptr fp)) (take (unat n) (drop (unat (fptr fp)) (contents sector fs fp ch))) (contents sector fs' fp' ch, unat (fptr fp'))"
    using spec_read [of cap n "contents sector fs fp ch" "unat (fptr fp)"] r(4,5) by simp
  ultimately show ?thesis using r(1) capacity_same [OF sd v(2)] by simp
qed

lemma write_call:
  assumes s: "session_ok ready sector ch fs fp" and len: "length b < 2 ^ 32"
  shows "\<exists>fp' fs' ch'. file_call M (Write b) fp fs = Some (FR_OK, [], fp', fs') \<and> session_ok ready sector ch' fs' fp' \<and> capacity sector ch' fs' = capacity sector ch fs \<and>
    file_spec (capacity sector ch fs) (Write b) (contents sector fs fp ch, unat (fptr fp)) [] (contents sector fs' fp' ch', unat (fptr fp'))"
proof -
  let ?p = "unat (fptr fp)" and ?C = "contents sector fs fp ch" and ?cap = "capacity sector ch fs"
  have f: "file_ok ready sector ch fs fp" "alloc_ok sector fs" "entry_ok sector ch fs fp" and m: "f_flag fp AND FA_WRITE \<noteq> 0" using s by (simp_all add: session_ok_def)
  have l: "length b = unat (of_nat (length b) :: u32)" using len by (simp add: unat_of_nat_u32)
  obtain n fp' fs' ch' where w: "f_write M b (of_nat (length b)) fp fs = Some (FR_OK, of_nat n, fp', fs')" "n \<le> min (length b) (2 ^ 32 - 1 - ?p)"
      "n < min (length b) (2 ^ 32 - 1 - ?p) \<longrightarrow> free_set (unat (n_fatent fs)) (fat_entry sector fs') = {} \<and> unat (fptr fp') = length ch' * (unat (csize fs) * 512)"
      "contents sector fs' fp' ch' = take ?p ?C @ take n b @ drop (?p + n) ?C" "unat (fptr fp') = ?p + n" "file_ok ready sector ch' fs' fp'" "alloc_ok sector fs'"
      "grown sector ch fs ch' fs'" "f_flag fp' AND NOT FA_DIRTY = (f_flag fp OR FA_MODIFIED) AND NOT FA_DIRTY" "dir_sect fp' = dir_sect fp" "dir_ptr fp' = dir_ptr fp"
    using f_write_ok [OF f(1,2) m l] unfolding l [symmetric] by blast
  have cap: "capacity sector ch' fs' = ?cap" by (rule capacity_grown [OF w(8) file_ok_chain [OF f(1)] file_ok_chain [OF w(6)]])
  have g: "same_disk fs fs'" using w(8) by (simp add: grown_def)
  note cb = capacity_bounds [OF w(6)]
  have "n = min (length b) (min ?cap (2 ^ 32 - 1) - ?p)"
  proof (cases "n < min (length b) (2 ^ 32 - 1 - ?p)")
    case True
    then have "?cap = ?p + n" using w(3,5) cb(3) cap by (simp add: same_disk_simps [OF g])
    then show ?thesis using True by auto
  next
    case False
    then show ?thesis using w(2,5) cb(1,2) cap by auto
  qed
  then have "file_spec ?cap (Write b) (?C, ?p) [] (contents sector fs' fp' ch', unat (fptr fp'))" unfolding w(4,5) by (rule spec_write)
  moreover have "session_ok ready sector ch' fs' fp'"
    using s w(6,7) entry_grown [OF f(3) w(8,10,11)] mode_bits [OF w(9)] modified_bits by (simp add: session_ok_def)
  ultimately show ?thesis using w(1) cap by (intro exI [of _ fp'] exI [of _ fs'] exI [of _ ch']) simp
qed

lemma seek_call:
  assumes s: "session_ok ready sector ch fs fp"
  shows "\<exists>fp' fs' ch'. file_call M (Seek ofs) fp fs = Some (FR_OK, [], fp', fs') \<and> session_ok ready sector ch' fs' fp' \<and> capacity sector ch' fs' = capacity sector ch fs \<and>
    file_spec (capacity sector ch fs) (Seek ofs) (contents sector fs fp ch, unat (fptr fp)) [] (contents sector fs' fp' ch', unat (fptr fp'))"
proof -
  let ?C = "contents sector fs fp ch" and ?cap = "capacity sector ch fs"
  have f: "file_ok ready sector ch fs fp" "alloc_ok sector fs" "entry_ok sector ch fs fp" and m: "f_flag fp AND FA_WRITE \<noteq> 0" using s by (simp_all add: session_ok_def)
  obtain fp' fs' ch' xs where w: "f_lseek M ofs fp fs = Some (FR_OK, fp', fs')" "file_ok ready sector ch' fs' fp'" "alloc_ok sector fs'" "grown sector ch fs ch' fs'"
      "contents sector fs' fp' ch' = ?C @ xs" "unat (objsize fp') = max (unat (objsize fp)) (unat (fptr fp'))"
      "fptr fp' = ofs \<or> unat (fptr fp') < unat ofs \<and> unat (fptr fp') = length ch' * (unat (csize fs) * 512) \<and> free_set (unat (n_fatent fs)) (fat_entry sector fs') = {}"
      "dir_sect fp' = dir_sect fp" "dir_ptr fp' = dir_ptr fp" "f_flag fp' AND FA_READ = f_flag fp AND FA_READ" "f_flag fp' AND FA_WRITE = f_flag fp AND FA_WRITE"
    using f_lseek_any [OF f(1,2) m, of ofs] by (elim exE conjE) (rule that)
  have cap: "capacity sector ch' fs' = ?cap" by (rule capacity_grown [OF w(4) file_ok_chain [OF f(1)] file_ok_chain [OF w(2)]])
  have g: "same_disk fs fs'" using w(4) by (simp add: grown_def)
  note cb = capacity_bounds [OF w(2)]
  have q: "unat (fptr fp') = min (unat ofs) ?cap" using w(7) cb cap by (auto simp: same_disk_simps [OF g])
  have "length (?C @ xs) = max (length ?C) (unat (fptr fp'))" unfolding w(5) [symmetric] using w(6) by simp
  then have "file_spec ?cap (Seek ofs) (?C, unat (fptr fp)) [] (contents sector fs' fp' ch', unat (fptr fp'))" unfolding w(5) using q by (intro spec_seek)
  moreover have "session_ok ready sector ch' fs' fp'" using s w(2,3,10,11) entry_grown [OF f(3) w(4,8,9)] by (simp add: session_ok_def)
  ultimately show ?thesis using w(1) cap by (intro exI [of _ fp'] exI [of _ fs'] exI [of _ ch']) simp
qed

lemma sync_call:
  assumes s: "session_ok ready sector ch fs fp"
  shows "\<exists>fp' fs'. file_call M Sync fp fs = Some (FR_OK, [], fp', fs') \<and> session_ok ready sector ch fs' fp' \<and> capacity sector ch fs' = capacity sector ch fs \<and>
    file_spec cap Sync (contents sector fs fp ch, unat (fptr fp)) [] (contents sector fs' fp' ch, unat (fptr fp'))"
proof (cases "f_flag fp AND FA_MODIFIED = 0")
  case True
  have "validate fp fs = FR_OK" using s file_ok_valid by (auto simp: session_ok_def)
  then show ?thesis using True s by (simp add: f_sync_def spec_sync)
next
  case False
  have f: "file_ok ready sector ch fs fp" "alloc_ok sector fs" "entry_ok sector ch fs fp" using s by (simp_all add: session_ok_def)
  obtain fp' fs' where w: "f_sync M fp fs = Some (FR_OK, fp', fs')" "file_ok ready sector ch fs' fp'" "contents sector fs' fp' ch = contents sector fs fp ch"
      "same_disk fs fs'" "free_clst fs' = free_clst fs" "fptr fp' = fptr fp" "f_flag fp' AND FA_READ = f_flag fp AND FA_READ" "f_flag fp' AND FA_WRITE = f_flag fp AND FA_WRITE"
      "dir_sect fp' = dir_sect fp" "dir_ptr fp' = dir_ptr fp" "\<forall>c < unat (n_fatent fs). fat_entry sector fs' c = fat_entry sector fs c"
    using f_sync_ok [OF f(1,3) False] by blast
  have "alloc_ok sector fs'"
    using f(2) accurate_cong [of "fat_entry sector fs" fs fs' "fat_entry sector fs'"] w(5,11) same_disk_simps [OF w(4)] by (simp add: alloc_ok_def)
  moreover have "entry_ok sector ch fs' fp'" by (rule entry_moved [OF f(3) w(4) _ w(9,10)]) (use w(11) in simp)
  ultimately have "session_ok ready sector ch fs' fp'" using s w(2,7,8) by (simp add: session_ok_def)
  then show ?thesis using w(1,3,6) capacity_same [OF w(4,11)] by (simp add: spec_sync)
qed

lemma file_call_ok:
  assumes s: "session_ok ready sector ch fs fp" and len: "\<And>b. op = Write b \<Longrightarrow> length b < 2 ^ 32"
  shows "\<exists>out fp' fs' ch'. file_call M op fp fs = Some (FR_OK, out, fp', fs') \<and> session_ok ready sector ch' fs' fp' \<and> capacity sector ch' fs' = capacity sector ch fs \<and>
    file_spec (capacity sector ch fs) op (contents sector fs fp ch, unat (fptr fp)) out (contents sector fs' fp' ch', unat (fptr fp'))"
proof (cases op)
  case (Read n)
  then show ?thesis using read_call [OF s] by blast
next
  case (Write b)
  then show ?thesis using write_call [OF s len] by blast
next
  case (Seek ofs)
  then show ?thesis using seek_call [OF s] by blast
next
  case Sync
  then show ?thesis using sync_call [OF s] by blast
qed

lemma file_run_ok:
  assumes "session_ok ready sector ch fs fp" "\<And>b. Write b \<in> set ops \<Longrightarrow> length b < 2 ^ 32"
  shows "\<exists>outs fp' fs' ch'. file_run M ops fp fs = Some (outs, fp', fs') \<and> session_ok ready sector ch' fs' fp' \<and>
    file_specs (capacity sector ch fs) ops (contents sector fs fp ch, unat (fptr fp)) outs (contents sector fs' fp' ch', unat (fptr fp'))"
  using assms
proof (induction ops arbitrary: ch fs fp)
  case Nil
  then show ?case by (auto intro: specs_nil)
next
  case (Cons op ops)
  obtain out f1 p1 ch1 where o: "file_call M op fp fs = Some (FR_OK, out, p1, f1)" "session_ok ready sector ch1 f1 p1" "capacity sector ch1 f1 = capacity sector ch fs"
      "file_spec (capacity sector ch fs) op (contents sector fs fp ch, unat (fptr fp)) out (contents sector f1 p1 ch1, unat (fptr p1))"
    using file_call_ok [OF Cons.prems(1), of op] Cons.prems(2) by auto
  obtain outs fp' fs' ch' where r: "file_run M ops p1 f1 = Some (outs, fp', fs')" "session_ok ready sector ch' fs' fp'"
      "file_specs (capacity sector ch fs) ops (contents sector f1 p1 ch1, unat (fptr p1)) outs (contents sector fs' fp' ch', unat (fptr fp'))"
    using Cons.IH [OF o(2)] Cons.prems(2) o(3) by auto
  then show ?case using o(1) specs_cons [OF o(4) r(3)] by auto
qed

end

section \<open>Main property\<close>

text \<open>C8. On a device that keeps its contract, for a file in good order that is open for reading and writing, with its directory entry
  in place, on a volume whose allocation table is in good order: every sequence of reads, writes, seeks and flushes runs to its end with every
  call returning \<open>FR_OK\<close>, the file staying in good order, and what the reads return, the contents and the
  position are those of a list of bytes with a position.  Its capacity is what the clusters of
  the file and the free clusters hold; writes stop and seeks are cut there, and seeks behind the end add bytes of any value.\<close>

theorem file_session_refines:
  assumes dev: "multi_device M ready sector" and s: "session_ok ready sector ch fs fp" and len: "\<And>b. Write b \<in> set ops \<Longrightarrow> length b < 2 ^ 32"
  shows "\<exists>outs fp' fs' ch'. file_run M ops fp fs = Some (outs, fp', fs') \<and> session_ok ready sector ch' fs' fp' \<and>
    file_specs (capacity sector ch fs) ops (contents sector fs fp ch, unat (fptr fp)) outs (contents sector fs' fp' ch', unat (fptr fp'))"
  using multi_device.file_run_ok [OF dev s len] .

theorem file_session_refines_witness:
  "\<exists>fp' fs'. file_run (driver_multi ref_ports ata_tick) [Write [0x48, 0x69], Seek 0, Sync, Read 5] small_file small_volume = Some ([[], [], [], [0x48, 0x69, 0, 0, 0xFF]], fp', fs')"
proof -
  let ?ops = "[Write [0x48, 0x69], Seek 0, Sync, Read 5]"
  have "entry_ok (drive_sector id) [2] small_volume small_file" by (rule small_file_entry)
  then have s: "session_ok (drive_ready id) (drive_sector id) [2] small_volume small_file"
    using small_file_ok small_volume_alloc by (simp add: session_ok_def small_file_def FA_READ_def FA_WRITE_def)
  have len: "length b < 2 ^ 32" if "Write b \<in> set ?ops" for b using that by auto
  obtain outs fp' fs' ch' where r: "file_run (driver_multi ref_ports ata_tick) ?ops small_file small_volume = Some (outs, fp', fs')"
      "file_specs (capacity (drive_sector id) [2] small_volume) ?ops (contents (drive_sector id) small_volume small_file [2], unat (fptr small_file)) outs
         (contents (drive_sector id) fs' fp' ch', unat (fptr fp'))"
    using file_session_refines [OF atam.multi_device_axioms s len] by blast
  have "2 \<le> capacity (drive_sector id) [2] small_volume" by (simp add: capacity_def small_volume_def)
  then have "outs = [[], [], [], [0x48, 0x69, 0, 0, 0xFF]]"
    using r(2) unfolding small_file_contents by (auto simp: small_file_def elim!: file_specs_consE file_spec_readE file_spec_writeE file_spec_seekE file_spec_syncE file_specs_nilE)
  then show ?thesis using r(1) by auto
qed

end
