(* ===== verification/Fat_Mount.thy ===== *)
theory Fat_Mount
  imports Fat_Table
begin

text \<open>
  Mounting a volume with FatFs (\<open>src/ff.c\<close>): recognising a FAT boot sector, finding the volume on the
  drive, and setting up the file system object from the parameters in the boot sector.
\<close>

section \<open>Recognising a boot sector\<close>

definition FR_NOT_READY :: fresult where "FR_NOT_READY = 3"
definition FR_WRITE_PROTECTED :: fresult where "FR_WRITE_PROTECTED = 10"
definition FR_INVALID_DRIVE :: fresult where "FR_INVALID_DRIVE = 11"
definition FR_NOT_ENABLED :: fresult where "FR_NOT_ENABLED = 12"
definition FR_NO_FILESYSTEM :: fresult where "FR_NO_FILESYSTEM = 13"

definition MAX_FAT12 :: u32 where "MAX_FAT12 = 0xFF5"
definition MAX_FAT16 :: u32 where "MAX_FAT16 = 0xFFF5"
definition MAX_FAT32 :: u32 where "MAX_FAT32 = 0x0FFFFFF5"

text \<open>The text \<open>FAT32\<close> and three blanks.\<close>

definition fat32_mark :: "u8 list" where
  "fat32_mark = [0x46, 0x41, 0x54, 0x33, 0x32, 0x20, 0x20, 0x20]"

definition bpb_plausible :: "u8 list \<Rightarrow> bool option" where
  "bpb_plausible buf = do {
     w \<leftarrow> ld_word buf 11;
     b \<leftarrow> get_at buf 13;
     rsvd \<leftarrow> ld_word buf 14;
     nf \<leftarrow> get_at buf 16;
     root \<leftarrow> ld_word buf 17;
     tot16 \<leftarrow> ld_word buf 19;
     tot32 \<leftarrow> ld_dword buf 32;
     sz16 \<leftarrow> ld_word buf 22;
     Some (w AND (w - 1) = 0 \<and> w \<ge> 512 \<and> w \<le> 512 \<and> b \<noteq> 0 \<and> b AND (b - 1) = 0 \<and> rsvd \<noteq> 0 \<and>
       (ucast nf :: u32) - 1 \<le> 1 \<and> root \<noteq> 0 \<and> (tot16 \<ge> 128 \<or> tot32 \<ge> 0x10000) \<and> sz16 \<noteq> 0)
   }"

text \<open>0: a FAT boot sector, 2 and 3: not one, with and without the boot signature, 4: disk error.\<close>

definition check_fs :: "'d diskio \<Rightarrow> u32 \<Rightarrow> 'd FATFS \<Rightarrow> (nat \<times> 'd FATFS) option" where
  "check_fs M sect fs = do {
     let fs = fs\<lparr>wflag := 0, winsect := - 1\<rparr>;
     (res, fs) \<leftarrow> move_window M sect fs;
     if res \<noteq> FR_OK then Some (4, fs)
     else do {
       sign \<leftarrow> ld_word (win fs) 510;
       b \<leftarrow> get_at (win fs) 0;
       fat \<leftarrow> (if b = 0xEB \<or> b = 0xE9 \<or> b = 0xE8
              then if sign = 0xAA55 \<and> take 8 (drop 82 (win fs)) = fat32_mark then Some True
                   else bpb_plausible (win fs)
              else Some False);
       Some (if fat then 0 else if sign = 0xAA55 then 2 else 3, fs)
     }
   }"

text \<open>Sector 0 itself, or the first of the four partitions that holds a FAT volume (\<open>part\<close> is 0 without
  multiple partitions).\<close>

fun try_partitions :: "'d diskio \<Rightarrow> u32 list \<Rightarrow> nat \<Rightarrow> 'd FATFS \<Rightarrow> (nat \<times> 'd FATFS) option" where
  "try_partitions M [] fmt fs = Some (fmt, fs)"
| "try_partitions M (p # ps) fmt fs = do {
     (fmt, fs) \<leftarrow> (if p \<noteq> 0 then check_fs M p fs else Some (3, fs));
     if fmt \<ge> 2 then try_partitions M ps fmt fs else Some (fmt, fs)
   }"

definition find_volume :: "'d diskio \<Rightarrow> 'd FATFS \<Rightarrow> (nat \<times> 'd FATFS) option" where
  "find_volume M fs = do {
     (fmt, fs) \<leftarrow> check_fs M 0 fs;
     if fmt \<noteq> 2 then Some (fmt, fs)
     else do {
       p0 \<leftarrow> ld_dword (win fs) (446 + 0 * 16 + 8);
       p1 \<leftarrow> ld_dword (win fs) (446 + 1 * 16 + 8);
       p2 \<leftarrow> ld_dword (win fs) (446 + 2 * 16 + 8);
       p3 \<leftarrow> ld_dword (win fs) (446 + 3 * 16 + 8);
       try_partitions M [p0, p1, p2, p3] fmt fs
     }
   }"

section \<open>The parameters of the volume\<close>

definition fat_kind :: "u32 \<Rightarrow> u8" where
  "fat_kind nclst =
     (let fmt = 0;
          fmt = (if nclst \<le> MAX_FAT32 then FS_FAT32 else fmt);
          fmt = (if nclst \<le> MAX_FAT16 then FS_FAT16 else fmt)
      in if nclst \<le> MAX_FAT12 then FS_FAT12 else fmt)"

text \<open>The parameter block of the boot sector.\<close>

record bpb =
  BytsPerSec :: u16
  SecPerClus :: u8
  RsvdSecCnt :: u16
  NumFATs :: u8
  RootEntCnt :: u16
  TotSec16 :: u16
  FATSz16 :: u16
  TotSec32 :: u32
  FATSz32 :: u32

definition read_bpb :: "u8 list \<Rightarrow> bpb option" where
  "read_bpb buf = do {
     bps \<leftarrow> ld_word buf 11;
     spc \<leftarrow> get_at buf 13;
     nrsv \<leftarrow> ld_word buf 14;
     nf \<leftarrow> get_at buf 16;
     root \<leftarrow> ld_word buf 17;
     tot16 \<leftarrow> ld_word buf 19;
     sz16 \<leftarrow> ld_word buf 22;
     tot32 \<leftarrow> ld_dword buf 32;
     sz32 \<leftarrow> ld_dword buf 36;
     Some \<lparr>BytsPerSec = bps, SecPerClus = spc, RsvdSecCnt = nrsv, NumFATs = nf, RootEntCnt = root, TotSec16 = tot16,
       FATSz16 = sz16, TotSec32 = tot32, FATSz32 = sz32\<rparr>
   }"

text \<open>Sizes: the FAT size and count, the cluster size, the root directory, the number of clusters.  The
  result is the number of sectors before the data area and the number of clusters, or \<^const>\<open>None\<close> where
  the boot sector is refused.\<close>

definition bpb_sizes :: "bpb \<Rightarrow> 'd FATFS \<Rightarrow> (u32 \<times> u32) option \<times> 'd FATFS" where
  "bpb_sizes b fs =
     (if BytsPerSec b \<noteq> 512 then (None, fs)
      else
        let fasize = (if FATSz16 b = 0 then FATSz32 b else ucast (FATSz16 b));
            fs = fs\<lparr>fs_fsize := fasize, n_fats := NumFATs b\<rparr>
        in if n_fats fs \<noteq> 1 \<and> n_fats fs \<noteq> 2 then (None, fs)
           else
             let fasize = fasize * ucast (n_fats fs);
                 fs = fs\<lparr>csize := ucast (SecPerClus b)\<rparr>
             in if csize fs = 0 \<or> csize fs AND (csize fs - 1) \<noteq> 0 then (None, fs)
                else
                  let fs = fs\<lparr>n_rootdir := RootEntCnt b\<rparr>
                  in if n_rootdir fs mod 16 \<noteq> 0 then (None, fs)
                     else
                       let tsect = (if TotSec16 b = 0 then TotSec32 b else ucast (TotSec16 b));
                           sysect = ucast (RsvdSecCnt b) + fasize + ucast (n_rootdir fs div 16);
                           nclst = (tsect - sysect) div ucast (csize fs)
                       in (if RsvdSecCnt b = 0 \<or> tsect < sysect \<or> nclst = 0 then None else Some (sysect, nclst), fs))"

text \<open>Layout: the bases of the areas, the root directory, and the check that the FAT is large enough.\<close>

definition bpb_layout :: "u32 \<Rightarrow> u32 \<Rightarrow> u32 \<Rightarrow> u16 \<Rightarrow> 'd FATFS \<Rightarrow> (bool \<times> 'd FATFS) option" where
  "bpb_layout bsect sysect nclst nrsv fs = do {
     let fmt = fat_kind nclst;
     let fasize = fs_fsize fs * ucast (n_fats fs);
     if fmt = 0 then Some (False, fs)
     else do {
       let fs = fs\<lparr>n_fatent := nclst + 2, volbase := bsect, fatbase := bsect + ucast nrsv, database := bsect + sysect\<rparr>;
       ver \<leftarrow> ld_word (win fs) 42;
       rootclus \<leftarrow> ld_dword (win fs) 44;
       if fmt = FS_FAT32 then
         if ver \<noteq> 0 \<or> n_rootdir fs \<noteq> 0 then Some (False, fs)
         else do {
           let fs = fs\<lparr>dirbase := rootclus\<rparr>;
           Some (\<not> fs_fsize fs < (n_fatent fs * 4 + 511) div 512, fs)
         }
       else if n_rootdir fs = 0 then Some (False, fs)
       else do {
         let fs = fs\<lparr>dirbase := fatbase fs + fasize\<rparr>;
         let szbfat = (if fmt = FS_FAT16 then n_fatent fs * 2 else n_fatent fs * 3 div 2 + (n_fatent fs AND 1));
         Some (\<not> fs_fsize fs < (szbfat + 511) div 512, fs)
       }
     }
   }"

text \<open>The allocation information of a FAT32 volume.\<close>

definition load_fsinfo :: "'d diskio \<Rightarrow> u32 \<Rightarrow> u8 \<Rightarrow> 'd FATFS \<Rightarrow> 'd FATFS option" where
  "load_fsinfo M bsect fmt fs = do {
     let fs = fs\<lparr>last_clst := 0xFFFFFFFF, free_clst := 0xFFFFFFFF, fsi_flag := 0x80\<rparr>;
     inf \<leftarrow> ld_word (win fs) 48;
     if fmt = FS_FAT32 \<and> inf = 1 then do {
       (res, fs) \<leftarrow> move_window M (bsect + 1) fs;
       if res = FR_OK then do {
         let fs = fs\<lparr>fsi_flag := 0\<rparr>;
         lead \<leftarrow> ld_dword (win fs) 0;
         struc \<leftarrow> ld_dword (win fs) 484;
         trail \<leftarrow> ld_dword (win fs) 498;
         free \<leftarrow> ld_dword (win fs) 488;
         nxt \<leftarrow> ld_dword (win fs) 492;
         Some (if lead = 0x41615252 \<and> struc = 0x61417272 \<and> trail = 0xAA550000
               then fs\<lparr>free_clst := free, last_clst := nxt\<rparr> else fs)
       } else Some fs
     } else Some fs
   }"

text \<open>\<open>stat\<close> and \<open>ini\<close> are the answers of \<open>disk_status\<close> and \<open>disk_initialize\<close>; \<open>Fsid\<close> is the mount
  counter.  The volume number has been taken from the path.\<close>

definition mount_volume ::
  "'d diskio \<Rightarrow> u8 \<Rightarrow> u8 \<Rightarrow> u8 \<Rightarrow> u16 \<Rightarrow> 'd FATFS \<Rightarrow> (fresult \<times> u16 \<times> 'd FATFS) option" where
  "mount_volume M stat ini mode Fsid fs =
     (let mode = mode AND NOT FA_READ in
      if fs_type fs \<noteq> 0 \<and> stat AND 0x01 = 0 then
        Some (if mode \<noteq> 0 \<and> stat AND 0x04 \<noteq> 0 then FR_WRITE_PROTECTED else FR_OK, Fsid, fs)
      else do {
        let fs = fs\<lparr>fs_type := 0\<rparr>;
        if ini AND 0x01 \<noteq> 0 then Some (FR_NOT_READY, Fsid, fs)
        else if mode \<noteq> 0 \<and> ini AND 0x04 \<noteq> 0 then Some (FR_WRITE_PROTECTED, Fsid, fs)
        else do {
          (fmt, fs) \<leftarrow> find_volume M fs;
          if fmt = 4 then Some (FR_DISK_ERR, Fsid, fs)
          else if fmt \<ge> 2 then Some (FR_NO_FILESYSTEM, Fsid, fs)
          else do {
            let bsect = winsect fs;
            b \<leftarrow> read_bpb (win fs);
            case bpb_sizes b fs of
              (None, fs) \<Rightarrow> Some (FR_NO_FILESYSTEM, Fsid, fs)
            | (Some (sysect, nclst), fs) \<Rightarrow> do {
                (ok, fs) \<leftarrow> bpb_layout bsect sysect nclst (RsvdSecCnt b) fs;
                if \<not> ok then Some (FR_NO_FILESYSTEM, Fsid, fs)
                else do {
                  fs \<leftarrow> load_fsinfo M bsect (fat_kind nclst) fs;
                  let Fsid = Fsid + 1;
                  Some (FR_OK, Fsid, fs\<lparr>fs_type := fat_kind nclst, fs_id := Fsid\<rparr>)
                }
              }
          }
        }
      })"

text \<open>The drive number in front of a path: its digit and colon are cut off.\<close>

definition is_terminator :: "char \<Rightarrow> bool" where
  "is_terminator c \<longleftrightarrow> of_char c < (32 :: nat)"

fun find_colon :: "char list \<Rightarrow> (bool \<times> nat) option" where
  "find_colon [] = None"
| "find_colon (c # cs) =
     (if c = CHR '':'' then Some (True, 1)
      else if is_terminator c then Some (False, 1)
      else map_option (\<lambda>(f, n). (f, n + 1)) (find_colon cs))"

definition get_ldnumber :: "char list \<Rightarrow> (int \<times> char list) option" where
  "get_ldnumber path = do {
     (colon, n) \<leftarrow> find_colon path;
     c \<leftarrow> get_at path 0;
     if colon then do {
       let i = (if 48 \<le> (of_char c :: int) \<and> (of_char c :: int) \<le> 57 \<and> n = 2 then of_char c - 48 else 1);
       if i \<ge> 1 then Some (- 1, path) else Some (i, drop n path)
     } else Some (0, path)
   }"

section \<open>The geometry of a mounted volume\<close>

lemma unat_ucast_u32 [simp]: "unat (ucast (b :: u8) :: u32) = unat b" "unat (ucast (w :: u16) :: u32) = unat w"
proof -
  have "unat b < 2 ^ 32" "unat w < 2 ^ 32" using unat_lt_u8 [of b] unat_lt_u16 [of w] by simp_all
  then show "unat (ucast b :: u32) = unat b" "unat (ucast w :: u32) = unat w" by (simp_all add: unsigned_ucast_eq take_bit_nat_eq_self)
qed

lemma bpb_sizes_ok:
  assumes "bpb_sizes b fs = (Some (sysect, nclst), f1)" and "unat (fs_fsize f1) * unat (n_fats f1) + 0x20000 \<le> 2 ^ 32"
  shows "n_fats f1 = 1 \<or> n_fats f1 = 2" "csize f1 \<noteq> 0" "RsvdSecCnt b \<noteq> 0" "nclst \<noteq> 0"
    "unat sysect = unat (RsvdSecCnt b) + unat (fs_fsize f1) * unat (n_fats f1) + unat (n_rootdir f1 div 16)"
    "unat nclst * unat (csize f1) + unat sysect < 2 ^ 32"
proof -
  obtain tsect where d: "n_fats f1 = 1 \<or> n_fats f1 = 2" "csize f1 \<noteq> 0" "RsvdSecCnt b \<noteq> 0" "\<not> tsect < sysect"
      "sysect = ucast (RsvdSecCnt b) + fs_fsize f1 * ucast (n_fats f1) + ucast (n_rootdir f1 div 16)"
      "nclst = (tsect - sysect) div ucast (csize f1)" "nclst \<noteq> 0"
    using assms(1) unfolding bpb_sizes_def Let_def
    by (auto split: if_splits)
  show "n_fats f1 = 1 \<or> n_fats f1 = 2" "csize f1 \<noteq> 0" "RsvdSecCnt b \<noteq> 0" "nclst \<noteq> 0" using d by simp_all
  have r: "unat (RsvdSecCnt b) < 65536" "unat (n_rootdir f1 div 16) < 65536" using unat_lt_u16 [of "RsvdSecCnt b"] unat_lt_u16 [of "n_rootdir f1 div 16"] by simp_all
  have m: "unat (fs_fsize f1 * ucast (n_fats f1)) = unat (fs_fsize f1) * unat (n_fats f1)"
    using assms(2) unat_mult_u32 [of "fs_fsize f1" "ucast (n_fats f1)"] by simp
  have "unat (ucast (RsvdSecCnt b) + fs_fsize f1 * ucast (n_fats f1)) = unat (RsvdSecCnt b) + unat (fs_fsize f1) * unat (n_fats f1)"
    using assms(2) r m by (subst unat_add_u32) auto
  then show sys: "unat sysect = unat (RsvdSecCnt b) + unat (fs_fsize f1) * unat (n_fats f1) + unat (n_rootdir f1 div 16)"
    unfolding d(5) using assms(2) r by (subst unat_add_u32) auto
  have "unat (tsect - sysect) = unat tsect - unat sysect" "unat sysect \<le> unat tsect"
    using d(4) by (simp_all add: unat_sub word_less_nat_alt word_le_nat_alt)
  moreover have "unat nclst * unat (csize f1) \<le> unat (tsect - sysect)"
    unfolding d(6) by (simp add: unat_div)
  ultimately show "unat nclst * unat (csize f1) + unat sysect < 2 ^ 32" using unat_lt_u32 [of tsect] by simp
qed

lemma sectors_needed:
  assumes "\<not> fz < (sz + 511) div 512" "unat (sz :: u32) + 511 < 2 ^ 32"
  shows "unat sz \<le> unat fz * 512"
proof -
  have "unat ((sz + 511) div 512) = (unat sz + 511) div 512" using assms(2) by (simp add: unat_div unat_add_u32)
  then have "(unat sz + 511) div 512 \<le> unat fz" using assms(1) by (simp add: word_less_nat_alt)
  then show ?thesis by linarith
qed

lemma bpb_layout_ok:
  assumes "bpb_layout bsect sysect nclst nrsv f1 = Some (True, f2)"
  shows "fat_geometry (f2\<lparr>fs_type := fat_kind nclst\<rparr>)" "unat (n_fatent f2) = unat nclst + 2" "fs_fsize f2 = fs_fsize f1" "n_fats f2 = n_fats f1"
    "csize f2 = csize f1" "n_rootdir f2 = n_rootdir f1" "volbase f2 = bsect" "fatbase f2 = bsect + ucast nrsv" "database f2 = bsect + sysect"
proof -
  note kinds = MAX_FAT12_def MAX_FAT16_def MAX_FAT32_def FS_FAT12_def FS_FAT16_def FS_FAT32_def
  obtain sz where f: "fat_kind nclst \<noteq> 0" "n_fatent f2 = nclst + 2" "fs_fsize f2 = fs_fsize f1" "n_fats f2 = n_fats f1"
    "csize f2 = csize f1" "n_rootdir f2 = n_rootdir f1" "volbase f2 = bsect" "fatbase f2 = bsect + ucast nrsv" "database f2 = bsect + sysect"
    "\<not> fs_fsize f1 < (sz + 511) div 512"
    "sz = (if fat_kind nclst = FS_FAT32 then n_fatent f2 * 4 else if fat_kind nclst = FS_FAT16 then n_fatent f2 * 2
       else n_fatent f2 * 3 div 2 + (n_fatent f2 AND 1))"
    using assms unfolding bpb_layout_def Let_def
    by (auto simp: bind_eq_Some_conv FS_FAT16_def FS_FAT32_def split: if_splits)
  then show "fs_fsize f2 = fs_fsize f1" "n_fats f2 = n_fats f1"
    "csize f2 = csize f1" "n_rootdir f2 = n_rootdir f1" "volbase f2 = bsect" "fatbase f2 = bsect + ucast nrsv" "database f2 = bsect + sysect"
    by simp_all
  have "unat nclst \<le> 0x0FFFFFF5" using f(1) by (auto simp: fat_kind_def kinds word_le_nat_alt split: if_splits)
  then show ent: "unat (n_fatent f2) = unat nclst + 2" unfolding f(2) by (subst unat_add_u32) auto
  let ?n = "unat (n_fatent f2)"
  consider (a) "fat_kind nclst = FS_FAT12" "?n \<le> 0xFF7" | (b) "fat_kind nclst = FS_FAT16" "?n \<le> 0xFFF7" | (c) "fat_kind nclst = FS_FAT32" "?n \<le> 0x0FFFFFF7"
    using f(1) ent by (auto simp: fat_kind_def kinds word_le_nat_alt split: if_splits)
  then show "fat_geometry (f2\<lparr>fs_type := fat_kind nclst\<rparr>)"
  proof cases
    case a
    have one: "unat (n_fatent f2 AND 1) = ?n mod 2" by (simp add: and_one_eq unat_mod)
    have m: "unat (n_fatent f2 * 3 div 2) = ?n * 3 div 2" using a(2) by (simp add: unat_div unat_mult_u32)
    have "unat sz = ?n * 3 div 2 + ?n mod 2"
      using f(11) a m one by (simp add: kinds) (subst unat_add_u32, auto)
    moreover have "n * 3 \<le> 2 * (n * 3 div 2 + n mod 2)" for n :: nat by presburger
    moreover have "?n * 3 div 2 + ?n mod 2 + 511 < 2 ^ 32" using a(2) by simp
    ultimately have "?n * 3 \<le> 2 * unat sz" "unat sz + 511 < 2 ^ 32" by simp_all
    then show ?thesis using sectors_needed [OF f(10)] a f(3) by (simp add: fat_geometry_def)
  next
    case b
    have "unat sz = ?n * 2" using f(11) b by (simp add: kinds unat_mult_u32)
    then show ?thesis using sectors_needed [OF f(10)] b f(3) by (simp add: fat_geometry_def)
  next
    case c
    have "unat sz = ?n * 4" using f(11) c by (simp add: kinds unat_mult_u32)
    then show ?thesis using sectors_needed [OF f(10)] c f(3) by (simp add: fat_geometry_def)
  qed
qed

text \<open>What moving the window and loading the allocation information leave alone.\<close>

definition core :: "'d FATFS \<Rightarrow> u32 \<times> u32 \<times> u8 \<times> u16 \<times> u32 \<times> u32 \<times> u32" where
  "core fs = (n_fatent fs, fs_fsize fs, n_fats fs, csize fs, fatbase fs, database fs, volbase fs)"

lemma sync_window_core:
  assumes "sync_window M fs = Some (r, fs')"
  shows "core fs' = core fs"
  using assms unfolding sync_window_def Let_def
  by (cases "wflag fs = 0") (auto simp: core_def bind_eq_Some_conv simp del: not_less split: if_splits)

lemma move_window_core:
  assumes "move_window M sect fs = Some (r, fs')"
  shows "core fs' = core fs"
proof (cases "sect = winsect fs")
  case True
  then show ?thesis using assms by (simp add: move_window_def)
next
  case False
  then obtain r1 f1 where f1: "sync_window M fs = Some (r1, f1)" using assms by (auto simp: move_window_def bind_eq_Some_conv)
  have "core fs' = core f1"
    using assms False f1 unfolding move_window_def Let_def by (auto simp: core_def bind_eq_Some_conv split: if_splits)
  then show ?thesis using sync_window_core [OF f1] by simp
qed

lemma load_fsinfo_core:
  assumes "load_fsinfo M bsect fmt f2 = Some f3"
  shows "core f3 = core f2"
proof -
  define f where "f = f2\<lparr>last_clst := 0xFFFFFFFF, free_clst := 0xFFFFFFFF, fsi_flag := 0x80\<rparr>"
  have f: "core f = core f2" by (simp add: f_def core_def)
  obtain inf where inf: "ld_word (win f) 48 = Some inf" using assms unfolding load_fsinfo_def Let_def f_def by (auto simp: bind_eq_Some_conv)
  show ?thesis
  proof (cases "fmt = FS_FAT32 \<and> inf = 1")
    case False
    then have "f3 = f" using assms inf unfolding load_fsinfo_def Let_def f_def [symmetric] by auto
    then show ?thesis using f by simp
  next
    case True
    then obtain res g where g: "move_window M (bsect + 1) f = Some (res, g)"
      using assms inf unfolding load_fsinfo_def Let_def f_def [symmetric] by (auto simp: bind_eq_Some_conv)
    have "core f3 = core g"
    proof (cases "res = FR_OK")
      case ok: True
      then show ?thesis using assms inf True g unfolding load_fsinfo_def Let_def f_def [symmetric]
        by (auto simp: bind_eq_Some_conv core_def)
    next
      case bad: False
      then show ?thesis using assms inf True g unfolding load_fsinfo_def Let_def f_def [symmetric] by simp
    qed
    then show ?thesis using move_window_core [OF g] f by simp
  qed
qed

lemma mount_volume_steps:
  assumes "fs_type fs = 0" and "mount_volume M stat ini mode Fsid fs = Some (FR_OK, Fsid', fs')"
  obtains f0 b sysect nclst f1 f2 f3 where "bpb_sizes b f0 = (Some (sysect, nclst), f1)"
      "bpb_layout (winsect f0) sysect nclst (RsvdSecCnt b) f1 = Some (True, f2)"
      "load_fsinfo M (winsect f0) (fat_kind nclst) f2 = Some f3" "fs' = f3\<lparr>fs_type := fat_kind nclst, fs_id := Fsid'\<rparr>"
proof -
  note codes = FR_OK_def FR_NOT_READY_def FR_WRITE_PROTECTED_def FR_DISK_ERR_def FR_NO_FILESYSTEM_def
  obtain fmt f0 where f0: "find_volume M (fs\<lparr>fs_type := 0\<rparr>) = Some (fmt, f0)" "\<not> fmt \<ge> 2" "fmt \<noteq> 4"
      "ini AND 1 = 0" "\<not> (mode AND NOT FA_READ \<noteq> 0 \<and> ini AND 4 \<noteq> 0)"
    using assms unfolding mount_volume_def Let_def by (auto simp: bind_eq_Some_conv codes split: if_splits)
  then obtain b where b: "read_bpb (win f0) = Some b"
    using assms unfolding mount_volume_def Let_def by (auto simp: bind_eq_Some_conv)
  obtain sz f1 where sz: "bpb_sizes b f0 = (sz, f1)" by fastforce
  have run: "(case sz of None \<Rightarrow> Some (FR_NO_FILESYSTEM, Fsid, f1)
     | Some (sysect, nclst) \<Rightarrow> do {
                (ok, fs) \<leftarrow> bpb_layout (winsect f0) sysect nclst (RsvdSecCnt b) f1;
                if \<not> ok then Some (FR_NO_FILESYSTEM, Fsid, fs)
                else do {
                  fs \<leftarrow> load_fsinfo M (winsect f0) (fat_kind nclst) fs;
                  Some (FR_OK, Fsid + 1, fs\<lparr>fs_type := fat_kind nclst, fs_id := Fsid + 1\<rparr>)
                }
              }) = Some (FR_OK, Fsid', fs')"
    using assms f0 b sz unfolding mount_volume_def Let_def by (cases sz) auto
  then obtain sysect nclst where some: "sz = Some (sysect, nclst)" by (cases sz) (auto simp: codes)
  obtain ok f2 where f2: "bpb_layout (winsect f0) sysect nclst (RsvdSecCnt b) f1 = Some (ok, f2)" "ok"
    using run some by (cases "bpb_layout (winsect f0) sysect nclst (RsvdSecCnt b) f1") (auto simp: codes split: if_splits)
  then obtain f3 where "load_fsinfo M (winsect f0) (fat_kind nclst) f2 = Some f3" "Fsid' = Fsid + 1"
      "fs' = f3\<lparr>fs_type := fat_kind nclst, fs_id := Fsid + 1\<rparr>"
    using run some by (auto simp: bind_eq_Some_conv)
  then show ?thesis using that [of b f0 sysect nclst f1 f2 f3] sz some f2 by simp
qed


text \<open>A device whose every sector is the boot sector of a small FAT16 volume.\<close>

definition boot_image :: "u8 list" where
  "boot_image = [0xEB, 0x3C, 0x90] @ replicate 8 0x20 @ [0, 2, 1, 1, 0, 2, 16, 0, 0, 0x20, 0xF8, 32, 0] @ replicate 486 0 @ [0x55, 0xAA]"

definition boot_device :: "unit diskio" where
  "boot_device = \<lparr>dio_read = (\<lambda>_ d. Some (True, boot_image, d)), dio_write = (\<lambda>_ _ d. Some (True, d)), dio_sync = (\<lambda>d. Some (True, d))\<rparr>"

definition blank_fs :: "unit FATFS" where
  "blank_fs = \<lparr>fs_type = 0, n_fats = 0, wflag = 0, fsi_flag = 0, fs_id = 0, n_rootdir = 0, csize = 0, last_clst = 0, free_clst = 0,
     n_fatent = 0, fs_fsize = 0, volbase = 0, fatbase = 0, dirbase = 0, database = 0, winsect = 0, win = replicate 512 0, dev = ()\<rparr>"

lemma boot_image_fields:
  "length boot_image = 512" "boot_image ! 0 = 0xEB" "ld_word boot_image 510 = Some 0xAA55" "ld_word boot_image 11 = Some 512"
  "get_at boot_image 13 = Some 1" "ld_word boot_image 14 = Some 1" "get_at boot_image 16 = Some 2" "ld_word boot_image 17 = Some 16"
  "ld_word boot_image 19 = Some 8192" "ld_word boot_image 22 = Some 32" "ld_dword boot_image 32 = Some 0" "ld_dword boot_image 36 = Some 0"
  "ld_word boot_image 42 = Some 0" "ld_dword boot_image 44 = Some 0" "ld_word boot_image 48 = Some 0" "boot_image ! 82 = 0"
  by (simp_all add: boot_image_def ld_word_def ld_dword_def get_at_def nth_append nth_Cons')

lemma boot_volume:
  "find_volume boot_device (blank_fs\<lparr>fs_type := 0\<rparr>) = Some (0, blank_fs\<lparr>win := boot_image\<rparr>)"
proof -
  have "take 8 (drop 82 boot_image) \<noteq> fat32_mark"
  proof
    assume e: "take 8 (drop 82 boot_image) = fat32_mark"
    have "take 8 (drop 82 boot_image) ! 0 = boot_image ! 82" by (simp add: boot_image_fields(1))
    then show False unfolding e using boot_image_fields(16) by (simp add: fat32_mark_def)
  qed
  moreover have "boot_image \<noteq> []" by (simp add: boot_image_def)
  moreover have "bpb_plausible boot_image = Some True" by (simp add: bpb_plausible_def boot_image_fields)
  ultimately show ?thesis
    by (simp add: find_volume_def check_fs_def move_window_def sync_window_def boot_device_def blank_fs_def get_at_def boot_image_fields)
qed

lemma boot_device_mounts:
  "\<exists>i fs'. mount_volume boot_device 0 0 0 0 blank_fs = Some (FR_OK, i, fs') \<and> fs_fsize fs' = 32 \<and> n_fats fs' = 2 \<and> n_fatent fs' = 8128"
proof -
  have "read_bpb boot_image = Some \<lparr>BytsPerSec = 512, SecPerClus = 1, RsvdSecCnt = 1, NumFATs = 2, RootEntCnt = 16, TotSec16 = 8192,
      FATSz16 = 32, TotSec32 = 0, FATSz32 = 0\<rparr>"
    by (simp add: read_bpb_def boot_image_fields)
  then show ?thesis
    using boot_volume
    by (simp add: mount_volume_def bpb_sizes_def bpb_layout_def load_fsinfo_def fat_kind_def blank_fs_def boot_image_fields
        MAX_FAT12_def MAX_FAT16_def MAX_FAT32_def FS_FAT12_def FS_FAT16_def FS_FAT32_def Let_def)
qed


end
