(* ===== verification/Inet_Chksum.thy ===== *)
theory Inet_Chksum
  imports Prelude
begin

text \<open>
  The Internet checksum: \<open>lwip_standard_chksum\<close> (the second algorithm, which the build selects), its uses in
  \<open>src/network/lwip/src/core/inet_chksum.c\<close>, and \<open>icmp_checksum\<close> of \<open>src/kernel.c\<close>.  Data is the list of
  the bytes summed; whether it starts at an odd address is an argument, because the routine depends on it.
  All of them compute the one's complement sum of RFC 1071.
\<close>

unbundle bit_operations_syntax

section \<open>The code\<close>

definition FOLD_U32T :: "u32 \<Rightarrow> u32" where
  "FOLD_U32T u = drop_bit 16 u + (u AND 0x0000ffff)"

definition SWAP_BYTES_IN_WORD :: "u32 \<Rightarrow> u32" where
  "SWAP_BYTES_IN_WORD w = push_bit 8 (w AND 0xff) OR drop_bit 8 (w AND 0xff00)"

definition lwip_htons :: "u16 \<Rightarrow> u16" where
  "lwip_htons n = push_bit 8 (n AND 0x00ff) OR drop_bit 8 (n AND 0xff00)"

text \<open>A 16-bit load on the little-endian machine.\<close>

definition load16 :: "u8 \<Rightarrow> u8 \<Rightarrow> u16" where
  "load16 lo hi = ucast lo OR push_bit 8 (ucast hi)"

text \<open>The bulk loop; what is left over is at most one byte.\<close>

fun add_words :: "u8 list \<Rightarrow> u32 \<Rightarrow> u32 \<times> u8 list" where
  "add_words (lo # hi # bs) s = add_words bs (s + ucast (load16 lo hi))"
| "add_words bs s = (s, bs)"

definition lwip_standard_chksum :: "bool \<Rightarrow> u8 list \<Rightarrow> u16" where
  "lwip_standard_chksum odd_addr data = (
    let (t1, pb) = (case data of [] \<Rightarrow> (0, []) | b # r \<Rightarrow> if odd_addr then (b, r) else (0, data));
        (s, rest) = add_words pb 0;
        t0 = (case rest of [] \<Rightarrow> 0 | b # _ \<Rightarrow> b);
        s = FOLD_U32T (FOLD_U32T (s + ucast (load16 t0 t1)));
        s = (if odd_addr then SWAP_BYTES_IN_WORD s else s)
    in ucast s)"

definition inet_chksum :: "bool \<Rightarrow> u8 list \<Rightarrow> u16" where
  "inet_chksum odd_addr data = NOT (lwip_standard_chksum odd_addr data)"

text \<open>A packet buffer of a chain: the parity of its address and its bytes.\<close>

record pbuf =
  payload_odd :: bool
  payload :: "u8 list"

fun sum_chain :: "pbuf list \<Rightarrow> u32 \<Rightarrow> bool \<Rightarrow> u32 \<times> bool" where
  "sum_chain [] acc swapped = (acc, swapped)"
| "sum_chain (q # qs) acc swapped = (
    let acc = FOLD_U32T (acc + ucast (lwip_standard_chksum (payload_odd q) (payload q)))
    in if length (payload q) mod 2 \<noteq> 0 then sum_chain qs (SWAP_BYTES_IN_WORD acc) (\<not> swapped)
       else sum_chain qs acc swapped)"

definition inet_chksum_pbuf :: "pbuf list \<Rightarrow> u16" where
  "inet_chksum_pbuf p = (
    let (acc, swapped) = sum_chain p 0 False;
        acc = (if swapped then SWAP_BYTES_IN_WORD acc else acc)
    in ucast (NOT (acc AND 0xffff)))"

definition inet_cksum_pseudo_base :: "pbuf list \<Rightarrow> u8 \<Rightarrow> u16 \<Rightarrow> u32 \<Rightarrow> u16" where
  "inet_cksum_pseudo_base p proto proto_len acc = (
    let (acc, swapped) = sum_chain p acc False;
        acc = (if swapped then SWAP_BYTES_IN_WORD acc else acc);
        acc = acc + ucast (lwip_htons (ucast proto));
        acc = acc + ucast (lwip_htons proto_len);
        acc = FOLD_U32T (FOLD_U32T acc)
    in ucast (NOT (acc AND 0xffff)))"

text \<open>The addresses are in network order, so the first byte of an address is the low one.\<close>

definition add_addr :: "u32 \<Rightarrow> u32 \<Rightarrow> u32" where
  "add_addr addr acc = acc + (addr AND 0xffff) + (drop_bit 16 addr AND 0xffff)"

definition inet_chksum_pseudo :: "pbuf list \<Rightarrow> u8 \<Rightarrow> u16 \<Rightarrow> u32 \<Rightarrow> u32 \<Rightarrow> u16" where
  "inet_chksum_pseudo p proto proto_len src dest =
    inet_cksum_pseudo_base p proto proto_len (FOLD_U32T (FOLD_U32T (add_addr dest (add_addr src 0))))"

text \<open>The kernel's own routine, with its folding loop.\<close>

function fold_carries :: "u32 \<Rightarrow> u32" where
  "fold_carries s = (if drop_bit 16 s \<noteq> 0 then fold_carries ((s AND 0xFFFF) + drop_bit 16 s) else s)"
  by pat_completeness auto

lemma unat_low16: "unat ((w :: u32) AND 0xffff) = unat w mod 65536"
proof -
  have "(0xffff :: u32) = mask 16" by (simp add: mask_eq_exp_minus_1)
  then show ?thesis by (simp only: take_bit_eq_mask [symmetric] unsigned_take_bit_eq) (simp add: take_bit_eq_mod)
qed

lemma unat_high16: "unat (drop_bit 16 (w :: u32)) = unat w div 65536"
  by (simp add: drop_bit_eq_div unat_div_distrib)

lemma unat_fold: "unat ((w AND 0xffff) + drop_bit 16 (w :: u32)) = unat w mod 65536 + unat w div 65536"
proof -
  have "unat w div 65536 < 65536" using unat_lt_u32 [of w] by (simp add: div_less_iff_less_mult)
  then have "unat w mod 65536 + unat w div 65536 < 4294967296" using mod_less_divisor [of 65536 "unat w"] by linarith
  then show ?thesis by (simp add: unat_add_u32 unat_low16 unat_high16)
qed

termination fold_carries
proof (relation "measure unat")
  fix s :: u32
  assume "drop_bit 16 s \<noteq> 0"
  then have "unat s div 65536 \<noteq> 0" using unat_high16 [of s] by (metis unat_eq_zero)
  then show "((s AND 0xFFFF) + drop_bit 16 s, s) \<in> measure unat"
    using div_mult_mod_eq [of "unat s" 65536] by (simp only: in_measure unat_fold)
qed simp

declare fold_carries.simps [simp del]

definition icmp_checksum :: "u8 list \<Rightarrow> u16" where
  "icmp_checksum data = (
    let (s, rest) = add_words data 0;
        s = (case rest of [] \<Rightarrow> s | b # _ \<Rightarrow> s + ucast b)
    in ucast (NOT (fold_carries s)))"

section \<open>One's complement sums\<close>

text \<open>The specification: the sum of the little-endian 16-bit words, a last odd byte padded with zero, in one's
  complement arithmetic with the representative of zero that addition with end-around carry produces.\<close>

fun le_sum :: "u8 list \<Rightarrow> nat" where
  "le_sum (lo # hi # bs) = unat lo + 256 * unat hi + le_sum bs"
| "le_sum [b] = unat b"
| "le_sum [] = 0"

definition ones :: "nat \<Rightarrow> nat" where
  "ones n = (if n = 0 then 0 else Suc ((n - 1) mod 65535))"

text \<open>Two numbers with the same one's complement value.\<close>

definition same_ones :: "nat \<Rightarrow> nat \<Rightarrow> bool" where
  "same_ones m n \<longleftrightarrow> m mod 65535 = n mod 65535 \<and> (m = 0 \<longleftrightarrow> n = 0)"

lemma same_ones_refl [simp]: "same_ones n n"
  by (simp add: same_ones_def)

lemma same_ones_trans: "same_ones l m \<Longrightarrow> same_ones m n \<Longrightarrow> same_ones l n"
  by (simp add: same_ones_def)

lemma same_ones_sym: "same_ones m n \<Longrightarrow> same_ones n m"
  by (simp add: same_ones_def)

lemma same_ones_add: "same_ones a b \<Longrightarrow> same_ones c d \<Longrightarrow> same_ones (a + c) (b + d)"
  unfolding same_ones_def by (metis add_is_0 mod_add_cong)

lemma same_ones_mult: "same_ones a b \<Longrightarrow> same_ones (k * a) (k * b)"
  unfolding same_ones_def by (metis mod_mult_right_eq mult_is_0)

lemma same_ones_65536: "same_ones (65536 * a + b) (a + b)"
proof -
  have "65536 * a + b = 65535 * a + (a + b)" by simp
  then have "(65536 * a + b) mod 65535 = (a + b) mod 65535" by (metis mod_mult_self4)
  then show ?thesis by (simp add: same_ones_def)
qed

lemma ones_eqI:
  assumes "same_ones m n" and "m \<le> 65535"
  shows "ones n = m"
proof (cases "m = 0")
  case True
  then show ?thesis using assms(1) by (simp add: same_ones_def ones_def)
next
  case False
  then have n: "n \<noteq> 0" and e: "m mod 65535 = n mod 65535" using assms(1) by (auto simp: same_ones_def)
  obtain k where k: "n = Suc k" using n not0_implies_Suc by blast
  obtain j where j: "m = Suc j" using False not0_implies_Suc by blast
  have "j < 65535" using assms(2) j by simp
  moreover have "j mod 65535 = k mod 65535"
  proof -
    have "(j + 1) mod 65535 = (k + 1) mod 65535" using e by (simp add: j k)
    then have "(j + 1 + 65534) mod 65535 = (k + 1 + 65534) mod 65535" by (rule mod_add_cong) simp
    moreover have "j + 1 + 65534 = j + 65535" "k + 1 + 65534 = k + 65535" by simp_all
    ultimately show ?thesis by (metis mod_add_self2)
  qed
  ultimately show ?thesis by (simp add: ones_def k j)
qed

lemma ones_bound: "ones n \<le> 65535"
  using mod_less_divisor [of 65535 "n - 1"] by (simp add: ones_def Suc_le_eq)

lemma ones_same: "same_ones (ones n) n"
proof (cases n)
  case (Suc k)
  then show ?thesis by (simp add: ones_def same_ones_def mod_Suc_eq)
qed (simp add: ones_def)

lemma ones_cong:
  assumes "same_ones m n"
  shows "ones m = ones n"
  using ones_eqI [OF same_ones_trans [OF ones_same assms] ones_bound] by simp

section \<open>The parts\<close>

lemma unat_FOLD: "unat (FOLD_U32T u) = unat u mod 65536 + unat u div 65536"
  using unat_fold [of u] by (simp add: FOLD_U32T_def add.commute)

lemma FOLD_same: "same_ones (unat (FOLD_U32T u)) (unat u)"
  using same_ones_65536 [of "unat u div 65536" "unat u mod 65536"] by (simp add: unat_FOLD same_ones_sym add.commute)

lemma FOLD_bound:
  assumes "unat u \<le> 0x1FFFE"
  shows "unat (FOLD_U32T u) \<le> 65535"
proof (cases "unat u < 65536")
  case False
  then have "unat u div 65536 = 1" "unat u mod 65536 = unat u - 65536"
    using assms by (simp_all add: div_if mod_if)
  then show ?thesis using assms by (simp add: unat_FOLD)
qed (simp add: unat_FOLD)

lemma FOLD_le: "unat (FOLD_U32T u) \<le> 0x1FFFE"
proof -
  have "unat u div 65536 \<le> 65535" using div_le_mono [OF less_imp_le [OF unat_lt_u32 [of u]], of 65536] unat_lt_u32 [of u] by linarith
  then show ?thesis using mod_less_divisor [of 65536 "unat u"] by (simp add: unat_FOLD)
qed

lemma FOLD_twice: "unat (FOLD_U32T (FOLD_U32T u)) \<le> 65535 \<and> same_ones (unat (FOLD_U32T (FOLD_U32T u))) (unat u)"
  using FOLD_bound [OF FOLD_le] FOLD_same same_ones_trans by blast

lemma unat_load16: "unat (load16 lo hi) = unat lo + 256 * unat hi"
proof -
  have "load16 lo hi = ucast lo + push_bit 8 (ucast hi)"
    unfolding load16_def
    by (rule disjunctive_add [symmetric]) (auto simp: bit_simps dest: bit_imp_le_length)
  moreover have "unat (ucast b :: u16) = unat b" for b :: u8
    using unat_lt_u8 [of b] by (simp add: unsigned_ucast_eq take_bit_nat_eq_self)
  ultimately show ?thesis using unat_lt_u8 [of lo] unat_lt_u8 [of hi] by (simp add: push_bit_eq_mult unat_word_ariths)
qed

lemma unat_ucast_16_32 [simp]: "unat (ucast (w :: u16) :: u32) = unat w"
  using unat_lt_u16 [of w] by (simp add: unsigned_ucast_eq take_bit_nat_eq_self)

lemma SWAP_load16: "SWAP_BYTES_IN_WORD w = ucast (load16 (ucast (drop_bit 8 w)) (ucast w))"
proof -
  have m: "(0xff :: u32) = mask 8" "(0xff00 :: u32) = push_bit 8 (mask 8)" by (simp_all add: mask_eq_exp_minus_1)
  show ?thesis unfolding SWAP_BYTES_IN_WORD_def load16_def m
    by (rule bit_word_eqI) (auto simp: bit_simps)
qed

lemma unat_ucast_u8 [simp]: "unat (ucast (w :: 'a::len word) :: u8) = unat w mod 256"
  by (simp add: unsigned_ucast_eq take_bit_eq_mod)

lemma unat_SWAP: "unat (SWAP_BYTES_IN_WORD w) = unat w div 256 mod 256 + 256 * (unat w mod 256)"
  by (simp add: SWAP_load16 unat_load16 drop_bit_eq_div unat_div_distrib)

lemma SWAP_same:
  assumes "unat w \<le> 65535"
  shows "unat (SWAP_BYTES_IN_WORD w) \<le> 65535 \<and> same_ones (unat (SWAP_BYTES_IN_WORD w)) (256 * unat w)"
proof -
  have h: "unat w div 256 < 256" using assms by (simp add: div_less_iff_less_mult)
  have "256 * unat w = 65536 * (unat w div 256) + 256 * (unat w mod 256)"
    using mult_div_mod_eq [of 256 "unat w"] by linarith
  then have "same_ones (unat w div 256 + 256 * (unat w mod 256)) (256 * unat w)"
    using same_ones_65536 [of "unat w div 256" "256 * (unat w mod 256)"] by (simp add: same_ones_sym)
  then show ?thesis using h mod_less_divisor [of 256 "unat w"] by (simp add: unat_SWAP)
qed

lemma le_sum_append_even: "even (length xs) \<Longrightarrow> le_sum (xs @ ys) = le_sum xs + le_sum ys"
  by (induction xs rule: le_sum.induct) auto

lemma le_sum_append_odd: "odd (length xs) \<Longrightarrow> le_sum (xs @ ys) = le_sum xs + le_sum (0 # ys)"
  by (induction xs rule: le_sum.induct) (auto split: list.splits, cases ys, auto)

lemma le_sum_shift: "same_ones (le_sum (0 # bs)) (256 * le_sum bs)"
proof (induction bs rule: le_sum.induct)
  case (1 lo hi bs)
  have "same_ones (256 * unat lo + (unat hi + le_sum (0 # bs))) (256 * unat lo + (65536 * unat hi + 256 * le_sum bs))"
    by (rule same_ones_add) (auto intro: same_ones_add 1 same_ones_sym [OF same_ones_65536 [of "unat hi" 0, simplified]])
  moreover have "le_sum (0 # lo # hi # bs) = 256 * unat lo + (unat hi + le_sum (0 # bs))" 
    by (cases bs) auto
  ultimately show ?case by (simp add: algebra_simps)
qed auto

lemma add_words_sum:
  assumes "add_words bs a = (s, rest)" and "unat a + 65535 * (length bs div 2) < 4294967296"
  shows "unat s + (case rest of [] \<Rightarrow> 0 | b # _ \<Rightarrow> unat b) = unat a + le_sum bs \<and> length rest = length bs mod 2 \<and>
    unat s \<le> unat a + 65535 * (length bs div 2)"
  using assms
proof (induction bs a rule: add_words.induct)
  case (1 lo hi bs a)
  have l: "unat (load16 lo hi) \<le> 65535" using unat_lt_u16 [of "load16 lo hi"] by simp
  then have u: "unat (a + ucast (load16 lo hi)) = unat a + unat (load16 lo hi)"
    using 1(3) by (subst unat_add_u32) simp_all
  show ?case using 1(1) 1(2,3) u l by (simp add: unat_load16)
qed auto

section \<open>The routine computes the one's complement sum\<close>

lemma le_sum_bound: "le_sum bs \<le> 65535 * (length bs div 2) + 255 * (length bs mod 2)"
proof (induction bs rule: le_sum.induct)
  case (1 lo hi bs)
  then show ?case using unat_lt_u8 [of lo] unat_lt_u8 [of hi] by simp
next
  case (2 b)
  then show ?case using unat_lt_u8 [of b] by simp
qed simp

lemma unat_ucast_32_16: "unat w \<le> 65535 \<Longrightarrow> unat (ucast (w :: u32) :: u16) = unat w"
  by (simp add: unsigned_ucast_eq take_bit_nat_eq_self)

lemma same_ones_swap2: "same_ones (256 * (256 * n)) n"
  using same_ones_65536 [of n 0] by simp

lemma add_words_tail:
  assumes "add_words bs 0 = (s, rest)" and "length bs \<le> 0x20000"
    and "t0 = (case rest of [] \<Rightarrow> 0 | b # _ \<Rightarrow> b)" and "le_sum bs + 256 * unat t1 < 4294967296"
  shows "unat (s + ucast (load16 t0 t1)) = le_sum bs + 256 * unat t1"
proof -
  have "length bs div 2 \<le> 0x10000" using assms(2) by simp
  then have "65535 * (length bs div 2) < 4294967296" by linarith
  then have e: "unat s + (case rest of [] \<Rightarrow> 0 | b # _ \<Rightarrow> unat b) = le_sum bs" using add_words_sum [OF assms(1)] by simp
  have "(case rest of [] \<Rightarrow> 0 | b # _ \<Rightarrow> unat b) = unat t0" using assms(3) by (cases rest) auto
  then have "unat s + unat (load16 t0 t1) = le_sum bs + 256 * unat t1" using e by (simp add: unat_load16)
  then show ?thesis using assms(4) by (subst unat_add_u32) simp_all
qed

lemma lwip_standard_chksum_even:
  assumes "length data \<le> 0x20000"
  shows "unat (lwip_standard_chksum False data) = ones (le_sum data)"
proof -
  obtain s rest where a: "add_words data 0 = (s, rest)" by fastforce
  let ?t0 = "case rest of [] \<Rightarrow> 0 | b # _ \<Rightarrow> b"
  have b: "length data div 2 \<le> 0x10000" "length data mod 2 \<le> 1" "2 * (length data div 2) + length data mod 2 \<le> 0x20000"
    using assms by simp_all
  have "le_sum data < 4294967296" using le_sum_bound [of data] b by linarith
  then have "unat (s + ucast (load16 ?t0 0)) = le_sum data" using add_words_tail [OF a assms refl, of 0] by simp
  then have "unat (FOLD_U32T (FOLD_U32T (s + ucast (load16 ?t0 0)))) = ones (le_sum data)"
    using FOLD_twice [of "s + ucast (load16 ?t0 0)"] ones_eqI by metis
  moreover have "lwip_standard_chksum False data = ucast (FOLD_U32T (FOLD_U32T (s + ucast (load16 ?t0 0))))"
    using a by (cases data) (simp_all add: lwip_standard_chksum_def)
  ultimately show ?thesis using unat_ucast_32_16 ones_bound by metis
qed

lemma lwip_standard_chksum_odd:
  assumes "length data \<le> 0x20000"
  shows "unat (lwip_standard_chksum True data) = ones (le_sum data)"
proof (cases data)
  case Nil
  then show ?thesis by (simp add: lwip_standard_chksum_def ones_def FOLD_U32T_def SWAP_BYTES_IN_WORD_def load16_def)
next
  case (Cons b r)
  obtain s rest where a: "add_words r 0 = (s, rest)" by fastforce
  let ?t0 = "case rest of [] \<Rightarrow> 0 | b # _ \<Rightarrow> b"
  let ?s = "FOLD_U32T (FOLD_U32T (s + ucast (load16 ?t0 b)))"
  have r: "length r \<le> 0x1FFFF" using assms Cons by simp
  then have "length r div 2 \<le> 0xFFFF" "length r mod 2 \<le> 1" by linarith+
  then have "le_sum r + 256 * unat b < 4294967296" using le_sum_bound [of r] unat_lt_u8 [of b] by linarith
  then have "unat (s + ucast (load16 ?t0 b)) = le_sum (0 # data)"
    using add_words_tail [OF a _ refl, of b] r Cons by (cases r) auto
  then have "unat ?s \<le> 65535" "same_ones (unat ?s) (256 * le_sum data)"
    using FOLD_twice [of "s + ucast (load16 ?t0 b)"] same_ones_trans [OF _ le_sum_shift] by auto
  then have "unat (SWAP_BYTES_IN_WORD ?s) \<le> 65535" "same_ones (unat (SWAP_BYTES_IN_WORD ?s)) (le_sum data)"
    using SWAP_same [of ?s] same_ones_trans [OF same_ones_mult same_ones_swap2] same_ones_trans by blast+
  then show ?thesis using ones_eqI unat_ucast_32_16 Cons by (simp add: lwip_standard_chksum_def a)
qed

lemma unat_lwip_standard_chksum: "length data \<le> 0x20000 \<Longrightarrow> unat (lwip_standard_chksum odd_addr data) = ones (le_sum data)"
  using lwip_standard_chksum_even lwip_standard_chksum_odd by (cases odd_addr) auto

text \<open>Chains: the accumulator, swapped back when an odd number of bytes has been seen, has the value of the
  start and of all bytes so far.\<close>

lemma sum_chain_Cons: "sum_chain (q # qs) acc swapped = (
    let acc = FOLD_U32T (acc + ucast (lwip_standard_chksum (payload_odd q) (payload q)))
    in if odd (length (payload q)) then sum_chain qs (SWAP_BYTES_IN_WORD acc) (\<not> swapped)
       else sum_chain qs acc swapped)"
  by (simp add: odd_iff_mod_2_eq_one)

declare sum_chain.simps(2) [simp del]

lemma chain_step:
  assumes "length (payload q) \<le> 0x20000" and "unat acc \<le> 65535"
    and "same_ones ((if swapped then 256 else 1) * unat acc) (n + le_sum done)" and "swapped = odd (length done)"
  defines "f \<equiv> FOLD_U32T (acc + ucast (lwip_standard_chksum (payload_odd q) (payload q)))"
  shows "unat f \<le> 65535 \<and> same_ones ((if swapped then 256 else 1) * unat f) (n + le_sum (done @ payload q))"
proof -
  let ?c = "ucast (lwip_standard_chksum (payload_odd q) (payload q)) :: u32" and ?k = "if swapped then 256 else 1 :: nat"
  have u: "unat (acc + ?c) = unat acc + ones (le_sum (payload q))"
    using assms(1,2) ones_bound [of "le_sum (payload q)"] by (subst unat_add_u32) (simp_all add: unat_lwip_standard_chksum)
  have f: "unat f \<le> 65535" using FOLD_bound [of "acc + ?c"] u assms(2) ones_bound [of "le_sum (payload q)"] by (simp add: f_def)
  have "same_ones (unat f) (unat acc + le_sum (payload q))"
    using FOLD_same [of "acc + ?c"] same_ones_trans [OF _ same_ones_add [OF same_ones_refl ones_same]] u f_def by metis
  then have "same_ones (?k * unat f) (?k * unat acc + ?k * le_sum (payload q))"
    using same_ones_mult [of _ _ ?k] by (metis distrib_left)
  moreover have "same_ones (?k * unat acc + ?k * le_sum (payload q)) (n + le_sum done + ?k * le_sum (payload q))"
    using same_ones_add [OF assms(3) same_ones_refl] .
  moreover have "same_ones (n + le_sum done + ?k * le_sum (payload q)) (n + le_sum (done @ payload q))"
    using assms(4) same_ones_add [OF same_ones_refl [of "n + le_sum done"] same_ones_sym [OF le_sum_shift [of "payload q"]]]
    by (auto simp: le_sum_append_even le_sum_append_odd add.assoc)
  ultimately show ?thesis using f same_ones_trans by blast
qed

lemma sum_chain_same:
  assumes "sum_chain qs acc swapped = (acc', swapped')" and "\<forall>q \<in> set qs. length (payload q) \<le> 0x20000"
    and "unat acc \<le> 65535" and "same_ones ((if swapped then 256 else 1) * unat acc) (n + le_sum done)"
    and "swapped = odd (length done)"
  shows "unat acc' \<le> 65535 \<and> swapped' = odd (length (done @ concat (map payload qs))) \<and>
    same_ones ((if swapped' then 256 else 1) * unat acc') (n + le_sum (done @ concat (map payload qs)))"
  using assms
proof (induction qs arbitrary: acc swapped "done")
  case (Cons q qs)
  let ?f = "FOLD_U32T (acc + ucast (lwip_standard_chksum (payload_odd q) (payload q)))" and ?d = "done @ payload q"
  let ?k = "if swapped then 256 else 1 :: nat"
  have f: "unat ?f \<le> 65535" and s: "same_ones (?k * unat ?f) (n + le_sum ?d)"
    using chain_step [of q, OF _ Cons.prems(3-5)] Cons.prems(2) by simp_all
  have e: "done @ concat (map payload (q # qs)) = ?d @ concat (map payload qs)"
    and all: "\<forall>q \<in> set qs. length (payload q) \<le> 0x20000" using Cons.prems(2) by simp_all
  show ?case
  proof (cases "odd (length (payload q))")
    case True
    have w: "unat (SWAP_BYTES_IN_WORD ?f) \<le> 65535" "same_ones (unat (SWAP_BYTES_IN_WORD ?f)) (256 * unat ?f)"
      using SWAP_same [OF f] by auto
    have "same_ones ((if \<not> swapped then 256 else 1) * unat (SWAP_BYTES_IN_WORD ?f)) (?k * unat ?f)"
      using w(2) same_ones_trans [OF same_ones_mult [OF w(2), of 256] same_ones_swap2] by auto
    then have "same_ones ((if \<not> swapped then 256 else 1) * unat (SWAP_BYTES_IN_WORD ?f)) (n + le_sum ?d)"
      using s same_ones_trans by blast
    moreover have "sum_chain qs (SWAP_BYTES_IN_WORD ?f) (\<not> swapped) = (acc', swapped')"
      using Cons.prems(1) True by (simp add: sum_chain_Cons)
    moreover have "(\<not> swapped) = odd (length ?d)" using Cons.prems(5) True by simp
    ultimately show ?thesis unfolding e using Cons.IH [OF _ all w(1)] by blast
  next
    case False
    then have "sum_chain qs ?f swapped = (acc', swapped')" using Cons.prems(1) by (simp add: sum_chain_Cons)
    moreover have "swapped = odd (length ?d)" using Cons.prems(5) False by simp
    ultimately show ?thesis unfolding e using Cons.IH [OF _ all f s] by blast
  qed
qed auto

text \<open>A whole chain from a start value, with the final swap.\<close>

lemma sum_chain_total:
  assumes "sum_chain p acc False = (acc', swapped)" and "\<forall>q \<in> set p. length (payload q) \<le> 0x20000" and "unat acc \<le> 65535"
  defines "r \<equiv> if swapped then SWAP_BYTES_IN_WORD acc' else acc'"
  shows "unat r \<le> 65535 \<and> same_ones (unat r) (unat acc + le_sum (concat (map payload p)))"
proof -
  have a: "unat acc' \<le> 65535" "same_ones ((if swapped then 256 else 1) * unat acc') (unat acc + le_sum (concat (map payload p)))"
    using sum_chain_same [OF assms(1-3), of "unat acc" "[]"] by auto
  then show ?thesis using SWAP_same [OF a(1)] same_ones_trans unfolding r_def by (cases swapped) auto
qed

section \<open>Agreement with the specification\<close>

text \<open>The checksum of RFC 1071.\<close>

definition internet_checksum :: "u8 list \<Rightarrow> u16" where
  "internet_checksum data = NOT (of_nat (ones (le_sum data)))"

lemma word16_eqI: "unat (w :: u16) = n \<Longrightarrow> w = of_nat n"
  by auto

lemma complement_low: "ucast (NOT ((w :: u32) AND 0xffff)) = NOT (ucast w :: u16)"
proof -
  have m: "(0xffff :: u32) = mask 16" by (simp add: mask_eq_exp_minus_1)
  show ?thesis unfolding m by (rule bit_word_eqI) (simp add: bit_simps)
qed

lemma complement_ones:
  assumes "unat (w :: u32) \<le> 65535" and "same_ones (unat w) (le_sum data)"
  shows "NOT (ucast w :: u16) = internet_checksum data" "ucast (NOT (w AND 0xffff)) = internet_checksum data"
  using ones_eqI [OF assms(2,1)] word16_eqI [OF unat_ucast_32_16 [OF assms(1)]] unfolding complement_low
  by (simp_all add: internet_checksum_def)

lemma fold_carries_ones: "unat (fold_carries s) \<le> 65535 \<and> same_ones (unat (fold_carries s)) (unat s)"
proof (induction s rule: fold_carries.induct)
  case (1 s)
  show ?case
  proof (cases "drop_bit 16 s = 0")
    case True
    then have "unat s div 65536 = 0" using unat_high16 [of s] by simp
    then have "unat s \<le> 65535" by (simp add: div_eq_0_iff)
    then show ?thesis using True by (simp add: fold_carries.simps)
  next
    case False
    have "same_ones (unat ((s AND 0xFFFF) + drop_bit 16 s)) (unat s)"
      using FOLD_same [of s] by (simp add: FOLD_U32T_def add.commute)
    then show ?thesis using 1 False same_ones_trans by (subst (1 2) fold_carries.simps) auto
  qed
qed

definition addr_bytes :: "u32 \<Rightarrow> u8 list" where
  "addr_bytes a = [ucast a, ucast (drop_bit 8 a), ucast (drop_bit 16 a), ucast (drop_bit 24 a)]"

text \<open>The header that the transport checksums cover in addition: addresses, protocol and length.\<close>

definition pseudo_header :: "u32 \<Rightarrow> u32 \<Rightarrow> u8 \<Rightarrow> u16 \<Rightarrow> u8 list" where
  "pseudo_header src dest proto proto_len =
    addr_bytes src @ addr_bytes dest @ [0, proto, ucast (drop_bit 8 proto_len), ucast proto_len]"

lemma length_addr_bytes [simp]: "length (addr_bytes a) = 4"
  by (simp add: addr_bytes_def)

lemma mod_65536_bytes: "(n :: nat) mod 256 + 256 * (n div 256 mod 256) = n mod 65536"
  using mod_mult2_eq [of n 256 256] by simp

lemma le_sum_addr: "le_sum (addr_bytes a) = unat a mod 65536 + unat a div 65536"
proof -
  have "unat a div 65536 < 65536" using unat_lt_u32 [of a] by (simp add: div_less_iff_less_mult)
  then have "unat a div 65536 mod 256 + 256 * (unat a div 65536 div 256 mod 256) = unat a div 65536"
    using mod_65536_bytes [of "unat a div 65536"] by simp
  moreover have "unat a div 16777216 = unat a div 65536 div 256" by (simp add: div_mult2_eq [symmetric])
  ultimately show ?thesis
    using mod_65536_bytes [of "unat a"] by (simp add: addr_bytes_def drop_bit_eq_div unat_div_distrib)
qed

lemma unat_add_addr: "unat acc \<le> 0x1FFFE \<Longrightarrow> unat (add_addr a acc) = unat acc + le_sum (addr_bytes a)"
proof -
  assume acc: "unat acc \<le> 0x1FFFE"
  have "drop_bit 16 a AND 0xffff = drop_bit 16 a"
    using unat_low16 [of "drop_bit 16 a"] unat_lt_u32 [of a]
    by (simp add: word_unat_eq_iff unat_high16 div_less_iff_less_mult)
  moreover have "unat a mod 65536 < 65536" "unat a div 65536 < 65536"
    using unat_lt_u32 [of a] by (simp_all add: div_less_iff_less_mult)
  ultimately show ?thesis using acc
    by (simp add: add_addr_def le_sum_addr unat_low16 unat_high16 unat_add_u32)
qed

lemma unat_htons: "unat (lwip_htons n) = unat n div 256 + 256 * (unat n mod 256)"
proof -
  have m: "(0x00ff :: u16) = mask 8" "(0xff00 :: u16) = push_bit 8 (mask 8)" by (simp_all add: mask_eq_exp_minus_1)
  have "lwip_htons n = load16 (ucast (drop_bit 8 n)) (ucast n)"
    unfolding lwip_htons_def load16_def m by (rule bit_word_eqI) (auto simp: bit_simps)
  moreover have "unat n div 256 < 256" using unat_lt_u16 [of n] by (simp add: div_less_iff_less_mult)
  ultimately show ?thesis by (simp add: unat_load16 drop_bit_eq_div unat_div_distrib)
qed

lemma inet_chksum_spec: "length data \<le> 0x20000 \<Longrightarrow> inet_chksum odd_addr data = internet_checksum data"
  using word16_eqI [OF unat_lwip_standard_chksum] by (simp add: inet_chksum_def internet_checksum_def)

text \<open>C35. The checksum routine of lwIP and the one of the kernel compute the same function, the Internet
  checksum of RFC 1071, on up to 0x20000 bytes, and lwIP's does so at odd and even addresses alike.\<close>

theorem checksum_routines_agree:
  assumes "length data \<le> 0x20000"
  shows "inet_chksum odd_addr data = internet_checksum data \<and> icmp_checksum data = internet_checksum data"
proof -
  obtain s rest where a: "add_words data 0 = (s, rest)" by fastforce
  have d: "length data div 2 \<le> 0x10000" "length data mod 2 \<le> 1" "2 * (length data div 2) + length data mod 2 \<le> 0x20000"
    using assms by simp_all
  then have f: "65535 * (length data div 2) < 4294967296" "le_sum data < 4294967296" using le_sum_bound [of data] by linarith+
  let ?s = "case rest of [] \<Rightarrow> s | b # _ \<Rightarrow> s + ucast b"
  have e: "unat s + (case rest of [] \<Rightarrow> 0 | b # _ \<Rightarrow> unat b) = le_sum data" using add_words_sum [OF a] f(1) by simp
  have "unat ?s = le_sum data"
  proof (cases rest)
    case (Cons b bs)
    have "unat (ucast b :: u32) = unat b" using unat_lt_u8 [of b] by (simp add: unsigned_ucast_eq take_bit_nat_eq_self)
    then show ?thesis using e f(2) Cons by (simp add: unat_add_u32)
  qed (use e in simp)
  then have "NOT (ucast (fold_carries ?s) :: u16) = internet_checksum data"
    using complement_ones(1) fold_carries_ones [of ?s] by metis
  moreover have "icmp_checksum data = NOT (ucast (fold_carries ?s))"
    unfolding icmp_checksum_def a by (simp, intro bit_word_eqI) (simp add: bit_simps)
  ultimately show ?thesis using inet_chksum_spec [OF assms] by simp
qed

theorem checksum_routines_agree_witness:
  "inet_chksum True [0x45, 0x00, 0x73] = icmp_checksum [0x45, 0x00, 0x73] \<and> icmp_checksum [0x45, 0x00, 0x73] = 0xFF47"
proof -
  have "icmp_checksum [0x45, 0x00, 0x73] = internet_checksum [0x45, 0x00, 0x73]"
    "inet_chksum True [0x45, 0x00, 0x73] = internet_checksum [0x45, 0x00, 0x73]"
    using checksum_routines_agree [of "[0x45, 0x00, 0x73]" True] by simp_all
  then show ?thesis by (simp add: internet_checksum_def ones_def)
qed

lemma htons_tail: "unat (lwip_htons (ucast proto)) + unat (lwip_htons proto_len) =
    le_sum [0, proto, ucast (drop_bit 8 proto_len), ucast proto_len]"
  using unat_lt_u8 [of proto] unat_lt_u16 [of proto_len]
  by (simp add: unat_htons drop_bit_eq_div unat_div_distrib unsigned_ucast_eq take_bit_nat_eq_self div_less_iff_less_mult)

lemma le_sum_pseudo: "le_sum (pseudo_header src dest proto proto_len @ D) =
    le_sum (addr_bytes src @ addr_bytes dest) + le_sum D + le_sum [0, proto, ucast (drop_bit 8 proto_len), ucast proto_len]"
  using le_sum_append_even [of "(addr_bytes src @ addr_bytes dest) @ [0, proto, ucast (drop_bit 8 proto_len), ucast proto_len]" D]
    le_sum_append_even [of "addr_bytes src @ addr_bytes dest" "[0, proto, ucast (drop_bit 8 proto_len), ucast proto_len]"]
  by (simp add: pseudo_header_def)

text \<open>C36. The checksum over a chain of packet buffers, and the transport checksum with its pseudo header, equal
  the Internet checksum of the bytes laid out contiguously, however the packet is cut into buffers and wherever
  these lie.\<close>

theorem chain_checksum_flat:
  assumes "\<forall>q \<in> set p. length (payload q) < 65536"
  shows "inet_chksum_pbuf p = internet_checksum (concat (map payload p)) \<and>
    inet_chksum_pseudo p proto proto_len src dest =
      internet_checksum (pseudo_header src dest proto proto_len @ concat (map payload p))"
proof
  have l: "\<forall>q \<in> set p. length (payload q) \<le> 0x20000" using assms by auto
  obtain acc sw where a: "sum_chain p 0 False = (acc, sw)" by fastforce
  then show "inet_chksum_pbuf p = internet_checksum (concat (map payload p))"
    using sum_chain_total [OF a l] complement_ones(2) unfolding inet_chksum_pbuf_def a Let_def prod.case by simp
  let ?a = "FOLD_U32T (FOLD_U32T (add_addr dest (add_addr src 0)))"
  let ?H = "addr_bytes src @ addr_bytes dest" and ?D = "concat (map payload p)"
  have b: "le_sum (addr_bytes a) \<le> 0x1FFFE" for a using FOLD_le [of a] by (simp add: le_sum_addr unat_FOLD)
  have "unat (add_addr dest (add_addr src 0)) = le_sum ?H"
    using b [of src] by (simp add: unat_add_addr le_sum_append_even addr_bytes_def)
  then have i: "unat ?a \<le> 65535" "same_ones (unat ?a) (le_sum ?H)" using FOLD_twice [of "add_addr dest (add_addr src 0)"] by simp_all
  obtain acc' sw' where c: "sum_chain p ?a False = (acc', sw')" by fastforce
  define r where "r = (if sw' then SWAP_BYTES_IN_WORD acc' else acc')"
  have r: "unat r \<le> 65535" "same_ones (unat r) (le_sum ?H + le_sum ?D)"
    using sum_chain_total [OF c l i(1)] same_ones_trans [OF _ same_ones_add [OF i(2) same_ones_refl]] by (simp_all add: r_def)
  let ?t = "r + ucast (lwip_htons (ucast proto)) + ucast (lwip_htons proto_len)"
  have "unat (lwip_htons (ucast proto)) < 65536" "unat (lwip_htons proto_len) < 65536" by (rule unat_lt_u16)+
  then have "unat ?t = unat r + (unat (lwip_htons (ucast proto)) + unat (lwip_htons proto_len))"
    using r(1) by (simp add: unat_add_u32)
  moreover note htons_tail [of proto proto_len]
  ultimately have "same_ones (unat ?t) (le_sum (pseudo_header src dest proto proto_len @ ?D))"
    using same_ones_add [OF r(2) same_ones_refl] le_sum_pseudo by metis
  then show "inet_chksum_pseudo p proto proto_len src dest = internet_checksum (pseudo_header src dest proto proto_len @ ?D)"
    using FOLD_twice [of ?t] same_ones_trans complement_ones(2)
    unfolding inet_chksum_pseudo_def inet_cksum_pseudo_base_def c Let_def prod.case r_def [symmetric] by blast
qed

theorem chain_checksum_flat_witness:
  "inet_chksum_pbuf [\<lparr>payload_odd = True, payload = [1, 2, 3]\<rparr>, \<lparr>payload_odd = False, payload = [4, 5]\<rparr>] =
    internet_checksum [1, 2, 3, 4, 5]"
  using chain_checksum_flat [of "[\<lparr>payload_odd = True, payload = [1, 2, 3]\<rparr>, \<lparr>payload_odd = False, payload = [4, 5]\<rparr>]"]
  by simp

lemma unat_not_u16: "unat (NOT (w :: u16)) = 65535 - unat w"
proof -
  have "NOT w = 65535 - w" by (simp add: not_eq_complement)
  moreover have "w \<le> 65535" using unat_lt_u16 [of w] by (simp add: word_le_nat_alt)
  ultimately show ?thesis by (simp add: unat_sub)
qed

text \<open>A packet with the checksum filled in sums to all ones, so the receiver's checksum of it is zero.\<close>

lemma filled_checksum_zero:
  assumes "even (length xs)" and "length (xs @ [0, 0] @ ys) \<le> 0x20000" and "c = internet_checksum (xs @ [0, 0] @ ys)"
  shows "inet_chksum odd_addr (xs @ [ucast c, ucast (drop_bit 8 c)] @ ys) = 0"
proof -
  let ?n = "ones (le_sum (xs @ [0, 0] @ ys))" and ?D = "xs @ [ucast c, ucast (drop_bit 8 c)] @ ys"
  have "unat c = 65535 - ?n"
    using ones_bound [of "le_sum (xs @ [0, 0] @ ys)"] assms(3)
    by (simp add: internet_checksum_def unat_not_u16 unat_of_nat)
  moreover have "unat (ucast c :: u8) + 256 * unat (ucast (drop_bit 8 c) :: u8) = unat c"
    using mod_65536_bytes [of "unat c"] unat_lt_u16 [of c] by (simp add: drop_bit_eq_div unat_div_distrib)
  ultimately have "le_sum ?D = 65535 - ?n + le_sum (xs @ [0, 0] @ ys)"
    using assms(1) by (simp add: le_sum_append_even)
  moreover have "same_ones (65535 - ?n + le_sum (xs @ [0, 0] @ ys)) (65535 - ?n + ?n)"
    by (rule same_ones_add) (simp_all add: same_ones_sym [OF ones_same])
  ultimately have "ones (le_sum ?D) = ones 65535" using ones_cong ones_bound [of "le_sum (xs @ [0, 0] @ ys)"] by simp
  then show ?thesis using inet_chksum_spec [of ?D odd_addr] assms(2) by (simp add: internet_checksum_def ones_def)
qed

end
