(* ===== verification/Network_Monitor.thy ===== *)
theory Network_Monitor
  imports Inet_Chksum
begin

text \<open>
  The connection monitor of \<open>src/kernel.c\<close>: \<open>ping_recv_cb\<close>, \<open>send_ping_packet\<close> and \<open>update_network_monitor\<close>.
  It sends batches of four echo requests and shows the network as connected when four replies arrive.  The
  calls into lwIP (\<open>raw.c\<close>, \<open>pbuf.c\<close>) are arguments.  Writing through a null pointer is \<^const>\<open>None\<close>.
\<close>

section \<open>The code\<close>

text \<open>The lwIP calls, over the state \<open>'l\<close> of the stack: sockets are \<open>'p\<close>, packet buffers \<open>'b\<close>.  A buffer that
  is allocated comes with the parity of the address of its bytes.  \<open>raw_sendto\<close> gets the bytes of the buffer.\<close>

record ('p, 'b, 'l) raw_api =
  raw_new :: "'l \<Rightarrow> 'p option \<times> 'l"
  raw_recv :: "'p \<Rightarrow> 'l \<Rightarrow> 'l"
  raw_bind :: "'p \<Rightarrow> 'l \<Rightarrow> 'l"
  pbuf_alloc :: "nat \<Rightarrow> 'l \<Rightarrow> ('b \<times> bool) option \<times> 'l"
  raw_sendto :: "'p option \<Rightarrow> 'b \<Rightarrow> u8 list \<Rightarrow> u32 \<Rightarrow> 'l \<Rightarrow> 'l"
  pbuf_free :: "'b \<Rightarrow> 'l \<Rightarrow> 'l"

datatype net_status_t = NET_STATUS_UNKNOWN | NET_STATUS_CONNECTED | NET_STATUS_DISCONNECTED

record ('p, 'l) netmon =
  current_net_status :: net_status_t
  last_ping_tick :: u32
  pings_sent :: int
  pings_received :: int
  ping_pcb :: "'p option"
  last_status_print_tick :: u32
  last_packet_sent_tick :: u32
  wait_start :: u32
  stack :: 'l

definition ICMP_ER :: u8 where "ICMP_ER = 0"
definition ICMP_ECHO :: u8 where "ICMP_ECHO = 8"
definition PBUF_IP_HLEN :: nat where "PBUF_IP_HLEN = 20"

text \<open>The callback sees the first buffer of a packet, IP header included, and always consumes it.\<close>

definition ping_recv_cb :: "('p, 'b, 'l) raw_api \<Rightarrow> 'b \<Rightarrow> u8 list \<Rightarrow> ('p, 'l) netmon \<Rightarrow> u8 \<times> ('p, 'l) netmon" where
  "ping_recv_cb api b bytes s = (
    let s = (if length bytes \<ge> PBUF_IP_HLEN + 8 \<and> bytes ! PBUF_IP_HLEN = ICMP_ER
             then s\<lparr>pings_received := wrap32 (pings_received s + 1)\<rparr> else s)
    in (1, s\<lparr>stack := pbuf_free api b (stack s)\<rparr>))"

text \<open>The header in memory: type, code, checksum, identifier and sequence number, the words little-endian.\<close>

definition store16 :: "u16 \<Rightarrow> u8 list" where
  "store16 w = [ucast w, ucast (drop_bit 8 w)]"

definition icmp_echo_hdr :: "u16 \<Rightarrow> u16 \<Rightarrow> u8 list" where
  "icmp_echo_hdr chksum seqno = [ICMP_ECHO, 0] @ store16 chksum @ store16 0xAABB @ store16 seqno"

definition send_ping_packet :: "('p, 'b, 'l) raw_api \<Rightarrow> u32 \<Rightarrow> ('p, 'l) netmon \<Rightarrow> ('p, 'l) netmon" where
  "send_ping_packet api target_ip s = (
    case pbuf_alloc api 8 (stack s) of
      (None, l) \<Rightarrow> s\<lparr>stack := l\<rparr>
    | (Some (b, odd_addr), l) \<Rightarrow>
        let seqno = lwip_htons (word_of_int (pings_sent s + 1));
            chksum = inet_chksum odd_addr (icmp_echo_hdr 0 seqno);
            l = raw_sendto api (ping_pcb s) b (icmp_echo_hdr chksum seqno) target_ip l;
            l = pbuf_free api b l
        in s\<lparr>stack := l, pings_sent := pings_sent s + 1\<rparr>)"

text \<open>10.0.2.2 in network order.\<close>

definition ping_target :: u32 where "ping_target = 0x0202000A"

definition open_ping_pcb :: "('p, 'b, 'l) raw_api \<Rightarrow> ('p, 'l) netmon \<Rightarrow> ('p, 'l) netmon option" where
  "open_ping_pcb api s = (
    case ping_pcb s of
      Some _ \<Rightarrow> Some s
    | None \<Rightarrow> (case raw_new api (stack s) of
        (None, _) \<Rightarrow> None
      | (Some p, l) \<Rightarrow> Some (s\<lparr>ping_pcb := Some p, stack := raw_bind api p (raw_recv api p l)\<rparr>)))"

definition update_network_monitor :: "('p, 'b, 'l) raw_api \<Rightarrow> u32 \<Rightarrow> ('p, 'l) netmon \<Rightarrow> ('p, 'l) netmon option" where
  "update_network_monitor api current_tick s = do {
    s \<leftarrow> open_ping_pcb api s;
    let ms_since_last_batch = (if last_ping_tick s = 0 then 999999 else (current_tick - last_ping_tick s) * 1000 div 18);
    if pings_sent s = 0 then do {
      let s = (if last_ping_tick s \<noteq> 0 \<and> current_tick - last_status_print_tick s \<ge> 18
               then s\<lparr>last_status_print_tick := current_tick\<rparr> else s);
      Some (if ms_since_last_batch \<ge> 15000 \<or> last_ping_tick s = 0
            then send_ping_packet api ping_target (s\<lparr>pings_received := 0\<rparr>) else s)
    } else if pings_sent s < 4 then
      Some (if current_tick - last_packet_sent_tick s > 15
            then (send_ping_packet api ping_target s)\<lparr>last_packet_sent_tick := current_tick\<rparr> else s)
    else if wait_start s = 0 then Some (s\<lparr>wait_start := current_tick\<rparr>)
    else do {
      let s = (if current_tick - last_status_print_tick s \<ge> 5 then s\<lparr>last_status_print_tick := current_tick\<rparr> else s);
      Some (if pings_received s = 4
            then s\<lparr>current_net_status := NET_STATUS_CONNECTED, pings_sent := 0, wait_start := 0, last_ping_tick := current_tick\<rparr>
            else if current_tick - wait_start s > 100
            then s\<lparr>current_net_status := NET_STATUS_DISCONNECTED, pings_sent := 0, wait_start := 0, last_ping_tick := current_tick\<rparr>
            else s)
    }
  }"

section \<open>The packets\<close>

lemma unat_drop_8: "unat (drop_bit 8 (w :: u16)) = unat w div 256"
  by (simp add: drop_bit_eq_div unat_div_distrib)

lemma network_order:
  assumes "0 \<le> i" and "i < 65536"
  shows "256 * unat (ucast (lwip_htons (word_of_int i)) :: u8) + unat (ucast (drop_bit 8 (lwip_htons (word_of_int i))) :: u8) = nat i"
proof -
  obtain k where k: "i = int k" "k < 65536" using assms nonneg_int_cases by fastforce
  let ?w = "of_nat k :: u16"
  have m: "(0x00ff :: u16) = mask 8" "(0xff00 :: u16) = push_bit 8 (mask 8)" by (simp_all add: mask_eq_exp_minus_1)
  have "(ucast (lwip_htons ?w) :: u8) = ucast (drop_bit 8 ?w)" "(ucast (drop_bit 8 (lwip_htons ?w)) :: u8) = ucast ?w"
    unfolding lwip_htons_def m by (rule bit_word_eqI, auto simp: bit_simps)+
  moreover have u: "unat ?w = k" using k(2) by (simp add: unat_of_nat)
  moreover have "unat (drop_bit 8 ?w) = k div 256"
    using unat_drop_8 [of ?w] u by metis
  ultimately show ?thesis using mod_65536_bytes [of k] k by (simp only: unat_ucast_u8 of_int_of_nat_eq nat_int) simp
qed

text \<open>C37. A ping that is sent is a well-formed echo request for the gateway: a receiver's checksum over it is
  zero wherever it lies, and its sequence number, in network order, is one more than the number sent before.\<close>

theorem ping_packet_valid:
  assumes "pbuf_alloc api 8 (stack s) = (Some (b, odd_addr), l)" and "0 \<le> pings_sent s" and "pings_sent s < 65535"
  shows "\<exists>bytes. send_ping_packet api target_ip s =
      s\<lparr>stack := pbuf_free api b (raw_sendto api (ping_pcb s) b bytes target_ip l), pings_sent := pings_sent s + 1\<rparr> \<and>
    length bytes = 8 \<and> bytes ! 0 = ICMP_ECHO \<and> bytes ! 1 = 0 \<and> inet_chksum any_addr bytes = 0 \<and>
    256 * unat (bytes ! 6) + unat (bytes ! 7) = nat (pings_sent s + 1)"
proof -
  define seqno where "seqno = lwip_htons (word_of_int (pings_sent s + 1))"
  let ?c = "inet_chksum odd_addr (icmp_echo_hdr 0 seqno)"
  let ?xs = "[ICMP_ECHO, 0]" and ?ys = "store16 0xAABB @ store16 seqno"
  have flat: "icmp_echo_hdr c seqno = ?xs @ [ucast c, ucast (drop_bit 8 c)] @ ?ys" for c
    by (simp add: icmp_echo_hdr_def store16_def)
  have "?c = internet_checksum (?xs @ [0, 0] @ ?ys)"
    using inet_chksum_spec [of "icmp_echo_hdr 0 seqno" odd_addr] flat [of 0] by (simp add: store16_def)
  then have z: "inet_chksum any_addr (icmp_echo_hdr ?c seqno) = 0"
    using filled_checksum_zero [of ?xs ?ys ?c any_addr] flat [of ?c] by (simp add: store16_def)
  have "256 * unat (ucast seqno :: u8) + unat (ucast (drop_bit 8 seqno) :: u8) = nat (pings_sent s + 1)"
    unfolding seqno_def using assms(2,3) by (intro network_order) auto
  moreover have "icmp_echo_hdr ?c seqno ! 6 = ucast seqno" "icmp_echo_hdr ?c seqno ! 7 = ucast (drop_bit 8 seqno)"
    "icmp_echo_hdr ?c seqno ! 0 = ICMP_ECHO" "icmp_echo_hdr ?c seqno ! 1 = 0" "length (icmp_echo_hdr ?c seqno) = 8"
    by (simp_all add: icmp_echo_hdr_def store16_def)
  ultimately show ?thesis
    using z assms(1) by (intro exI [of _ "icmp_echo_hdr ?c seqno"]) (simp add: send_ping_packet_def seqno_def Let_def)
qed

definition quiet_api :: "(unit, unit, u8 list list) raw_api" where
  "quiet_api = \<lparr>raw_new = \<lambda>l. (Some (), l), raw_recv = \<lambda>_ l. l, raw_bind = \<lambda>_ l. l,
    pbuf_alloc = \<lambda>_ l. (Some ((), True), l), raw_sendto = \<lambda>_ _ bytes _ l. bytes # l, pbuf_free = \<lambda>_ l. l\<rparr>"

definition netmon_start :: "(unit, u8 list list) netmon" where
  "netmon_start = \<lparr>current_net_status = NET_STATUS_UNKNOWN, last_ping_tick = 0, pings_sent = 0, pings_received = 0,
    ping_pcb = None, last_status_print_tick = 0, last_packet_sent_tick = 0, wait_start = 0, stack = []\<rparr>"

theorem ping_packet_valid_witness:
  "\<exists>bytes. stack (send_ping_packet quiet_api ping_target netmon_start) = [bytes] \<and> inet_chksum False bytes = 0 \<and>
    256 * unat (bytes ! 6) + unat (bytes ! 7) = 1"
  using ping_packet_valid [of quiet_api netmon_start "()" True "[]" ping_target False]
  by (auto simp: quiet_api_def netmon_start_def)

section \<open>Batches\<close>

text \<open>What happens to the monitor: a call of the main loop, or a packet that arrives.\<close>

datatype 'b event = Tick nat | Packet 'b "u8 list"

fun handle :: "('p, 'b, 'l) raw_api \<Rightarrow> 'b event \<Rightarrow> ('p, 'l) netmon \<Rightarrow> ('p, 'l) netmon option" where
  "handle api (Tick t) s = update_network_monitor api (of_nat t) s"
| "handle api (Packet b bytes) s = Some (snd (ping_recv_cb api b bytes s))"

fun run :: "('p, 'b, 'l) raw_api \<Rightarrow> 'b event list \<Rightarrow> ('p, 'l) netmon \<Rightarrow> ('p, 'l) netmon option" where
  "run api [] s = Some s"
| "run api (e # es) s = do { s \<leftarrow> handle api e s; run api es s }"

fun ticks :: "'b event list \<Rightarrow> nat list" where
  "ticks [] = []"
| "ticks (Tick t # es) = t # ticks es"
| "ticks (Packet b bytes # es) = ticks es"

text \<open>A state inside a batch, last called at tick \<open>p\<close>.\<close>

definition in_batch :: "nat \<Rightarrow> ('p, 'l) netmon \<Rightarrow> bool" where
  "in_batch p s \<longleftrightarrow> 1 \<le> pings_sent s \<and> pings_sent s \<le> 4 \<and> ping_pcb s \<noteq> None \<and>
    unat (last_packet_sent_tick s) \<le> p \<and> unat (wait_start s) \<le> p \<and> (wait_start s \<noteq> 0 \<longrightarrow> pings_sent s = 4)"

text \<open>How many calls on new ticks a batch can still take.\<close>

definition rank :: "nat \<Rightarrow> ('p, 'l) netmon \<Rightarrow> nat" where
  "rank p s = (if pings_sent s < 4 then 17 * nat (4 - pings_sent s) + (16 - (p - unat (last_packet_sent_tick s))) + 103
    else if wait_start s = 0 then 103 else 102 - (p - unat (wait_start s)))"

definition decided :: "('p, 'l) netmon \<Rightarrow> ('p, 'l) netmon \<Rightarrow> bool" where
  "decided s s' \<longleftrightarrow> pings_sent s = 4 \<and> pings_sent s' = 0 \<and> wait_start s' = 0 \<and>
    current_net_status s' = (if pings_received s = 4 then NET_STATUS_CONNECTED else NET_STATUS_DISCONNECTED)"

lemma send_ping_packet_frame:
  assumes "\<forall>l. fst (pbuf_alloc api 8 l) \<noteq> None"
  shows "\<exists>l. send_ping_packet api ip s = s\<lparr>stack := l, pings_sent := pings_sent s + 1\<rparr>"
proof -
  obtain x l where "pbuf_alloc api 8 (stack s) = (Some x, l)" using assms by (metis not_None_eq prod.collapse)
  then show ?thesis by (cases x) (auto simp: send_ping_packet_def Let_def)
qed

lemma unat_tick_diff: "t < 4294967296 \<Longrightarrow> unat a \<le> t \<Longrightarrow> unat (of_nat t - a :: u32) = t - unat a"
  by (subst unat_sub) (simp_all add: word_le_nat_alt unat_of_nat_u32)

lemma tick_step:
  assumes alloc: "\<forall>l. fst (pbuf_alloc api 8 l) \<noteq> None" and b: "in_batch p s" and t: "p \<le> t" "0 < t" "t < 4294967296"
  shows "\<exists>s'. update_network_monitor api (of_nat t) s = Some s' \<and>
    (decided s s' \<or> in_batch t s' \<and> rank t s' + (if p < t then 1 else 0) \<le> rank p s)"
proof -
  have o: "open_ping_pcb api s = Some s" using b by (auto simp: in_batch_def open_ping_pcb_def split: option.splits)
  have d: "unat (of_nat t - last_packet_sent_tick s :: u32) = t - unat (last_packet_sent_tick s)"
    "unat (of_nat t - wait_start s :: u32) = t - unat (wait_start s)" "unat (of_nat t :: u32) = t"
    using b t unat_tick_diff [of t] by (simp_all add: in_batch_def unat_of_nat_u32)
  have nz: "(of_nat t :: u32) \<noteq> 0" using t of_nat_neq_0_u32 by simp
  obtain l where l: "send_ping_packet api ping_target s = s\<lparr>stack := l, pings_sent := pings_sent s + 1\<rparr>"
    using send_ping_packet_frame [OF alloc] by blast
  consider (few) "pings_sent s < 4" | (start) "pings_sent s = 4" "wait_start s = 0" | (wait) "pings_sent s = 4" "wait_start s \<noteq> 0"
    using b by (fastforce simp: in_batch_def)
  then show ?thesis
  proof cases
    case few
    show ?thesis
    proof (cases "t - unat (last_packet_sent_tick s) > 15")
      case True
      then show ?thesis using few b o l d t
        by (auto simp: update_network_monitor_def in_batch_def rank_def decided_def word_less_nat_alt nat_diff_distrib')
    next
      case False
      then show ?thesis using few b o d t
        by (auto simp: update_network_monitor_def in_batch_def rank_def decided_def word_less_nat_alt)
    qed
  next
    case start
    then show ?thesis using b o d t nz by (auto simp: update_network_monitor_def in_batch_def rank_def)
  next
    case wait
    then show ?thesis using b o d t
      by (auto simp: update_network_monitor_def in_batch_def rank_def decided_def word_less_nat_alt Let_def)
  qed
qed

lemma packet_step: "in_batch p s \<Longrightarrow> in_batch p (snd (ping_recv_cb api b bytes s)) \<and> rank p (snd (ping_recv_cb api b bytes s)) = rank p s"
  by (simp add: ping_recv_cb_def in_batch_def rank_def Let_def)

lemma new_ticks: "sorted (p # t # ts) \<Longrightarrow> card (set (t # ts) - {p}) = (if p < t then 1 else 0) + card (set ts - {t :: nat})"
proof (cases "p = t")
  case False
  moreover assume s: "sorted (p # t # ts)"
  ultimately have "set (t # ts) - {p} = insert t (set ts - {t})" "p < t" by auto
  then show ?thesis by (simp del: insert_Diff_single)
qed simp

lemma batch_ends:
  assumes "\<forall>l. fst (pbuf_alloc api 8 l) \<noteq> None" and "in_batch p s" and "sorted (p # ticks es)"
    and "\<forall>t \<in> set (ticks es). 0 < t \<and> t < 4294967296" and "rank p s < card (set (ticks es) - {p})"
  shows "\<exists>pre t post s1 s2. es = pre @ Tick t # post \<and> run api pre s = Some s1 \<and>
    handle api (Tick t) s1 = Some s2 \<and> decided s1 s2"
  using assms(2-)
proof (induction es arbitrary: p s)
  case (Cons e es)
  show ?case
  proof (cases e)
    case (Tick t)
    obtain s' where u: "update_network_monitor api (of_nat t) s = Some s'"
        "decided s s' \<or> in_batch t s' \<and> rank t s' + (if p < t then 1 else 0) \<le> rank p s"
      using tick_step [OF assms(1) Cons.prems(1), of t] Cons.prems(2,3) Tick by auto
    show ?thesis
    proof (cases "decided s s'")
      case True
      then show ?thesis using u(1) Tick by (intro exI [of _ "[]"]) auto
    next
      case False
      have "sorted (t # ticks es)" using Cons.prems(2) Tick by simp
      moreover have "rank t s' < card (set (ticks es) - {t})"
        using u(2) False Cons.prems(2,4) new_ticks [of p t "ticks es"] Tick by (auto split: if_splits)
      ultimately obtain pre t' post s1 s2 where "es = pre @ Tick t' # post" "run api pre s' = Some s1"
          "handle api (Tick t') s1 = Some s2" "decided s1 s2"
        using Cons.IH [of t s'] u(2) False Cons.prems(3) Tick by auto
      then show ?thesis using u(1) Tick by (intro exI [of _ "e # pre"]) auto
    qed
  next
    case (Packet b bytes)
    let ?s = "snd (ping_recv_cb api b bytes s)"
    obtain pre t' post s1 s2 where "es = pre @ Tick t' # post" "run api pre ?s = Some s1"
        "handle api (Tick t') s1 = Some s2" "decided s1 s2"
      using Cons.IH [of p ?s] packet_step [OF Cons.prems(1), of api b bytes] Cons.prems(2-) Packet by auto
    then show ?thesis using Packet by (intro exI [of _ "e # pre"]) auto
  qed
qed simp

text \<open>C38. A batch that has begun is decided: whatever packets arrive in between, once the main loop has called
  the monitor on 171 further ticks of the clock, some call has ended the batch, and it has set the status to
  connected exactly when four replies had been counted.\<close>

theorem monitor_decides:
  assumes "\<forall>l. fst (pbuf_alloc api 8 l) \<noteq> None" and "in_batch p s" and "sorted (p # ticks es)"
    and "\<forall>t \<in> set (ticks es). 0 < t \<and> t < 4294967296" and "170 < card (set (ticks es) - {p})"
  shows "\<exists>pre t post s1 s2. es = pre @ Tick t # post \<and> run api pre s = Some s1 \<and>
    update_network_monitor api (of_nat t) s1 = Some s2 \<and> pings_sent s1 = 4 \<and> pings_sent s2 = 0 \<and>
    current_net_status s2 = (if pings_received s1 = 4 then NET_STATUS_CONNECTED else NET_STATUS_DISCONNECTED)"
proof -
  have "rank p s \<le> 170" using assms(2) by (auto simp: rank_def in_batch_def)
  then show ?thesis using batch_ends [OF assms(1-4)] assms(5) by (fastforce simp: decided_def)
qed

theorem monitor_decides_witness:
  "\<exists>pre t post s1 s2. map Tick [1..<200] = pre @ Tick t # post \<and>
    run quiet_api pre (the (update_network_monitor quiet_api 1 netmon_start)) = Some s1 \<and>
    update_network_monitor quiet_api (of_nat t) s1 = Some s2 \<and> pings_sent s2 = 0"
proof -
  let ?s = "the (update_network_monitor quiet_api 1 netmon_start)"
  have t: "ticks (map Tick ns) = ns" for ns by (induction ns) auto
  have "in_batch 1 ?s"
    by (simp add: update_network_monitor_def open_ping_pcb_def send_ping_packet_def quiet_api_def netmon_start_def in_batch_def Let_def)
  moreover have "set [1..<200] - {1} = {2..<200 :: nat}" by auto
  ultimately show ?thesis
    using monitor_decides [of quiet_api 1 ?s "map Tick [1..<200]"] by (fastforce simp: t quiet_api_def)
qed

end
