(* ===== verification/Ip4_Addr.thy ===== *)
theory Ip4_Addr
  imports Inet_Chksum Libc
begin

text \<open>
  IPv4 addresses of lwIP (\<open>src/network/lwip/src/core/ipv4/ip4_addr.c\<close>): the broadcast and netmask tests, the
  parser of dotted addresses and the printer.  A C string is the list of its characters, its end standing for
  the terminator.  Character classes go through the table that \<open>src/kernel.c\<close> supplies for \<open>ctype.h\<close>, in which
  only the digits are marked.
\<close>

section \<open>The code\<close>

definition lwip_htonl :: "u32 \<Rightarrow> u32" where
  "lwip_htonl x = push_bit 24 (x AND 0x000000ff) OR push_bit 8 (x AND 0x0000ff00) OR
    drop_bit 8 (x AND 0x00ff0000) OR drop_bit 24 (x AND 0xff000000)"

record netif_addr =
  ip_addr :: u32
  netmask :: u32
  flags :: u8

definition NETIF_FLAG_BROADCAST :: u8 where "NETIF_FLAG_BROADCAST = 0x02"
definition IPADDR_ANY :: u32 where "IPADDR_ANY = 0"
definition IPADDR_BROADCAST :: u32 where "IPADDR_BROADCAST = 0xffffffff"
definition IPADDR_NONE :: u32 where "IPADDR_NONE = 0xffffffff"
definition IP4ADDR_STRLEN_MAX :: nat where "IP4ADDR_STRLEN_MAX = 16"

definition ip4_addr_net_eq :: "u32 \<Rightarrow> u32 \<Rightarrow> u32 \<Rightarrow> bool" where
  "ip4_addr_net_eq addr1 addr2 nm \<longleftrightarrow> addr1 AND nm = addr2 AND nm"

definition ip4_addr_isbroadcast_u32 :: "u32 \<Rightarrow> netif_addr \<Rightarrow> u8" where
  "ip4_addr_isbroadcast_u32 addr nif = (
    if NOT addr = IPADDR_ANY \<or> addr = IPADDR_ANY then 1
    else if flags nif AND NETIF_FLAG_BROADCAST = 0 then 0
    else if addr = ip_addr nif then 0
    else if ip4_addr_net_eq addr (ip_addr nif) (netmask nif) \<and>
            addr AND NOT (netmask nif) = IPADDR_BROADCAST AND NOT (netmask nif) then 1
    else 0)"

text \<open>The two loops of the netmask test; both halve the mask until it is gone.\<close>

function first_zero :: "u32 \<Rightarrow> u32 \<Rightarrow> u32" where
  "first_zero nm m = (if m = 0 then 0 else if nm AND m = 0 then m else first_zero nm (drop_bit 1 m))"
  by pat_completeness auto

lemma drop_bit_1_less: "m \<noteq> 0 \<Longrightarrow> unat (drop_bit 1 (m :: u32)) < unat m"
  by (simp add: drop_bit_eq_div unat_div_distrib unat_gt_0)

termination first_zero
  by (relation "measure (\<lambda>(nm, m). unat m)") (simp_all add: drop_bit_1_less [unfolded One_nat_def])

function no_one_after :: "u32 \<Rightarrow> u32 \<Rightarrow> bool" where
  "no_one_after nm m = (if m = 0 then True else if nm AND m \<noteq> 0 then False else no_one_after nm (drop_bit 1 m))"
  by pat_completeness auto

termination no_one_after
  by (relation "measure (\<lambda>(nm, m). unat m)") (simp_all add: drop_bit_1_less [unfolded One_nat_def])

declare first_zero.simps [simp del] no_one_after.simps [simp del]

definition ip4_addr_netmask_valid :: "u32 \<Rightarrow> u8" where
  "ip4_addr_netmask_valid nm = (
    let nm_hostorder = lwip_htonl nm;
        m = first_zero nm_hostorder (push_bit 31 1)
    in if no_one_after nm_hostorder m then 1 else 0)"

text \<open>The classes of \<open>ctype.h\<close> as bits in the table.\<close>

definition lwip_isdigit :: "char \<Rightarrow> bool" where "lwip_isdigit c \<longleftrightarrow> ctype_b_data (of_char c) AND 0x0800 \<noteq> 0"
definition lwip_isxdigit :: "char \<Rightarrow> bool" where "lwip_isxdigit c \<longleftrightarrow> ctype_b_data (of_char c) AND 0x1000 \<noteq> 0"
definition lwip_isspace :: "char \<Rightarrow> bool" where "lwip_isspace c \<longleftrightarrow> ctype_b_data (of_char c) AND 0x2000 \<noteq> 0"
definition lwip_islower :: "char \<Rightarrow> bool" where "lwip_islower c \<longleftrightarrow> ctype_b_data (of_char c) AND 0x0200 \<noteq> 0"

definition char_u32 :: "char \<Rightarrow> u32" where
  "char_u32 c = of_nat (of_char c)"

text \<open>The digits of one part.\<close>

fun aton_number :: "u32 \<Rightarrow> u32 \<Rightarrow> string \<Rightarrow> u32 \<times> string" where
  "aton_number base val [] = (val, [])"
| "aton_number base val (c # cp) = (
    if lwip_isdigit c then
      if base = 8 \<and> char_u32 c - char_u32 CHR ''0'' \<ge> 8 then (val, c # cp)
      else aton_number base (val * base + (char_u32 c - char_u32 CHR ''0'')) cp
    else if base = 16 \<and> lwip_isxdigit c then
      aton_number base (push_bit 4 val OR (char_u32 c + 10 - (if lwip_islower c then char_u32 CHR ''a'' else char_u32 CHR ''A''))) cp
    else (val, c # cp))"

definition aton_base :: "string \<Rightarrow> u32 \<times> string" where
  "aton_base cp = (case cp of
      c # r \<Rightarrow> if c = CHR ''0'' then
          (case r of d # r' \<Rightarrow> if d = CHR ''x'' \<or> d = CHR ''X'' then (16, r') else (8, r) | [] \<Rightarrow> (8, []))
        else (10, cp)
    | [] \<Rightarrow> (10, []))"

text \<open>The parts: those before the last, the last, and what follows; \<^const>\<open>None\<close> is the result 0.\<close>

function aton_parts :: "u32 list \<Rightarrow> string \<Rightarrow> (u32 list \<times> u32 \<times> string) option" where
  "aton_parts parts cp = (
    if cp = [] \<or> \<not> lwip_isdigit (hd cp) then None
    else let (base, cp1) = aton_base cp; (val, rest) = aton_number base 0 cp1 in
      if rest \<noteq> [] \<and> hd rest = CHR ''.'' then
        if length parts \<ge> 3 then None else aton_parts (parts @ [val]) (tl rest)
      else Some (parts, val, rest))"
  by pat_completeness auto

lemma aton_number_length: "aton_number base val cp = (v, rest) \<Longrightarrow> length rest \<le> length cp"
  by (induction base val cp rule: aton_number.induct) (auto split: if_splits)

lemma aton_base_length: "aton_base cp = (base, cp1) \<Longrightarrow> length cp1 \<le> length cp"
  by (auto simp: aton_base_def split: list.splits if_splits)

termination aton_parts
proof (relation "measure (\<lambda>(parts, cp). length cp)")
  fix parts :: "u32 list" and cp cp1 rest :: string and x y base val
  assume "x = aton_base cp" "(base, cp1) = x" "y = aton_number base 0 cp1" "(val, rest) = y" "rest \<noteq> [] \<and> hd rest = CHR ''.''"
  then have "length rest \<le> length cp" "rest \<noteq> []"
    using aton_number_length [of base 0 cp1 val rest] aton_base_length [of cp base cp1] by simp_all
  then show "((parts @ [val], tl rest), (parts, cp)) \<in> measure (\<lambda>(parts, cp). length cp)" by (cases rest) auto
qed simp

declare aton_parts.simps [simp del]

definition ip4addr_aton :: "string \<Rightarrow> u32 option" where
  "ip4addr_aton cp = do {
    (parts, val, rest) \<leftarrow> aton_parts [] cp;
    if rest \<noteq> [] \<and> hd rest \<noteq> CHR 0x00 \<and> \<not> lwip_isspace (hd rest) then None
    else case parts of
      [] \<Rightarrow> Some (lwip_htonl val)
    | [a] \<Rightarrow> if val > 0xffffff \<or> a > 0xff then None else Some (lwip_htonl (val OR push_bit 24 a))
    | [a, b] \<Rightarrow> if val > 0xffff \<or> a > 0xff \<or> b > 0xff then None
        else Some (lwip_htonl (val OR (push_bit 24 a OR push_bit 16 b)))
    | [a, b, c] \<Rightarrow> if val > 0xff \<or> a > 0xff \<or> b > 0xff \<or> c > 0xff then None
        else Some (lwip_htonl (val OR (push_bit 24 a OR push_bit 16 b OR push_bit 8 c)))
    | _ \<Rightarrow> None
  }"

definition ipaddr_addr :: "string \<Rightarrow> u32" where
  "ipaddr_addr cp = (case ip4addr_aton cp of Some v \<Rightarrow> v | None \<Rightarrow> IPADDR_NONE)"

text \<open>The digits of a byte, as the inner loop stores them: the lowest first.\<close>

function inv_digits :: "u8 \<Rightarrow> string" where
  "inv_digits b = (let d = char_of (48 + unat (b mod 10)); b' = b div 10 in if b' \<noteq> 0 then d # inv_digits b' else [d])"
  by pat_completeness auto

lemma div_10_less: "b div 10 \<noteq> 0 \<Longrightarrow> unat ((b :: u8) div 10) < unat b"
proof -
  assume "b div 10 \<noteq> 0"
  then have "b \<noteq> 0" by auto
  then show ?thesis by (simp add: unat_div_distrib unat_gt_0)
qed

termination inv_digits
  by (relation "measure unat") (auto simp: div_10_less)

declare inv_digits.simps [simp del]

text \<open>Writing into the buffer, which holds \<open>buflen\<close> characters.\<close>

fun emit :: "nat \<Rightarrow> string \<Rightarrow> string \<Rightarrow> string option" where
  "emit buflen [] out = Some out"
| "emit buflen (c # cs) out = (if length out \<ge> buflen then None else emit buflen cs (out @ [c]))"

fun ntoa_bytes :: "nat \<Rightarrow> u8 list \<Rightarrow> string \<Rightarrow> string option" where
  "ntoa_bytes buflen [] out = Some out"
| "ntoa_bytes buflen (b # bs) out = do {
    out \<leftarrow> emit buflen (rev (inv_digits b)) out;
    out \<leftarrow> emit buflen ''.'' out;
    ntoa_bytes buflen bs out
  }"

text \<open>The last dot is overwritten by the terminator.\<close>

definition ip4addr_ntoa_r :: "u32 \<Rightarrow> nat \<Rightarrow> string option" where
  "ip4addr_ntoa_r addr buflen = do {
    out \<leftarrow> ntoa_bytes buflen (addr_bytes addr) [];
    Some (butlast out)
  }"

definition ip4addr_ntoa :: "u32 \<Rightarrow> string option" where
  "ip4addr_ntoa addr = ip4addr_ntoa_r addr IP4ADDR_STRLEN_MAX"

section \<open>Netmasks\<close>

lemma half_power:
  assumes "Suc i < 32"
  shows "(2 :: u32) ^ Suc i \<noteq> 0" "drop_bit 1 ((2 :: u32) ^ Suc i) = 2 ^ i"
proof -
  show "(2 :: u32) ^ Suc i \<noteq> 0" using assms exp_eq_0_imp_not_bit [of "Suc i" "- 1 :: u32"] by (auto simp del: power_Suc)
  show "drop_bit 1 ((2 :: u32) ^ Suc i) = 2 ^ i"
    using assms by (intro bit_word_eqI) (auto simp: bit_simps simp del: power_Suc)
qed

lemma no_one_after_bit: "i < 32 \<Longrightarrow> no_one_after h (2 ^ i) \<longleftrightarrow> (\<forall>l \<le> i. \<not> bit h l)"
proof (induction i)
  case 0
  then show ?case by (subst no_one_after.simps, subst no_one_after.simps) (simp add: and_exp_eq_0_iff_not_bit [of _ 0, simplified])
next
  case (Suc i)
  have n: "(2 :: u32) ^ Suc i \<noteq> 0" "drop_bit 1 ((2 :: u32) ^ Suc i) = 2 ^ i"
    using Suc.prems half_power by simp_all
  show ?case using Suc n by (subst no_one_after.simps) (auto simp: and_exp_eq_0_iff_not_bit le_Suc_eq simp del: power_Suc)
qed

lemma first_zero_bit:
  "i < 32 \<Longrightarrow> first_zero h (2 ^ i) = 0 \<and> (\<forall>l \<le> i. bit h l) \<or>
    (\<exists>j \<le> i. first_zero h (2 ^ i) = 2 ^ j \<and> \<not> bit h j \<and> (\<forall>l. j < l \<and> l \<le> i \<longrightarrow> bit h l))"
proof (induction i)
  case 0
  then show ?case by (subst (1 2) first_zero.simps, subst (1 2) first_zero.simps) (auto simp: and_exp_eq_0_iff_not_bit [of _ 0, simplified])
next
  case (Suc i)
  have n: "(2 :: u32) ^ Suc i \<noteq> 0" "drop_bit 1 ((2 :: u32) ^ Suc i) = 2 ^ i"
    using Suc.prems half_power by simp_all
  show ?case
  proof (cases "bit h (Suc i)")
    case True
    then have "first_zero h (2 ^ Suc i) = first_zero h (2 ^ i)"
      using n by (subst first_zero.simps) (simp add: and_exp_eq_0_iff_not_bit del: power_Suc)
    then show ?thesis using Suc True by (auto simp: le_Suc_eq simp del: power_Suc)
  next
    case False
    then have "first_zero h (2 ^ Suc i) = 2 ^ Suc i"
      using n by (subst first_zero.simps) (simp add: and_exp_eq_0_iff_not_bit del: power_Suc)
    then show ?thesis using False by (intro disjI2 exI [of _ "Suc i"]) auto
  qed
qed

lemma eq_not_mask: "h = NOT (mask k) \<longleftrightarrow> (\<forall>l \<le> 31. bit (h :: u32) l = (k \<le> l))"
proof
  show "h = NOT (mask k)" if "\<forall>l \<le> 31. bit h l = (k \<le> l)"
    using that by (intro bit_word_eqI) (simp add: bit_simps not_less)
  show "\<forall>l \<le> 31. bit h l = (k \<le> l)" if "h = NOT (mask k)"
    unfolding that by (simp add: bit_simps not_less)
qed

lemma zeros_below:
  assumes "j \<le> 31" and "\<forall>l. j < l \<and> l \<le> 31 \<longrightarrow> bit (h :: u32) l"
  shows "(\<forall>l \<le> j. \<not> bit h l) \<longleftrightarrow> h = NOT (mask (Suc j))"
proof
  assume a: "\<forall>l \<le> j. \<not> bit h l"
  have "bit h l = (Suc j \<le> l)" if "l \<le> 31" for l
    using a assms(2) that by (cases "l \<le> j") (simp_all add: not_le Suc_le_eq)
  then show "h = NOT (mask (Suc j))" unfolding eq_not_mask by blast
next
  assume "h = NOT (mask (Suc j))"
  then show "\<forall>l \<le> j. \<not> bit h l" using assms(1) by (simp add: eq_not_mask)
qed

text \<open>The netmask test accepts exactly the masks that are, in host order, ones followed by zeros.\<close>

theorem netmask_valid_iff:
  "ip4_addr_netmask_valid nm = 1 \<longleftrightarrow> (\<exists>k. k \<le> 32 \<and> lwip_htonl nm = NOT (mask k))"
proof -
  define h where "h = lwip_htonl nm"
  define m where "m = first_zero h (2 ^ 31)"
  have v: "ip4_addr_netmask_valid nm = 1 \<longleftrightarrow> no_one_after h m"
    by (simp add: ip4_addr_netmask_valid_def push_bit_eq_mult Let_def h_def m_def)
  have "m = 0 \<and> (\<forall>l \<le> 31. bit h l) \<or> (\<exists>j \<le> 31. m = 2 ^ j \<and> \<not> bit h j \<and> (\<forall>l. j < l \<and> l \<le> 31 \<longrightarrow> bit h l))"
    unfolding m_def by (rule first_zero_bit) simp
  then consider (ones) "m = 0" "\<forall>l \<le> 31. bit h l"
    | (zero) j where "j \<le> 31" "m = 2 ^ j" "\<not> bit h j" "\<forall>l. j < l \<and> l \<le> 31 \<longrightarrow> bit h l"
    by blast
  then have "no_one_after h m \<longleftrightarrow> (\<exists>k. k \<le> 32 \<and> h = NOT (mask k))"
  proof cases
    case ones
    then have "no_one_after h m" by (subst no_one_after.simps) simp
    moreover have "h = NOT (mask 0)" using ones(2) by (simp only: eq_not_mask) simp
    ultimately show ?thesis by blast
  next
    case zero
    have n: "no_one_after h m \<longleftrightarrow> (\<forall>l \<le> j. \<not> bit h l)" unfolding zero(2) using zero(1) by (intro no_one_after_bit) simp
    note e = zeros_below [OF zero(1,4)]
    have u: "k = Suc j" if k: "k \<le> 32" "h = NOT (mask k)" for k
    proof -
      note b = iffD1 [OF eq_not_mask k(2), rule_format]
      have "\<not> k \<le> j" using b [of j] zero(1,3) by simp
      moreover have "k \<le> Suc j" if "j < 31" using b [of "Suc j"] zero(4) that by simp
      ultimately show ?thesis using zero(1) k(1) by linarith
    qed
    have s: "Suc j \<le> 32" using zero(1) by simp
    show ?thesis unfolding n e using s u by (intro iffI exI [of _ "Suc j"] conjI) (assumption | elim exE conjE, simp)+
  qed
  then show ?thesis unfolding v h_def .
qed

section \<open>Printing and parsing\<close>

lemma digit_chars:
  "\<forall>d \<in> set [0..<10]. lwip_isdigit (char_of (48 + d :: nat)) \<and> char_u32 (char_of (48 + d)) - char_u32 CHR ''0'' = of_nat d \<and>
    (char_of (48 + d) = CHR ''0'' \<longleftrightarrow> d = 0)"
  by code_simp

lemma digit_char:
  assumes "d < 10"
  shows "lwip_isdigit (char_of (48 + d :: nat))" "char_u32 (char_of (48 + d)) - char_u32 CHR ''0'' = of_nat d"
    "char_of (48 + d) = CHR ''0'' \<longleftrightarrow> d = 0"
  using digit_chars assms by auto

lemma dot_not_digit [simp]: "\<not> lwip_isdigit CHR ''.''"
  by (simp add: lwip_isdigit_def ctype_b_data_def)

definition text_of :: "u8 \<Rightarrow> string" where
  "text_of b = rev (inv_digits b)"

lemma text_of_step: "text_of b = (if b div 10 \<noteq> 0 then text_of (b div 10) else []) @ [char_of (48 + unat (b mod 10))]"
  unfolding text_of_def by (subst inv_digits.simps) (simp add: Let_def)

lemma unat_mod_10: "unat ((b :: u8) mod 10) = unat b mod 10"
  by (simp add: unat_mod_distrib)

lemma unat_div_10: "unat ((b :: u8) div 10) = unat b div 10"
  by (simp add: unat_div_distrib)

lemma text_of_hd: "\<exists>c cs. text_of b = c # cs \<and> lwip_isdigit c \<and> (c = CHR ''0'' \<longleftrightarrow> b = 0)"
proof (induction b rule: inv_digits.induct)
  case (1 b)
  have d: "unat (b mod 10) < 10" by (simp add: unat_mod_10)
  show ?case
  proof (cases "b div 10 = 0")
    case True
    then have "unat b div 10 = 0" using unat_div_10 [of b] by simp
    then have "unat (b mod 10) = unat b" by (simp add: unat_mod_10 div_eq_0_iff)
    then show ?thesis using digit_char [OF d] True text_of_step [of b] by (simp add: unat_eq_0)
  next
    case False
    then obtain c cs where "text_of (b div 10) = c # cs" "lwip_isdigit c" "c = CHR ''0'' \<longleftrightarrow> b div 10 = 0"
      using 1 [OF refl refl False] by blast
    moreover have "b \<noteq> 0" using False by auto
    ultimately show ?thesis using False text_of_step [of b] by simp
  qed
qed

lemma length_text_of: "length (text_of b) \<le> 3"
proof -
  have "unat b < 256" by (rule unat_lt_u8)
  then have "b div 10 div 10 div 10 = 0" by (simp add: word_unat_eq_iff unat_div_10)
  then show ?thesis using text_of_step [of b] text_of_step [of "b div 10"] text_of_step [of "b div 10 div 10"] by simp
qed

lemma aton_number_text: "aton_number 10 0 (text_of b @ rest) = aton_number 10 (ucast b) rest"
proof (induction b arbitrary: rest rule: inv_digits.induct)
  case (1 b)
  let ?d = "unat (b mod 10)"
  have d: "?d < 10" by (simp add: unat_mod_10)
  have "unat b div 10 * 10 + ?d = unat b" by (simp add: unat_mod_10)
  moreover have "unat b < 256" "unat b div 10 < 26" using unat_lt_u8 [of b] by simp_all
  ultimately have v: "ucast (b div 10) * 10 + of_nat ?d = (ucast b :: u32)"
    by (simp add: word_unat_eq_iff unat_word_ariths unsigned_ucast_eq take_bit_nat_eq_self unat_div_10 unat_of_nat)
  show ?case
  proof (cases "b div 10 = 0")
    case True
    then show ?thesis using digit_char [OF d] v text_of_step [of b] by simp
  next
    case False
    then have "aton_number 10 0 (text_of b @ rest) = aton_number 10 (ucast (b div 10)) (char_of (48 + ?d) # rest)"
      using 1 [OF refl refl, of "char_of (48 + ?d) # rest"] text_of_step [of b] by simp
    then show ?thesis using digit_char [OF d] v by simp
  qed
qed

lemma aton_part:
  assumes "rest = [] \<or> (\<exists>r. rest = CHR ''.'' # r)"
  shows "(let (base, cp1) = aton_base (text_of b @ rest) in aton_number base 0 cp1) = (ucast b, rest)"
proof (cases "b = 0")
  case True
  then have "text_of b = ''0''" using digit_char(3) [of 0] by (simp add: text_of_step [of 0])
  then show ?thesis using assms True by (auto simp: aton_base_def)
next
  case False
  then have "aton_base (text_of b @ rest) = (10, text_of b @ rest)"
    using text_of_hd [of b] by (auto simp: aton_base_def)
  then show ?thesis using assms by (auto simp: aton_number_text)
qed

lemma aton_parts_dot:
  assumes "length parts < 3"
  shows "aton_parts parts (text_of b @ CHR ''.'' # r) = aton_parts (parts @ [ucast b]) r"
  using aton_part [of "CHR ''.'' # r" b] text_of_hd [of b] assms
  by (subst aton_parts.simps) (auto split: prod.splits)

lemma aton_parts_end: "aton_parts parts (text_of b) = Some (parts, ucast b, [])"
  using aton_part [of "[]" b] text_of_hd [of b] by (subst aton_parts.simps) (auto split: prod.splits)

lemma emit_fits: "length out + length cs \<le> buflen \<Longrightarrow> emit buflen cs out = Some (out @ cs)"
  by (induction cs arbitrary: out) auto

lemma ntoa_bytes_fits:
  "length out + length (concat (map (\<lambda>b. text_of b @ ''.'') bs)) \<le> buflen \<Longrightarrow>
    ntoa_bytes buflen bs out = Some (out @ concat (map (\<lambda>b. text_of b @ ''.'') bs))"
  by (induction bs arbitrary: out) (simp_all add: emit_fits text_of_def)

lemma bit_htonl:
  assumes "n < 32"
  shows "bit (lwip_htonl x) n \<longleftrightarrow> bit x (if n < 8 then n + 24 else if n < 16 then n + 8 else if n < 24 then n - 8 else n - 24)"
proof -
  have m: "(0x000000ff :: u32) = mask 8" "(0x0000ff00 :: u32) = push_bit 8 (mask 8)"
    "(0x00ff0000 :: u32) = push_bit 16 (mask 8)" "(0xff000000 :: u32) = push_bit 24 (mask 8)"
    by (simp_all add: mask_eq_exp_minus_1)
  consider "n < 8" | "8 \<le> n" "n < 16" | "16 \<le> n" "n < 24" | "24 \<le> n" "n < 32" using assms by linarith
  then show ?thesis unfolding lwip_htonl_def m by cases (simp_all add: bit_simps less_diff_conv2 le_diff_conv2 add.commute)
qed

lemma htonl_bytes: "lwip_htonl (ucast (ucast (drop_bit 24 a) :: u8) OR (push_bit 24 (ucast (ucast a :: u8)) OR
    push_bit 16 (ucast (ucast (drop_bit 8 a) :: u8)) OR push_bit 8 (ucast (ucast (drop_bit 16 a) :: u8)))) = a" (is "lwip_htonl ?v = a")
proof (rule bit_word_eqI)
  fix n
  assume "n < LENGTH(32)"
  then have n: "n < 32" by simp
  consider "n < 8" | "8 \<le> n" "n < 16" | "16 \<le> n" "n < 24" | "24 \<le> n" "n < 32" using n by linarith
  then show "bit (lwip_htonl ?v) n = bit a n" unfolding bit_htonl [OF n] by cases (simp_all add: bit_simps less_diff_conv2 le_diff_conv2 add.commute)
qed

text \<open>C39. Printing an address and parsing the text gives the address back, for every address; the text always
  fits the static buffer of the printer.\<close>

theorem ntoa_aton_roundtrip:
  "\<exists>s. ip4addr_ntoa addr = Some s \<and> length s < IP4ADDR_STRLEN_MAX \<and> ip4addr_aton s = Some addr \<and> ipaddr_addr s = addr"
proof -
  let ?b = "\<lambda>i. ucast (drop_bit i addr) :: u8"
  let ?s = "text_of (ucast addr) @ ''.'' @ text_of (?b 8) @ ''.'' @ text_of (?b 16) @ ''.'' @ text_of (?b 24)"
  have l: "length ?s \<le> 15"
    using length_text_of [of "ucast addr"] length_text_of [of "?b 8"] length_text_of [of "?b 16"] length_text_of [of "?b 24"]
    by simp
  have "ip4addr_ntoa addr = Some ?s"
    using ntoa_bytes_fits [of "[]" "addr_bytes addr" 16] l
    by (simp add: ip4addr_ntoa_def ip4addr_ntoa_r_def IP4ADDR_STRLEN_MAX_def addr_bytes_def butlast_append)
  moreover have "aton_parts [] ?s = Some ([ucast (ucast addr :: u8), ucast (?b 8), ucast (?b 16)], ucast (?b 24), [])"
    by (simp add: aton_parts_dot aton_parts_end)
  moreover have "\<not> (ucast (b :: u8) :: u32) > 0xff" for b
    using unat_lt_u8 [of b] by (simp add: word_less_nat_alt unsigned_ucast_eq take_bit_nat_eq_self)
  ultimately show ?thesis
    using l htonl_bytes [of addr] by (simp add: ip4addr_aton_def ipaddr_addr_def IP4ADDR_STRLEN_MAX_def)
qed

end
