(* ===== verification/Timeouts.thy ===== *)
theory Timeouts
  imports Prelude "HOL-Library.Multiset"
begin

text \<open>
  The timeouts of lwIP (\<open>src/network/lwip/src/core/timeouts.c\<close>), which the main loop of \<open>kernel.c\<close> polls: a list of
  pending timeouts ordered by their wrapping 32-bit times, and the cyclic timers of the stack.
\<close>

section \<open>Definitions\<close>

definition LWIP_MAX_TIMEOUT :: u32 where "LWIP_MAX_TIMEOUT = 0x7fffffff"

definition TIME_LESS_THAN :: "u32 \<Rightarrow> u32 \<Rightarrow> bool" where
  "TIME_LESS_THAN t compare_to \<longleftrightarrow> t - compare_to > LWIP_MAX_TIMEOUT"

text \<open>Handlers and their arguments: the argument of \<open>lwip_cyclic_timer\<close> is an entry of the table.\<close>

datatype timer_handler = No_handler | Tcpip_tcp_timer | Lwip_cyclic_timer | User_handler nat

record sys_timeo =
  t_time :: u32
  t_h :: timer_handler
  t_arg :: nat

text \<open>The intervals of \<open>lwip_cyclic_timers\<close> as \<open>lwipopts.h\<close> configures it: TCP, IP reassembly, ARP and the two of DHCP.\<close>

definition lwip_cyclic_timers :: "u32 list" where
  "lwip_cyclic_timers = [250, 1000, 1000, 60000, 500]"

text \<open>The state of the module.  The pool of timeouts is the number of free elements; \<open>fake_ticks\<close> is the counter of
  \<open>sys_now\<close> (\<open>src/network/port/arch/cc.h\<close>) in this file; \<open>stack\<close> is the rest of the network stack.\<close>

record 's timers =
  next_timeout :: "sys_timeo list"
  free_timeouts :: nat
  current_timeout_due_time :: u32
  tcpip_tcp_timer_active :: bool
  fake_ticks :: u32
  stack :: 's

text \<open>What the module calls: the handlers of the table, the callbacks of other users, and whether there are TCP
  connections, and \<open>PBUF_CHECK_FREE_OOSEQ\<close>, which frees queued packets when the pool of packets ran empty.  \<^const>\<open>None\<close> is a call that does not return.\<close>

record 's timer_env =
  tcp_tmr :: "'s timers \<Rightarrow> 's timers option"
  tcp_pcbs :: "'s \<Rightarrow> bool"
  cyclic_tmr :: "nat \<Rightarrow> 's timers \<Rightarrow> 's timers option"
  user_tmr :: "nat \<Rightarrow> nat \<Rightarrow> 's timers \<Rightarrow> 's timers option"
  check_free_ooseq :: "'s \<Rightarrow> 's"

definition sys_now :: "'s timers \<Rightarrow> u32 \<times> 's timers" where
  "sys_now st = (fake_ticks st, st\<lparr>fake_ticks := fake_ticks st + 1\<rparr>)"

text \<open>The search for the place of a new timeout.\<close>

fun insert_behind :: "sys_timeo \<Rightarrow> sys_timeo \<Rightarrow> sys_timeo list \<Rightarrow> sys_timeo list" where
  "insert_behind x t [] = [t, x]"
| "insert_behind x t (u # us) = (if TIME_LESS_THAN (t_time x) (t_time u) then t # x # u # us else t # insert_behind x u us)"

fun insert_timeout :: "sys_timeo \<Rightarrow> sys_timeo list \<Rightarrow> sys_timeo list" where
  "insert_timeout x [] = [x]"
| "insert_timeout x (t # ts) = (if TIME_LESS_THAN (t_time x) (t_time t) then x # t # ts else insert_behind x t ts)"

text \<open>An empty pool fails the assertion, which does not return (\<open>LWIP_PLATFORM_ASSERT\<close> of \<open>cc.h\<close>).\<close>

definition sys_timeout_abs :: "u32 \<Rightarrow> timer_handler \<Rightarrow> nat \<Rightarrow> 's timers \<Rightarrow> 's timers option" where
  "sys_timeout_abs abs_time handler arg st =
     (if free_timeouts st = 0 then None
      else Some (st\<lparr>free_timeouts := free_timeouts st - 1,
        next_timeout := insert_timeout \<lparr>t_time = abs_time, t_h = handler, t_arg = arg\<rparr> (next_timeout st)\<rparr>))"

definition sys_timeout :: "u32 \<Rightarrow> timer_handler \<Rightarrow> nat \<Rightarrow> 's timers \<Rightarrow> 's timers option" where
  "sys_timeout msecs handler arg st =
     (if msecs > 0xFFFFFFFF div 4 then None
      else let (now, st) = sys_now st in sys_timeout_abs (now + msecs) handler arg st)"

definition TCP_TMR_INTERVAL :: u32 where "TCP_TMR_INTERVAL = 250"

definition tcpip_tcp_timer :: "'s timer_env \<Rightarrow> 's timers \<Rightarrow> 's timers option" where
  "tcpip_tcp_timer E st = do {
     st \<leftarrow> tcp_tmr E st;
     if tcp_pcbs E (stack st) then sys_timeout TCP_TMR_INTERVAL Tcpip_tcp_timer 0 st
     else Some (st\<lparr>tcpip_tcp_timer_active := False\<rparr>)
   }"

definition tcp_timer_needed :: "'s timer_env \<Rightarrow> 's timers \<Rightarrow> 's timers option" where
  "tcp_timer_needed E st =
     (if \<not> tcpip_tcp_timer_active st \<and> tcp_pcbs E (stack st)
      then sys_timeout TCP_TMR_INTERVAL Tcpip_tcp_timer 0 (st\<lparr>tcpip_tcp_timer_active := True\<rparr>)
      else Some st)"

definition lwip_cyclic_timer :: "'s timer_env \<Rightarrow> nat \<Rightarrow> 's timers \<Rightarrow> 's timers option" where
  "lwip_cyclic_timer E arg st = do {
     st \<leftarrow> cyclic_tmr E arg st;
     let (now, st) = sys_now st;
     interval_ms \<leftarrow> get_at lwip_cyclic_timers arg;
     let next_timeout_time = current_timeout_due_time st + interval_ms;
     if TIME_LESS_THAN next_timeout_time now then sys_timeout_abs (now + interval_ms) Lwip_cyclic_timer arg st
     else sys_timeout_abs next_timeout_time Lwip_cyclic_timer arg st
   }"

fun init_timers :: "nat list \<Rightarrow> 's timers \<Rightarrow> 's timers option" where
  "init_timers [] st = Some st"
| "init_timers (i # is) st = do {
     interval_ms \<leftarrow> get_at lwip_cyclic_timers i;
     st \<leftarrow> sys_timeout interval_ms Lwip_cyclic_timer i st;
     init_timers is st
   }"

definition sys_timeouts_init :: "'s timers \<Rightarrow> 's timers option" where
  "sys_timeouts_init st = init_timers [1..<length lwip_cyclic_timers] st"

fun remove_timeout :: "timer_handler \<Rightarrow> nat \<Rightarrow> sys_timeo list \<Rightarrow> sys_timeo list option" where
  "remove_timeout handler arg [] = None"
| "remove_timeout handler arg (t # ts) =
     (if t_h t = handler \<and> t_arg t = arg then Some ts else map_option ((#) t) (remove_timeout handler arg ts))"

definition sys_untimeout :: "timer_handler \<Rightarrow> nat \<Rightarrow> 's timers \<Rightarrow> 's timers" where
  "sys_untimeout handler arg st = (case remove_timeout handler arg (next_timeout st) of
     None \<Rightarrow> st | Some ts \<Rightarrow> st\<lparr>next_timeout := ts, free_timeouts := free_timeouts st + 1\<rparr>)"

definition call_handler :: "'s timer_env \<Rightarrow> timer_handler \<Rightarrow> nat \<Rightarrow> 's timers \<Rightarrow> 's timers option" where
  "call_handler E h arg st = (case h of
     No_handler \<Rightarrow> Some st
   | Tcpip_tcp_timer \<Rightarrow> tcpip_tcp_timer E st
   | Lwip_cyclic_timer \<Rightarrow> lwip_cyclic_timer E arg st
   | User_handler n \<Rightarrow> user_tmr E n arg st)"

partial_function (option) check_loop :: "'s timer_env \<Rightarrow> u32 \<Rightarrow> 's timers \<Rightarrow> 's timers option" where
  "check_loop E now st = (let st = st\<lparr>stack := check_free_ooseq E (stack st)\<rparr> in case next_timeout st of
     [] \<Rightarrow> Some st
   | t # ts \<Rightarrow>
       if TIME_LESS_THAN now (t_time t) then Some st
       else do {
         st \<leftarrow> call_handler E (t_h t) (t_arg t)
           (st\<lparr>next_timeout := ts, current_timeout_due_time := t_time t, free_timeouts := free_timeouts st + 1\<rparr>);
         check_loop E now st
       })"

definition sys_check_timeouts :: "'s timer_env \<Rightarrow> 's timers \<Rightarrow> 's timers option" where
  "sys_check_timeouts E st = (let (now, st) = sys_now st in check_loop E now st)"

definition sys_restart_timeouts :: "'s timers \<Rightarrow> 's timers" where
  "sys_restart_timeouts st = (case next_timeout st of
     [] \<Rightarrow> st
   | b # _ \<Rightarrow> let (now, st) = sys_now st
       in st\<lparr>next_timeout := map (\<lambda>t. t\<lparr>t_time := t_time t - t_time b + now\<rparr>) (next_timeout st)\<rparr>)"

definition sys_timeouts_sleeptime :: "'s timers \<Rightarrow> (u32 \<times> 's timers) option" where
  "sys_timeouts_sleeptime st = (case next_timeout st of
     [] \<Rightarrow> Some (0xFFFFFFFF, st)
   | t # _ \<Rightarrow> let (now, st) = sys_now st
       in if TIME_LESS_THAN (t_time t) now then Some (0, st)
          else let ret = t_time t - now in if ret \<le> LWIP_MAX_TIMEOUT then Some (ret, st) else None)"

section \<open>Time\<close>

text \<open>The signed distance from one point of the wrapping time to another.\<close>

definition dist :: "u32 \<Rightarrow> u32 \<Rightarrow> int" where
  "dist a b = (let d = uint (a - b) in if d \<le> 0x7fffffff then d else d - 2 ^ 32)"

lemma less_dist: "TIME_LESS_THAN a b \<longleftrightarrow> dist a b < 0"
  using uint_lt2p [of "a - b"] by (simp add: TIME_LESS_THAN_def LWIP_MAX_TIMEOUT_def dist_def Let_def word_less_def)

lemma dist_mod: "dist a b mod 2 ^ 32 = uint (a - b)"
  using uint_lt2p [of "a - b"] by (simp add: dist_def Let_def)

lemma dist_range: "- (2 ^ 31) \<le> dist a b" "dist a b < 2 ^ 31"
proof -
  have "- (2 ^ 31) \<le> uint (a - b)" by (rule order_trans [OF _ uint_ge_0]) simp
  then show "- (2 ^ 31) \<le> dist a b" "dist a b < 2 ^ 31"
    using uint_lt2p [of "a - b"] unfolding dist_def Let_def by auto
qed

text \<open>A number in the signed range is the distance when it is so modulo the width.\<close>

lemma dist_unique:
  assumes "x mod 2 ^ 32 = uint (a - b)" "- (2 ^ 31) \<le> x" "x < 2 ^ 31"
  shows "dist a b = x"
proof -
  have "dist a b mod 2 ^ 32 = x mod 2 ^ 32" using dist_mod assms(1) by simp
  then have "(2 ^ 32 :: int) dvd dist a b - x" by (simp add: mod_eq_dvd_iff)
  then obtain k where k: "dist a b - x = 2 ^ 32 * k" by blast
  have "- (2 ^ 32) < dist a b - x" "dist a b - x < 2 ^ 32" using dist_range [of a b] assms(2,3) by simp_all
  then have "k = 0" unfolding k by simp
  then show ?thesis using k by simp
qed

lemma dist_diff:
  assumes "- (2 ^ 30) < dist a n" "dist a n < 2 ^ 30" "- (2 ^ 30) < dist b n" "dist b n < 2 ^ 30"
  shows "dist a b = dist a n - dist b n"
proof (rule dist_unique)
  have "a - b = (a - n) - (b - n)" by simp
  then have "uint (a - b) = (uint (a - n) - uint (b - n)) mod 2 ^ 32" by (simp only: uint_word_ariths) simp
  also have "\<dots> = (dist a n - dist b n) mod 2 ^ 32" unfolding dist_mod [symmetric] by (simp add: mod_diff_eq)
  finally show "(dist a n - dist b n) mod 2 ^ 32 = uint (a - b)" by simp
qed (use assms in simp_all)

lemma dist_add:
  assumes "- (2 ^ 31) \<le> dist a n + x" "dist a n + x < 2 ^ 31" "x = uint w"
  shows "dist (a + w) n = dist a n + x"
proof (rule dist_unique)
  have "a + w - n = (a - n) + w" by simp
  then have "uint (a + w - n) = (uint (a - n) + uint w) mod 2 ^ 32" by (simp only: uint_word_ariths) simp
  also have "\<dots> = (dist a n + uint w) mod 2 ^ 32" unfolding dist_mod [symmetric] by (simp add: mod_add_left_eq)
  finally show "(dist a n + x) mod 2 ^ 32 = uint (a + w - n)" using assms(3) by simp
qed (use assms in simp_all)

lemma dist_self [simp]: "dist n n = 0"
  by (simp add: dist_def)

section \<open>The list of timeouts\<close>

text \<open>Relative to a time \<open>n\<close>: no timeout is so far that the wrapping comparison fails, and they are in order.\<close>

definition near :: "u32 \<Rightarrow> u32 \<Rightarrow> bool" where
  "near n t \<longleftrightarrow> - (2 ^ 30) < dist t n \<and> dist t n < 2 ^ 30"

definition pending :: "u32 \<Rightarrow> sys_timeo list \<Rightarrow> bool" where
  "pending n ts \<longleftrightarrow> (\<forall>t \<in> set ts. near n (t_time t)) \<and> sorted (map (\<lambda>t. dist (t_time t) n) ts)"

lemma near_less: "near n a \<Longrightarrow> near n b \<Longrightarrow> TIME_LESS_THAN a b \<longleftrightarrow> dist a n < dist b n"
  using dist_diff [of a n b] by (auto simp: near_def less_dist)

lemma near_self [simp]: "near n n"
  by (simp add: near_def)

lemma insert_behind_timeout: "insert_behind x t ts = t # insert_timeout x ts"
  by (cases ts) simp_all

lemma set_insert_timeout [simp]: "set (insert_timeout x ts) = insert x (set ts)"
  by (induction ts) (auto simp: insert_behind_timeout)

lemma mset_insert_timeout [simp]: "mset (insert_timeout x ts) = add_mset x (mset ts)"
  by (induction ts) (auto simp: insert_behind_timeout)

lemma filter_insert_timeout: "\<not> P x \<Longrightarrow> filter P (insert_timeout x ts) = filter P ts"
  by (induction ts) (auto simp: insert_behind_timeout)

lemma pending_insert:
  assumes "pending n ts" "near n (t_time x)"
  shows "pending n (insert_timeout x ts)"
  using assms
proof (induction ts)
  case (Cons t ts)
  then have n: "near n (t_time t)" "pending n ts" by (auto simp: pending_def)
  have "pending n (insert_timeout x ts)" using Cons n by simp
  then show ?case using Cons.prems near_less [OF Cons.prems(2) n(1)] by (auto simp: pending_def insert_behind_timeout)
qed (simp add: pending_def)

text \<open>A new timeout goes behind all that are due at its time or before.\<close>

lemma insert_timeout_place:
  assumes "pending n ts" "near n (t_time x)"
  shows "insert_timeout x ts = takeWhile (\<lambda>t. dist (t_time t) n \<le> dist (t_time x) n) ts @ x # dropWhile (\<lambda>t. dist (t_time t) n \<le> dist (t_time x) n) ts"
  using assms
proof (induction ts)
  case (Cons t ts)
  then have n: "near n (t_time t)" "pending n ts" by (auto simp: pending_def)
  show ?case using Cons.IH [OF n(2) Cons.prems(2)] near_less [OF Cons.prems(2) n(1)] by (auto simp: insert_behind_timeout)
qed simp

lemma remove_timeout_pending: "remove_timeout h a ts = Some ts' \<Longrightarrow> pending n ts \<Longrightarrow> pending n ts' \<and> set ts' \<subseteq> set ts"
  by (induction ts arbitrary: ts') (fastforce simp: pending_def split: if_splits)+

text \<open>The time to sleep is the time until the first timeout, and its assertion never fails.\<close>

lemma sys_timeouts_sleeptime_first:
  assumes "next_timeout st = t # ts"
  shows "\<exists>r. sys_timeouts_sleeptime st = Some (r, st\<lparr>fake_ticks := fake_ticks st + 1\<rparr>) \<and> uint r = max 0 (dist (t_time t) (fake_ticks st))"
proof (cases "TIME_LESS_THAN (t_time t) (fake_ticks st)")
  case True
  then show ?thesis using assms by (simp add: sys_timeouts_sleeptime_def sys_now_def less_dist)
next
  case False
  then have "uint (t_time t - fake_ticks st) \<le> 0x7fffffff" by (simp add: TIME_LESS_THAN_def LWIP_MAX_TIMEOUT_def word_less_def)
  then show ?thesis using assms False
    by (simp add: sys_timeouts_sleeptime_def sys_now_def dist_def LWIP_MAX_TIMEOUT_def word_le_def)
qed

text \<open>After a restart the first timeout is due at once and the others keep their distance from it.\<close>

lemma sys_restart_timeouts_ok:
  assumes "next_timeout st = t # ts" "pending (t_time t) (t # ts)"
  shows "pending (fake_ticks st) (next_timeout (sys_restart_timeouts st)) \<and> t_time (hd (next_timeout (sys_restart_timeouts st))) = fake_ticks st"
proof -
  have "dist (t_time u - t_time t + fake_ticks st) (fake_ticks st) = dist (t_time u) (t_time t)" for u :: sys_timeo by (simp add: dist_def)
  then show ?thesis using assms by (simp add: sys_restart_timeouts_def sys_now_def pending_def near_def comp_def)
qed

section \<open>Polling the cyclic timers\<close>

text \<open>The handlers of the table work on the rest of the stack and leave the timeouts alone.\<close>

definition quiet :: "'s timer_env \<Rightarrow> (nat \<Rightarrow> 's \<Rightarrow> 's) \<Rightarrow> bool" where
  "quiet E F \<longleftrightarrow> (\<forall>i st. cyclic_tmr E i st = Some (st\<lparr>stack := F i (stack st)\<rparr>))"

definition cyclic :: "sys_timeo \<Rightarrow> bool" where
  "cyclic t \<longleftrightarrow> t_h t = Lwip_cyclic_timer \<and> t_arg t < length lwip_cyclic_timers"

definition due :: "u32 \<Rightarrow> sys_timeo \<Rightarrow> bool" where
  "due n t \<longleftrightarrow> dist (t_time t) n \<le> 0"

text \<open>What a poll does to the rest of the stack: the handlers that are due, in turn, with the check for queued packets before each and at the end.\<close>

fun run_due :: "'s timer_env \<Rightarrow> (nat \<Rightarrow> 's \<Rightarrow> 's) \<Rightarrow> sys_timeo list \<Rightarrow> 's \<Rightarrow> 's" where
  "run_due E F [] s = check_free_ooseq E s"
| "run_due E F (t # ts) s = run_due E F ts (F (t_arg t) (check_free_ooseq E s))"

lemma intervals: "i < length lwip_cyclic_timers \<Longrightarrow> 250 \<le> uint (lwip_cyclic_timers ! i) \<and> uint (lwip_cyclic_timers ! i) \<le> 60000"
  by (auto simp: lwip_cyclic_timers_def nth_Cons' less_Suc_eq)

text \<open>The time at which a cyclic timer that was due is set again, \<open>c\<close> ticks after \<open>n\<close>: never due at \<open>n\<close>.\<close>

lemma again_later:
  assumes now: "dist now n = c" "1 \<le> c" "c \<le> 1000" and t: "- 1000 \<le> dist t n" "dist t n \<le> 0" and w: "250 \<le> uint w" "uint w \<le> 60000"
  shows "1 \<le> dist (if TIME_LESS_THAN (t + w) now then now + w else t + w) n \<and> dist (if TIME_LESS_THAN (t + w) now then now + w else t + w) n \<le> c + 60000"
proof -
  have a: "dist (t + w) n = dist t n + uint w" by (rule dist_add) (use t w in simp_all)
  have b: "dist (now + w) n = c + uint w" unfolding now(1) [symmetric] by (rule dist_add) (use now w in simp_all)
  have "near n (t + w)" "near n now" using a t w now by (simp_all add: near_def)
  from near_less [OF this] show ?thesis using a b t w now by auto
qed

lemma cyclic_call:
  assumes E: "quiet E F" and t: "cyclic t" and free: "free_timeouts st = f"
    and x: "x = (if TIME_LESS_THAN (t_time t + lwip_cyclic_timers ! t_arg t) (fake_ticks st) then fake_ticks st + lwip_cyclic_timers ! t_arg t
      else t_time t + lwip_cyclic_timers ! t_arg t)"
  shows "call_handler E (t_h t) (t_arg t) (st\<lparr>next_timeout := ts, current_timeout_due_time := t_time t, free_timeouts := f + 1\<rparr>) =
    Some (st\<lparr>next_timeout := insert_timeout \<lparr>t_time = x, t_h = Lwip_cyclic_timer, t_arg = t_arg t\<rparr> ts, current_timeout_due_time := t_time t,
      fake_ticks := fake_ticks st + 1, stack := F (t_arg t) (stack st)\<rparr>)"
  using E t free unfolding x
  by (simp add: call_handler_def lwip_cyclic_timer_def quiet_def cyclic_def sys_now_def sys_timeout_abs_def Let_def)

lemma check_loop_ok:
  assumes "quiet E F" "pending n (next_timeout st)" "dist (fake_ticks st) n = c" "1 \<le> c" "c + int (length (filter (due n) (next_timeout st))) \<le> 1000"
    "\<forall>t \<in> set (next_timeout st). cyclic t \<and> - 1000 \<le> dist (t_time t) n \<and> dist (t_time t) n \<le> c + 60000"
  shows "\<exists>st'. check_loop E n st = Some st' \<and> stack st' = run_due E F (filter (due n) (next_timeout st)) (stack st) \<and>
    free_timeouts st' = free_timeouts st \<and> dist (fake_ticks st') n = c + int (length (filter (due n) (next_timeout st))) \<and>
    pending n (next_timeout st') \<and> image_mset t_arg (mset (next_timeout st')) = image_mset t_arg (mset (next_timeout st)) \<and>
    (\<forall>t \<in> set (next_timeout st'). cyclic t \<and> \<not> due n t \<and> dist (t_time t) n \<le> c + int (length (filter (due n) (next_timeout st))) + 60000)"
  using assms
proof (induction "length (filter (due n) (next_timeout st))" arbitrary: st c)
  case 0
  then have nd: "\<forall>t \<in> set (next_timeout st). \<not> due n t" by (auto simp: filter_empty_conv)
  have "check_loop E n st = Some (st\<lparr>stack := check_free_ooseq E (stack st)\<rparr>)"
  proof (cases "next_timeout st")
    case (Cons t ts)
    then have "near n (t_time t)" "\<not> due n t" using 0 nd by (auto simp: pending_def)
    then have "TIME_LESS_THAN n (t_time t)" using near_less [OF near_self] by (simp add: due_def)
    then show ?thesis using Cons by (subst check_loop.simps) simp
  qed (subst check_loop.simps, simp)
  then show ?case using 0 nd by auto
next
  case (Suc d)
  note E = Suc.prems(1) and c = Suc.prems(3-5)
  obtain t ts where ts: "next_timeout st = t # ts" using Suc.hyps(2) by (cases "next_timeout st") auto
  have t: "cyclic t" "- 1000 \<le> dist (t_time t) n" "near n (t_time t)" "pending n ts" using Suc.prems(2,6) ts by (auto simp: pending_def)
  have dt: "due n t"
  proof (rule ccontr)
    assume "\<not> due n t"
    then have "\<forall>u \<in> set (t # ts). \<not> due n u" using Suc.prems(2) ts by (auto simp: pending_def due_def)
    then have "filter (due n) (next_timeout st) = []" using ts by (simp add: filter_empty_conv)
    then show False using Suc.hyps(2) by simp
  qed
  define w where "w = lwip_cyclic_timers ! t_arg t"
  define x where "x = (if TIME_LESS_THAN (t_time t + w) (fake_ticks st) then fake_ticks st + w else t_time t + w)"
  have wi: "250 \<le> uint w" "uint w \<le> 60000" using intervals t(1) by (simp_all add: w_def cyclic_def)
  have c1: "c \<le> 999" using c(3) Suc.hyps(2) by simp
  have x: "1 \<le> dist x n" "dist x n \<le> c + 60000"
    using again_later [OF c(1,2) _ t(2) _ wi] c1 dt by (simp_all add: x_def due_def)
  let ?x = "\<lparr>t_time = x, t_h = Lwip_cyclic_timer, t_arg = t_arg t\<rparr>"
  let ?s = "st\<lparr>next_timeout := insert_timeout ?x ts, current_timeout_due_time := t_time t, fake_ticks := fake_ticks st + 1, stack := F (t_arg t) (check_free_ooseq E (stack st))\<rparr>"
  have "\<not> TIME_LESS_THAN n (t_time t)" using near_less [OF near_self t(3)] dt by (simp add: due_def)
  then have run: "check_loop E n st = check_loop E n ?s"
    using ts cyclic_call [OF E t(1) refl, of x "st\<lparr>stack := check_free_ooseq E (stack st)\<rparr>" ts] by (subst check_loop.simps) (simp add: x_def w_def)
  have nx: "\<not> due n ?x" "near n (t_time ?x)" "cyclic ?x" using x c1 t(1) by (simp_all add: due_def near_def cyclic_def)
  have fl: "filter (due n) (next_timeout ?s) = filter (due n) ts" using filter_insert_timeout [of "due n" ?x] nx(1) by simp
  have len: "length (filter (due n) ts) = d" using Suc.hyps(2) ts dt by simp
  have tick: "dist (fake_ticks ?s) n = c + 1" using dist_add [of "fake_ticks st" n 1 1] c(1,2) c1 by simp
  have pre: "d = length (filter (due n) (next_timeout ?s))" "pending n (next_timeout ?s)" "1 \<le> c + 1" "c + 1 + int (length (filter (due n) (next_timeout ?s))) \<le> 1000"
      "\<forall>t \<in> set (next_timeout ?s). cyclic t \<and> - 1000 \<le> dist (t_time t) n \<and> dist (t_time t) n \<le> c + 1 + 60000"
    using fl len pending_insert [OF t(4) nx(2)] c Suc.hyps(2) Suc.prems(6) ts x nx(3) by auto
  from Suc.hyps(1) [OF pre(1) E pre(2) tick pre(3-5)] show ?case
    unfolding run fl using ts dt len by (auto simp: add.assoc)
qed

text \<open>The cyclic timers in good order, relative to the present time.\<close>

definition timers_ok :: "'s timers \<Rightarrow> bool" where
  "timers_ok st \<longleftrightarrow> pending (fake_ticks st) (next_timeout st) \<and> length (next_timeout st) \<le> 100 \<and>
     (\<forall>t \<in> set (next_timeout st). cyclic t \<and> - 100 \<le> dist (t_time t) (fake_ticks st) \<and> dist (t_time t) (fake_ticks st) \<le> 60000)"

text \<open>The same timeouts seen from a later time.\<close>

lemma pending_later:
  assumes p: "pending n ts" and k: "dist n' n = k" "0 \<le> k" "k \<le> 1000" and b: "\<forall>t \<in> set ts. - 1000 \<le> dist (t_time t) n \<and> dist (t_time t) n \<le> 100000"
  shows "pending n' ts" "\<And>t. t \<in> set ts \<Longrightarrow> dist (t_time t) n' = dist (t_time t) n - k"
proof -
  show e: "dist (t_time t) n' = dist (t_time t) n - k" if "t \<in> set ts" for t
    using dist_diff [of "t_time t" n n'] b that k by auto
  have m: "map (\<lambda>t. dist (t_time t) n') ts = map (\<lambda>d. d - k) (map (\<lambda>t. dist (t_time t) n) ts)" using e by simp
  have "sorted (map (\<lambda>d. d - k) ds)" if "sorted ds" for ds :: "int list" using that by (simp add: sorted_map sorted_wrt_mono_rel)
  then have "sorted (map (\<lambda>t. dist (t_time t) n') ts)" using p unfolding m by (simp add: pending_def del: map_map)
  moreover have "near n' (t_time t)" if "t \<in> set ts" for t using e [OF that] b that k by (auto simp: near_def)
  ultimately show "pending n' ts" by (simp add: pending_def)
qed

lemma sys_check_timeouts_ok:
  assumes E: "quiet E F" and ok: "timers_ok st"
  shows "\<exists>st'. sys_check_timeouts E st = Some st' \<and> timers_ok st' \<and> stack st' = run_due E F (filter (due (fake_ticks st)) (next_timeout st)) (stack st) \<and>
    free_timeouts st' = free_timeouts st \<and> image_mset t_arg (mset (next_timeout st')) = image_mset t_arg (mset (next_timeout st)) \<and>
    (\<forall>t \<in> set (next_timeout st'). \<not> due (fake_ticks st) t)"
proof -
  let ?n = "fake_ticks st" and ?s = "st\<lparr>fake_ticks := fake_ticks st + 1\<rparr>" and ?d = "length (filter (due (fake_ticks st)) (next_timeout st))"
  have tick: "dist (fake_ticks ?s) ?n = 1" using dist_add [of ?n ?n 1 1] by simp
  have d: "?d \<le> 100" using ok le_trans [OF length_filter_le] by (auto simp: timers_ok_def)
  have "pending ?n (next_timeout ?s)" "(1 :: int) \<le> 1" "1 + int (length (filter (due ?n) (next_timeout ?s))) \<le> 1000"
      "\<forall>t \<in> set (next_timeout ?s). cyclic t \<and> - 1000 \<le> dist (t_time t) ?n \<and> dist (t_time t) ?n \<le> 1 + 60000"
    using ok d by (auto simp: timers_ok_def)
  from check_loop_ok [OF E this(1) tick this(2-4)]
  obtain st' where c: "check_loop E ?n ?s = Some st'" "stack st' = run_due E F (filter (due ?n) (next_timeout st)) (stack st)"
      "free_timeouts st' = free_timeouts st" "dist (fake_ticks st') ?n = 1 + int ?d" "pending ?n (next_timeout st')"
      "image_mset t_arg (mset (next_timeout st')) = image_mset t_arg (mset (next_timeout st))"
      "\<forall>t \<in> set (next_timeout st'). cyclic t \<and> \<not> due ?n t \<and> dist (t_time t) ?n \<le> 1 + int ?d + 60000" by auto
  have "\<forall>t \<in> set (next_timeout st'). - 1000 \<le> dist (t_time t) ?n \<and> dist (t_time t) ?n \<le> 100000" using c(7) d by (auto simp: due_def)
  note later = pending_later [OF c(5,4) _ _ this]
  have "length (next_timeout st') = length (next_timeout st)" using arg_cong [OF c(6), of size] by simp
  moreover have "cyclic t \<and> - 100 \<le> dist (t_time t) (fake_ticks st') \<and> dist (t_time t) (fake_ticks st') \<le> 60000" if "t \<in> set (next_timeout st')" for t
    using later(2) [OF _ _ that] c(7) that d by (auto simp: due_def)
  ultimately have "timers_ok st'" using later(1) d ok by (simp add: timers_ok_def)
  then show ?thesis using c by (simp add: sys_check_timeouts_def sys_now_def)
qed

lemma init_timers_ok:
  assumes "pending n (next_timeout st)" "dist (fake_ticks st) n = c" "0 \<le> c" "c + int (length is) \<le> 90" "\<forall>i \<in> set is. i < length lwip_cyclic_timers" "length is \<le> free_timeouts st"
    "\<forall>t \<in> set (next_timeout st). cyclic t \<and> 0 \<le> dist (t_time t) n \<and> dist (t_time t) n \<le> c + 60000"
  shows "\<exists>st'. init_timers is st = Some st' \<and> pending n (next_timeout st') \<and> dist (fake_ticks st') n = c + int (length is) \<and>
    free_timeouts st' = free_timeouts st - length is \<and> image_mset t_arg (mset (next_timeout st')) = mset is + image_mset t_arg (mset (next_timeout st)) \<and> stack st' = stack st \<and>
    (\<forall>t \<in> set (next_timeout st'). cyclic t \<and> 0 \<le> dist (t_time t) n \<and> dist (t_time t) n \<le> c + int (length is) + 60000)"
  using assms
proof (induction "is" arbitrary: st c)
  case (Cons i "is")
  define w where "w = lwip_cyclic_timers ! i"
  have i: "i < length lwip_cyclic_timers" using Cons.prems(5) by simp
  have wi: "250 \<le> uint w" "uint w \<le> 60000" using intervals [OF i] by (simp_all add: w_def)
  let ?x = "\<lparr>t_time = fake_ticks st + w, t_h = Lwip_cyclic_timer, t_arg = i\<rparr>"
  let ?s = "st\<lparr>fake_ticks := fake_ticks st + 1, free_timeouts := free_timeouts st - 1, next_timeout := insert_timeout ?x (next_timeout st)\<rparr>"
  have "\<not> w > 0xFFFFFFFF div 4" using wi by (simp add: word_less_def)
  then have run: "init_timers (i # is) st = init_timers is ?s"
    using i Cons.prems(6) by (simp add: sys_timeout_def sys_timeout_abs_def sys_now_def w_def Let_def)
  have x: "dist (fake_ticks st + w) n = c + uint w" using dist_add [of "fake_ticks st" n "uint w" w] Cons.prems(2-4) wi by simp
  have tick: "dist (fake_ticks ?s) n = c + 1" using dist_add [of "fake_ticks st" n 1 1] Cons.prems(2-4) by simp
  have "near n (t_time ?x)" using x wi Cons.prems(3,4) by (simp add: near_def)
  then have p: "pending n (next_timeout ?s)" using pending_insert [OF Cons.prems(1)] by simp
  have pre: "0 \<le> c + 1" "c + 1 + int (length is) \<le> 90" "\<forall>i \<in> set is. i < length lwip_cyclic_timers" "length is \<le> free_timeouts ?s"
      "\<forall>t \<in> set (next_timeout ?s). cyclic t \<and> 0 \<le> dist (t_time t) n \<and> dist (t_time t) n \<le> c + 1 + 60000"
    using Cons.prems(3-7) x wi i by (auto simp: cyclic_def)
  from Cons.IH [OF p tick pre] show ?case unfolding run by (auto simp: add.assoc)
qed simp

fun polls :: "'s timer_env \<Rightarrow> nat \<Rightarrow> 's timers \<Rightarrow> 's timers option" where
  "polls E 0 st = Some st"
| "polls E (Suc k) st = do { st \<leftarrow> polls E k st; sys_check_timeouts E st }"

lemma polls_ok:
  assumes "quiet E F" "timers_ok st"
  shows "\<exists>st'. polls E k st = Some st' \<and> timers_ok st' \<and> free_timeouts st' = free_timeouts st \<and>
    image_mset t_arg (mset (next_timeout st')) = image_mset t_arg (mset (next_timeout st))"
proof (induction k)
  case (Suc k)
  then obtain s1 where s1: "polls E k st = Some s1" "timers_ok s1" "free_timeouts s1 = free_timeouts st"
      "image_mset t_arg (mset (next_timeout s1)) = image_mset t_arg (mset (next_timeout st))" by blast
  then show ?case using sys_check_timeouts_ok [OF assms(1) s1(2)] by auto
qed (use assms in simp)

section \<open>Main property\<close>

text \<open>C34. When the handlers of the table leave the timeouts alone and the pool holds four elements, \<open>sys_timeouts_init\<close> on an empty list
  starts the four cyclic timers, and after any number of calls of \<open>sys_check_timeouts\<close>, at every value of the wrapping clock, each of them is pending exactly
  once, the list is in the order of time, and the next call returns after calling exactly the handlers that are due, in the order of their times, and
  leaves none that was due.\<close>

theorem cyclic_timers_polled:
  assumes E: "quiet E F" and st: "next_timeout st = []" "4 \<le> free_timeouts st"
  shows "\<exists>st0. sys_timeouts_init st = Some st0 \<and> (\<forall>k. \<exists>s1 s2. polls E k st0 = Some s1 \<and>
    image_mset t_arg (mset (next_timeout s1)) = {#1, 2, 3, 4#} \<and> pending (fake_ticks s1) (next_timeout s1) \<and>
    sys_check_timeouts E s1 = Some s2 \<and> stack s2 = run_due E F (filter (due (fake_ticks s1)) (next_timeout s1)) (stack s1) \<and>
    (\<forall>t \<in> set (next_timeout s2). \<not> due (fake_ticks s1) t))"
proof -
  let ?n = "fake_ticks st"
  have four: "[1..<length lwip_cyclic_timers] = [1, 2, 3, 4]" by (simp add: lwip_cyclic_timers_def upt_rec)
  have "\<forall>i \<in> set [1, 2, 3, 4]. i < length lwip_cyclic_timers" by (simp add: lwip_cyclic_timers_def)
  then have "\<exists>s0. init_timers [1, 2, 3, 4] st = Some s0 \<and> pending ?n (next_timeout s0) \<and> dist (fake_ticks s0) ?n = 4 \<and>
      image_mset t_arg (mset (next_timeout s0)) = {#1, 2, 3, 4#} \<and> (\<forall>t \<in> set (next_timeout s0). cyclic t \<and> 0 \<le> dist (t_time t) ?n \<and> dist (t_time t) ?n \<le> 4 + 60000)"
    using init_timers_ok [of ?n st 0 "[1, 2, 3, 4]"] st by (auto simp: pending_def simp del: init_timers.simps)
  then obtain s0 where s0: "sys_timeouts_init st = Some s0" "pending ?n (next_timeout s0)" "dist (fake_ticks s0) ?n = 4"
      "image_mset t_arg (mset (next_timeout s0)) = {#1, 2, 3, 4#}" "\<forall>t \<in> set (next_timeout s0). cyclic t \<and> 0 \<le> dist (t_time t) ?n \<and> dist (t_time t) ?n \<le> 4 + 60000"
    unfolding sys_timeouts_init_def four by blast
  have "\<forall>t \<in> set (next_timeout s0). - 1000 \<le> dist (t_time t) ?n \<and> dist (t_time t) ?n \<le> 100000" using s0(5) by auto
  note later = pending_later [OF s0(2,3) _ _ this]
  have "length (next_timeout s0) = 4" using arg_cong [OF s0(4), of size] by simp
  moreover have "cyclic t \<and> - 100 \<le> dist (t_time t) (fake_ticks s0) \<and> dist (t_time t) (fake_ticks s0) \<le> 60000" if "t \<in> set (next_timeout s0)" for t
    using later(2) [OF _ _ that] s0(5) that by auto
  ultimately have ok: "timers_ok s0" using later(1) by (simp add: timers_ok_def)
  have "\<exists>s1 s2. polls E k s0 = Some s1 \<and> image_mset t_arg (mset (next_timeout s1)) = {#1, 2, 3, 4#} \<and> pending (fake_ticks s1) (next_timeout s1) \<and>
    sys_check_timeouts E s1 = Some s2 \<and> stack s2 = run_due E F (filter (due (fake_ticks s1)) (next_timeout s1)) (stack s1) \<and>
    (\<forall>t \<in> set (next_timeout s2). \<not> due (fake_ticks s1) t)" for k
  proof -
    obtain s1 where s1: "polls E k s0 = Some s1" "timers_ok s1" "image_mset t_arg (mset (next_timeout s1)) = {#1, 2, 3, 4#}"
      using polls_ok [OF E ok, of k] s0(4) by auto
    then show ?thesis using sys_check_timeouts_ok [OF E s1(2)] by (auto simp: timers_ok_def)
  qed
  then show ?thesis using s0(1) by blast
qed

text \<open>A stack that logs the timers it is called for, with the clock about to wrap.\<close>

definition log_env :: "nat list timer_env" where
  "log_env = \<lparr>tcp_tmr = Some, tcp_pcbs = (\<lambda>_. False), cyclic_tmr = (\<lambda>i st. Some (st\<lparr>stack := stack st @ [i]\<rparr>)), user_tmr = (\<lambda>_ _. Some), check_free_ooseq = id\<rparr>"

theorem cyclic_timers_polled_witness:
  "\<exists>st0 s1. sys_timeouts_init \<lparr>next_timeout = [], free_timeouts = 5, current_timeout_due_time = 0, tcpip_tcp_timer_active = False, fake_ticks = 0xFFFFFFFE, stack = []\<rparr> = Some st0 \<and>
     polls log_env 100000 st0 = Some s1 \<and> image_mset t_arg (mset (next_timeout s1)) = {#1, 2, 3, 4#}"
proof -
  let ?st = "\<lparr>next_timeout = [], free_timeouts = 5, current_timeout_due_time = 0, tcpip_tcp_timer_active = False, fake_ticks = 0xFFFFFFFE, stack = []\<rparr> :: nat list timers"
  have "quiet log_env (\<lambda>i s. s @ [i])" by (simp add: quiet_def log_env_def)
  moreover have "next_timeout ?st = []" "4 \<le> free_timeouts ?st" by simp_all
  ultimately show ?thesis using cyclic_timers_polled by blast
qed

end
