(* ===== verification/Shutdown.thy ===== *)
theory Shutdown
  imports Naoview
begin

text \<open>
  The shutdown screen of \<open>src/kernel.c\<close> (\<open>sys_shutdown\<close>): the framebuffer is cleared, the shutdown picture is
  decoded and copied to the centre of the screen, and the processor is halted.  The model gives the state in
  which the final halting loop starts.  Screen and picture coordinates never become negative after the start
  position is clamped, so they are natural numbers; the picture fits the decoder's arena, so the index
  arithmetic of the code does not wrap.
\<close>

section \<open>The code\<close>

record shutdown =
  sd_width :: nat
  sd_height :: nat
  sd_framebuffer :: "u32 list"
  sd_heap :: mm_state
  sd_arena :: arena

definition rgb_pixel :: "u8 \<Rightarrow> u8 \<Rightarrow> u8 \<Rightarrow> u32" where
  "rgb_pixel r g b = push_bit 16 (ucast r) OR push_bit 8 (ucast g) OR ucast b"

definition clear_screen :: "nat \<Rightarrow> u32 list \<Rightarrow> u32 list option" where
  "clear_screen n fb = for_opt n (\<lambda>i. put_at i 0x000000) fb"

text \<open>The start position on one axis, clamped at zero.\<close>

definition splash_start :: "nat \<Rightarrow> nat \<Rightarrow> nat" where
  "splash_start screen extent = (let s = cdiv (int screen - int extent) 2 in if s < 0 then 0 else nat s)"

text \<open>The columns of one row from \<open>x\<close> on, \<open>n\<close> of them left; the loop is left at the edge of the screen.\<close>

fun splash_columns :: "u8 list \<Rightarrow> nat \<Rightarrow> nat \<Rightarrow> nat \<Rightarrow> nat \<Rightarrow> nat \<Rightarrow> nat \<Rightarrow> nat \<Rightarrow> u32 list \<Rightarrow> u32 list option" where
  "splash_columns decoded width gfx_w start_x src_y scr_y 0 x fb = Some fb"
| "splash_columns decoded width gfx_w start_x src_y scr_y (Suc n) x fb = (
    let scr_x = start_x + x in
    if scr_x \<ge> gfx_w then Some fb
    else do {
      let pixel_idx = (src_y * width + x) * 4;
      r \<leftarrow> get_at decoded (pixel_idx + 0);
      g \<leftarrow> get_at decoded (pixel_idx + 1);
      b \<leftarrow> get_at decoded (pixel_idx + 2);
      fb \<leftarrow> put_at (scr_y * gfx_w + scr_x) (rgb_pixel r g b) fb;
      splash_columns decoded width gfx_w start_x src_y scr_y n (x + 1) fb
    })"

text \<open>The rows from \<open>y\<close> on, \<open>n\<close> of them left; the source rows are taken from the bottom.\<close>

fun splash_rows :: "u8 list \<Rightarrow> nat \<Rightarrow> nat \<Rightarrow> nat \<Rightarrow> nat \<Rightarrow> nat \<Rightarrow> nat \<Rightarrow> nat \<Rightarrow> nat \<Rightarrow> u32 list \<Rightarrow> u32 list option" where
  "splash_rows decoded width height gfx_w gfx_h start_x start_y 0 y fb = Some fb"
| "splash_rows decoded width height gfx_w gfx_h start_x start_y (Suc n) y fb = (
    let scr_y = start_y + y in
    if scr_y \<ge> gfx_h then Some fb
    else do {
      let src_y = height - 1 - y;
      fb \<leftarrow> splash_columns decoded width gfx_w start_x src_y scr_y width 0 fb;
      splash_rows decoded width height gfx_w gfx_h start_x start_y n (y + 1) fb
    })"

definition splash :: "u8 list \<Rightarrow> nat \<Rightarrow> nat \<Rightarrow> shutdown \<Rightarrow> shutdown option" where
  "splash decoded width height s = do {
    fb \<leftarrow> splash_rows decoded width height (sd_width s) (sd_height s)
      (splash_start (sd_width s) width) (splash_start (sd_height s) height) height 0 (sd_framebuffer s);
    Some (s\<lparr>sd_framebuffer := fb\<rparr>)
  }"

text \<open>\<open>file\<close> is the contents of the picture file, \<^const>\<open>None\<close> when it cannot be opened; \<open>flip\<close> is the flip flag
  of the decoder as other code left it.\<close>

definition sys_shutdown :: "decoder \<Rightarrow> bool \<Rightarrow> u8 list option \<Rightarrow> bool \<Rightarrow> shutdown \<Rightarrow> shutdown option" where
  "sys_shutdown decode flip file read_ok s = do {
    fb \<leftarrow> clear_screen (sd_width s * sd_height s) (sd_framebuffer s);
    let s = s\<lparr>sd_framebuffer := fb\<rparr>;
    case file of
      None \<Rightarrow> Some s
    | Some content \<Rightarrow> do {
        (p, heap) \<leftarrow> kalloc (of_nat (length content)) (sd_heap s);
        let s = s\<lparr>sd_heap := heap\<rparr>;
        if p = 0 then Some s
        else do {
          s \<leftarrow> (if read_ok then
                  case decode flip content ((sd_arena s)\<lparr>stb_arena_offset := 0\<rparr>) of
                    (None, a) \<Rightarrow> Some (s\<lparr>sd_arena := a\<rparr>)
                  | (Some (width, height, decoded), a) \<Rightarrow> splash decoded (nat width) (nat height) (s\<lparr>sd_arena := a\<rparr>)
                else Some s);
          heap \<leftarrow> kfree p (sd_heap s);
          Some (s\<lparr>sd_heap := heap\<rparr>)
        }
      }
  }"

section \<open>The picture is shown exactly\<close>

definition picture :: "u8 list \<Rightarrow> nat \<Rightarrow> nat \<Rightarrow> nat \<Rightarrow> u32" where
  "picture decoded width y x =
    (let i = (y * width + x) * 4 in rgb_pixel (decoded ! i) (decoded ! (i + 1)) (decoded ! (i + 2)))"

lemma clear_screen_black:
  assumes "length fb = n"
  shows "clear_screen n fb = Some (replicate n 0)"
proof -
  have "\<exists>fb'. clear_screen n fb = Some fb' \<and> length fb' = n \<and> (\<forall>i < n. fb' ! i = 0)"
    unfolding clear_screen_def
    by (rule for_opt_indexed [where P = "\<lambda>i fb. length fb = n \<and> (\<forall>j < i. fb ! j = 0)"])
      (use assms in \<open>auto simp: nth_list_update less_Suc_eq\<close>)
  then show ?thesis by (metis length_replicate nth_equalityI nth_replicate)
qed

lemma splash_columns_exact:
  assumes "length decoded = width * height * 4" "src_y < height" "scr_y < gfx_h" "length fb = gfx_w * gfx_h" "x + n = width"
  shows "\<exists>fb'. splash_columns decoded width gfx_w start_x src_y scr_y n x fb = Some fb' \<and> length fb' = gfx_w * gfx_h \<and>
    (\<forall>Y X. Y < gfx_h \<and> X < gfx_w \<longrightarrow> fb' ! (Y * gfx_w + X) =
      (if Y = scr_y \<and> start_x + x \<le> X \<and> X < start_x + width then picture decoded width src_y (X - start_x) else fb ! (Y * gfx_w + X)))"
  using assms(4,5)
proof (induction n arbitrary: x fb)
  case 0
  then show ?case by auto
next
  case (Suc n)
  show ?case
  proof (cases "start_x + x \<ge> gfx_w")
    case True
    then show ?thesis using Suc.prems by auto
  next
    case False
    have x: "x < width" "start_x + x < gfx_w" using Suc.prems False by simp_all
    have i: "scr_y * gfx_w + (start_x + x) < gfx_w * gfx_h" using cell_less [OF assms(3) x(2)] .
    have "src_y * width + x < width * height" using cell_less [OF assms(2) x(1)] .
    then have "(src_y * width + x) * 4 + 3 < length decoded" using assms(1) by simp
    let ?fb = "fb[scr_y * gfx_w + (start_x + x) := picture decoded width src_y x]"
    have step: "splash_columns decoded width gfx_w start_x src_y scr_y (Suc n) x fb =
        splash_columns decoded width gfx_w start_x src_y scr_y n (x + 1) ?fb"
      using False i Suc.prems(1) \<open>_ + 3 < length decoded\<close> by (simp add: picture_def Let_def)
    obtain fb' where fb': "splash_columns decoded width gfx_w start_x src_y scr_y n (x + 1) ?fb = Some fb'" "length fb' = gfx_w * gfx_h"
      "\<forall>Y X. Y < gfx_h \<and> X < gfx_w \<longrightarrow> fb' ! (Y * gfx_w + X) =
        (if Y = scr_y \<and> start_x + (x + 1) \<le> X \<and> X < start_x + width then picture decoded width src_y (X - start_x) else ?fb ! (Y * gfx_w + X))"
      using Suc.IH [of ?fb "x + 1"] Suc.prems by auto
    have "?fb ! (Y * gfx_w + X) = (if Y = scr_y \<and> X = start_x + x then picture decoded width src_y x else fb ! (Y * gfx_w + X))"
      if "Y < gfx_h" "X < gfx_w" for Y X
      using cell_inj [OF that(2) x(2), of Y scr_y] i Suc.prems(1) by (auto simp: nth_list_update)
    then show ?thesis using step fb' x by (auto simp: not_less)
  qed
qed

lemma splash_rows_exact:
  assumes "length decoded = width * height * 4" "length fb = gfx_w * gfx_h" "y + n = height"
  shows "\<exists>fb'. splash_rows decoded width height gfx_w gfx_h start_x start_y n y fb = Some fb' \<and> length fb' = gfx_w * gfx_h \<and>
    (\<forall>Y X. Y < gfx_h \<and> X < gfx_w \<longrightarrow> fb' ! (Y * gfx_w + X) =
      (if start_y + y \<le> Y \<and> Y < start_y + height \<and> start_x \<le> X \<and> X < start_x + width
       then picture decoded width (height - 1 - (Y - start_y)) (X - start_x) else fb ! (Y * gfx_w + X)))"
  using assms(2,3)
proof (induction n arbitrary: y fb)
  case 0
  then show ?case by auto
next
  case (Suc n)
  show ?case
  proof (cases "start_y + y \<ge> gfx_h")
    case True
    then show ?thesis using Suc.prems by auto
  next
    case False
    have y: "height - 1 - y < height" "start_y + y < gfx_h" using Suc.prems False by simp_all
    obtain fb1 where fb1: "splash_columns decoded width gfx_w start_x (height - 1 - y) (start_y + y) width 0 fb = Some fb1"
        "length fb1 = gfx_w * gfx_h"
        "\<forall>Y X. Y < gfx_h \<and> X < gfx_w \<longrightarrow> fb1 ! (Y * gfx_w + X) =
          (if Y = start_y + y \<and> start_x + 0 \<le> X \<and> X < start_x + width then picture decoded width (height - 1 - y) (X - start_x) else fb ! (Y * gfx_w + X))"
      using splash_columns_exact [OF assms(1) y Suc.prems(1), of 0 width start_x] by auto
    obtain fb' where fb': "splash_rows decoded width height gfx_w gfx_h start_x start_y n (y + 1) fb1 = Some fb'"
        "length fb' = gfx_w * gfx_h"
        "\<forall>Y X. Y < gfx_h \<and> X < gfx_w \<longrightarrow> fb' ! (Y * gfx_w + X) =
          (if start_y + (y + 1) \<le> Y \<and> Y < start_y + height \<and> start_x \<le> X \<and> X < start_x + width
           then picture decoded width (height - 1 - (Y - start_y)) (X - start_x) else fb1 ! (Y * gfx_w + X))"
      using Suc.IH [OF fb1(2), of "y + 1"] Suc.prems(2) by auto
    have "splash_rows decoded width height gfx_w gfx_h start_x start_y (Suc n) y fb = Some fb'"
      using False fb1(1) fb'(1) by (simp add: Let_def)
    moreover have "fb' ! (Y * gfx_w + X) =
        (if start_y + y \<le> Y \<and> Y < start_y + height \<and> start_x \<le> X \<and> X < start_x + width
         then picture decoded width (height - 1 - (Y - start_y)) (X - start_x) else fb ! (Y * gfx_w + X))"
      if "Y < gfx_h" "X < gfx_w" for Y X
      using fb'(3) fb1(3) that y Suc.prems(2) by (cases "Y = start_y + y") auto
    ultimately show ?thesis using fb'(2) by blast
  qed
qed

text \<open>The shutdown screen shows the picture exactly: the decoded picture, its rows taken from the bottom, is
  centred on the screen and cut at its edges, every other pixel is black, no access leaves the framebuffer or
  the picture, and the buffer for the file is given back to the heap.\<close>

theorem shutdown_shows_picture:
  assumes "length (sd_framebuffer s) = sd_width s * sd_height s" and "mm_inv (sd_heap s) bs" and "room N bs" and "length content \<le> N"
    and "decode flip content ((sd_arena s)\<lparr>stb_arena_offset := 0\<rparr>) = (Some (int width, int height, decoded), a)"
    and "length decoded = width * height * 4"
  shows "\<exists>s'. sys_shutdown decode flip (Some content) True s = Some s' \<and> mm_inv (sd_heap s') bs \<and>
    length (sd_framebuffer s') = sd_width s * sd_height s \<and>
    (let sx = splash_start (sd_width s) width; sy = splash_start (sd_height s) height in
      \<forall>Y X. Y < sd_height s \<and> X < sd_width s \<longrightarrow> sd_framebuffer s' ! (Y * sd_width s + X) =
        (if sy \<le> Y \<and> Y < sy + height \<and> sx \<le> X \<and> X < sx + width
         then picture decoded width (height - 1 - (Y - sy)) (X - sx) else 0))"
proof -
  let ?n = "sd_width s * sd_height s"
  obtain p heap where k: "kalloc (of_nat (length content)) (sd_heap s) = Some (p, heap)" "p \<noteq> 0" "owns bs p (length content) heap"
    using owns_alloc [OF assms(2-4)] by blast
  obtain heap' where f: "kfree p heap = Some heap'" "mm_inv heap' bs"
    using owns_release [OF k(3)] assms(3) by (auto simp: room_def)
  obtain fb where fb: "splash_rows decoded width height (sd_width s) (sd_height s) (splash_start (sd_width s) width)
      (splash_start (sd_height s) height) height 0 (replicate ?n 0) = Some fb" "length fb = ?n"
    "\<forall>Y X. Y < sd_height s \<and> X < sd_width s \<longrightarrow> fb ! (Y * sd_width s + X) =
      (if splash_start (sd_height s) height + 0 \<le> Y \<and> Y < splash_start (sd_height s) height + height \<and>
          splash_start (sd_width s) width \<le> X \<and> X < splash_start (sd_width s) width + width
       then picture decoded width (height - 1 - (Y - splash_start (sd_height s) height)) (X - splash_start (sd_width s) width)
       else replicate ?n 0 ! (Y * sd_width s + X))"
    using splash_rows_exact [OF assms(6), of "replicate ?n 0" "sd_width s" "sd_height s" 0 height
        "splash_start (sd_width s) width" "splash_start (sd_height s) height"] by auto
  have "sys_shutdown decode flip (Some content) True s = Some (s\<lparr>sd_framebuffer := fb, sd_arena := a, sd_heap := heap'\<rparr>)"
    using clear_screen_black [OF assms(1)] k f fb(1) assms(5) by (simp add: sys_shutdown_def splash_def)
  moreover have "replicate ?n (0 :: u32) ! (Y * sd_width s + X) = 0" if "Y < sd_height s" "X < sd_width s" for Y X
    using cell_less [OF that] by simp
  ultimately show ?thesis using f(2) fb(2,3) by (auto simp: Let_def)
qed

definition white_dot :: decoder where
  "white_dot flip content a = (if content = [] then (None, a) else (Some (1, 1, [255, 255, 255, 255]), a))"

definition small_screen :: shutdown where
  "small_screen = \<lparr>sd_width = 3, sd_height = 1, sd_framebuffer = [7, 8, 9], sd_heap = init_mm boot_heap,
    sd_arena = \<lparr>stb_arena = \<lambda>_. 0, stb_arena_offset = 5\<rparr>\<rparr>"

theorem shutdown_shows_picture_witness:
  "\<exists>s'. sys_shutdown white_dot False (Some [0x89]) True small_screen = Some s' \<and> mm_inv (sd_heap s') [(4194292, True)] \<and>
    sd_framebuffer s' ! 0 = 0 \<and> sd_framebuffer s' ! 1 = 0xFFFFFF"
proof -
  let ?a = "\<lparr>stb_arena = \<lambda>_. 0, stb_arena_offset = 0\<rparr>"
  have m: "mm_inv (sd_heap small_screen) [(4194292, True)]" using boot_heap_inv by (simp add: small_screen_def)
  have r: "room 4 [(4194292, True)]" by (simp add: room_def)
  have d: "white_dot False [0x89] ((sd_arena small_screen)\<lparr>stb_arena_offset := 0\<rparr>) = (Some (int 1, int 1, [255, 255, 255, 255]), ?a)"
    by (simp add: white_dot_def small_screen_def)
  have c: "splash_start 3 1 = 1" "splash_start 1 1 = 0" by (simp_all add: splash_start_def cdiv_def)
  have sz: "sd_width small_screen = 3" "sd_height small_screen = 1" "length (sd_framebuffer small_screen) = 3 * 1"
    by (simp_all add: small_screen_def)
  obtain s' where s': "sys_shutdown white_dot False (Some [0x89]) True small_screen = Some s'" "mm_inv (sd_heap s') [(4194292, True)]"
      "\<forall>Y X. Y < 1 \<and> X < 3 \<longrightarrow> sd_framebuffer s' ! (Y * 3 + X) =
        (if 0 \<le> Y \<and> Y < 0 + 1 \<and> 1 \<le> X \<and> X < 1 + 1 then picture [255, 255, 255, 255] 1 (1 - 1 - (Y - 0)) (X - 1) else 0)"
    using shutdown_shows_picture [where decode = white_dot and flip = False and content = "[0x89]" and width = 1 and height = 1
        and decoded = "[255, 255, 255, 255]" and a = ?a, OF _ m r _ d] unfolding sz c Let_def by auto
  have "sd_framebuffer s' ! 0 = 0" "sd_framebuffer s' ! 1 = 0xFFFFFF"
    using s'(3) [rule_format, of 0 0] s'(3) [rule_format, of 0 1] by (simp_all add: picture_def rgb_pixel_def)
  then show ?thesis using s'(1,2) by blast
qed

end
