(* ===== verification/Naobrowse.thy ===== *)
theory Naobrowse
  imports Loops Libc
begin

text \<open>
  The web browser (\<open>src/naobrowse.c\<close>): the log pane, the text extraction, the callbacks of the HTTP client,
  navigation with its history, and the frame routine.  The HTTP client of lwIP and the answers of Nuklear are
  arguments; so are the contents that local buffers have before they are written.  Log lines also go to the
  serial port, which is left out here.
\<close>

section \<open>The code\<close>

definition MAX_PAGE_STORAGE :: nat where "MAX_PAGE_STORAGE = 16384"
definition HISTORY_DEPTH :: int where "HISTORY_DEPTH = 10"
definition DEBUG_LINE_COUNT :: nat where "DEBUG_LINE_COUNT = 25"
definition DEBUG_LINE_LEN :: nat where "DEBUG_LINE_LEN = 96"

record 'n naobrowse_browser =
  url_input :: "char list"
  current_url :: "char list"
  raw_html_buffer :: "char list"
  rendered_text :: "char list"
  content_len :: nat
  history :: "char list list"
  history_count :: int
  current_history_idx :: int
  is_loading :: bool
  is_active :: bool
  debug_console :: "char list list"
  debug_write_ptr :: nat
  net :: 'n

definition naobrowse_log :: "string \<Rightarrow> 'n naobrowse_browser \<Rightarrow> 'n naobrowse_browser option" where
  "naobrowse_log msg b = do {
    let idx = debug_write_ptr b;
    line \<leftarrow> get_at (debug_console b) idx;
    line \<leftarrow> strncpy line (msg @ [NUL]) (DEBUG_LINE_LEN - 1);
    line \<leftarrow> put_at (DEBUG_LINE_LEN - 1) NUL line;
    console \<leftarrow> put_at idx line (debug_console b);
    Some (b\<lparr>debug_console := console, debug_write_ptr := (idx + 1) mod DEBUG_LINE_COUNT\<rparr>)
  }"

text \<open>A message formatted into a local buffer of \<open>n\<close> bytes and logged.\<close>

definition log_formatted ::
  "(nat \<Rightarrow> char list) \<Rightarrow> nat \<Rightarrow> string \<Rightarrow> va_arg list \<Rightarrow> 'n naobrowse_browser \<Rightarrow> 'n naobrowse_browser option" where
  "log_formatted stk n fmt args b = do {
    (buf, _) \<leftarrow> mini_snprintf (Some (stk n)) n fmt args;
    buf \<leftarrow> buf;
    msg \<leftarrow> cstr buf;
    naobrowse_log msg b
  }"

definition breaks_line :: "char list \<Rightarrow> bool option" where
  "breaks_line s = do {
    a \<leftarrow> strncmp s (''<p>'' @ [NUL]) 3;
    if a = 0 then Some True else do {
      b \<leftarrow> strncmp s (''<br>'' @ [NUL]) 4;
      if b = 0 then Some True else do {
        c \<leftarrow> strncmp s (''</div>'' @ [NUL]) 6;
        Some (c = 0)
      }
    }
  }"

text \<open>The loop of the parser, with \<open>n\<close> characters of the page left from \<open>src_idx\<close> on.\<close>

fun parse_loop :: "char list \<Rightarrow> nat \<Rightarrow> nat \<Rightarrow> nat \<Rightarrow> bool \<Rightarrow> char list \<Rightarrow> (nat \<times> char list) option" where
  "parse_loop raw 0 src_idx dest_idx inside_tag out = Some (dest_idx, out)"
| "parse_loop raw (Suc n) src_idx dest_idx inside_tag out = (
    if \<not> dest_idx < MAX_PAGE_STORAGE - 2 then Some (dest_idx, out)
    else do {
      c \<leftarrow> get_at raw src_idx;
      if c = CHR ''<'' then do {
        br \<leftarrow> breaks_line (drop src_idx raw);
        if br then do {
          out \<leftarrow> put_at dest_idx CHR 0x0A out;
          parse_loop raw n (src_idx + 1) (dest_idx + 1) True out
        } else parse_loop raw n (src_idx + 1) dest_idx True out
      }
      else if c = CHR ''>'' then parse_loop raw n (src_idx + 1) dest_idx False out
      else if \<not> inside_tag then do {
        out \<leftarrow> put_at dest_idx c out;
        parse_loop raw n (src_idx + 1) (dest_idx + 1) inside_tag out
      }
      else parse_loop raw n (src_idx + 1) dest_idx inside_tag out
    })"

definition naobrowse_render_engine_parse :: "'n naobrowse_browser \<Rightarrow> 'n naobrowse_browser option" where
  "naobrowse_render_engine_parse b = do {
    b \<leftarrow> naobrowse_log ''Parser engine triggered: Stripping tags...'' b;
    (dest_idx, out) \<leftarrow> parse_loop (raw_html_buffer b) (content_len b) 0 0 False (replicate MAX_PAGE_STORAGE NUL);
    out \<leftarrow> put_at dest_idx NUL out;
    naobrowse_log ''Parser finished preparing text layer structure.'' (b\<lparr>rendered_text := out\<rparr>)
  }"

text \<open>A chunk is the bytes of the packet buffer chain; \<^const>\<open>None\<close> is the null pointer.\<close>

definition naobrowse_http_body_cb ::
  "(nat \<Rightarrow> char list) \<Rightarrow> char list option \<Rightarrow> 'n naobrowse_browser \<Rightarrow> 'n naobrowse_browser option" where
  "naobrowse_http_body_cb stk p b = (case p of
      None \<Rightarrow> Some b
    | Some chunk \<Rightarrow> do {
        b \<leftarrow> log_formatted stk 64 ''lwIP Body CB: Received chunk segment of %d bytes'' [VInt (int (length chunk))] b;
        if content_len b + length chunk < MAX_PAGE_STORAGE - 1 then do {
          raw \<leftarrow> (if content_len b + length chunk \<le> length (raw_html_buffer b)
                 then Some (take (content_len b) (raw_html_buffer b) @ chunk @ drop (content_len b + length chunk) (raw_html_buffer b))
                 else None);
          raw \<leftarrow> put_at (content_len b + length chunk) NUL raw;
          Some (b\<lparr>raw_html_buffer := raw, content_len := content_len b + length chunk\<rparr>)
        } else naobrowse_log ''CRITICAL ERROR: Incoming HTML exceeds allocated buffer size limits!'' b
      })"

definition naobrowse_http_result_cb ::
  "(nat \<Rightarrow> char list) \<Rightarrow> int \<Rightarrow> int \<Rightarrow> int \<Rightarrow> 'n naobrowse_browser \<Rightarrow> 'n naobrowse_browser option" where
  "naobrowse_http_result_cb stk httpc_result rx_content_len err b = do {
    b \<leftarrow> naobrowse_log ''lwIP Callback Alert: TCP Handshake cycle complete!'' b;
    b \<leftarrow> (if httpc_result = 0 then do {
            b \<leftarrow> log_formatted stk 96 ''SUCCESS! Received HTTP 200/OK. Transferred: %u bytes'' [VInt rx_content_len] b;
            naobrowse_render_engine_parse b
          } else do {
            b \<leftarrow> log_formatted stk 96 ''FAIL: HTTP Connection Refused. Result: %d, lwIP Error: %d'' [VInt httpc_result, VInt err] b;
            text \<leftarrow> strcpy (rendered_text b) (''Error: Could not reach target web host.'' @ [NUL]);
            Some (b\<lparr>rendered_text := text\<rparr>)
          });
    Some (b\<lparr>is_loading := False\<rparr>)
  }"

text \<open>Adding the address to the history.\<close>

definition save_history :: "string \<Rightarrow> 'n naobrowse_browser \<Rightarrow> 'n naobrowse_browser option" where
  "save_history url_string b = do {
    b \<leftarrow> naobrowse_log ''Saving URL endpoint trace to history backstack...'' b;
    let b = (if current_history_idx b < history_count b - 1 then b\<lparr>history_count := current_history_idx b + 1\<rparr> else b);
    if history_count b < HISTORY_DEPTH then do {
      slot \<leftarrow> (if history_count b < 0 then None else get_at (history b) (nat (history_count b)));
      slot \<leftarrow> strcpy slot (url_string @ [NUL]);
      h \<leftarrow> put_at (nat (history_count b)) slot (history b);
      Some (b\<lparr>history := h, current_history_idx := history_count b, history_count := history_count b + 1\<rparr>)
    } else Some b
  }"

text \<open>What follows the request.\<close>

definition dispatch_result :: "(nat \<Rightarrow> char list) \<Rightarrow> int \<Rightarrow> 'n naobrowse_browser \<Rightarrow> 'n naobrowse_browser option" where
  "dispatch_result stk error b = (
    if error \<noteq> 0 then do {
      b \<leftarrow> log_formatted stk 64 ''lwIP Immediate Error: Request could not be queued. Code: %d'' [VInt error] b;
      text \<leftarrow> strcpy (rendered_text b) (''NETWORK ROUTING DISPATCH FAILURE: Unreachable Gateway'' @ [NUL]);
      Some (b\<lparr>is_loading := False, rendered_text := text\<rparr>)
    } else naobrowse_log ''SYN Packet queued in TX descriptor ring successfully. Handshake completed!'' b)"

text \<open>\<open>get_file\<close> is \<open>httpc_get_file\<close> for \<open>/\<close> on port 80 of the fixed address; it returns an error code.\<close>

definition naobrowse_navigate_to ::
  "('n \<Rightarrow> int \<times> 'n) \<Rightarrow> (nat \<Rightarrow> char list) \<Rightarrow> string \<Rightarrow> bool \<Rightarrow> 'n naobrowse_browser \<Rightarrow> 'n naobrowse_browser option" where
  "naobrowse_navigate_to get_file stk url_string save_to_history b = do {
    b \<leftarrow> log_formatted stk 128 (''Dispatcher action: routing request path to: '' @ [CHR 0x27] @ ''%s'' @ [CHR 0x27]) [VStr url_string] b;
    let b = b\<lparr>is_loading := True, content_len := 0, raw_html_buffer := replicate MAX_PAGE_STORAGE NUL\<rparr>;
    url \<leftarrow> strcpy (current_url b) (url_string @ [NUL]);
    let b = b\<lparr>current_url := url\<rparr>;
    b \<leftarrow> (if save_to_history then save_history url_string b else Some b);
    b \<leftarrow> naobrowse_log ''Binding internal routing table target to QEMU Gateway IP: 10.0.2.2'' b;
    b \<leftarrow> naobrowse_log ''Invoking asynchronous lwIP network socket routine: httpc_get_file()...'' b;
    let (error, n) = get_file (net b);
    let b = b\<lparr>net := n\<rparr>;
    dispatch_result stk error b
  }"

definition init_naobrowse :: "'n \<Rightarrow> 'n naobrowse_browser option" where
  "init_naobrowse n = do {
    url \<leftarrow> strcpy (replicate 128 NUL) (''10.0.2.2'' @ [NUL]);
    text \<leftarrow> strcpy (replicate MAX_PAGE_STORAGE NUL)
      (''Welcome to NaoBrowse!'' @ [CHR 0x0A] @ ''Type an IP Address above to search the web layout network paths.'' @ [NUL]);
    let b = \<lparr>url_input = url, current_url = replicate 128 NUL, raw_html_buffer = replicate MAX_PAGE_STORAGE NUL,
      rendered_text = text, content_len = 0, history = replicate 10 (replicate 128 NUL), history_count = 0,
      current_history_idx = - 1, is_loading = False, is_active = True,
      debug_console = replicate DEBUG_LINE_COUNT (replicate DEBUG_LINE_LEN NUL), debug_write_ptr = 0, net = n\<rparr>;
    b \<leftarrow> naobrowse_log ''NaoBrowse Subsystem initialized successfully.'' b;
    naobrowse_log ''Awaiting user entry interaction loop...'' b
  }"

text \<open>Going back or forward by one entry: the step moves the index.\<close>

definition history_step ::
  "('n \<Rightarrow> int \<times> 'n) \<Rightarrow> (nat \<Rightarrow> char list) \<Rightarrow> string \<Rightarrow> int \<Rightarrow> 'n naobrowse_browser \<Rightarrow> 'n naobrowse_browser option" where
  "history_step get_file stk msg d b = do {
    b \<leftarrow> naobrowse_log msg b;
    let idx = current_history_idx b + d;
    entry \<leftarrow> (if idx < 0 then None else get_at (history b) (nat idx));
    url \<leftarrow> strcpy (url_input b) entry;
    let b = b\<lparr>current_history_idx := idx, url_input := url\<rparr>;
    s \<leftarrow> cstr url;
    naobrowse_navigate_to get_file stk s False b
  }"

text \<open>One frame.  \<open>shown\<close> is whether the window is drawn; \<open>press\<close> answers for a button that is or is not
  disabled; \<open>edit\<close> is the new text of the address field.  The labels are only drawn.\<close>

definition render_naobrowse ::
  "('n \<Rightarrow> int \<times> 'n) \<Rightarrow> (nat \<Rightarrow> char list) \<Rightarrow> bool \<Rightarrow> (bool \<Rightarrow> string \<Rightarrow> bool) \<Rightarrow> (string \<Rightarrow> string) \<Rightarrow>
    'n naobrowse_browser \<Rightarrow> 'n naobrowse_browser option" where
  "render_naobrowse get_file stk shown press edit b = (
    if \<not> is_active b \<or> \<not> shown then Some b
    else do {
      b \<leftarrow> (if press (current_history_idx b > 0) ''<<''
            then history_step get_file stk ''UI Control Action: Back Button Clicked.'' (- 1) b else Some b);
      b \<leftarrow> (if press (current_history_idx b < history_count b - 1) ''>>''
            then history_step get_file stk ''UI Control Action: Forward Button Clicked.'' 1 b else Some b);
      s \<leftarrow> cstr (url_input b);
      let s = edit s;
      url \<leftarrow> (if length s < length (url_input b) then Some (s @ NUL # drop (length s + 1) (url_input b)) else None);
      let b = b\<lparr>url_input := url\<rparr>;
      if press True ''Go'' then do {
        b \<leftarrow> naobrowse_log (''UI Control Action: '' @ [CHR 0x27] @ ''Go'' @ [CHR 0x27] @ '' Button Clicked.'') b;
        s \<leftarrow> cstr (url_input b);
        naobrowse_navigate_to get_file stk s True (b\<lparr>is_loading := True, content_len := 0\<rparr>)
      } else Some b
    })"

section \<open>The invariant\<close>

text \<open>A buffer of \<open>n\<close> bytes whose last byte is zero, so it always holds a string.\<close>

definition text_buffer :: "nat \<Rightarrow> char list \<Rightarrow> bool" where
  "text_buffer n buf \<longleftrightarrow> length buf = n \<and> 0 < n \<and> last buf = NUL"

definition console_ok :: "char list list \<Rightarrow> nat \<Rightarrow> bool" where
  "console_ok c p \<longleftrightarrow> length c = DEBUG_LINE_COUNT \<and> (\<forall>l \<in> set c. length l = DEBUG_LINE_LEN) \<and> p < DEBUG_LINE_COUNT"

definition browser_ok :: "'n naobrowse_browser \<Rightarrow> bool" where
  "browser_ok b \<longleftrightarrow> text_buffer 128 (url_input b) \<and> length (current_url b) = 128 \<and>
    length (raw_html_buffer b) = MAX_PAGE_STORAGE \<and> length (rendered_text b) = MAX_PAGE_STORAGE \<and>
    content_len b < MAX_PAGE_STORAGE - 1 \<and> raw_html_buffer b ! content_len b = NUL \<and>
    length (history b) = 10 \<and> (\<forall>h \<in> set (history b). text_buffer 128 h) \<and>
    0 \<le> history_count b \<and> history_count b \<le> 10 \<and> - 1 \<le> current_history_idx b \<and> current_history_idx b < history_count b \<and>
    console_ok (debug_console b) (debug_write_ptr b)"

lemmas sizes = MAX_PAGE_STORAGE_def HISTORY_DEPTH_def DEBUG_LINE_COUNT_def DEBUG_LINE_LEN_def

lemma text_buffer_string:
  assumes "text_buffer n buf"
  shows "\<exists>s t. cstr buf = Some s \<and> buf = s @ NUL # t \<and> NUL \<notin> set s \<and> length s < n"
proof -
  obtain s where s: "cstr buf = Some s" using cstr_last [of buf] assms by (auto simp: text_buffer_def)
  then obtain t where t: "NUL \<notin> set s" "buf = s @ NUL # t" using cstr_Some by blast
  then show ?thesis using s assms by (auto simp: text_buffer_def)
qed

lemma strcpy_string:
  "NUL \<notin> set s \<Longrightarrow> length s < length dest \<Longrightarrow> strcpy dest (s @ NUL # t) = Some (s @ NUL # drop (Suc (length s)) dest)"
proof (induction s arbitrary: dest)
  case Nil
  then show ?case by (cases dest) auto
next
  case (Cons c s)
  then show ?case by (cases dest) auto
qed

lemma text_buffer_copy: "text_buffer n dest \<Longrightarrow> length s < n \<Longrightarrow> text_buffer n (s @ NUL # drop (Suc (length s)) dest)"
  by (auto simp: text_buffer_def last_append last_drop not_le)

lemma naobrowse_log_ok:
  assumes "console_ok (debug_console b) (debug_write_ptr b)"
  shows "\<exists>c p. naobrowse_log msg b = Some (b\<lparr>debug_console := c, debug_write_ptr := p\<rparr>) \<and> console_ok c p"
proof -
  let ?i = "debug_write_ptr b" and ?c = "debug_console b"
  have i: "?i < length ?c" "length (?c ! ?i) = DEBUG_LINE_LEN" using assms by (auto simp: console_ok_def)
  obtain a where a: "strncpy (?c ! ?i) (msg @ [NUL]) (DEBUG_LINE_LEN - 1) = Some (a @ drop (DEBUG_LINE_LEN - 1) (?c ! ?i))"
      "length a = DEBUG_LINE_LEN - 1"
    using strncpy_total [of "DEBUG_LINE_LEN - 1" "?c ! ?i" msg] i(2) by auto
  let ?l = "(a @ drop (DEBUG_LINE_LEN - 1) (?c ! ?i))[DEBUG_LINE_LEN - 1 := NUL]"
  have "length ?l = DEBUG_LINE_LEN" using a(2) i(2) by (simp add: sizes)
  then have "console_ok (?c[?i := ?l]) ((?i + 1) mod DEBUG_LINE_COUNT)"
    using assms by (auto simp: console_ok_def sizes dest!: set_update_subset_insert [THEN subsetD])
  moreover have "naobrowse_log msg b = Some (b\<lparr>debug_console := ?c[?i := ?l], debug_write_ptr := (?i + 1) mod DEBUG_LINE_COUNT\<rparr>)"
    using a i by (simp add: naobrowse_log_def sizes Let_def)
  ultimately show ?thesis by blast
qed

lemma naobrowse_log_keeps: "browser_ok b \<Longrightarrow> \<exists>b'. naobrowse_log msg b = Some b' \<and> browser_ok b' \<and>
    url_input b' = url_input b \<and> current_url b' = current_url b \<and> rendered_text b' = rendered_text b \<and>
    raw_html_buffer b' = raw_html_buffer b \<and> content_len b' = content_len b \<and> history b' = history b \<and>
    history_count b' = history_count b \<and> current_history_idx b' = current_history_idx b \<and> is_loading b' = is_loading b"
  using naobrowse_log_ok [of b msg] by (auto simp: browser_ok_def)

lemma log_formatted_keeps:
  assumes "browser_ok b" "mini_text fmt args = Some t" "int32_args args" "NUL \<notin> set t" "0 < n" "length (stk n) = n"
  shows "\<exists>b'. log_formatted stk n fmt args b = Some b' \<and> browser_ok b' \<and>
    url_input b' = url_input b \<and> current_url b' = current_url b \<and> rendered_text b' = rendered_text b \<and>
    raw_html_buffer b' = raw_html_buffer b \<and> content_len b' = content_len b \<and> history b' = history b \<and>
    history_count b' = history_count b \<and> current_history_idx b' = current_history_idx b \<and> is_loading b' = is_loading b"
proof -
  have "holds (n - 1) [] (stk n) 0" using assms(5,6) by (auto simp: holds_def)
  then obtain x i where x: "mini_snprintf_loop (n - 1) fmt args (stk n) 0 = Some (x, i)" "holds (n - 1) t x i"
    using mini_loop_holds [OF assms(2,3), of "n - 1" "[]" "stk n" 0] by auto
  obtain buf where "put_at i NUL x = Some buf" "cstr buf = Some (take (n - 1) t)" using holds_cstr [OF x(2) assms(4)] by blast
  then have "log_formatted stk n fmt args b = naobrowse_log (take (n - 1) t) b"
    using x(1) assms(5) by (simp add: log_formatted_def mini_snprintf_def)
  then show ?thesis using naobrowse_log_keeps [OF assms(1)] by simp
qed

section \<open>The text of a page\<close>

text \<open>What the browser shows of a page: the characters outside tags, and a line break for some tags.\<close>

definition break_tag :: "string \<Rightarrow> bool" where
  "break_tag s \<longleftrightarrow> take 3 s = ''<p>'' \<or> take 4 s = ''<br>'' \<or> take 6 s = ''</div>''"

fun strip_tags :: "bool \<Rightarrow> string \<Rightarrow> string" where
  "strip_tags inside [] = []"
| "strip_tags inside (c # s) = (
    if c = CHR ''<'' then (if break_tag (c # s) then [CHR 0x0A] else []) @ strip_tags True s
    else if c = CHR ''>'' then strip_tags False s
    else if inside then strip_tags inside s else c # strip_tags inside s)"

lemma strncmp_decides:
  assumes "NUL \<notin> set l"
  shows "\<exists>r. strncmp (s @ NUL # t) (l @ [NUL]) (length l) = Some r \<and> (r = 0 \<longleftrightarrow> take (length l) s = l)"
  using assms
proof (induction l arbitrary: s)
  case (Cons c l)
  then show ?case
  proof (cases s)
    case Nil
    then show ?thesis using Cons.prems schar_inj [of NUL c] by auto
  next
    case s: (Cons d s')
    then show ?thesis using Cons.prems Cons.IH [of s'] schar_inj [of d c] by (cases "d = c") auto
  qed
qed simp

lemma breaks_line_tag: "breaks_line (s @ NUL # t) = Some (break_tag s)"
proof -
  obtain a b c where
    "strncmp (s @ NUL # t) (''<p>'' @ [NUL]) 3 = Some a" "a = 0 \<longleftrightarrow> take 3 s = ''<p>''"
    "strncmp (s @ NUL # t) (''<br>'' @ [NUL]) 4 = Some b" "b = 0 \<longleftrightarrow> take 4 s = ''<br>''"
    "strncmp (s @ NUL # t) (''</div>'' @ [NUL]) 6 = Some c" "c = 0 \<longleftrightarrow> take 6 s = ''</div>''"
    using strncmp_decides [of "''<p>''" s t] strncmp_decides [of "''<br>''" s t] strncmp_decides [of "''</div>''" s t]
    by (auto simp: NUL_def numeral_eq_Suc)
  then show ?thesis by (auto simp: breaks_line_def break_tag_def)
qed

text \<open>The loop appends the stripped text to what is in place, up to the limit.\<close>

lemma parse_loop_strips:
  assumes "raw = pre @ s @ NUL # t" "length out = MAX_PAGE_STORAGE" "length u \<le> MAX_PAGE_STORAGE - 2" "take (length u) out = u"
  shows "\<exists>out'. parse_loop raw (length s) (length pre) (length u) inside out =
      Some (length (take (MAX_PAGE_STORAGE - 2) (u @ strip_tags inside s)), out') \<and> length out' = MAX_PAGE_STORAGE \<and>
    take (length (take (MAX_PAGE_STORAGE - 2) (u @ strip_tags inside s))) out' = take (MAX_PAGE_STORAGE - 2) (u @ strip_tags inside s)"
  using assms
proof (induction s arbitrary: pre u inside out)
  case Nil
  then show ?case by simp
next
  case (Cons c s)
  show ?case
  proof (cases "length u < MAX_PAGE_STORAGE - 2")
    case False
    then show ?thesis using Cons.prems by auto
  next
    case True
    have g: "get_at raw (length pre) = Some c" "breaks_line (drop (length pre) raw) = Some (break_tag (c # s))"
      using Cons.prems(1) breaks_line_tag [of "c # s" t] by (simp_all add: get_at_def)
    have raw: "raw = (pre @ [c]) @ s @ NUL # t" using Cons.prems(1) by simp
    note skip = Cons.IH [OF raw Cons.prems(2-4)]
    have l: "length u < length out" using True Cons.prems(2) by (simp add: sizes)
    have "take (length (u @ [d])) (out[length u := d]) = u @ [d]" for d
      using l Cons.prems(4) by (simp add: take_Suc_conv_app_nth)
    then have app: "\<exists>out'. parse_loop raw (length s) (length (pre @ [c])) (length (u @ [d])) ins (out[length u := d]) =
        Some (length (take (MAX_PAGE_STORAGE - 2) ((u @ [d]) @ strip_tags ins s)), out') \<and> length out' = MAX_PAGE_STORAGE \<and>
      take (length (take (MAX_PAGE_STORAGE - 2) ((u @ [d]) @ strip_tags ins s))) out' = take (MAX_PAGE_STORAGE - 2) ((u @ [d]) @ strip_tags ins s)"
      for d ins using Cons.IH [OF raw, of "out[length u := d]" "u @ [d]"] True Cons.prems(2) by simp
    consider (tag) "c = CHR ''<''" "break_tag (c # s)" | (tag') "c = CHR ''<''" "\<not> break_tag (c # s)" | (close) "c = CHR ''>''"
      | (inner) "c \<noteq> CHR ''<''" "c \<noteq> CHR ''>''" "inside" | (char) "c \<noteq> CHR ''<''" "c \<noteq> CHR ''>''" "\<not> inside" by blast
    then show ?thesis
    proof cases
      case tag
      then show ?thesis using g True l app [of "CHR 0x0A" True] by simp
    next
      case tag'
      then show ?thesis using g True skip [of True] by simp
    next
      case close
      then show ?thesis using g True skip [of False] by simp
    next
      case inner
      then show ?thesis using g True skip [of inside] by simp
    next
      case char
      then show ?thesis using g True l app [of c inside] by simp
    qed
  qed
qed

lemma strip_no_NUL: "NUL \<notin> set s \<Longrightarrow> NUL \<notin> set (strip_tags inside s)"
  by (induction inside s rule: strip_tags.induct) (auto simp: NUL_def)

lemma parse_ok:
  assumes "browser_ok b"
  shows "\<exists>b' t. naobrowse_render_engine_parse b = Some b' \<and> browser_ok b' \<and>
    rendered_text b' = take (MAX_PAGE_STORAGE - 2) (strip_tags False (take (content_len b) (raw_html_buffer b))) @ NUL # t"
proof -
  obtain b1 where b1: "naobrowse_log ''Parser engine triggered: Stripping tags...'' b = Some b1" "browser_ok b1"
      "raw_html_buffer b1 = raw_html_buffer b" "content_len b1 = content_len b"
    using naobrowse_log_keeps [OF assms] by blast
  let ?s = "take (content_len b) (raw_html_buffer b)"
  let ?r = "take (MAX_PAGE_STORAGE - 2) (strip_tags False ?s)"
  have c: "content_len b < length (raw_html_buffer b)" "raw_html_buffer b ! content_len b = NUL"
    using assms by (auto simp: browser_ok_def)
  then have raw: "raw_html_buffer b = [] @ ?s @ NUL # drop (Suc (content_len b)) (raw_html_buffer b)"
    using id_take_nth_drop [OF c(1)] by simp
  obtain out where out: "parse_loop (raw_html_buffer b) (content_len b) 0 0 False (replicate MAX_PAGE_STORAGE NUL) = Some (length ?r, out)"
      "length out = MAX_PAGE_STORAGE" "take (length ?r) out = ?r"
    using parse_loop_strips [OF raw, of "replicate MAX_PAGE_STORAGE NUL" "[]" False] c(1) by auto
  have l: "length ?r < length out" using out(2) by (simp add: sizes)
  let ?b = "b1\<lparr>rendered_text := out[length ?r := NUL]\<rparr>"
  have "browser_ok ?b" using b1(2) out(2) by (simp add: browser_ok_def)
  then obtain b' where b': "naobrowse_log ''Parser finished preparing text layer structure.'' ?b = Some b'" "browser_ok b'"
      "rendered_text b' = out[length ?r := NUL]"
    using naobrowse_log_keeps [of ?b] by (metis naobrowse_browser.select_convs(4) naobrowse_browser.update_convs(4) naobrowse_browser.surjective)
  moreover have "out[length ?r := NUL] = ?r @ NUL # drop (Suc (length ?r)) out" using l out(3) by (simp add: upd_conv_take_nth_drop)
  ultimately show ?thesis using b1 out(1) l by (simp add: naobrowse_render_engine_parse_def)
qed

lemma NUL_int_text: "NUL \<notin> set (int_text i)"
  using NUL_notin_dec by (auto simp: int_text_def dec_int_def NUL_def)

lemma NUL_unsigned_text: "NUL \<notin> set (unsigned_text i)"
  using NUL_notin_dec by (auto simp: unsigned_text_def Let_def)

section \<open>Every operation keeps the invariant\<close>

definition stack_ok :: "(nat \<Rightarrow> char list) \<Rightarrow> bool" where
  "stack_ok stk \<longleftrightarrow> (\<forall>n. length (stk n) = n)"

lemma log_int:
  assumes "browser_ok b" "stack_ok stk" "0 < n" "int32_args args"
    and "mini_text fmt args = Some t" "NUL \<notin> set t"
  obtains b' where "log_formatted stk n fmt args b = Some b'" "browser_ok b'" "url_input b' = url_input b"
    "current_url b' = current_url b" "rendered_text b' = rendered_text b" "raw_html_buffer b' = raw_html_buffer b"
    "content_len b' = content_len b" "history b' = history b" "history_count b' = history_count b"
    "current_history_idx b' = current_history_idx b" "is_loading b' = is_loading b"
  using log_formatted_keeps [OF assms(1,5,4,6,3), of stk] assms(2) by (auto simp: stack_ok_def)

lemma body_cb_ok:
  assumes "browser_ok b" "stack_ok stk" "length chunk < 65536"
  shows "\<exists>b'. naobrowse_http_body_cb stk (Some chunk) b = Some b' \<and> browser_ok b' \<and>
    (content_len b + length chunk < MAX_PAGE_STORAGE - 1 \<longrightarrow> content_len b' = content_len b + length chunk \<and>
      take (content_len b') (raw_html_buffer b') = take (content_len b) (raw_html_buffer b) @ chunk)"
proof -
  have t: "mini_text ''lwIP Body CB: Received chunk segment of %d bytes'' [VInt (int (length chunk))] =
      Some (''lwIP Body CB: Received chunk segment of '' @ int_text (int (length chunk)) @ '' bytes'')" by simp
  obtain b1 where b1: "log_formatted stk 64 ''lwIP Body CB: Received chunk segment of %d bytes'' [VInt (int (length chunk))] b = Some b1"
      "browser_ok b1" "raw_html_buffer b1 = raw_html_buffer b" "content_len b1 = content_len b"
    using log_int [OF assms(1,2) _ _ t, of 64] assms(3) NUL_int_text by (auto simp: int32_args_def NUL_def)
  show ?thesis
  proof (cases "content_len b + length chunk < MAX_PAGE_STORAGE - 1")
    case True
    let ?n = "content_len b + length chunk" and ?x = "take (content_len b) (raw_html_buffer b) @ chunk"
    have l: "length (raw_html_buffer b) = MAX_PAGE_STORAGE" using assms(1) by (simp add: browser_ok_def)
    have x: "length ?x = ?n" "?n < MAX_PAGE_STORAGE" using l True by (simp_all add: sizes)
    let ?raw = "(take (content_len b) (raw_html_buffer b) @ chunk @ drop ?n (raw_html_buffer b))[?n := NUL]"
    have r: "length ?raw = MAX_PAGE_STORAGE" "?raw ! ?n = NUL" "take ?n ?raw = ?x" using x l by (simp_all add: nth_append)
    have "naobrowse_http_body_cb stk (Some chunk) b = Some (b1\<lparr>raw_html_buffer := ?raw, content_len := ?n\<rparr>)"
      using b1 True l x by (simp add: naobrowse_http_body_cb_def)
    moreover have "browser_ok (b1\<lparr>raw_html_buffer := ?raw, content_len := ?n\<rparr>)"
      using b1(2) r True by (simp add: browser_ok_def)
    ultimately show ?thesis using r(3) by simp
  next
    case False
    then show ?thesis using b1 naobrowse_log_keeps [OF b1(2)] by (auto simp: naobrowse_http_body_cb_def)
  qed
qed

definition int32 :: "int \<Rightarrow> bool" where
  "int32 i \<longleftrightarrow> - 2147483648 \<le> i \<and> i < 2147483648"

lemma show_text:
  assumes "browser_ok b" "NUL \<notin> set s" "length s < MAX_PAGE_STORAGE"
  shows "\<exists>t. strcpy (rendered_text b) (s @ [NUL]) = Some t \<and> length t = MAX_PAGE_STORAGE"
  using strcpy_string [OF assms(2), of "rendered_text b" "[]"] assms(1,3) by (simp add: browser_ok_def)

lemma result_cb_ok:
  assumes "browser_ok b" "stack_ok stk" "int32 r" "int32 rx" "int32 err"
  shows "\<exists>b'. naobrowse_http_result_cb stk r rx err b = Some b' \<and> browser_ok b' \<and> \<not> is_loading b' \<and>
    (r = 0 \<longrightarrow> (\<exists>t. rendered_text b' =
      take (MAX_PAGE_STORAGE - 2) (strip_tags False (take (content_len b) (raw_html_buffer b))) @ NUL # t))"
proof -
  obtain b1 where b1: "naobrowse_log ''lwIP Callback Alert: TCP Handshake cycle complete!'' b = Some b1" "browser_ok b1"
      "raw_html_buffer b1 = raw_html_buffer b" "content_len b1 = content_len b"
    using naobrowse_log_keeps [OF assms(1)] by blast
  have fin: "browser_ok (x\<lparr>is_loading := False\<rparr>)" if "browser_ok x" for x :: "'a naobrowse_browser"
    using that by (simp add: browser_ok_def)
  show ?thesis
  proof (cases "r = 0")
    case True
    have t: "mini_text ''SUCCESS! Received HTTP 200/OK. Transferred: %u bytes'' [VInt rx] =
        Some (''SUCCESS! Received HTTP 200/OK. Transferred: '' @ unsigned_text rx @ '' bytes'')" by simp
    obtain b2 where b2: "log_formatted stk 96 ''SUCCESS! Received HTTP 200/OK. Transferred: %u bytes'' [VInt rx] b1 = Some b2"
        "browser_ok b2" "raw_html_buffer b2 = raw_html_buffer b1" "content_len b2 = content_len b1"
      using log_int [OF b1(2) assms(2) _ _ t, of 96] assms(4) NUL_unsigned_text by (auto simp: int32_args_def int32_def NUL_def)
    obtain b3 t where "naobrowse_render_engine_parse b2 = Some b3" "browser_ok b3"
        "rendered_text b3 = take (MAX_PAGE_STORAGE - 2) (strip_tags False (take (content_len b) (raw_html_buffer b))) @ NUL # t"
      using parse_ok [OF b2(2)] b1 b2 by auto
    then show ?thesis using True b1(1) b2(1) fin by (simp add: naobrowse_http_result_cb_def)
  next
    case False
    let ?m = "''Error: Could not reach target web host.''"
    have t: "mini_text ''FAIL: HTTP Connection Refused. Result: %d, lwIP Error: %d'' [VInt r, VInt err] =
        Some (''FAIL: HTTP Connection Refused. Result: '' @ int_text r @ '', lwIP Error: '' @ int_text err)" by simp
    obtain b2 where b2: "log_formatted stk 96 ''FAIL: HTTP Connection Refused. Result: %d, lwIP Error: %d'' [VInt r, VInt err] b1 = Some b2"
        "browser_ok b2"
      using log_int [OF b1(2) assms(2) _ _ t, of 96] assms(3,5) NUL_int_text by (auto simp: int32_args_def int32_def NUL_def)
    obtain x where x: "strcpy (rendered_text b2) (?m @ [NUL]) = Some x" "length x = MAX_PAGE_STORAGE"
      using show_text [OF b2(2), of ?m] by (auto simp: NUL_def sizes)
    have "browser_ok (b2\<lparr>rendered_text := x\<rparr>)" using b2(2) x(2) by (simp add: browser_ok_def)
    then show ?thesis using False b1(1) b2(1) x(1) fin by (simp add: naobrowse_http_result_cb_def)
  qed
qed

lemma save_history_ok:
  assumes "browser_ok b" "NUL \<notin> set url" "length url < 128"
  shows "\<exists>b'. save_history url b = Some b' \<and> browser_ok b'"
proof -
  obtain b1 where b1: "naobrowse_log ''Saving URL endpoint trace to history backstack...'' b = Some b1" "browser_ok b1"
    using naobrowse_log_keeps [OF assms(1)] by blast
  define b2 where "b2 = (if current_history_idx b1 < history_count b1 - 1 then b1\<lparr>history_count := current_history_idx b1 + 1\<rparr> else b1)"
  have b2: "browser_ok b2" using b1(2) by (auto simp: b2_def browser_ok_def)
  show ?thesis
  proof (cases "history_count b2 < HISTORY_DEPTH")
    case True
    let ?n = "nat (history_count b2)"
    have n: "?n < length (history b2)" "\<not> history_count b2 < 0" using b2 True by (auto simp: browser_ok_def sizes)
    then have h: "text_buffer 128 (history b2 ! ?n)" using b2 by (simp add: browser_ok_def)
    let ?slot = "url @ NUL # drop (Suc (length url)) (history b2 ! ?n)"
    have "strcpy (history b2 ! ?n) (url @ [NUL]) = Some ?slot"
      using strcpy_string [OF assms(2), of "history b2 ! ?n" "[]"] h assms(3) by (simp add: text_buffer_def)
    moreover have "browser_ok (b2\<lparr>history := (history b2)[?n := ?slot], current_history_idx := history_count b2,
        history_count := history_count b2 + 1\<rparr>)"
      using b2 True text_buffer_copy [OF h assms(3)]
      by (auto simp: browser_ok_def sizes dest!: set_update_subset_insert [THEN subsetD])
    ultimately show ?thesis using b1(1) n True by (simp add: save_history_def b2_def [symmetric] Let_def)
  next
    case False
    then show ?thesis using b1(1) b2 by (simp add: save_history_def b2_def [symmetric] Let_def)
  qed
qed

lemma dispatch_result_ok:
  assumes "browser_ok b" "stack_ok stk" "int32 e"
  shows "\<exists>b'. dispatch_result stk e b = Some b' \<and> browser_ok b'"
proof (cases "e = 0")
  case True
  then show ?thesis using naobrowse_log_keeps [OF assms(1)] by (fastforce simp: dispatch_result_def)
next
  case False
  let ?m = "''NETWORK ROUTING DISPATCH FAILURE: Unreachable Gateway''"
  have t: "mini_text ''lwIP Immediate Error: Request could not be queued. Code: %d'' [VInt e] =
      Some (''lwIP Immediate Error: Request could not be queued. Code: '' @ int_text e)" by simp
  obtain b1 where b1: "log_formatted stk 64 ''lwIP Immediate Error: Request could not be queued. Code: %d'' [VInt e] b = Some b1" "browser_ok b1"
    using log_int [OF assms(1,2) _ _ t, of 64] assms(3) NUL_int_text by (auto simp: int32_args_def int32_def NUL_def)
  obtain x where x: "strcpy (rendered_text b1) (?m @ [NUL]) = Some x" "length x = MAX_PAGE_STORAGE"
    using show_text [OF b1(2), of ?m] by (auto simp: NUL_def sizes)
  have "browser_ok (b1\<lparr>is_loading := False, rendered_text := x\<rparr>)" using b1(2) x(2) by (simp add: browser_ok_def)
  then show ?thesis using False b1(1) x(1) by (simp add: dispatch_result_def)
qed

lemma navigate_ok:
  assumes "browser_ok b" "stack_ok stk" "\<forall>n. int32 (fst (get_file n))" "NUL \<notin> set url" "length url < 128"
  shows "\<exists>b'. naobrowse_navigate_to get_file stk url save b = Some b' \<and> browser_ok b'"
proof -
  let ?f = "''Dispatcher action: routing request path to: '' @ [CHR 0x27] @ ''%s'' @ [CHR 0x27]"
  have t: "mini_text ?f [VStr url] = Some (''Dispatcher action: routing request path to: '' @ [CHR 0x27] @ url @ [CHR 0x27])" by simp
  obtain b1 where b1: "log_formatted stk 128 ?f [VStr url] b = Some b1" "browser_ok b1"
    using log_int [OF assms(1,2) _ _ t, of 128] assms(4) by (auto simp: int32_args_def NUL_def)
  define b2 where "b2 = b1\<lparr>is_loading := True, content_len := 0, raw_html_buffer := replicate MAX_PAGE_STORAGE NUL\<rparr>"
  have b2: "browser_ok b2" using b1(2) by (simp add: b2_def browser_ok_def sizes)
  let ?u = "url @ NUL # drop (Suc (length url)) (current_url b2)"
  have u: "strcpy (current_url b2) (url @ [NUL]) = Some ?u" "length ?u = 128"
    using strcpy_string [OF assms(4), of "current_url b2" "[]"] b2 assms(5) by (simp_all add: browser_ok_def)
  have "browser_ok (b2\<lparr>current_url := ?u\<rparr>)" using b2 u(2) by (simp add: browser_ok_def)
  then obtain b3 where b3: "(if save then save_history url (b2\<lparr>current_url := ?u\<rparr>) else Some (b2\<lparr>current_url := ?u\<rparr>)) = Some b3" "browser_ok b3"
    using save_history_ok [OF _ assms(4,5)] by (cases save) auto
  obtain b4 where b4: "naobrowse_log ''Binding internal routing table target to QEMU Gateway IP: 10.0.2.2'' b3 = Some b4" "browser_ok b4"
    using naobrowse_log_keeps [OF b3(2)] by blast
  obtain b5 where b5: "naobrowse_log ''Invoking asynchronous lwIP network socket routine: httpc_get_file()...'' b4 = Some b5" "browser_ok b5"
    using naobrowse_log_keeps [OF b4(2)] by blast
  obtain e n where g: "get_file (net b5) = (e, n)" by fastforce
  have b6: "browser_ok (b5\<lparr>net := n\<rparr>)" using b5(2) by (simp add: browser_ok_def)
  have "\<exists>b'. dispatch_result stk e (b5\<lparr>net := n\<rparr>) = Some b' \<and> browser_ok b'"
    using dispatch_result_ok [OF b6 assms(2), of e] assms(3) g by (metis fst_conv)
  then show ?thesis using b1(1) u(1) b3(1) b4(1) b5(1) g unfolding b2_def
    by (auto simp: naobrowse_navigate_to_def Let_def)
qed

lemma navigate_reset: "naobrowse_navigate_to get_file stk url save (b\<lparr>is_loading := l, content_len := n\<rparr>) =
    naobrowse_navigate_to get_file stk url save b"
proof -
  have "naobrowse_log msg (b\<lparr>is_loading := l, content_len := n\<rparr>) =
      map_option (\<lambda>b. b\<lparr>is_loading := l, content_len := n\<rparr>) (naobrowse_log msg b)" for msg
    by (simp add: naobrowse_log_def Let_def map_option_bind option.map_comp split: bind_split)
  then show ?thesis
    by (simp add: naobrowse_navigate_to_def log_formatted_def Let_def split: bind_split)
qed

lemma navigate_reset_ok:
  assumes "browser_ok b" "stack_ok stk" "\<forall>n. int32 (fst (get_file n))" "NUL \<notin> set url" "length url < 128"
  shows "\<exists>b'. naobrowse_navigate_to get_file stk url save (b\<lparr>is_loading := l, content_len := n\<rparr>) = Some b' \<and> browser_ok b'"
  using navigate_ok [OF assms] by (simp add: navigate_reset)

lemma history_step_ok:
  assumes "browser_ok b" "stack_ok stk" "\<forall>n. int32 (fst (get_file n))"
    and "0 \<le> current_history_idx b + d" "current_history_idx b + d < history_count b"
  shows "\<exists>b'. history_step get_file stk msg d b = Some b' \<and> browser_ok b'"
proof -
  obtain b1 where b1: "naobrowse_log msg b = Some b1" "browser_ok b1" "history b1 = history b" "url_input b1 = url_input b"
      "current_history_idx b1 = current_history_idx b" "history_count b1 = history_count b"
    using naobrowse_log_keeps [OF assms(1)] by blast
  let ?i = "current_history_idx b + d"
  have i: "nat ?i < length (history b)" using assms(1,4,5) by (auto simp: browser_ok_def)
  then have "text_buffer 128 (history b ! nat ?i)" using assms(1) by (simp add: browser_ok_def)
  then obtain s t where s: "history b ! nat ?i = s @ NUL # t" "NUL \<notin> set s" "length s < 128" using text_buffer_string by blast
  let ?u = "s @ NUL # drop (Suc (length s)) (url_input b)"
  have tb: "text_buffer 128 (url_input b)" using assms(1) by (simp add: browser_ok_def)
  then have u: "strcpy (url_input b) (history b ! nat ?i) = Some ?u" "text_buffer 128 ?u"
    using strcpy_string [OF s(2), of "url_input b" t] s(1,3) text_buffer_copy [OF tb s(3)] by (simp_all add: text_buffer_def)
  have "browser_ok (b1\<lparr>current_history_idx := ?i, url_input := ?u\<rparr>)" using b1(2,6) u(2) assms(4,5) by (simp add: browser_ok_def)
  then show ?thesis
    using navigate_ok [OF _ assms(2,3) s(2,3), of "b1\<lparr>current_history_idx := ?i, url_input := ?u\<rparr>" False] b1 i u(1) assms(4) cstr_append [OF s(2)]
    by (simp add: history_step_def Let_def)
qed

text \<open>What the browser relies on in a frame: disabled buttons do not fire, and the field keeps to its 127 bytes.\<close>

definition frame_ok :: "(bool \<Rightarrow> string \<Rightarrow> bool) \<Rightarrow> (string \<Rightarrow> string) \<Rightarrow> bool" where
  "frame_ok press edit \<longleftrightarrow> (\<forall>l. \<not> press False l) \<and> (\<forall>s. length (edit s) < 127 \<and> NUL \<notin> set (edit s))"

lemma history_button_ok:
  assumes "browser_ok b" "stack_ok stk" "\<forall>n. int32 (fst (get_file n))"
    and "p \<longrightarrow> 0 \<le> current_history_idx b + d \<and> current_history_idx b + d < history_count b"
  shows "\<exists>b'. (if p then history_step get_file stk msg d b else Some b) = Some b' \<and> browser_ok b'"
  using history_step_ok [OF assms(1-3)] assms(1,4) by (cases p) auto

lemma browser_ok_index: "browser_ok b \<Longrightarrow> - 1 \<le> current_history_idx b \<and> current_history_idx b < history_count b"
  by (simp add: browser_ok_def)

lemma render_ok:
  assumes "browser_ok b" "stack_ok stk" "\<forall>n. int32 (fst (get_file n))" "frame_ok press edit"
  shows "\<exists>b'. render_naobrowse get_file stk shown press edit b = Some b' \<and> browser_ok b'"
proof (cases "is_active b \<and> shown")
  case False
  then show ?thesis using assms(1) by (auto simp: render_naobrowse_def)
next
  case True
  have dis: "press x l \<Longrightarrow> x" for x l using assms(4) by (cases x) (simp_all add: frame_ok_def)
  obtain b1 where b1: "(if press (current_history_idx b > 0) ''<<''
      then history_step get_file stk ''UI Control Action: Back Button Clicked.'' (- 1) b else Some b) = Some b1" "browser_ok b1"
    using history_button_ok [OF assms(1-3), of "press (current_history_idx b > 0) ''<<''" "- 1"] dis browser_ok_index [OF assms(1)] by fastforce
  obtain b2 where b2: "(if press (current_history_idx b1 < history_count b1 - 1) ''>>''
      then history_step get_file stk ''UI Control Action: Forward Button Clicked.'' 1 b1 else Some b1) = Some b2" "browser_ok b2"
    using history_button_ok [OF b1(2) assms(2,3), of "press (current_history_idx b1 < history_count b1 - 1) ''>>''" 1]
      dis browser_ok_index [OF b1(2)] by fastforce
  have tb: "text_buffer 128 (url_input b2)" using b2(2) by (simp add: browser_ok_def)
  obtain s where s: "cstr (url_input b2) = Some s" using text_buffer_string [OF tb] by blast
  let ?u = "edit s @ NUL # drop (length (edit s) + 1) (url_input b2)"
  have e: "length (edit s) < 127" "NUL \<notin> set (edit s)" using assms(4) by (auto simp: frame_ok_def)
  have "text_buffer 128 ?u" using text_buffer_copy [OF tb, of "edit s"] e(1) by simp
  then have b3: "browser_ok (b2\<lparr>url_input := ?u\<rparr>)" using b2(2) by (simp add: browser_ok_def)
  obtain b4 where b4: "naobrowse_log (''UI Control Action: '' @ [CHR 0x27] @ ''Go'' @ [CHR 0x27] @ '' Button Clicked.'') (b2\<lparr>url_input := ?u\<rparr>) = Some b4"
      "browser_ok b4" "url_input b4 = ?u"
    using naobrowse_log_keeps [OF b3] by fastforce
  obtain b5 where b5: "naobrowse_navigate_to get_file stk (edit s) True (b4\<lparr>is_loading := True, content_len := 0\<rparr>) = Some b5" "browser_ok b5"
    using navigate_reset_ok [OF b4(2) assms(2,3) e(2), where save = True and l = True and n = 0] e(1) by auto
  have "length (edit s) < length (url_input b2)" using tb e(1) by (simp add: text_buffer_def)
  moreover have "cstr ?u = Some (edit s)" using cstr_append [OF e(2)] by simp
  ultimately show ?thesis using True b1(1) b2(1) s b3 b4(1,3) b5 unfolding render_naobrowse_def
    by (simp only: Let_def if_True if_False bind.bind_lunit not_True_eq_False simp_thms) (auto simp: Let_def)
qed

section \<open>Main properties\<close>

datatype browse_event =
  Frame bool "bool \<Rightarrow> string \<Rightarrow> bool" "string \<Rightarrow> string"
| Body "char list option"
| Result int int int

fun browse_step :: "('n \<Rightarrow> int \<times> 'n) \<Rightarrow> (nat \<Rightarrow> char list) \<Rightarrow> browse_event \<Rightarrow> 'n naobrowse_browser \<Rightarrow> 'n naobrowse_browser option" where
  "browse_step get_file stk (Frame shown press edit) b = render_naobrowse get_file stk shown press edit b"
| "browse_step get_file stk (Body p) b = naobrowse_http_body_cb stk p b"
| "browse_step get_file stk (Result r rx err) b = naobrowse_http_result_cb stk r rx err b"

fun event_in_range :: "browse_event \<Rightarrow> bool" where
  "event_in_range (Frame shown press edit) \<longleftrightarrow> frame_ok press edit"
| "event_in_range (Body p) \<longleftrightarrow> (case p of None \<Rightarrow> True | Some chunk \<Rightarrow> length chunk < 65536)"
| "event_in_range (Result r rx err) \<longleftrightarrow> int32 r \<and> int32 rx \<and> int32 err"

lemma init_ok: "\<exists>b. init_naobrowse n = Some b \<and> browser_ok b"
proof -
  let ?w = "''Welcome to NaoBrowse!'' @ [CHR 0x0A] @ ''Type an IP Address above to search the web layout network paths.''"
  have w: "NUL \<notin> set ?w" "length ?w < MAX_PAGE_STORAGE" by (simp_all add: NUL_def sizes)
  have t: "strcpy (replicate MAX_PAGE_STORAGE NUL) (?w @ [NUL]) = Some (?w @ NUL # drop (Suc (length ?w)) (replicate MAX_PAGE_STORAGE NUL))"
    by (rule strcpy_string) (use w in simp_all)
  have u: "strcpy (replicate 128 NUL) (''10.0.2.2'' @ [NUL]) = Some (''10.0.2.2'' @ NUL # drop 9 (replicate 128 NUL))"
    using strcpy_string [of "''10.0.2.2''" "replicate 128 NUL" "[]"] by (simp add: NUL_def)
  define b where "b = \<lparr>url_input = ''10.0.2.2'' @ NUL # drop 9 (replicate 128 NUL), current_url = replicate 128 NUL,
      raw_html_buffer = replicate MAX_PAGE_STORAGE NUL,
      rendered_text = ?w @ NUL # drop (Suc (length ?w)) (replicate MAX_PAGE_STORAGE NUL), content_len = 0,
      history = replicate 10 (replicate 128 NUL), history_count = 0, current_history_idx = - 1, is_loading = False, is_active = True,
      debug_console = replicate DEBUG_LINE_COUNT (replicate DEBUG_LINE_LEN NUL), debug_write_ptr = 0, net = n\<rparr>"
  have "browser_ok b"
    unfolding b_def browser_ok_def text_buffer_def console_ok_def sizes by simp
  then obtain b1 where b1: "naobrowse_log ''NaoBrowse Subsystem initialized successfully.'' b = Some b1" "browser_ok b1"
    using naobrowse_log_keeps by blast
  obtain b2 where b2: "naobrowse_log ''Awaiting user entry interaction loop...'' b1 = Some b2" "browser_ok b2"
    using naobrowse_log_keeps [OF b1(2)] by blast
  have "init_naobrowse n = Some b2" using t u b1(1) b2(1) unfolding init_naobrowse_def b_def append_assoc by simp
  then show ?thesis using b2(2) by blast
qed

lemma browse_step_ok:
  assumes "browser_ok b" "stack_ok stk" "\<forall>n. int32 (fst (get_file n))" "event_in_range e"
  shows "\<exists>b'. browse_step get_file stk e b = Some b' \<and> browser_ok b'"
proof (cases e)
  case (Frame shown press edit)
  then show ?thesis using render_ok [OF assms(1-3)] assms(4) by simp
next
  case (Body p)
  then show ?thesis using body_cb_ok [OF assms(1,2)] assms(1,4) by (cases p) (auto simp: naobrowse_http_body_cb_def)
next
  case (Result r rx err)
  then show ?thesis using result_cb_ok [OF assms(1,2)] assms(4) by fastforce
qed

text \<open>C40. From its initialisation on, whatever frames, page chunks and results arrive in whatever order, every
  routine of the browser returns without an access outside its buffers, and the history, the log and the page
  stay within their limits.\<close>

theorem browser_session_safe:
  assumes "stack_ok stk" and "\<forall>n. int32 (fst (get_file n))" and "\<forall>e \<in> set es. event_in_range e"
  shows "\<exists>b b'. init_naobrowse n = Some b \<and> for_list es (browse_step get_file stk) b = Some b' \<and> browser_ok b'"
proof -
  obtain b where b: "init_naobrowse n = Some b" "browser_ok b" using init_ok [of n] by (elim exE conjE)
  have step: "\<exists>b'. browse_step get_file stk e b = Some b' \<and> browser_ok b'" if "e \<in> set es" "browser_ok b" for e b
    using browse_step_ok [OF that(2) assms(1,2) bspec [OF assms(3) that(1)]] .
  have "\<exists>b'. for_list es (browse_step get_file stk) b = Some b' \<and> browser_ok b'"
    by (rule for_list_total [where P = browser_ok, OF step b(2)])
  then obtain b' where "for_list es (browse_step get_file stk) b = Some b'" "browser_ok b'" by (elim exE conjE)
  then show ?thesis using b(1) by (intro exI [of _ b] exI [of _ b']) (intro conjI)
qed

theorem browser_session_safe_witness:
  "\<exists>b b'. init_naobrowse () = Some b \<and>
    for_list [Frame True (\<lambda>x l. x \<and> l = ''Go'') (\<lambda>_. ''10.0.2.2''), Body (Some ''<p>Hi''), Result 0 6 0]
      (browse_step (\<lambda>n. (0, n)) (\<lambda>n. replicate n CHR ''x'')) b = Some b' \<and> browser_ok b'"
  using browser_session_safe [of "\<lambda>n. replicate n CHR ''x''" "\<lambda>n. (0, n)"
      "[Frame True (\<lambda>x l. x \<and> l = ''Go'') (\<lambda>_. ''10.0.2.2''), Body (Some ''<p>Hi''), Result 0 6 0]" "()"]
  by (simp add: stack_ok_def int32_def frame_ok_def NUL_def)

lemma chunks_collected:
  assumes "stack_ok stk" "browser_ok b" "content_len b + length (concat cs) < MAX_PAGE_STORAGE - 1"
  shows "\<exists>b'. for_list cs (\<lambda>c. naobrowse_http_body_cb stk (Some c)) b = Some b' \<and> browser_ok b' \<and>
    take (content_len b') (raw_html_buffer b') = take (content_len b) (raw_html_buffer b) @ concat cs"
  using assms(2,3)
proof (induction cs arbitrary: b)
  case (Cons c cs)
  have "length c < 65536" "content_len b + length c < MAX_PAGE_STORAGE - 1" using Cons.prems(2) by (simp_all add: sizes)
  then obtain b1 where "naobrowse_http_body_cb stk (Some c) b = Some b1" "browser_ok b1" "content_len b1 = content_len b + length c"
      "take (content_len b1) (raw_html_buffer b1) = take (content_len b) (raw_html_buffer b) @ c"
    using body_cb_ok [OF Cons.prems(1) assms(1), of c] by auto
  then show ?case using Cons.IH [of b1] Cons.prems(2) by auto
qed simp

text \<open>A page that arrives in pieces and fits the buffer is shown with its tags stripped: after the pieces and a
  successful result, the text shown is the stripped page, cut to the size of the text buffer, and the browser
  is no longer loading.\<close>

theorem page_displayed:
  assumes "stack_ok stk" and "browser_ok b" and "content_len b = 0" and "length (concat cs) < MAX_PAGE_STORAGE - 1"
    and "NUL \<notin> set (concat cs)" and "int32 rx" and "int32 err"
  shows "\<exists>b1 b2. for_list cs (\<lambda>c. naobrowse_http_body_cb stk (Some c)) b = Some b1 \<and>
    naobrowse_http_result_cb stk 0 rx err b1 = Some b2 \<and> \<not> is_loading b2 \<and>
    cstr (rendered_text b2) = Some (take (MAX_PAGE_STORAGE - 2) (strip_tags False (concat cs)))"
proof -
  obtain b1 where b1: "for_list cs (\<lambda>c. naobrowse_http_body_cb stk (Some c)) b = Some b1" "browser_ok b1"
      "take (content_len b1) (raw_html_buffer b1) = concat cs"
    using chunks_collected [OF assms(1,2), of cs] assms(3,4) by auto
  obtain b2 t where b2: "naobrowse_http_result_cb stk 0 rx err b1 = Some b2" "\<not> is_loading b2"
      "rendered_text b2 = take (MAX_PAGE_STORAGE - 2) (strip_tags False (concat cs)) @ NUL # t"
    using result_cb_ok [OF b1(2) assms(1) _ assms(6,7), of 0] b1(3) by (auto simp: int32_def)
  have "NUL \<notin> set (take (MAX_PAGE_STORAGE - 2) (strip_tags False (concat cs)))"
    using strip_no_NUL [OF assms(5)] by (meson in_set_takeD)
  then show ?thesis using b1(1) b2 cstr_append by metis
qed

definition blank_browser :: "unit naobrowse_browser" where
  "blank_browser = \<lparr>url_input = replicate 128 NUL, current_url = replicate 128 NUL,
    raw_html_buffer = replicate MAX_PAGE_STORAGE NUL, rendered_text = replicate MAX_PAGE_STORAGE NUL, content_len = 0,
    history = replicate 10 (replicate 128 NUL), history_count = 0, current_history_idx = - 1, is_loading = True, is_active = True,
    debug_console = replicate DEBUG_LINE_COUNT (replicate DEBUG_LINE_LEN NUL), debug_write_ptr = 0, net = ()\<rparr>"

theorem page_displayed_witness:
  "\<exists>b1 b2. for_list [''<b>Hi'', ''</b><br>x''] (\<lambda>c. naobrowse_http_body_cb (\<lambda>n. replicate n CHR ''x'') (Some c)) blank_browser = Some b1 \<and>
    naobrowse_http_result_cb (\<lambda>n. replicate n CHR ''x'') 0 14 0 b1 = Some b2 \<and> \<not> is_loading b2 \<and>
    cstr (rendered_text b2) = Some (''Hi'' @ [CHR 0x0A] @ ''x'')"
proof -
  have "browser_ok blank_browser"
    unfolding blank_browser_def browser_ok_def text_buffer_def console_ok_def sizes by simp
  moreover have "content_len blank_browser = 0" by (simp add: blank_browser_def)
  moreover have "stack_ok (\<lambda>n. replicate n CHR ''x'')" by (simp add: stack_ok_def)
  moreover have t: "take (MAX_PAGE_STORAGE - 2) (strip_tags False (concat [''<b>Hi'', ''</b><br>x''])) = ''Hi'' @ [CHR 0x0A] @ ''x''"
    by (simp add: break_tag_def sizes)
  ultimately have "\<exists>b1 b2. for_list [''<b>Hi'', ''</b><br>x''] (\<lambda>c. naobrowse_http_body_cb (\<lambda>n. replicate n CHR ''x'') (Some c)) blank_browser = Some b1 \<and>
      naobrowse_http_result_cb (\<lambda>n. replicate n CHR ''x'') 0 14 0 b1 = Some b2 \<and> \<not> is_loading b2 \<and>
      cstr (rendered_text b2) = Some (take (MAX_PAGE_STORAGE - 2) (strip_tags False (concat [''<b>Hi'', ''</b><br>x''])))"
    by (intro page_displayed) (simp_all add: int32_def sizes NUL_def)
  then show ?thesis unfolding t .
qed

end
