(* ===== verification/Spec2Isabelle.thy ===== *)
theory Spec2Isabelle
  imports Memory_Manager Serial Disk Theme Gui Boot_Screen Ani Explorer Nic Naoedit Image Naoview Fat_Session Fat_Mount
    Network_Monitor Ip4_Addr Timeouts Shutdown Naobrowse
begin

text \<open>
  A verification development for the nao operating system (\<open>src/\<close>), a 32-bit kernel with a desktop
  of its own.  The kernel sets up segments and interrupts, reads keyboard and mouse through the PS/2
  interrupts, logs over the serial line, keeps its data on an ATA disk through FatFs, draws a Nuklear
  user interface into a back buffer that is copied to the screen, and talks to the network through an
  RTL8139 card and lwIP.  Each theory models one part; this root theory imports them all.

  \<^bold>\<open>Conventions.\<close>  \<open>Prelude\<close> fixes them: unsigned C types are words of their width and wrap;
  \<open>int\<close> is a HOL integer, with \<open>wrap32\<close> where the code runs into the 32-bit limit; arrays are lists,
  and every access outside one is an explicit \<^const>\<open>None\<close>; a loop that may not end is a
  \<open>partial_function\<close> whose \<^const>\<open>None\<close> also stands for not returning, and wherever a loop is
  claimed to return that is proved.  \<open>Loops\<close> adds counting loops with failing bodies, \<open>C_Text\<close> C
  strings in buffers.  What the code does not own is an argument: the I/O ports (\<open>Port_IO\<close>), the
  readings of the timer, file contents and the FatFs and Nuklear calls (\<open>Fatfs_Api\<close>), the network
  stack, floating-point rounding.  Hypotheses on such arguments state their documented behaviour and
  each is shown to hold for a concrete instance in the witness of the theorem that uses it.

  \<^bold>\<open>Kernel heap.\<close>  \<open>Memory_Manager\<close> models \<open>mm.c\<close>: block headers in an address-indexed store,
  \<open>init_mm\<close>, \<open>kmalloc\<close> (search loop, split), \<open>kfree\<close> (coalescing), the usage metrics.  The
  invariant describes the block chain as a list; allocation refines first fit and freeing refines
  coalescing on that list, live regions stay disjoint, and allocating and freeing restores the heap.
  \<open>Allocator_Spec\<close> is the contract of an allocator as a locale, interpreted on these definitions.

  \<^bold>\<open>Segments and interrupts.\<close>  \<open>Descriptor_Tables\<close> models \<open>gdt.c\<close> and the encoding of its
  entries; \<open>Interrupts\<close> models \<open>idt.c\<close>: the PIC and mouse set-up, the gates, the keyboard ring, the
  mouse packet decoder and the dispatcher with every branch.  An inductive relation describes the
  executions of the interrupt side; bounds, acknowledgements and the delivery of typed text are proved
  over it, and the ring refines the bounded queue of \<open>Queue_Spec\<close>.

  \<^bold>\<open>Drivers.\<close>  \<open>Serial\<close> (\<open>serial.c\<close>), \<open>Disk\<close> (\<open>diskio.c\<close>) and \<open>Nic\<close> (\<open>rtl8139.c\<close> and
  \<open>network/port/netif_driver.c\<close>) model the drivers over arbitrary hardware.  On a UART that drains, the
  log is sent exactly; on a drive that follows the ATA protocol, sector reads and writes return and
  are inverse; a received frame is copied exactly and the ring offset stays valid; a sent packet
  makes exactly the two register writes it needs.

  \<^bold>\<open>File system.\<close>  The lower half of FatFs (\<open>ff.c\<close>, as configured by \<open>ffconf.h\<close>: FAT only, 512-byte
  sectors, one volume) is modelled over the locale of a block device.  \<open>Fat_Window\<close> holds the sector
  window with its mirrored write-back, \<open>Fat_Table\<close> the entries of the three FAT types, \<open>Fat_Chain\<close>
  the allocation and removal of cluster chains, and \<open>Fat_Mount\<close> the search for a volume and the
  analysis of its boot sector.  \<open>Fat_Disk\<close> interprets the locale on the model of the disk driver.
  Writing and reading entries is a round trip, the two FAT copies agree after a flush, chains grow by
  a free cluster and are freed exactly, and a volume that is newly mounted has a sound geometry unless
  its FAT sizes wrap.  \<open>Fat_File\<close> translates \<open>f_read\<close> and \<open>f_write\<close> over a device that moves runs of
  sectors, a locale that extends the former and is interpreted on the driver as well, and gives an open file
  its abstract contents, a list of bytes: the sectors of its cluster chain, with the sector in its buffer taken from there.
  \<open>Fat_Read\<close> and \<open>Fat_Write\<close> show that the two calls read and replace these bytes and nothing else, with the
  invariant \<open>file_ok\<close> of an open file preserved, and \<open>Fat_Seek\<close> that \<open>f_lseek\<close> inside the file only moves
  the pointer, so that writing, going back and reading is a round trip.  \<open>Fat_Sync\<close> models \<open>f_sync\<close> and \<open>f_close\<close>
  with the directory entry: after a write and a close the device alone holds the file.  \<open>Fat_Extend\<close> adds the seek behind the end, which
  allocates clusters, and \<open>Fat_Session\<close> shows that any sequence of the four calls refines a list of bytes with a
  position and a capacity.

  \<^bold>\<open>Network.\<close>  \<open>Inet_Chksum\<close> models the checksums of lwIP (\<open>inet_chksum.c\<close>) and of \<open>kernel.c\<close>, which
  all agree with the one's complement sum of RFC 1071, however a packet is cut into buffers; \<open>Ip4_Addr\<close>
  the address tests, the parser and the printer of \<open>ip4_addr.c\<close>, which are inverse; \<open>Network_Monitor\<close> the
  ping state machine of \<open>kernel.c\<close>, whose packets are valid and whose batches are always decided.
  \<open>Timeouts\<close> models the timeouts of lwIP (\<open>timeouts.c\<close>) over the wrapping clock of the port: the cyclic timers never get
  lost, however often the main loop polls them.

  \<^bold>\<open>Libraries of the kernel.\<close>  \<open>Libc\<close> models the string, memory and formatting routines at the end
  of \<open>kernel.c\<close> and of \<open>diskio.c\<close>; \<open>Theme\<close> the colour theme (saving, the parser, applying), whose
  parser is proved to end on every file and to read back what was saved.

  \<^bold>\<open>Drawing.\<close>  \<open>Framebuffer\<close> holds \<open>putpixel\<close>, the clipped rectangle of \<open>idt.c\<close> and the raster
  lemma the drawing proofs share; \<open>Font\<close> the glyph table and \<open>draw_char\<close> (\<open>font.h\<close>); \<open>Gui\<close> the
  Nuklear backend (\<open>gui.c\<close>), which is clipped and never overshoots when it blends; \<open>Boot_Screen\<close>
  the boot animation (\<open>boot_screen.h\<close>), which ends on every advancing timer; \<open>Cursor\<close> and \<open>Ani\<close>
  the static and animated pointers (\<open>cursor_loader.c\<close>, \<open>ani_loader.c\<close>) with their file parsers;
  \<open>Image\<close> the decoder arena and the picture conversion of \<open>kernel.c\<close>, which is exact; \<open>Shutdown\<close> its shutdown
  screen, which shows the picture centred and gives its memory back.

  \<^bold>\<open>Programs.\<close>  \<open>Explorer\<close> models the file explorer (\<open>explorer.c\<close>), \<open>Naoedit\<close> the text editor
  (\<open>naoedit.c\<close>) and \<open>Naoview\<close> the image viewer (\<open>naoview.c\<close>), each with its whole frame routine as a
  function of the answers Nuklear gives in that frame.  The viewer is composed with the heap: over any
  session it holds at most one block and gives it back.  \<open>Naobrowse\<close> models the web browser
  (\<open>naobrowse.c\<close>): no session leaves its buffers, and a page that arrives is shown without its tags.

  \<^bold>\<open>Bounds.\<close>  No fuel is used.  The only numeric bounds are those of the code: buffer sizes, the
  limit of the reset wait of the network card, and the timeouts of the mouse controller.

  \<^bold>\<open>Not modelled.\<close>  The main loop of \<open>kernel.c\<close> with
  its taskbar is not modelled yet, nor are \<open>pow\<close> and \<open>ldexp\<close>,
  which compute in floating point.  Of FatFs, the directories, names, the
  opening of files, formatting and code pages (\<open>ffunicode.c\<close>) are not modelled; the programs take its calls as
  arguments.  Nuklear (\<open>nuklear.h\<close>, of which
  only the colour constructors are translated), \<open>stb_image.h\<close> and the rest of lwIP are third-party code and
  appear as arguments.  \<open>boot.asm\<close> and \<open>linker.ld\<close> are outside the C program, and
  \<open>nuklear_backend.c\<close> is not part of the build.
\<close>

end
